(* ===== verification/Prelude.thy ===== *)
theory Prelude
  imports Main "HOL-Library.Word" "HOL-Library.Multiset"
begin

text \<open>
  Shared vocabulary of the development: the machine types of the C code, the copying
  primitives of \<^verbatim>\<open><string.h>\<close> on lists, byte/word conversions, and the generic lemmas
  about them.  A buffer is the list of its cells; \<open>size_t\<close> arithmetic that the code checks
  for overflow is natural-number arithmetic reduced by \<open>sz\<close>, i.e. modulo \<open>2 ^ 64\<close>.
\<close>

unbundle bit_operations_syntax

named_theorems buf_simps \<open>rewriting of buffer operations\<close>
named_theorems ct_simps \<open>what the constant-time primitives compute\<close>

section \<open>Machine types\<close>

type_synonym u8 = "8 word"
type_synonym u16 = "16 word"
type_synonym u32 = "32 word"
type_synonym u64 = "64 word"
type_synonym bytes = "u8 list"

text \<open>\<open>size_t\<close> on the 64-bit targets of the application: values below \<open>2 ^ 64\<close>.\<close>

definition SIZE_LIMIT :: nat where
  "SIZE_LIMIT = 2 ^ 64"

definition sz :: "nat \<Rightarrow> nat" where
  "sz n = n mod SIZE_LIMIT"

definition INT_MAX :: nat where
  "INT_MAX = 2147483647"

lemma sz_id [simp]: "n < SIZE_LIMIT \<Longrightarrow> sz n = n"
  by (simp add: sz_def)

lemma sz_less [simp]: "sz n < SIZE_LIMIT"
  by (simp add: sz_def SIZE_LIMIT_def)

lemma sz_le: "sz n \<le> n"
  by (simp add: sz_def)

lemma SIZE_LIMIT_pos [simp]: "0 < SIZE_LIMIT"
  by (simp add: SIZE_LIMIT_def)

text \<open>
  The overflow test of an allocation of \<open>n\<close> cells of \<open>k\<close> bytes, as the code writes it
  (\<open>size / k != n\<close>), says exactly that the product does not wrap.
\<close>

lemma alloc_check:
  assumes "n < SIZE_LIMIT"
  shows "sz (n * 8) div 8 = n \<longleftrightarrow> n * 8 < SIZE_LIMIT"
proof
  assume a: "sz (n * 8) div 8 = n"
  have "8 * (sz (n * 8) div 8) \<le> sz (n * 8)" by simp
  also have "\<dots> < SIZE_LIMIT" by simp
  finally show "n * 8 < SIZE_LIMIT" using a by simp
qed simp

section \<open>Copying on buffers\<close>

text \<open>\<open>memcpy(&xs[off], src, n)\<close> with \<open>n = length src\<close>.\<close>

definition blit :: "'a list \<Rightarrow> nat \<Rightarrow> 'a list \<Rightarrow> 'a list" where
  "blit xs off src = take off xs @ src @ drop (off + length src) xs"

text \<open>\<open>memmove(&xs[dst], &xs[src], n)\<close>: the source is read before anything is written.\<close>

definition memmove :: "'a list \<Rightarrow> nat \<Rightarrow> nat \<Rightarrow> nat \<Rightarrow> 'a list" where
  "memmove xs dst src n = blit xs dst (take n (drop src xs))"

text \<open>
  \<open>OPENSSL_realloc\<close> of a block to \<open>n\<close> cells: the common prefix is kept.  The cells added
  at the end are uninitialised in C; they hold \<open>fill\<close> here, and no operation reads them.
\<close>

definition realloc_to :: "'a \<Rightarrow> nat \<Rightarrow> 'a list \<Rightarrow> 'a list" where
  "realloc_to fill n xs = take n xs @ replicate (n - length xs) fill"

lemma length_blit [buf_simps]:
  "off + length src \<le> length xs \<Longrightarrow> length (blit xs off src) = length xs"
  by (simp add: blit_def)

lemma take_blit_before [buf_simps]:
  "n \<le> off \<Longrightarrow> off \<le> length xs \<Longrightarrow> take n (blit xs off src) = take n xs"
  by (simp add: blit_def min_def)

lemma take_blit_end [buf_simps]:
  "off \<le> length xs \<Longrightarrow> take (off + length src) (blit xs off src) = take off xs @ src"
  by (simp add: blit_def)

lemma blit_Nil [buf_simps]: "off \<le> length xs \<Longrightarrow> blit xs off [] = xs"
  by (simp add: blit_def)

lemma blit_all: "length src = length xs \<Longrightarrow> blit xs 0 src = src"
  by (simp add: blit_def)

lemma length_memmove [buf_simps]:
  "dst + n \<le> length xs \<Longrightarrow> src + n \<le> length xs \<Longrightarrow> length (memmove xs dst src n) = length xs"
  by (simp add: memmove_def length_blit)

lemma length_realloc_to [buf_simps]: "length (realloc_to f n xs) = n"
  by (simp add: realloc_to_def)

lemma take_realloc_to [buf_simps]:
  "k \<le> n \<Longrightarrow> k \<le> length xs \<Longrightarrow> take k (realloc_to f n xs) = take k xs"
  by (simp add: realloc_to_def min_def)

section \<open>Bytes and words\<close>

text \<open>
  Big- and little-endian reading of byte lists, and writing of the low \<open>n\<close> bytes of a word,
  most significant byte first (\<open>be_bytes\<close>) or last (\<open>le_bytes\<close>).
\<close>

fun le_val :: "bytes \<Rightarrow> nat" where
  "le_val [] = 0"
| "le_val (b # bs) = unat b + 256 * le_val bs"

definition be_val :: "bytes \<Rightarrow> nat" where
  "be_val bs = le_val (rev bs)"

fun le_bytes :: "nat \<Rightarrow> nat \<Rightarrow> bytes" where
  "le_bytes 0 v = []"
| "le_bytes (Suc n) v = word_of_nat v # le_bytes n (v div 256)"

definition be_bytes :: "nat \<Rightarrow> nat \<Rightarrow> bytes" where
  "be_bytes n v = rev (le_bytes n v)"

lemma unat_u8_less [simp]: "unat (b :: u8) < 256"
  using unsigned_less [of b] by simp

lemma unat_u8_of_nat: "unat (word_of_nat v :: u8) = v mod 256"
  by (simp add: unat_of_nat)

lemma length_le_bytes [simp]: "length (le_bytes n v) = n"
  by (induction n arbitrary: v) auto

lemma length_be_bytes [simp]: "length (be_bytes n v) = n"
  by (simp add: be_bytes_def)

lemma le_val_bound: "le_val bs < 256 ^ length bs"
proof (induction bs)
  case (Cons b bs)
  have "unat b + 256 * le_val bs < 256 * (le_val bs + 1)"
    using unat_u8_less [of b] by simp
  also have "\<dots> \<le> 256 * 256 ^ length bs"
    using Cons.IH by (intro mult_le_mono2) simp
  finally show ?case by simp
qed simp

lemma be_val_bound: "be_val bs < 256 ^ length bs"
  using le_val_bound [of "rev bs"] by (simp add: be_val_def)

lemma le_val_le_bytes: "v < 256 ^ n \<Longrightarrow> le_val (le_bytes n v) = v"
proof (induction n arbitrary: v)
  case (Suc n)
  then have "v div 256 < 256 ^ n" by (simp add: less_mult_imp_div_less mult.commute)
  with Suc.IH show ?case by (simp add: unat_u8_of_nat)
qed simp

lemma le_bytes_le_val: "le_bytes (length bs) (le_val bs) = bs"
proof (induction bs)
  case (Cons b bs)
  have "(word_of_nat (unat b + 256 * le_val bs) :: u8) = b"
    by (rule word_unat_eq_iff [THEN iffD2])
      (simp only: unat_u8_of_nat mod_mult_self2 mod_less unat_u8_less)
  moreover have "(unat b + 256 * le_val bs) div 256 = le_val bs" by simp
  ultimately show ?case using Cons.IH by simp
qed simp

lemma be_val_be_bytes: "v < 256 ^ n \<Longrightarrow> be_val (be_bytes n v) = v"
  by (simp add: be_val_def be_bytes_def le_val_le_bytes)

lemma be_bytes_be_val: "be_bytes (length bs) (be_val bs) = bs"
  using le_bytes_le_val [of "rev bs"] by (simp add: be_val_def be_bytes_def)

lemma le_bytes_split: "v < 256 ^ m \<Longrightarrow> le_bytes (m + n) (v + 256 ^ m * w) = le_bytes m v @ le_bytes n w"
proof (induction m arbitrary: v)
  case (Suc m)
  have "v div 256 < 256 ^ m" using Suc.prems by (simp add: less_mult_imp_div_less mult.commute)
  moreover have "v + 256 ^ Suc m * w = v + 256 * (256 ^ m * w)" by simp
  moreover have "(word_of_nat (v + 256 * k) :: u8) = word_of_nat v" for k
    by (rule word_unat_eq_iff [THEN iffD2]) (simp only: unat_u8_of_nat mod_mult_self2)
  moreover have "(v + 256 * k) div 256 = v div 256 + k" for k by simp
  ultimately show ?case using Suc.IH by (simp only: add_Suc le_bytes.simps append_Cons)
qed simp

lemma le_bytes_snoc: "le_bytes (Suc k) n = le_bytes k n @ [word_of_nat (n div 256 ^ k)]"
  by (induction k arbitrary: n) (simp_all add: div_mult2_eq)

lemma be_bytes_Cons: "be_bytes (Suc k) n = word_of_nat (n div 256 ^ k) # be_bytes k n"
  by (simp add: be_bytes_def le_bytes_snoc del: le_bytes.simps)

lemma be_bytes_map: "be_bytes n v = map (\<lambda>i. word_of_nat (v div 256 ^ (n - 1 - i))) [0..<n]"
proof (induction n)
  case (Suc n)
  have "[0..<Suc n] = 0 # map Suc [0..<n]" by (simp only: upt_conv_Cons zero_less_Suc map_Suc_upt)
  then show ?case unfolding be_bytes_Cons Suc.IH by (simp del: upt_Suc)
qed (simp add: be_bytes_def)

lemma be_bytes_zero: "be_bytes n 0 = replicate n 0"
  by (induction n) (simp_all add: be_bytes_Cons, simp add: be_bytes_def)

lemma be_val_snoc: "be_val (bs @ [b]) = be_val bs * 256 + unat b"
  by (simp add: be_val_def)

lemma le_val_append: "le_val (xs @ ys) = le_val xs + 256 ^ length xs * le_val ys"
  by (induction xs) (simp_all add: algebra_simps)

lemma be_val_Cons: "be_val (b # bs) = unat b * 256 ^ length bs + be_val bs"
  by (simp add: be_val_def le_val_append)

lemma be_val_Nil [simp]: "be_val [] = 0"
  by (simp add: be_val_def)

text \<open>A word assembled from shifted parts is the weighted sum of the parts.\<close>

lemma unat_push_bit_small:
  fixes x :: "'a::len word"
  assumes "unat x * 2 ^ k < 2 ^ LENGTH('a)"
  shows "unat (push_bit k x) = unat x * 2 ^ k"
proof -
  have "unat (push_bit k x) = take_bit LENGTH('a) (push_bit k (unat x))"
    by (rule unsigned_push_bit_eq)
  also have "\<dots> = unat x * 2 ^ k"
    using assms unfolding push_bit_eq_mult by (simp add: take_bit_eq_mod)
  finally show ?thesis .
qed

lemma unat_or_push:
  fixes x y :: "'a::len word"
  assumes y: "unat y < 2 ^ k" and x: "unat x < 2 ^ m" and km: "k + m \<le> LENGTH('a)"
  shows "unat (push_bit k x OR y) = unat x * 2 ^ k + unat y"
proof -
  have "unat x * 2 ^ k + unat y < (unat x + 1) * 2 ^ k" using y by simp
  also have "\<dots> \<le> 2 ^ m * 2 ^ k" using x by (intro mult_le_mono1) simp
  also have "\<dots> \<le> (2 :: nat) ^ LENGTH('a)" using km by (simp add: add.commute flip: power_add)
  finally have lt: "unat x * 2 ^ k + unat y < 2 ^ LENGTH('a)" .
  have "\<not> bit y n" if "k \<le> n" for n
  proof -
    have "unat y < 2 ^ n" using y that by (meson le_less_trans less_imp_le power_increasing one_le_numeral order_less_le_trans)
    then have "\<not> bit (unat y) n" by (simp add: bit_iff_odd)
    moreover have "n < LENGTH('a) \<or> \<not> bit y n" using bit_imp_le_length by blast
    ultimately show ?thesis by (auto simp: bit_unsigned_iff)
  qed
  then have "push_bit k x AND y = 0" by (intro bit_eqI) (auto simp: bit_simps)
  then have "push_bit k x OR y = push_bit k x + y" by (rule disjunctive_add_eq_or [symmetric])
  moreover have "unat (push_bit k x) = unat x * 2 ^ k" using lt by (intro unat_push_bit_small) simp
  ultimately show ?thesis using lt by (simp add: unat_word_ariths)
qed

lemma unat_ucast_u8 [simp]: "unat (ucast (a :: u8) :: u32) = unat a" "unat (ucast a :: u64) = unat a"
proof -
  have "unat a < 4294967296" "unat a < 18446744073709551616" using unat_u8_less [of a] by linarith+
  then show "unat (ucast a :: u32) = unat a" "unat (ucast a :: u64) = unat a"
    by (simp_all add: unsigned_ucast_eq take_bit_nat_eq_self)
qed

lemma unat_ucast_to_u8 [simp]: "unat (ucast (w :: u32) :: u8) = unat w mod 256"
  "unat (ucast (x :: u64) :: u8) = unat x mod 256"
  by (simp_all add: unsigned_ucast_eq take_bit_eq_mod)

lemma unat_drop_bit: "unat (drop_bit k (w :: 'a::len word)) = unat w div 2 ^ k"
  unfolding unat_drop_bit_eq by (simp add: drop_bit_eq_div)

lemma be24_word:
  fixes a b c :: u8
  shows "unat (push_bit 16 (ucast a) OR push_bit 8 (ucast b) OR ucast c :: u32) = be_val [a, b, c]"
proof -
  have "unat (push_bit 8 (ucast b) OR ucast c :: u32) = unat b * 256 + unat c"
    using unat_or_push [of "ucast c :: u32" 8 "ucast b" 8] by simp
  moreover have "unat b * 256 + unat c < 65536"
    using unat_u8_less [of b] unat_u8_less [of c] by linarith
  ultimately show ?thesis
    using unat_or_push [of "push_bit 8 (ucast b) OR ucast c :: u32" 16 "ucast a" 8]
    by (simp add: or.assoc be_val_def)
qed

lemma be32_word:
  fixes a b c d :: u8
  shows "unat (push_bit 24 (ucast a) OR push_bit 16 (ucast b) OR push_bit 8 (ucast c) OR ucast d :: u32) =
    be_val [a, b, c, d]"
  using unat_or_push [of "push_bit 16 (ucast b) OR push_bit 8 (ucast c) OR ucast d :: u32" 24 "ucast a" 8]
    be_val_bound [of "[b, c, d]"]
  by (simp add: or.assoc be24_word [unfolded or.assoc]) (simp add: be_val_def)
text \<open>The high bit of a byte marks the continuation of a base-128 number.\<close>

lemma high_bit: "(b :: u8) AND 0x80 \<noteq> 0 \<longleftrightarrow> 128 \<le> unat b"
proof -
  have "b AND 0x80 \<noteq> 0 \<longleftrightarrow> bit b 7"
    using and_exp_eq_0_iff_not_bit [of b 7] by simp
  also have "\<dots> \<longleftrightarrow> bit (unat b) 7" by (simp add: bit_unsigned_iff)
  also have "\<dots> \<longleftrightarrow> odd (unat b div 2 ^ 7)" by (rule bit_iff_odd)
  also have "\<dots> \<longleftrightarrow> 128 \<le> unat b"
  proof -
    have "unat b div 128 < 2" by (simp add: less_mult_imp_div_less)
    then have "odd (unat b div 128) \<longleftrightarrow> unat b div 128 \<noteq> 0" by (cases "unat b div 128") auto
    then show ?thesis by (simp add: div_eq_0_iff not_less)
  qed
  finally show ?thesis .
qed

lemma mod128_high: "128 \<le> n \<Longrightarrow> n < 256 \<Longrightarrow> n = n mod 128 + (128 :: nat)"
  by (simp add: le_mod_geq)

lemma b128_digit: "(word_of_nat (d mod 128 + 128) :: u8) AND 0x80 \<noteq> 0" "unat (word_of_nat (d mod 128 + 128) :: u8) mod 128 = d mod 128"
  "(word_of_nat (d mod 128) :: u8) AND 0x80 = 0" "unat (word_of_nat (d mod 128) :: u8) mod 128 = d mod 128"
proof -
  have a: "d mod 128 + 128 < 256" "d mod 128 < 256" "d mod 128 < 128"
    using mod_less_divisor [of 128 d] by linarith+
  then have u: "unat (word_of_nat (d mod 128 + 128) :: u8) = d mod 128 + 128"
    "unat (word_of_nat (d mod 128) :: u8) = d mod 128" by (simp_all only: unat_u8_of_nat mod_less)
  show "(word_of_nat (d mod 128 + 128) :: u8) AND 0x80 \<noteq> 0" unfolding high_bit u by simp
  show "(word_of_nat (d mod 128) :: u8) AND 0x80 = 0"
    using high_bit [of "word_of_nat (d mod 128)"] a(3) unfolding u by linarith
  show "unat (word_of_nat (d mod 128 + 128) :: u8) mod 128 = d mod 128"
    "unat (word_of_nat (d mod 128) :: u8) mod 128 = d mod 128" unfolding u by simp_all
qed

lemma high_bits: "128 \<le> unat (b :: u8) \<Longrightarrow> unat (b AND 0x7f) = unat b - 128"
proof -
  assume a: "128 \<le> unat b"
  have "b AND 0x7f = take_bit 7 b" by (simp add: take_bit_eq_mask mask_eq_exp_minus_1)
  then have "unat (b AND 0x7f) = unat b mod 128" by (simp add: take_bit_eq_mod unat_mod)
  with a mod128_high [of "unat b"] show ?thesis by simp
qed

section \<open>Bags\<close>

text \<open>Exchanging a part of a bag for another one.\<close>

lemma bag_exchange:
  fixes A :: "'a multiset"
  assumes "A + B = C + D" and "D + X = B + Y"
  shows "A + X = C + Y"
proof -
  have "(A + X) + B = C + (D + X)" using assms(1) by (simp add: ac_simps)
  also have "\<dots> = (C + Y) + B" unfolding assms(2) by (simp add: ac_simps)
  finally show ?thesis by (simp only: add_right_cancel)
qed

end
