(* ===== verification/Rc4.thy ===== *)
theory Rc4
  imports Prelude
begin

text \<open>
  The RC4 stream cipher of \<^verbatim>\<open>BoringSSL/crypto/rc4/rc4.c\<close>: the key state (two indices and
  the 256-cell table), the key schedule and the generator loop.  Shown: the table stays a
  permutation of the 256 byte values, decryption with a fresh copy of the key undoes
  encryption, and a message may be processed in any number of chunks.
\<close>

section \<open>State and operations\<close>

record rc4_key =
  rc4_x :: u32
  rc4_y :: u32
  rc4_data :: "u32 list"

text \<open>One pass of the generator loop: the new indices, table and the key-stream word.\<close>

definition RC4_step :: "u32 \<times> u32 \<times> u32 list \<Rightarrow> u32 \<times> (u32 \<times> u32 \<times> u32 list)" where
  "RC4_step s = (case s of (x0, y0, d0) \<Rightarrow>
     let x = (x0 + 1) AND 0xff;
         tx = d0 ! unat x;
         y = (tx + y0) AND 0xff;
         ty = d0 ! unat y;
         d1 = d0[unat x := ty];
         d2 = d1[unat y := tx]
     in (d2 ! unat ((tx + ty) AND 0xff), (x, y, d2)))"

text \<open>The loop over the input, storing \<open>out[i] = ks ^ in[i]\<close> truncated to a byte.\<close>

fun RC4_loop :: "u32 \<times> u32 \<times> u32 list \<Rightarrow> bytes \<Rightarrow> bytes \<times> (u32 \<times> u32 \<times> u32 list)" where
  "RC4_loop s [] = ([], s)"
| "RC4_loop s (c # cs) =
     (let (ks, s') = RC4_step s;
          (out, s'') = RC4_loop s' cs
      in (ucast (ks XOR ucast c) # out, s''))"

definition RC4 :: "rc4_key \<Rightarrow> bytes \<Rightarrow> bytes \<times> rc4_key" where
  "RC4 key inp =
     (let (out, (x, y, d)) = RC4_loop (rc4_x key, rc4_y key, rc4_data key) inp
      in (out, key\<lparr>rc4_x := x, rc4_y := y, rc4_data := d\<rparr>))"

text \<open>
  The mixing loop of the key schedule, \<open>n\<close> iterations from index \<open>i\<close>.  The read
  \<open>key[id1]\<close> is checked: \<open>None\<close> stands for a read past the end of the key, which the C
  code performs when it is called with \<open>len = 0\<close>.
\<close>

fun RC4_mix :: "bytes \<Rightarrow> nat \<Rightarrow> nat \<Rightarrow> nat \<Rightarrow> u32 \<Rightarrow> u32 list \<Rightarrow> u32 list option" where
  "RC4_mix key 0 i id1 id2 d = Some d"
| "RC4_mix key (Suc n) i id1 id2 d =
     (if id1 < length key then
        let tmp = d ! i;
            id2' = (ucast (key ! id1) + tmp + id2) AND 0xff;
            id1' = (if id1 + 1 = length key then 0 else id1 + 1);
            d1 = d[i := d ! unat id2'];
            d2 = d1[unat id2' := tmp]
        in RC4_mix key n (i + 1) id1' id2' d2
      else None)"

definition RC4_set_key :: "bytes \<Rightarrow> rc4_key option" where
  "RC4_set_key key =
     (case RC4_mix key 256 0 0 0 (map word_of_nat [0..<256]) of
        None \<Rightarrow> None
      | Some d \<Rightarrow> Some \<lparr>rc4_x = 0, rc4_y = 0, rc4_data = d\<rparr>)"

section \<open>The invariant: indices in range, the table a permutation\<close>

definition rc4_table :: "u32 list \<Rightarrow> bool" where
  "rc4_table d \<longleftrightarrow> mset d = mset (map word_of_nat [0..<256])"

definition rc4_inv :: "rc4_key \<Rightarrow> bool" where
  "rc4_inv k \<longleftrightarrow> unat (rc4_x k) < 256 \<and> unat (rc4_y k) < 256 \<and> rc4_table (rc4_data k)"

lemma and_ff_less: "unat ((w :: u32) AND 0xff) < 256"
proof -
  have "w AND 0xff \<le> 0xff" by (rule word_and_le1)
  then have "unat (w AND 0xff) \<le> unat (0xff :: u32)" by (simp only: word_le_nat_alt)
  then show ?thesis by simp
qed

lemma rc4_table_length: "rc4_table d \<Longrightarrow> length d = 256"
  by (drule arg_cong [where f = size, OF rc4_table_def [THEN iffD1]]) simp

lemma rc4_table_swap:
  assumes "rc4_table d" "i < 256" "j < 256"
  shows "rc4_table (d[i := d ! j, j := d ! i])"
proof -
  from assms have "i < length d" "j < length d" by (simp_all add: rc4_table_length)
  then have "mset (d[i := d ! j, j := d ! i]) = mset d"
    by (simp add: mset_swap)
  with assms(1) show ?thesis by (simp add: rc4_table_def)
qed

lemma RC4_step_table:
  assumes "rc4_table d"
  shows "case RC4_step (x, y, d) of (_, x', y', d') \<Rightarrow>
           unat x' < 256 \<and> unat y' < 256 \<and> rc4_table d'"
  using rc4_table_swap [OF assms and_ff_less and_ff_less]
  by (simp add: RC4_step_def Let_def and_ff_less)

lemma RC4_loop_table:
  "rc4_table d \<Longrightarrow> unat x < 256 \<Longrightarrow> unat y < 256 \<Longrightarrow>
   RC4_loop (x, y, d) inp = (out, x', y', d') \<Longrightarrow>
   unat x' < 256 \<and> unat y' < 256 \<and> rc4_table d'"
proof (induction inp arbitrary: x y d out)
  case (Cons c cs)
  obtain ks x1 y1 d1 where st: "RC4_step (x, y, d) = (ks, x1, y1, d1)"
    by (metis prod_cases3)
  with RC4_step_table [OF Cons.prems(1), of x y]
  have "unat x1 < 256" "unat y1 < 256" "rc4_table d1" by auto
  with Cons.IH [of d1 x1 y1] Cons.prems(4) st show ?case
    by (auto split: prod.splits)
qed simp

lemma RC4_mix_table:
  "rc4_table d \<Longrightarrow> i + n \<le> 256 \<Longrightarrow> RC4_mix key n i id1 id2 d = Some d' \<Longrightarrow> rc4_table d'"
proof (induction n arbitrary: i id1 id2 d)
  case (Suc n)
  have "rc4_table (d[i := d ! j, j := d ! i])" if "j < 256" for j
    using Suc.prems(1,2) that by (intro rc4_table_swap) auto
  with Suc.prems(2,3) show ?case
    by (auto simp: Let_def and_ff_less split: if_splits dest!: Suc.IH [rotated 2])
qed simp

lemma RC4_mix_defined: "id1 < length key \<Longrightarrow> RC4_mix key n i id1 id2 d \<noteq> None"
proof (induction n arbitrary: i id1 id2 d)
  case (Suc n)
  from Suc.prems have "key \<noteq> []" by auto
  with Suc.prems show ?case
    by (cases "Suc id1 = length key") (simp_all add: Let_def Suc.IH del: not_None_eq)
qed simp

section \<open>Key stream\<close>

text \<open>The key stream depends on the state only; the output is the input xored with it.\<close>

fun keystream :: "nat \<Rightarrow> u32 \<times> u32 \<times> u32 list \<Rightarrow> bytes" where
  "keystream 0 s = []"
| "keystream (Suc n) s = (let (ks, s') = RC4_step s in ucast ks # keystream n s')"

lemma ucast_xor_byte: "(ucast ((ks :: u32) XOR ucast (c :: u8)) :: u8) = ucast ks XOR c"
  by (rule bit_eqI) (auto simp: bit_simps)

lemma RC4_loop_keystream:
  "fst (RC4_loop s inp) = map2 (XOR) (keystream (length inp) s) inp"
  by (induction inp arbitrary: s) (simp_all add: ucast_xor_byte split_def Let_def)

lemma RC4_loop_state: "length a = length b \<Longrightarrow> snd (RC4_loop s a) = snd (RC4_loop s b)"
  by (induction a b arbitrary: s rule: list_induct2) (simp_all add: split_def Let_def)

lemma length_keystream [simp]: "length (keystream n s) = n"
  by (induction n arbitrary: s) (simp_all add: split_def Let_def)

lemma length_RC4_loop: "length (fst (RC4_loop s inp)) = length inp"
  by (simp add: RC4_loop_keystream)

lemma map2_xor_twice:
  "length ks = length m \<Longrightarrow> map2 (XOR) ks (map2 (XOR) ks m) = (m :: bytes)"
  by (induction ks m rule: list_induct2) (simp_all flip: xor.assoc)

lemma RC4_loop_twice: "fst (RC4_loop s (fst (RC4_loop s inp))) = inp"
  by (simp add: RC4_loop_keystream length_RC4_loop map2_xor_twice)

lemma RC4_loop_append:
  "RC4_loop s (a @ b) =
     (fst (RC4_loop s a) @ fst (RC4_loop (snd (RC4_loop s a)) b),
      snd (RC4_loop (snd (RC4_loop s a)) b))"
  by (induction a arbitrary: s) (simp_all add: split_def Let_def)

lemma RC4_fst: "fst (RC4 k m) = fst (RC4_loop (rc4_x k, rc4_y k, rc4_data k) m)"
  by (simp add: RC4_def split_def Let_def)

text \<open>\<open>RC4\<close> is the loop on the three components of the key.\<close>

definition rc4_state :: "rc4_key \<Rightarrow> u32 \<times> u32 \<times> u32 list" where
  "rc4_state k = (rc4_x k, rc4_y k, rc4_data k)"

lemma RC4_eq:
  "RC4 k m = (fst (RC4_loop (rc4_state k) m),
              (case snd (RC4_loop (rc4_state k) m) of
                 (x, y, d) \<Rightarrow> \<lparr>rc4_x = x, rc4_y = y, rc4_data = d\<rparr>))"
  by (cases k) (simp add: RC4_def rc4_state_def split_def Let_def)

lemma rc4_state_of:
  "rc4_state (case t of (x, y, d) \<Rightarrow> \<lparr>rc4_x = x, rc4_y = y, rc4_data = d\<rparr>) = t"
  by (simp add: rc4_state_def split_def)

lemma rc4_inv_state:
  "rc4_inv k \<longleftrightarrow> (case rc4_state k of (x, y, d) \<Rightarrow> unat x < 256 \<and> unat y < 256 \<and> rc4_table d)"
  by (simp add: rc4_inv_def rc4_state_def)

lemma RC4_loop_inv:
  "(case s of (x, y, d) \<Rightarrow> unat x < 256 \<and> unat y < 256 \<and> rc4_table d) \<Longrightarrow>
   (case snd (RC4_loop s m) of (x, y, d) \<Rightarrow> unat x < 256 \<and> unat y < 256 \<and> rc4_table d)"
  by (cases s, cases "RC4_loop s m") (auto dest: RC4_loop_table)

section \<open>Properties\<close>

text \<open>C30. For every non-empty key the key schedule never reads outside the key, and it
  leaves a state whose table is a permutation of the 256 byte values and whose indices are
  in range; every call of \<open>RC4\<close> on such a state keeps that and writes one byte per byte
  read.  So no table access of the generator is ever out of bounds.\<close>

theorem RC4_state_invariant:
  "(key \<noteq> [] \<longrightarrow> (\<exists>k. RC4_set_key key = Some k \<and> rc4_inv k)) \<and>
   (rc4_inv k \<longrightarrow> rc4_inv (snd (RC4 k m)) \<and> length (fst (RC4 k m)) = length m)"
proof (intro conjI impI)
  assume "key \<noteq> []"
  then obtain d where d: "RC4_mix key 256 0 0 0 (map word_of_nat [0..<256]) = Some d"
    using RC4_mix_defined by blast
  moreover have "rc4_table d"
    by (rule RC4_mix_table [OF _ _ d]) (simp_all add: rc4_table_def)
  ultimately show "\<exists>k. RC4_set_key key = Some k \<and> rc4_inv k"
    by (simp add: RC4_set_key_def rc4_inv_def)
next
  assume "rc4_inv k"
  then show "rc4_inv (snd (RC4 k m))"
    by (simp only: RC4_eq snd_conv rc4_inv_state rc4_state_of RC4_loop_inv)
  show "length (fst (RC4 k m)) = length m"
    by (simp only: RC4_eq fst_conv length_RC4_loop)
qed

text \<open>Witness for the invariant: a two-byte key.\<close>

theorem RC4_state_invariant_witness:
  "\<exists>k. RC4_set_key [1, 2] = Some k \<and> rc4_inv k \<and> rc4_inv (snd (RC4 k [7, 8, 9]))"
  using RC4_state_invariant [of "[1, 2]" _ "[7, 8, 9]"] by blast


end
