(* ===== verification/Stack.thy ===== *)
theory Stack
  imports Prelude
begin

text \<open>
  The pointer stack of \<^verbatim>\<open>BoringSSL/crypto/stack/stack.c\<close>: growable array, insertion and
  deletion at an index, sorting and searching with an optional comparison function, shallow
  and deep copies.  A \<^verbatim>\<open>void *\<close> is an \<open>'a option\<close> with \<open>None\<close> for \<^verbatim>\<open>NULL\<close>; a
  \<^verbatim>\<open>_STACK *\<close> is an optional record; a comparison function is a name of type \<open>'c\<close>, and
  \<open>call\<close> says what the named function computes (the code compares and stores the pointer).
  Each allocation of a call is a boolean argument that says whether it succeeds.
  \<^verbatim>\<open>qsort\<close> and \<^verbatim>\<open>bsearch\<close> are arguments; the locale \<open>libc_sorting\<close> is their contract.
\<close>

section \<open>State and operations\<close>

record ('a, 'c) sk =
  st_num :: nat
  st_data :: "'a option list"
  st_sorted :: bool
  st_num_alloc :: nat
  st_comp :: "'c option"

type_synonym 'a cmp = "'a option \<Rightarrow> 'a option \<Rightarrow> int"

text \<open>The effects of a call on the heap and the caller's objects, in order.\<close>

datatype 'a effect = Call 'a | FreeData | FreeHeader

definition kMinSize :: nat where
  "kMinSize = 4"

definition sk_new :: "bool \<Rightarrow> bool \<Rightarrow> 'c option \<Rightarrow> ('a, 'c) sk option" where
  "sk_new ok_hdr ok_data cmpf =
     (if \<not> ok_hdr then None
      else if \<not> ok_data then None
      else Some \<lparr>st_num = 0, st_data = replicate kMinSize None, st_sorted = False,
                 st_num_alloc = kMinSize, st_comp = cmpf\<rparr>)"

definition sk_new_null :: "bool \<Rightarrow> bool \<Rightarrow> ('a, 'c) sk option" where
  "sk_new_null ok_hdr ok_data = sk_new ok_hdr ok_data None"

definition sk_num :: "('a, 'c) sk option \<Rightarrow> nat" where
  "sk_num sk = (case sk of None \<Rightarrow> 0 | Some s \<Rightarrow> st_num s)"

definition sk_zero :: "('a, 'c) sk option \<Rightarrow> ('a, 'c) sk option" where
  "sk_zero sk = (case sk of None \<Rightarrow> None | Some s \<Rightarrow>
     if st_num s = 0 then Some s
     else Some (s\<lparr>st_data := blit (st_data s) 0 (replicate (st_num s) None),
                  st_num := 0, st_sorted := False\<rparr>))"

definition sk_value :: "('a, 'c) sk option \<Rightarrow> nat \<Rightarrow> 'a option" where
  "sk_value sk i = (case sk of None \<Rightarrow> None | Some s \<Rightarrow>
     if i \<ge> st_num s then None else st_data s ! i)"

definition sk_set ::
  "('a, 'c) sk option \<Rightarrow> nat \<Rightarrow> 'a option \<Rightarrow> 'a option \<times> ('a, 'c) sk option" where
  "sk_set sk i v = (case sk of None \<Rightarrow> (None, None) | Some s \<Rightarrow>
     if i \<ge> st_num s then (None, Some s)
     else (v, Some (s\<lparr>st_data := (st_data s)[i := v]\<rparr>)))"

definition sk_free :: "('a, 'c) sk option \<Rightarrow> 'a effect list" where
  "sk_free sk = (case sk of None \<Rightarrow> [] | Some s \<Rightarrow> [FreeData, FreeHeader])"

text \<open>The loop \<open>for (i = 0; i < n; i++) if (data[i] != NULL) func(data[i]);\<close>\<close>

fun call_each :: "'a option list \<Rightarrow> nat \<Rightarrow> nat \<Rightarrow> 'a effect list" where
  "call_each d i 0 = []"
| "call_each d i (Suc n) =
     (case d ! i of None \<Rightarrow> call_each d (i + 1) n
                  | Some x \<Rightarrow> Call x # call_each d (i + 1) n)"

definition sk_pop_free :: "('a, 'c) sk option \<Rightarrow> 'a effect list" where
  "sk_pop_free sk = (case sk of None \<Rightarrow> [] | Some s \<Rightarrow>
     call_each (st_data s) 0 (st_num s) @ sk_free sk)"

text \<open>The capacity computation of \<open>sk_insert\<close>: the new capacity, or \<open>None\<close> on overflow.\<close>

definition sk_grow :: "nat \<Rightarrow> nat option" where
  "sk_grow num_alloc =
     (let new_alloc = sz (num_alloc * 2);
          alloc_size = sz (new_alloc * 8);
          (new_alloc, alloc_size) =
            (if new_alloc < num_alloc \<or> alloc_size div 8 \<noteq> new_alloc
             then (sz (num_alloc + 1), sz (sz (num_alloc + 1) * 8))
             else (new_alloc, alloc_size))
      in if new_alloc < num_alloc \<or> alloc_size div 8 \<noteq> new_alloc
         then None else Some new_alloc)"

text \<open>Storing \<open>p\<close> at \<open>where\<close> in an array with room: the second half of \<open>sk_insert\<close>.\<close>

definition sk_store :: "('a, 'c) sk \<Rightarrow> 'a option \<Rightarrow> nat \<Rightarrow> ('a, 'c) sk" where
  "sk_store s p where' =
     (let d = (if where' \<ge> st_num s then (st_data s)[st_num s := p]
               else (memmove (st_data s) (where' + 1) where' (st_num s - where'))[where' := p])
      in s\<lparr>st_data := d, st_num := st_num s + 1, st_sorted := False\<rparr>)"

definition sk_insert ::
  "bool \<Rightarrow> ('a, 'c) sk option \<Rightarrow> 'a option \<Rightarrow> nat \<Rightarrow> nat \<times> ('a, 'c) sk option" where
  "sk_insert ok sk p where' = (case sk of None \<Rightarrow> (0, None) | Some s \<Rightarrow>
     if st_num_alloc s \<le> st_num s + 1 then
       (case sk_grow (st_num_alloc s) of
          None \<Rightarrow> (0, Some s)
        | Some new_alloc \<Rightarrow>
            if \<not> ok then (0, Some s)
            else let s' = sk_store (s\<lparr>st_data := realloc_to None new_alloc (st_data s),
                                      st_num_alloc := new_alloc\<rparr>) p where'
                 in (st_num s', Some s'))
     else let s' = sk_store s p where' in (st_num s', Some s'))"

definition sk_delete :: "('a, 'c) sk option \<Rightarrow> nat \<Rightarrow> 'a option \<times> ('a, 'c) sk option" where
  "sk_delete sk where' = (case sk of None \<Rightarrow> (None, None) | Some s \<Rightarrow>
     if where' \<ge> st_num s then (None, Some s)
     else let ret = st_data s ! where';
              d = (if where' \<noteq> st_num s - 1
                   then memmove (st_data s) where' (where' + 1) (st_num s - where' - 1)
                   else st_data s)
          in (ret, Some (s\<lparr>st_data := d, st_num := st_num s - 1\<rparr>)))"

text \<open>The index of the first cell equal to \<open>p\<close>, looking at \<open>n\<close> cells from \<open>i\<close>.\<close>

fun ptr_index :: "'a option list \<Rightarrow> 'a option \<Rightarrow> nat \<Rightarrow> nat \<Rightarrow> nat option" where
  "ptr_index d p i 0 = None"
| "ptr_index d p i (Suc n) = (if d ! i = p then Some i else ptr_index d p (i + 1) n)"

definition sk_delete_ptr ::
  "('a, 'c) sk option \<Rightarrow> 'a option \<Rightarrow> 'a option \<times> ('a, 'c) sk option" where
  "sk_delete_ptr sk p = (case sk of None \<Rightarrow> (None, None) | Some s \<Rightarrow>
     (case ptr_index (st_data s) p 0 (st_num s) of
        None \<Rightarrow> (None, Some s)
      | Some i \<Rightarrow> sk_delete sk i))"

definition sk_sort ::
  "('a cmp \<Rightarrow> 'a option list \<Rightarrow> 'a option list) \<Rightarrow> ('c \<Rightarrow> 'a cmp) \<Rightarrow>
   ('a, 'c) sk option \<Rightarrow> ('a, 'c) sk option" where
  "sk_sort qsort call sk = (case sk of None \<Rightarrow> None | Some s \<Rightarrow>
     (case st_comp s of
        None \<Rightarrow> Some s
      | Some c \<Rightarrow>
          if st_sorted s then Some s
          else Some (s\<lparr>st_data := qsort (call c) (take (st_num s) (st_data s))
                                   @ drop (st_num s) (st_data s),
                       st_sorted := True\<rparr>)))"

text \<open>\<open>while (idx > 0 && comp(&p, &data[idx - 1]) == 0) idx--;\<close>\<close>

fun scan_first :: "'a cmp \<Rightarrow> 'a option \<Rightarrow> 'a option list \<Rightarrow> nat \<Rightarrow> nat" where
  "scan_first cmp p d 0 = 0"
| "scan_first cmp p d (Suc i) = (if cmp p (d ! i) = 0 then scan_first cmp p d i else Suc i)"

text \<open>\<open>sk_find\<close>: the index found (return value 1) or \<open>None\<close> (return value 0), and the
  stack, which is sorted on the way when it has a comparison function.\<close>

definition sk_find ::
  "('a cmp \<Rightarrow> 'a option list \<Rightarrow> 'a option list) \<Rightarrow>
   ('a cmp \<Rightarrow> 'a option \<Rightarrow> 'a option list \<Rightarrow> nat option) \<Rightarrow> ('c \<Rightarrow> 'a cmp) \<Rightarrow>
   ('a, 'c) sk option \<Rightarrow> 'a option \<Rightarrow> nat option \<times> ('a, 'c) sk option" where
  "sk_find qsort bsearch call sk p = (case sk of None \<Rightarrow> (None, None) | Some s \<Rightarrow>
     (case st_comp s of
        None \<Rightarrow> (ptr_index (st_data s) p 0 (st_num s), Some s)
      | Some c \<Rightarrow>
          if p = None then (None, Some s)
          else (case sk_sort qsort call (Some s) of
                  None \<Rightarrow> (None, None)
                | Some s' \<Rightarrow>
                    (case bsearch (call c) p (take (st_num s') (st_data s')) of
                       None \<Rightarrow> (None, Some s')
                     | Some r \<Rightarrow> (Some (scan_first (call c) p (st_data s') r), Some s')))))"

definition sk_shift :: "('a, 'c) sk option \<Rightarrow> 'a option \<times> ('a, 'c) sk option" where
  "sk_shift sk = (case sk of None \<Rightarrow> (None, None) | Some s \<Rightarrow>
     if st_num s = 0 then (None, Some s) else sk_delete sk 0)"

text \<open>\<open>sk_push\<close> reads \<open>sk->num\<close> without a test: it needs a stack, not \<^verbatim>\<open>NULL\<close>.\<close>

definition sk_push ::
  "bool \<Rightarrow> ('a, 'c) sk \<Rightarrow> 'a option \<Rightarrow> nat \<times> ('a, 'c) sk option" where
  "sk_push ok s p = sk_insert ok (Some s) p (st_num s)"

definition sk_pop :: "('a, 'c) sk option \<Rightarrow> 'a option \<times> ('a, 'c) sk option" where
  "sk_pop sk = (case sk of None \<Rightarrow> (None, None) | Some s \<Rightarrow>
     if st_num s = 0 then (None, Some s) else sk_delete sk (st_num s - 1))"

definition sk_dup :: "bool \<Rightarrow> bool \<Rightarrow> bool \<Rightarrow> ('a, 'c) sk option \<Rightarrow> ('a, 'c) sk option" where
  "sk_dup ok_hdr ok_data ok_realloc sk = (case sk of None \<Rightarrow> None | Some s \<Rightarrow>
     (case sk_new ok_hdr ok_data (st_comp s) of
        None \<Rightarrow> None
      | Some r \<Rightarrow>
          if \<not> ok_realloc then None
          else let d = realloc_to None (st_num_alloc s) (st_data r)
               in Some (r\<lparr>st_data := blit d 0 (take (st_num s) (st_data s)),
                          st_num := st_num s, st_sorted := st_sorted s,
                          st_num_alloc := st_num_alloc s, st_comp := st_comp s\<rparr>)))"

definition sk_is_sorted :: "('a, 'c) sk option \<Rightarrow> bool" where
  "sk_is_sorted sk = (case sk of None \<Rightarrow> True | Some s \<Rightarrow> st_sorted s)"

definition sk_set_cmp_func :: "('a, 'c) sk \<Rightarrow> 'c option \<Rightarrow> 'c option \<times> ('a, 'c) sk" where
  "sk_set_cmp_func s cmpf =
     (st_comp s,
      (if st_comp s \<noteq> cmpf then s\<lparr>st_sorted := False\<rparr> else s)\<lparr>st_comp := cmpf\<rparr>)"

text \<open>
  The copying loop of \<open>sk_deep_copy\<close>: \<open>n\<close> cells from \<open>i\<close>.  \<open>copy i x\<close> is the result
  of the call of \<open>copy_func\<close> on \<open>x\<close> at index \<open>i\<close> (the same object may be copied several
  times, with different outcomes).  \<open>Inl\<close>: a copy failed at the given index.
\<close>

fun copy_loop ::
  "(nat \<Rightarrow> 'a \<Rightarrow> 'a option) \<Rightarrow> nat \<Rightarrow> nat \<Rightarrow> 'a option list \<Rightarrow>
   (nat \<times> 'a option list) + 'a option list" where
  "copy_loop copy i 0 d = Inr d"
| "copy_loop copy i (Suc n) d =
     (case d ! i of
        None \<Rightarrow> copy_loop copy (i + 1) n d
      | Some x \<Rightarrow>
          (case copy i x of
             None \<Rightarrow> Inl (i, d[i := None])
           | Some y \<Rightarrow> copy_loop copy (i + 1) n (d[i := Some y])))"

definition sk_deep_copy ::
  "bool \<Rightarrow> bool \<Rightarrow> bool \<Rightarrow> (nat \<Rightarrow> 'a \<Rightarrow> 'a option) \<Rightarrow> ('a, 'c) sk option \<Rightarrow>
   ('a, 'c) sk option \<times> 'a effect list" where
  "sk_deep_copy ok_hdr ok_data ok_realloc copy sk =
     (case sk_dup ok_hdr ok_data ok_realloc sk of
        None \<Rightarrow> (None, [])
      | Some r \<Rightarrow>
          (case copy_loop copy 0 (st_num r) (st_data r) of
             Inl (i, d) \<Rightarrow> (None, call_each d 0 i @ sk_free (Some r))
           | Inr d \<Rightarrow> (Some (r\<lparr>st_data := d\<rparr>), [])))"

section \<open>The abstract view and the representation invariant\<close>

definition sk_elems :: "('a, 'c) sk \<Rightarrow> 'a option list" where
  "sk_elems s = take (st_num s) (st_data s)"

text \<open>
  The array has exactly \<open>num_alloc\<close> cells, at least one of them unused, and its size in
  bytes does not wrap around.
\<close>

definition sk_wf :: "('a, 'c) sk \<Rightarrow> bool" where
  "sk_wf s \<longleftrightarrow> length (st_data s) = st_num_alloc s \<and> st_num s < st_num_alloc s \<and>
     st_num_alloc s * 8 < SIZE_LIMIT"

definition insert_at :: "'b list \<Rightarrow> nat \<Rightarrow> 'b \<Rightarrow> 'b list" where
  "insert_at xs i x = take i xs @ x # drop i xs"

definition delete_at :: "'b list \<Rightarrow> nat \<Rightarrow> 'b list" where
  "delete_at xs i = take i xs @ drop (Suc i) xs"

lemma sk_wf_length: "sk_wf s \<Longrightarrow> length (sk_elems s) = st_num s"
  by (simp add: sk_wf_def sk_elems_def)

lemma sk_elems_nth: "i < st_num s \<Longrightarrow> sk_elems s ! i = st_data s ! i"
  by (simp add: sk_elems_def)

lemma sk_grow_bounds:
  assumes "sk_grow n = Some m" "0 < n" "n < SIZE_LIMIT"
  shows "n < m \<and> m * 8 < SIZE_LIMIT"
proof -
  have dbl: "n < sz (n * 2)" if "\<not> sz (n * 2) < n"
  proof (cases "n * 2 < SIZE_LIMIT")
    case False
    then have "sz (n * 2) = n * 2 - SIZE_LIMIT"
      using assms(3) by (simp add: sz_def le_mod_geq)
    with that assms(3) False show ?thesis by simp
  qed (use assms(2) in simp)
  have inc: "n < sz (n + 1)" if "\<not> sz (n + 1) < n"
    using that assms by (cases "n + 1 < SIZE_LIMIT") (auto simp: sz_def mod_if)
  show ?thesis
    using assms(1) dbl inc alloc_check [of "sz (n * 2)"] alloc_check [of "sz (n + 1)"]
    by (auto simp: sk_grow_def Let_def split: if_splits)
qed

lemma sk_store_elems:
  assumes "length (st_data s) = st_num_alloc s" "st_num s < st_num_alloc s"
  shows "sk_elems (sk_store s p w) = insert_at (sk_elems s) w p"
    and "length (st_data (sk_store s p w)) = st_num_alloc s"
    and "st_num_alloc (sk_store s p w) = st_num_alloc s"
    and "st_num (sk_store s p w) = st_num s + 1"
    and "st_sorted (sk_store s p w) = False"
    and "st_comp (sk_store s p w) = st_comp s"
proof -
  let ?d = "st_data s" and ?n = "st_num s"
  show "sk_elems (sk_store s p w) = insert_at (sk_elems s) w p"
  proof (cases "w \<ge> ?n")
    case True
    with assms show ?thesis
      by (simp add: sk_store_def sk_elems_def insert_at_def take_Suc_conv_app_nth)
  next
    case False
    with assms have m: "memmove ?d (w + 1) w (?n - w) =
        take (w + 1) ?d @ take (?n - w) (drop w ?d) @ drop (Suc ?n) ?d"
      by (simp add: memmove_def blit_def min_def)
    have "take (Suc ?n) ((memmove ?d (w + 1) w (?n - w))[w := p])
          = take w ?d @ p # take (?n - w) (drop w ?d)"
      using False assms unfolding m
      by (simp add: list_update_append min_def Suc_diff_le take_Suc_conv_app_nth)
    also have "take (?n - w) (drop w ?d) = drop w (take ?n ?d)"
      by (simp add: drop_take)
    finally show ?thesis
      using False by (simp add: sk_store_def sk_elems_def insert_at_def min_def)
  qed
qed (use assms in \<open>auto simp: sk_store_def Let_def buf_simps\<close>)

text \<open>
  Insertion either fails and changes nothing, or inserts at the given position (at the end
  when the position is past it), clears the sorted flag and returns the new count.
\<close>

lemma sk_insert_cases:
  assumes "sk_wf s"
  obtains (fail) "sk_insert ok (Some s) p w = (0, Some s)"
  | (stored) s' where "sk_insert ok (Some s) p w = (st_num s + 1, Some s')"
      "sk_wf s'" "sk_elems s' = insert_at (sk_elems s) w p" "\<not> st_sorted s'"
      "st_comp s' = st_comp s" "st_num s' = st_num s + 1"
proof (cases "st_num_alloc s \<le> st_num s + 1")
  case False
  with assms sk_store_elems [of s p w] show thesis
    by (intro stored [of "sk_store s p w"]) (auto simp: sk_insert_def sk_wf_def Let_def)
next
  case True
  show thesis
  proof (cases "sk_grow (st_num_alloc s)")
    case None
    with True show thesis by (intro fail) (simp add: sk_insert_def)
  next
    case (Some m)
    have m: "st_num_alloc s < m" "m * 8 < SIZE_LIMIT"
      using sk_grow_bounds [OF Some] assms by (auto simp: sk_wf_def)
    let ?s = "s\<lparr>st_data := realloc_to None m (st_data s), st_num_alloc := m\<rparr>"
    have e: "sk_elems ?s = sk_elems s"
      using assms m by (simp add: sk_elems_def sk_wf_def take_realloc_to)
    show thesis
    proof (cases ok)
      case True
      then show thesis
        using \<open>st_num_alloc s \<le> st_num s + 1\<close> Some m e assms sk_store_elems [of ?s p w]
        by (intro stored [of "sk_store ?s p w"])
          (auto simp: sk_insert_def sk_wf_def Let_def buf_simps)
    qed (use True Some in \<open>intro fail, simp add: sk_insert_def\<close>)
  qed
qed

lemma sk_delete_elems:
  assumes "sk_wf s" "i < st_num s"
  obtains s' where "sk_delete (Some s) i = (sk_elems s ! i, Some s')" "sk_wf s'"
    "sk_elems s' = delete_at (sk_elems s) i" "st_sorted s' = st_sorted s"
    "st_comp s' = st_comp s" "st_num s' = st_num s - 1"
proof -
  let ?n = "st_num s" and ?d = "st_data s"
  let ?d' = "if i \<noteq> ?n - 1 then memmove ?d i (i + 1) (?n - i - 1) else ?d"
  let ?s = "s\<lparr>st_data := ?d', st_num := ?n - 1\<rparr>"
  have len: "length ?d' = length ?d"
    using assms by (auto simp: sk_wf_def buf_simps)
  have "take (?n - 1) ?d' = take i ?d @ drop (Suc i) (take ?n ?d)"
  proof (cases "i = ?n - 1")
    case True
    with assms show ?thesis by (simp add: sk_wf_def)
  next
    case False
    with assms have "i < ?n - 1" "?n \<le> length ?d" by (auto simp: sk_wf_def)
    then show ?thesis
      by (simp add: memmove_def blit_def drop_take)
  qed
  then have "sk_elems ?s = delete_at (sk_elems s) i"
    using assms by (simp add: sk_elems_def delete_at_def min_def)
  moreover have "sk_delete (Some s) i = (sk_elems s ! i, Some ?s)"
    using assms by (simp add: sk_delete_def Let_def sk_elems_nth)
  ultimately show thesis
    using assms len by (intro that [of ?s]) (auto simp: sk_wf_def)
qed

section \<open>The contract of \<^verbatim>\<open>qsort\<close> and \<^verbatim>\<open>bsearch\<close>\<close>

text \<open>\<open>cmp\<close> behaves like a comparison of a total preorder on the objects in \<open>V\<close>.\<close>

definition total_cmp_on :: "'a option set \<Rightarrow> 'a cmp \<Rightarrow> bool" where
  "total_cmp_on V cmp \<longleftrightarrow>
     (\<forall>x\<in>V. \<forall>y\<in>V. cmp x y < 0 \<longleftrightarrow> 0 < cmp y x) \<and>
     (\<forall>x\<in>V. \<forall>y\<in>V. \<forall>z\<in>V. cmp x y \<le> 0 \<longrightarrow> cmp y z \<le> 0 \<longrightarrow> cmp x z \<le> 0)"

definition cmp_sorted :: "'a cmp \<Rightarrow> 'a option list \<Rightarrow> bool" where
  "cmp_sorted cmp xs \<longleftrightarrow> sorted_wrt (\<lambda>a b. cmp a b \<le> 0) xs"

locale libc_sorting =
  fixes qsort :: "'a cmp \<Rightarrow> 'a option list \<Rightarrow> 'a option list"
    and bsearch :: "'a cmp \<Rightarrow> 'a option \<Rightarrow> 'a option list \<Rightarrow> nat option"
  assumes qsort_mset: "mset (qsort cmp xs) = mset xs"
    and qsort_sorted: "total_cmp_on (set xs) cmp \<Longrightarrow> cmp_sorted cmp (qsort cmp xs)"
    and bsearch_Some: "bsearch cmp k xs = Some i \<Longrightarrow> i < length xs \<and> cmp k (xs ! i) = 0"
    and bsearch_None: "total_cmp_on (insert k (set xs)) cmp \<Longrightarrow> cmp_sorted cmp xs \<Longrightarrow>
          bsearch cmp k xs = None \<Longrightarrow> v \<in> set xs \<Longrightarrow> cmp k v \<noteq> 0"

lemma total_cmp_on_mono: "total_cmp_on V cmp \<Longrightarrow> U \<subseteq> V \<Longrightarrow> total_cmp_on U cmp"
  unfolding total_cmp_on_def by blast

lemma total_cmp_antisym:
  "total_cmp_on V cmp \<Longrightarrow> x \<in> V \<Longrightarrow> y \<in> V \<Longrightarrow> cmp x y \<le> 0 \<longleftrightarrow> 0 \<le> cmp y x"
  unfolding total_cmp_on_def by (meson linorder_not_less)

lemma total_cmp_trans:
  "total_cmp_on V cmp \<Longrightarrow> x \<in> V \<Longrightarrow> y \<in> V \<Longrightarrow> z \<in> V \<Longrightarrow>
   cmp x y \<le> 0 \<Longrightarrow> cmp y z \<le> 0 \<Longrightarrow> cmp x z \<le> 0"
  unfolding total_cmp_on_def by blast

text \<open>The flag \<open>sorted\<close> is honest: when it is set, the elements are in order.\<close>

definition sk_sorted_ok :: "('c \<Rightarrow> 'a cmp) \<Rightarrow> ('a, 'c) sk \<Rightarrow> bool" where
  "sk_sorted_ok call s \<longleftrightarrow>
     (st_sorted s \<longrightarrow> (\<exists>c. st_comp s = Some c \<and> cmp_sorted (call c) (sk_elems s)))"

text \<open>What \<open>scan_first\<close> returns from an index of an equal element in a sorted array.\<close>

lemma scan_first_le: "scan_first cmp p d i \<le> i"
  by (induction i) auto

lemma scan_first_eq:
  "cmp p (d ! i) = 0 \<Longrightarrow> cmp p (d ! scan_first cmp p d i) = 0"
  by (induction i) auto

lemma scan_first_stop:
  "0 < scan_first cmp p d i \<Longrightarrow> cmp p (d ! (scan_first cmp p d i - 1)) \<noteq> 0"
  by (induction i) auto

lemma scan_first_minimal:
  assumes tot: "total_cmp_on (insert p (set xs)) cmp" and srt: "cmp_sorted cmp xs"
    and i: "i < length xs" "cmp p (xs ! i) = 0" and j: "j < scan_first cmp p xs i"
  shows "cmp p (xs ! j) \<noteq> 0"
proof
  let ?k = "scan_first cmp p xs i - 1"
  have k: "j \<le> ?k" "?k < i" "?k < length xs" "cmp p (xs ! ?k) \<noteq> 0"
    using j scan_first_le [of cmp p xs i] i scan_first_stop [of cmp p xs i] by auto
  assume "cmp p (xs ! j) = 0"
  have le: "cmp (xs ! a) (xs ! b) \<le> 0" if "a < b" "b < length xs" for a b
    using srt that by (simp add: cmp_sorted_def sorted_wrt_iff_nth_less)
  have mem: "xs ! a \<in> insert p (set xs)" if "a < length xs" for a
    using that by simp
  have "cmp p (xs ! ?k) \<le> 0"
  proof (cases "j = ?k")
    case True then show ?thesis using \<open>cmp p (xs ! j) = 0\<close> by simp
  next
    case False
    with k le have "cmp (xs ! j) (xs ! ?k) \<le> 0" by simp
    then show ?thesis
      using total_cmp_trans [OF tot _ mem mem, of p j ?k] k \<open>cmp p (xs ! j) = 0\<close> by simp
  qed
  moreover have "cmp (xs ! ?k) p \<le> 0"
  proof -
    have "cmp (xs ! i) p \<le> 0"
      using total_cmp_antisym [OF tot mem [OF i(1)], of p] i(2) by simp
    then show ?thesis
      using total_cmp_trans [OF tot mem mem, of ?k i p] le [of ?k i] k i(1) by simp
  qed
  ultimately have "cmp p (xs ! ?k) = 0"
    using total_cmp_antisym [OF tot mem [OF k(3)], of p] by simp
  with k(4) show False ..
qed

context libc_sorting
begin

lemma length_qsort: "length (qsort cmp xs) = length xs"
  using qsort_mset [of cmp xs] by (metis size_mset)

lemma sk_sort_spec:
  assumes "sk_wf s" "st_comp s = Some c" "total_cmp_on (set (sk_elems s)) (call c)"
    "sk_sorted_ok call s"
  obtains s' where "sk_sort qsort call (Some s) = Some s'" "sk_wf s'"
    "mset (sk_elems s') = mset (sk_elems s)" "cmp_sorted (call c) (sk_elems s')"
    "st_comp s' = Some c" "st_num s' = st_num s"
proof (cases "st_sorted s")
  case True
  with assms show thesis
    by (intro that [of s]) (auto simp: sk_sort_def sk_sorted_ok_def)
next
  case False
  let ?q = "qsort (call c) (sk_elems s)"
  let ?s = "s\<lparr>st_data := ?q @ drop (st_num s) (st_data s), st_sorted := True\<rparr>"
  have "length ?q = st_num s"
    using assms(1) by (simp add: length_qsort sk_wf_length)
  then have "sk_elems ?s = ?q" by (simp add: sk_elems_def)
  moreover have "sk_sort qsort call (Some s) = Some ?s"
    using False assms(2) by (simp add: sk_sort_def sk_elems_def)
  moreover have "sk_wf ?s"
    using assms(1) \<open>length ?q = st_num s\<close> by (simp add: sk_wf_def)
  ultimately show thesis
    using assms qsort_mset qsort_sorted by (intro that [of ?s]) auto
qed

text \<open>
  Searching with a comparison function: the stack keeps its elements, now in order, and the
  answer is the least index of an element equal to \<open>p\<close>, or "none" exactly when there is
  none.
\<close>

lemma sk_find_spec:
  assumes wf: "sk_wf s" and c: "st_comp s = Some c" and p: "p \<noteq> None"
    and tot: "total_cmp_on (insert p (set (sk_elems s))) (call c)"
    and ok: "sk_sorted_ok call s"
  obtains r s' where "sk_find qsort bsearch call (Some s) p = (r, Some s')" "sk_wf s'"
    "mset (sk_elems s') = mset (sk_elems s)" "cmp_sorted (call c) (sk_elems s')"
    "st_comp s' = Some c"
    "case r of None \<Rightarrow> \<forall>v\<in>set (sk_elems s). call c p v \<noteq> 0
             | Some i \<Rightarrow> i < st_num s \<and> call c p (sk_elems s' ! i) = 0 \<and>
                         (\<forall>j<i. call c p (sk_elems s' ! j) \<noteq> 0)"
proof -
  have "total_cmp_on (set (sk_elems s)) (call c)"
    using tot by (rule total_cmp_on_mono) blast
  from sk_sort_spec [OF wf c this ok] obtain s' where
    s': "sk_sort qsort call (Some s) = Some s'" "sk_wf s'"
      "mset (sk_elems s') = mset (sk_elems s)" "cmp_sorted (call c) (sk_elems s')"
      "st_comp s' = Some c" "st_num s' = st_num s" .
  have set: "set (sk_elems s') = set (sk_elems s)"
    using s'(3) by (rule mset_eq_setD)
  with tot have tot': "total_cmp_on (insert p (set (sk_elems s'))) (call c)" by simp
  let ?b = "bsearch (call c) p (sk_elems s')"
  let ?r = "map_option (scan_first (call c) p (st_data s')) ?b"
  have find: "sk_find qsort bsearch call (Some s) p = (?r, Some s')"
    using s'(1) c p by (cases p; cases ?b) (simp_all add: sk_find_def sk_elems_def)
  have "case ?r of None \<Rightarrow> \<forall>v\<in>set (sk_elems s). call c p v \<noteq> 0
             | Some i \<Rightarrow> i < st_num s \<and> call c p (sk_elems s' ! i) = 0 \<and>
                         (\<forall>j<i. call c p (sk_elems s' ! j) \<noteq> 0)"
  proof (cases ?b)
    case None
    then show ?thesis using bsearch_None [OF tot' s'(4) None] set by simp
  next
    case (Some i)
    then have i: "i < length (sk_elems s')" "call c p (sk_elems s' ! i) = 0"
      using bsearch_Some by blast+
    have len: "length (sk_elems s') = st_num s" using s' sk_wf_length by metis
    have same: "scan_first (call c) p (st_data s') k = scan_first (call c) p (sk_elems s') k"
      if "k < st_num s" for k
      using that s'(6) by (induction k) (simp_all add: sk_elems_nth)
    show ?thesis
      using Some i len same [of i] scan_first_le [of "call c" p "sk_elems s'" i]
        scan_first_eq [of "call c" p "sk_elems s'" i]
        scan_first_minimal [OF tot' s'(4) i] by simp
  qed
  with find s' show thesis by (rule_tac that)
qed

end

text \<open>
  An executable instance: insertion sort and the interval-halving loop of \<^verbatim>\<open>bsearch\<close>.
\<close>

fun cmp_insort :: "'a cmp \<Rightarrow> 'a option \<Rightarrow> 'a option list \<Rightarrow> 'a option list" where
  "cmp_insort cmp x [] = [x]"
| "cmp_insort cmp x (y # ys) = (if cmp x y \<le> 0 then x # y # ys else y # cmp_insort cmp x ys)"

definition libc_qsort :: "'a cmp \<Rightarrow> 'a option list \<Rightarrow> 'a option list" where
  "libc_qsort cmp xs = foldr (cmp_insort cmp) xs []"

function bsearch_loop ::
  "'a cmp \<Rightarrow> 'a option \<Rightarrow> 'a option list \<Rightarrow> nat \<Rightarrow> nat \<Rightarrow> nat option" where
  "bsearch_loop cmp k xs l u =
     (if l < u then
        let m = (l + u) div 2 in
        if cmp k (xs ! m) < 0 then bsearch_loop cmp k xs l m
        else if 0 < cmp k (xs ! m) then bsearch_loop cmp k xs (m + 1) u
        else Some m
      else None)"
  by pat_completeness auto
termination
  by (relation "measure (\<lambda>(cmp, k, xs, l, u). u - l)") auto

declare bsearch_loop.simps [simp del]

definition libc_bsearch :: "'a cmp \<Rightarrow> 'a option \<Rightarrow> 'a option list \<Rightarrow> nat option" where
  "libc_bsearch cmp k xs = bsearch_loop cmp k xs 0 (length xs)"

lemma mset_cmp_insort: "mset (cmp_insort cmp x xs) = add_mset x (mset xs)"
  by (induction xs) auto

lemma set_cmp_insort: "set (cmp_insort cmp x xs) = insert x (set xs)"
  using mset_cmp_insort [of cmp x xs] by (metis set_mset_add_mset_insert set_mset_mset)

lemma cmp_insort_sorted:
  assumes "total_cmp_on (insert x (set xs)) cmp" "cmp_sorted cmp xs"
  shows "cmp_sorted cmp (cmp_insort cmp x xs)"
  using assms
proof (induction xs)
  case (Cons y ys)
  have tot: "total_cmp_on (insert x (set ys)) cmp"
    using Cons.prems(1) by (rule total_cmp_on_mono) auto
  have srt: "cmp_sorted cmp ys" and y: "\<forall>z\<in>set ys. cmp y z \<le> 0"
    using Cons.prems(2) by (auto simp: cmp_sorted_def)
  show ?case
  proof (cases "cmp x y \<le> 0")
    case True
    then have "\<forall>z\<in>set ys. cmp x z \<le> 0"
      using y by (auto intro: total_cmp_trans [OF Cons.prems(1), of x y])
    with True Cons.prems(2) show ?thesis by (simp add: cmp_sorted_def)
  next
    case False
    then have "cmp y x \<le> 0"
      using total_cmp_antisym [OF Cons.prems(1), of y x] by simp
    with False y Cons.IH [OF tot srt] show ?thesis
      by (simp add: cmp_sorted_def set_cmp_insort)
  qed
qed (simp add: cmp_sorted_def)

lemma mset_libc_qsort: "mset (libc_qsort cmp xs) = mset xs"
  unfolding libc_qsort_def by (induction xs) (simp_all add: mset_cmp_insort)

lemma libc_qsort_sorted: "total_cmp_on (set xs) cmp \<Longrightarrow> cmp_sorted cmp (libc_qsort cmp xs)"
proof (induction xs)
  case (Cons x xs)
  have "set (libc_qsort cmp xs) = set xs"
    by (rule mset_eq_setD) (rule mset_libc_qsort)
  moreover have "cmp_sorted cmp (libc_qsort cmp xs)"
    using Cons.IH Cons.prems by (meson set_subset_Cons total_cmp_on_mono)
  ultimately show ?case
    using Cons.prems cmp_insort_sorted [of x "libc_qsort cmp xs" cmp] by (simp add: libc_qsort_def)
qed (simp add: libc_qsort_def cmp_sorted_def)

lemma bsearch_loop_Some:
  "bsearch_loop cmp k xs l u = Some i \<Longrightarrow> l \<le> i \<and> i < u \<and> cmp k (xs ! i) = 0"
proof (induction cmp k xs l u rule: bsearch_loop.induct)
  case (1 cmp k xs l u)
  from "1.prems" show ?case
    by (subst (asm) bsearch_loop.simps) (fastforce simp: Let_def split: if_splits dest: "1.IH")
qed

text \<open>Outside the interval nothing is equal to the key, so an empty interval means "none".\<close>

lemma bsearch_loop_None:
  assumes "total_cmp_on (insert k (set xs)) cmp" "cmp_sorted cmp xs" "u \<le> length xs"
    "\<forall>j<l. j < length xs \<longrightarrow> 0 < cmp k (xs ! j)" "\<forall>j. u \<le> j \<and> j < length xs \<longrightarrow> cmp k (xs ! j) < 0"
    "bsearch_loop cmp k xs l u = None" "j < length xs"
  shows "cmp k (xs ! j) \<noteq> 0"
  using assms
proof (induction cmp k xs l u rule: bsearch_loop.induct)
  case (1 cmp k xs l u)
  let ?m = "(l + u) div 2"
  have le: "cmp (xs ! a) (xs ! b) \<le> 0" if "a < b" "b < length xs" for a b
    using "1.prems"(2) that by (simp add: cmp_sorted_def sorted_wrt_iff_nth_less)
  have tot: "total_cmp_on (insert k (set xs)) cmp" by fact
  show ?case
  proof (cases "l < u")
    case False
    then have "j < l \<or> u \<le> j" by linarith
    with "1.prems"(4,5,7) show ?thesis by (metis less_irrefl)
  next
    case True
    then have m: "l \<le> ?m" "?m < u" "?m < length xs" using "1.prems"(3) by auto
    have ne: "cmp k (xs ! ?m) \<noteq> 0"
      using "1.prems"(6) True by (subst (asm) bsearch_loop.simps) (auto simp: Let_def)
    show ?thesis
    proof (cases "cmp k (xs ! ?m) < 0")
      case neg: True
      have up: "cmp k (xs ! b) < 0" if "?m < b" "b < length xs" for b
      proof (rule ccontr)
        assume "\<not> cmp k (xs ! b) < 0"
        then have "cmp (xs ! b) k \<le> 0"
          using total_cmp_antisym [OF tot, of "xs ! b" k] that by simp
        then have "cmp (xs ! ?m) k \<le> 0"
          using total_cmp_trans [OF tot, of "xs ! ?m" "xs ! b" k] le that m by simp
        then show False
          using total_cmp_antisym [OF tot, of "xs ! ?m" k] neg m by simp
      qed
      show ?thesis
        using "1.IH"(1) [OF True refl neg tot] "1.prems" True neg m up
        by (subst (asm) (2) bsearch_loop.simps) (auto simp: Let_def le_less)
    next
      case False
      with ne have pos: "0 < cmp k (xs ! ?m)" by simp
      have down: "0 < cmp k (xs ! a)" if "a < ?m" for a
      proof (rule ccontr)
        assume "\<not> 0 < cmp k (xs ! a)"
        then have "cmp k (xs ! ?m) \<le> 0"
          using total_cmp_trans [OF tot, of k "xs ! a" "xs ! ?m"] le [of a ?m] that m by simp
        with pos show False by simp
      qed
      show ?thesis
        using "1.IH"(2) [OF True refl False pos tot] "1.prems" True False pos m down
        by (subst (asm) (2) bsearch_loop.simps) (auto simp: Let_def less_Suc_eq)
    qed
  qed
qed

interpretation libc: libc_sorting libc_qsort libc_bsearch
proof unfold_locales
  show "cmp k v \<noteq> 0"
    if "total_cmp_on (insert k (set xs)) cmp" "cmp_sorted cmp xs" "libc_bsearch cmp k xs = None"
      "v \<in> set xs" for cmp :: "'b cmp" and k xs v
    using that bsearch_loop_None [of k xs cmp "length xs" 0]
    by (auto simp: libc_bsearch_def in_set_conv_nth)
qed (auto simp: mset_libc_qsort libc_qsort_sorted libc_bsearch_def dest: bsearch_loop_Some)

section \<open>Reachable stacks\<close>

text \<open>
  The stacks a client can build from \<open>sk_new\<close> with every operation that changes a stack
  but \<open>sk_set\<close>, including copies made by \<open>sk_dup\<close>.  The allocations may fail at will.
\<close>

inductive sk_reach ::
  "('a cmp \<Rightarrow> 'a option list \<Rightarrow> 'a option list) \<Rightarrow>
   ('a cmp \<Rightarrow> 'a option \<Rightarrow> 'a option list \<Rightarrow> nat option) \<Rightarrow> ('c \<Rightarrow> 'a cmp) \<Rightarrow>
   ('a, 'c) sk \<Rightarrow> bool" for qsort bsearch call where
  new: "sk_new ok1 ok2 c = Some s \<Longrightarrow> sk_reach qsort bsearch call s"
| insert: "sk_reach qsort bsearch call s \<Longrightarrow> sk_insert ok (Some s) p w = (n, Some s') \<Longrightarrow>
     sk_reach qsort bsearch call s'"
| delete: "sk_reach qsort bsearch call s \<Longrightarrow> sk_delete (Some s) w = (v, Some s') \<Longrightarrow>
     sk_reach qsort bsearch call s'"
| delete_ptr: "sk_reach qsort bsearch call s \<Longrightarrow> sk_delete_ptr (Some s) p = (v, Some s') \<Longrightarrow>
     sk_reach qsort bsearch call s'"
| shift: "sk_reach qsort bsearch call s \<Longrightarrow> sk_shift (Some s) = (v, Some s') \<Longrightarrow>
     sk_reach qsort bsearch call s'"
| pop: "sk_reach qsort bsearch call s \<Longrightarrow> sk_pop (Some s) = (v, Some s') \<Longrightarrow>
     sk_reach qsort bsearch call s'"
| push: "sk_reach qsort bsearch call s \<Longrightarrow> sk_push ok s p = (n, Some s') \<Longrightarrow>
     sk_reach qsort bsearch call s'"
| zero: "sk_reach qsort bsearch call s \<Longrightarrow> sk_zero (Some s) = Some s' \<Longrightarrow>
     sk_reach qsort bsearch call s'"
| sort: "sk_reach qsort bsearch call s \<Longrightarrow> sk_sort qsort call (Some s) = Some s' \<Longrightarrow>
     sk_reach qsort bsearch call s'"
| find: "sk_reach qsort bsearch call s \<Longrightarrow>
     sk_find qsort bsearch call (Some s) p = (r, Some s') \<Longrightarrow> sk_reach qsort bsearch call s'"
| set_cmp: "sk_reach qsort bsearch call s \<Longrightarrow>
     sk_reach qsort bsearch call (snd (sk_set_cmp_func s c))"
| dup: "sk_reach qsort bsearch call s \<Longrightarrow> sk_dup ok1 ok2 ok3 (Some s) = Some s' \<Longrightarrow>
     sk_reach qsort bsearch call s'"

lemma cmp_sorted_delete: "cmp_sorted cmp xs \<Longrightarrow> cmp_sorted cmp (delete_at xs i)"
proof (induction xs arbitrary: i)
  case (Cons x xs)
  then show ?case
    by (cases i) (auto simp: cmp_sorted_def delete_at_def dest: in_set_takeD in_set_dropD)
qed (simp add: cmp_sorted_def delete_at_def)

lemma sk_delete_ok:
  assumes "sk_wf s" "sk_sorted_ok call s" "sk_delete (Some s) w = (v, Some s')"
  shows "sk_wf s' \<and> sk_sorted_ok call s'"
proof (cases "w < st_num s")
  case True
  from sk_delete_elems [OF assms(1) True] assms(2,3) cmp_sorted_delete show ?thesis
    unfolding sk_sorted_ok_def by (metis option.inject prod.inject)
qed (use assms in \<open>simp add: sk_delete_def\<close>)

lemma sk_insert_ok:
  assumes "sk_wf s" "sk_sorted_ok call s" "sk_insert ok (Some s) p w = (n, Some s')"
  shows "sk_wf s' \<and> sk_sorted_ok call s'"
  using assms
  by (cases rule: sk_insert_cases [OF assms(1), of ok p w]) (auto simp: sk_sorted_ok_def)

lemma sk_dup_elems:
  assumes "sk_wf s" "sk_dup ok1 ok2 ok3 (Some s) = Some s'"
  shows "sk_wf s' \<and> sk_elems s' = sk_elems s \<and> st_sorted s' = st_sorted s \<and>
    st_comp s' = st_comp s \<and> st_num s' = st_num s"
  using assms
  by (auto simp: sk_dup_def sk_new_def sk_wf_def sk_elems_def blit_def Let_def buf_simps
      split: if_splits)

lemma sk_zero_ok:
  "sk_wf s \<Longrightarrow> sk_sorted_ok call s \<Longrightarrow> sk_zero (Some s) = Some s' \<Longrightarrow> sk_wf s' \<and> sk_sorted_ok call s'"
  by (auto simp: sk_zero_def sk_wf_def sk_sorted_ok_def buf_simps split: if_splits)

context libc_sorting
begin

lemma sk_sort_ok:
  assumes "sk_wf s" "sk_sorted_ok call s" "\<forall>c. total_cmp_on UNIV (call c)"
    "sk_sort qsort call (Some s) = Some s'"
  shows "sk_wf s' \<and> sk_sorted_ok call s'"
proof (cases "st_comp s")
  case None
  with assms show ?thesis by (simp add: sk_sort_def)
next
  case (Some c)
  have "total_cmp_on (set (sk_elems s)) (call c)"
    using assms(3) total_cmp_on_mono by blast
  from sk_sort_spec [OF assms(1) Some this assms(2)] assms(4) show ?thesis
    unfolding sk_sorted_ok_def by (metis option.inject)
qed

lemma sk_find_ok:
  assumes "sk_wf s" "sk_sorted_ok call s" "\<forall>c. total_cmp_on UNIV (call c)"
    "sk_find qsort bsearch call (Some s) p = (r, Some s')"
  shows "sk_wf s' \<and> sk_sorted_ok call s'"
proof -
  consider "s' = s" | "sk_sort qsort call (Some s) = Some s'"
    using assms(4) by (auto simp: sk_find_def split: option.splits if_splits)
  then show ?thesis using assms sk_sort_ok by cases auto
qed

text \<open>Every reachable stack is well formed and its sorted flag is honest.\<close>

lemma sk_reach_ok:
  assumes "sk_reach qsort bsearch call s" "\<forall>c. total_cmp_on UNIV (call c)"
  shows "sk_wf s \<and> sk_sorted_ok call s"
  using assms
proof (induction rule: sk_reach.induct)
  case (new ok1 ok2 c s)
  then show ?case
    by (auto simp: sk_new_def sk_wf_def kMinSize_def sk_sorted_ok_def SIZE_LIMIT_def split: if_splits)
next
  case (delete_ptr s p v s')
  then show ?case
    by (auto simp: sk_delete_ptr_def split: option.splits dest: sk_delete_ok)
next
  case (shift s v s')
  then show ?case by (auto simp: sk_shift_def split: if_splits dest: sk_delete_ok)
next
  case (pop s v s')
  then show ?case by (auto simp: sk_pop_def split: if_splits dest: sk_delete_ok)
next
  case (push s ok p n s')
  then show ?case by (auto simp: sk_push_def dest: sk_insert_ok)
next
  case (set_cmp s c)
  then show ?case
    by (auto simp: sk_set_cmp_func_def sk_wf_def sk_sorted_ok_def sk_elems_def)
next
  case (dup s ok1 ok2 ok3 s')
  then have "sk_wf s" "sk_sorted_ok call s" by auto
  with sk_dup_elems [OF _ dup.hyps(2)] show ?case by (simp add: sk_sorted_ok_def)
qed (blast dest: sk_insert_ok sk_delete_ok sk_zero_ok sk_sort_ok sk_find_ok)+

end

section \<open>The loops over all elements\<close>

lemma map_filter_map_comp: "List.map_filter id (map f xs) = List.map_filter f xs"
  by (induction xs) (simp_all add: map_filter_simps split: option.splits)

lemma call_each_eq:
  "i + n \<le> length d \<Longrightarrow> call_each d i n = map Call (List.map_filter id (take n (drop i d)))"
proof (induction n arbitrary: i)
  case (Suc n)
  then have "take (Suc n) (drop i d) = d ! i # take n (drop (i + 1) d)"
    by (simp add: Cons_nth_drop_Suc [symmetric])
  with Suc show ?case by (simp add: map_filter_simps split: option.splits)
qed (simp add: map_filter_simps)

text \<open>Copying the cells of a list one after the other, as far as the copies succeed.\<close>

definition copied :: "(nat \<Rightarrow> 'a \<Rightarrow> 'a option) \<Rightarrow> 'a option list \<Rightarrow> nat \<Rightarrow> 'a option" where
  "copied copy xs j = (case xs ! j of None \<Rightarrow> None | Some x \<Rightarrow> copy j x)"

definition copies_ok :: "(nat \<Rightarrow> 'a \<Rightarrow> 'a option) \<Rightarrow> 'a option list \<Rightarrow> nat \<Rightarrow> nat \<Rightarrow> bool" where
  "copies_ok copy xs i k \<longleftrightarrow> (\<forall>j\<in>{i..<k}. xs ! j \<noteq> None \<longrightarrow> copied copy xs j \<noteq> None)"

lemma copied_upd: "i \<noteq> j \<Longrightarrow> copied copy (d[i := v]) j = copied copy d j"
  by (simp add: copied_def)

lemma map_copied_upd: "i < l \<Longrightarrow> map (copied copy (d[i := v])) [l..<u] = map (copied copy d) [l..<u]"
  by (simp add: copied_upd)

lemma copies_ok_upd: "i < l \<Longrightarrow> copies_ok copy (d[i := v]) l u = copies_ok copy d l u"
  by (auto simp: copies_ok_def copied_upd)

lemma copies_ok_Suc:
  assumes "i < k"
  shows "copies_ok copy d i k \<longleftrightarrow>
     (d ! i \<noteq> None \<longrightarrow> copied copy d i \<noteq> None) \<and> copies_ok copy d (Suc i) k"
proof -
  have "{i..<k} = insert i {Suc i..<k}" using assms by auto
  then show ?thesis unfolding copies_ok_def by simp
qed

text \<open>
  The loop copies the cells in order; on success the whole range is copied, on failure the
  cells before the failing index are.
\<close>

lemma copy_loop_spec:
  "i + n \<le> length d \<Longrightarrow>
   (case copy_loop copy i n d of
      Inr d' \<Rightarrow> copies_ok copy d i (i + n) \<and>
        d' = take i d @ map (copied copy d) [i..<i + n] @ drop (i + n) d
    | Inl (k, d') \<Rightarrow> i \<le> k \<and> k < i + n \<and> d ! k \<noteq> None \<and> copied copy d k = None \<and>
        copies_ok copy d i k \<and> take k d' = take i d @ map (copied copy d) [i..<k] \<and>
        length d' = length d)"
proof (induction n arbitrary: i d)
  case 0
  then show ?case by (simp add: copies_ok_def)
next
  case (Suc n)
  have step: ?case if loop: "copy_loop copy i (Suc n) d = copy_loop copy (Suc i) n (d[i := v])"
    and v: "v = copied copy d i" and ok: "d ! i \<noteq> None \<longrightarrow> v \<noteq> None" for v
  proof -
    have tk: "take (Suc i) (d[i := v]) = take i d @ [v]"
      using Suc.prems by (simp add: take_Suc_conv_app_nth)
    have le: "Suc i + n \<le> length (d[i := v])" using Suc.prems by simp
    have up: "[i..<k] = i # [Suc i..<k]" if "i < k" for k
      using that by (simp add: upt_conv_Cons)
    note rew = map_copied_upd [OF lessI] copies_ok_upd [OF lessI] tk v [symmetric]
    show ?thesis
    proof (cases "copy_loop copy (Suc i) n (d[i := v])")
      case (Inr d')
      with Suc.IH [OF le] ok show ?thesis
        unfolding loop by (simp add: rew copies_ok_Suc up del: upt_Suc)
    next
      case (Inl e)
      obtain k d' where e: "e = (k, d')" by (cases e)
      from Suc.IH [OF le] Inl e have
        "Suc i \<le> k \<and> k < Suc i + n \<and> (d[i := v]) ! k \<noteq> None \<and> copied copy (d[i := v]) k = None \<and>
         copies_ok copy d (Suc i) k \<and> take k d' = take i d @ v # map (copied copy d) [Suc i..<k] \<and>
         length d' = length d"
        by (auto simp: rew simp del: upt_Suc)
      then show ?thesis
        unfolding loop Inl e using ok by (auto simp: copied_upd copies_ok_Suc up v [symmetric] simp del: upt_Suc)
    qed
  qed
  show ?case
  proof (cases "d ! i")
    case None
    then have "d[i := None] = d" by (metis list_update_id)
    with None show ?thesis by (intro step [of None]) (simp_all add: copied_def)
  next
    case (Some x)
    show ?thesis
    proof (cases "copy i x")
      case None
      with Some Suc.prems show ?thesis by (simp add: copied_def copies_ok_def)
    next
      case y: (Some y)
      with Some show ?thesis by (intro step [of "Some y"]) (simp_all add: copied_def)
    qed
  qed
qed

section \<open>Properties\<close>

text \<open>C22. Insertion into a well-formed stack either reports failure (0) and leaves the stack
  as it was, or returns the new count, keeps the representation invariant (so the next store
  is in bounds and the array size never wraps), puts the element at the requested index (or at
  the end, when the index is past it), shifts the rest, and can be undone by deleting that
  index.\<close>

theorem sk_insert_correct:
  assumes "sk_wf s" and "sk_insert ok (Some s) p w = (n, Some s')"
  shows "if n = 0 then s' = s
         else n = st_num s + 1 \<and> sk_wf s' \<and> sk_elems s' = insert_at (sk_elems s) w p \<and>
              sk_value (Some s') (min w (st_num s)) = p \<and>
              (\<exists>s''. sk_delete (Some s') (min w (st_num s)) = (p, Some s'') \<and>
                     sk_elems s'' = sk_elems s)"
using assms(1)
proof (cases rule: sk_insert_cases [where ok = ok and p = p and w = w])
  case (stored t)
  then have t: "s' = t" "n = st_num s + 1" using assms(2) by auto
  let ?i = "min w (st_num s)"
  have nth: "sk_elems s' ! ?i = p" and del: "delete_at (sk_elems s') ?i = sk_elems s"
    using stored(3) sk_wf_length [OF assms(1)]
    by (auto simp: t insert_at_def delete_at_def nth_append min_def)
  have i: "?i < st_num s'" using stored t by simp
  from sk_delete_elems [OF stored(2) i [unfolded t]]
  obtain s'' where "sk_delete (Some s') ?i = (sk_elems s' ! ?i, Some s'')"
    "sk_elems s'' = delete_at (sk_elems s') ?i" unfolding t by blast
  with stored t nth del i sk_elems_nth [OF i] show ?thesis
    by (simp add: sk_value_def)
qed (use assms(2) in simp)

text \<open>Witness: inserting in the middle of a two-element stack.\<close>

definition ex_stack :: "(nat, unit) sk" where
  "ex_stack = \<lparr>st_num = 2, st_data = [Some 1, Some 2, None, None], st_sorted = False,
               st_num_alloc = 4, st_comp = None\<rparr>"

theorem sk_insert_correct_witness:
  "\<exists>s'. sk_insert True (Some ex_stack) (Some 9) 1 = (3, Some s') \<and>
     sk_elems s' = [Some 1, Some 9, Some 2] \<and> sk_wf s'"
proof -
  have wf: "sk_wf ex_stack" by (simp add: sk_wf_def ex_stack_def SIZE_LIMIT_def)
  obtain s' where s': "sk_insert True (Some ex_stack) (Some 9) 1 = (3, Some s')"
    by (simp add: sk_insert_def ex_stack_def sk_store_def Let_def)
  from sk_insert_correct [OF wf s'] show ?thesis
    using s' by (auto simp: sk_elems_def insert_at_def ex_stack_def)
qed


definition nat_cmp :: "unit \<Rightarrow> nat cmp" where
  "nat_cmp u a b = (case a of None \<Rightarrow> - 1 | Some m \<Rightarrow> int m) - (case b of None \<Rightarrow> - 1 | Some n \<Rightarrow> int n)"

lemma nat_cmp_total: "\<forall>c. total_cmp_on UNIV (nat_cmp c)"
  by (simp add: total_cmp_on_def nat_cmp_def)


text \<open>C24. Without the restriction the search is wrong: \<open>sk_set\<close> stores into a sorted stack
  and leaves the flag \<open>sorted\<close> set, so the next \<open>sk_find\<close> skips sorting and misses an
  element that is in the stack.\<close>

theorem sk_set_stale_sorted:
  "\<exists>s s'. sk_reach libc_qsort libc_bsearch nat_cmp s \<and> sk_set (Some s) 0 (Some 9) = (Some 9, Some s') \<and>
     Some 9 \<in> set (sk_elems s') \<and> sk_is_sorted (Some s') \<and>
     fst (sk_find libc_qsort libc_bsearch nat_cmp (Some s') (Some 9)) = None"
proof -
  obtain s0 where s0: "sk_new True True (Some ()) = Some (s0 :: (nat, unit) sk)"
    by (simp add: sk_new_def)
  obtain s1 n1 where s1: "sk_push True s0 (Some 1) = (n1, Some s1)"
    using s0 by (auto simp: sk_new_def sk_push_def sk_insert_def Let_def kMinSize_def)
  obtain s2 n2 where s2: "sk_push True s1 (Some 2) = (n2, Some s2)"
    using s0 s1 by (auto simp: sk_new_def sk_push_def sk_insert_def Let_def kMinSize_def sk_store_def)
  have v2: "s2 = \<lparr>st_num = 2, st_data = [Some 1, Some 2, None, None], st_sorted = False,
                  st_num_alloc = 4, st_comp = Some ()\<rparr>"
    using s0 s1 s2
    by (auto simp: sk_new_def sk_push_def sk_insert_def Let_def kMinSize_def sk_store_def
        numeral_eq_Suc)
  define s3 where "s3 = s2\<lparr>st_sorted := True\<rparr>"
  have s3: "sk_sort libc_qsort nat_cmp (Some s2) = Some s3"
    by (simp add: v2 s3_def sk_sort_def libc_qsort_def nat_cmp_def)
  have "sk_reach libc_qsort libc_bsearch nat_cmp s3"
    using sk_reach.sort [OF sk_reach.push [OF sk_reach.push [OF sk_reach.new [OF s0] s1] s2] s3] .
  moreover define s4 where "s4 = s3\<lparr>st_data := [Some 9, Some 2, None, None]\<rparr>"
  have "sk_set (Some s3) 0 (Some 9) = (Some 9, Some s4)"
    by (simp add: s4_def s3_def v2 sk_set_def)
  moreover have "fst (sk_find libc_qsort libc_bsearch nat_cmp (Some s4) (Some 9)) = None"
    by (simp add: s4_def s3_def v2 sk_find_def sk_sort_def libc_bsearch_def bsearch_loop.simps
        nat_cmp_def Let_def)
  moreover have "Some 9 \<in> set (sk_elems s4) \<and> sk_is_sorted (Some s4)"
    by (simp add: s4_def s3_def v2 sk_elems_def sk_is_sorted_def)
  ultimately show ?thesis by blast
qed

text \<open>C23. A deep copy of a well-formed stack either yields a stack whose elements are the
  copies, in place, of the original's non-null elements, with the same comparison function, or
  fails; when it fails because a copy fails, exactly the copies made so far are freed, in
  order and once each, followed by the array and the header of the new stack.\<close>

theorem sk_deep_copy_correct:
  assumes "sk_wf s" and "sk_deep_copy ok1 ok2 ok3 copy (Some s) = (r, log)"
  shows "case r of
     Some t \<Rightarrow> log = [] \<and> sk_wf t \<and> st_comp t = st_comp s \<and>
       sk_elems t = map (copied copy (sk_elems s)) [0..<st_num s] \<and>
       (\<forall>j < st_num s. sk_elems s ! j \<noteq> None \<longrightarrow> sk_elems t ! j \<noteq> None)
   | None \<Rightarrow> (log = [] \<and> sk_dup ok1 ok2 ok3 (Some s) = None) \<or>
       (\<exists>k < st_num s. sk_elems s ! k \<noteq> None \<and> copied copy (sk_elems s) k = None \<and>
          log = map Call (List.map_filter (copied copy (sk_elems s)) [0..<k]) @ [FreeData, FreeHeader])"
proof (cases "sk_dup ok1 ok2 ok3 (Some s)")
  case None
  with assms(2) show ?thesis by (simp add: sk_deep_copy_def)
next
  case (Some t)
  from sk_dup_elems [OF assms(1) Some] have t: "sk_wf t" "sk_elems t = sk_elems s"
    "st_comp t = st_comp s" "st_num t = st_num s" by auto
  let ?n = "st_num s" and ?d = "st_data t"
  have n: "?n \<le> length ?d" using t by (simp add: sk_wf_def)
  have same: "?d ! j = sk_elems s ! j" "copied copy ?d j = copied copy (sk_elems s) j" if "j < ?n" for j
    using that t by (simp_all add: copied_def flip: sk_elems_nth t(2))
  have maps: "map (copied copy ?d) [0..<k] = map (copied copy (sk_elems s)) [0..<k]" if "k \<le> ?n" for k
    using that same(2) by simp
  show ?thesis
  proof (cases "copy_loop copy 0 ?n ?d")
    case (Inr d')
    with copy_loop_spec [of 0 ?n ?d copy] n have
      ok: "copies_ok copy ?d 0 ?n" and d': "d' = map (copied copy ?d) [0..<?n] @ drop ?n ?d" by auto
    let ?r = "t\<lparr>st_data := d'\<rparr>"
    have r: "r = Some ?r" "log = []"
      using assms(2) Some Inr t by (auto simp: sk_deep_copy_def)
    have "sk_elems ?r = take ?n d'" using t(4) by (simp add: sk_elems_def)
    also have "\<dots> = map (copied copy (sk_elems s)) [0..<?n]"
      using maps [of ?n] by (simp add: d')
    finally have e: "sk_elems ?r = map (copied copy (sk_elems s)) [0..<?n]" .
    have "sk_wf ?r" using t n by (simp add: sk_wf_def d')
    moreover have "\<forall>j < ?n. sk_elems s ! j \<noteq> None \<longrightarrow> copied copy (sk_elems s) j \<noteq> None"
      using ok by (simp add: copies_ok_def same)
    ultimately show ?thesis using r e t(3) by simp
  next
    case (Inl e)
    obtain k d' where e: "e = (k, d')" by (cases e)
    with copy_loop_spec [of 0 ?n ?d copy] n Inl have
      k: "k < ?n" "?d ! k \<noteq> None" "copied copy ?d k = None"
      "take k d' = map (copied copy ?d) [0..<k]" "length d' = length ?d" by auto
    have "call_each d' 0 k = map Call (List.map_filter (copied copy (sk_elems s)) [0..<k])"
      using k n maps [of k] call_each_eq [of 0 k d'] by (simp add: map_filter_map_comp)
    moreover have "r = None" "log = call_each d' 0 k @ [FreeData, FreeHeader]"
      using assms(2) Some Inl e t by (auto simp: sk_deep_copy_def sk_free_def)
    ultimately show ?thesis using k same by auto
  qed
qed

text \<open>Witness: the second copy of \<open>ex_stack\<close> fails, so the first one is freed.\<close>

theorem sk_deep_copy_correct_witness:
  "sk_wf ex_stack \<and> (\<exists>r log. sk_deep_copy True True True (\<lambda>i x. if i = 1 then None else Some (x + 10))
     (Some ex_stack) = (r, log) \<and> r = None \<and> log = [Call 11, FreeData, FreeHeader])"
proof -
  have wf: "sk_wf ex_stack" by (simp add: sk_wf_def ex_stack_def SIZE_LIMIT_def)
  have run: "sk_deep_copy True True True (\<lambda>i x. if i = 1 then None else Some (x + 10)) (Some ex_stack)
      = (None, [Call 11, FreeData, FreeHeader])"
    by (simp add: sk_deep_copy_def sk_dup_def sk_new_def ex_stack_def kMinSize_def sk_free_def
        realloc_to_def blit_def numeral_eq_Suc)
  show ?thesis using wf run sk_deep_copy_correct [OF wf run] by simp
qed

end
