(* ===== verification/Lhash.thy ===== *)
theory Lhash
  imports Prelude
begin

text \<open>
  The chained hash table of \<^verbatim>\<open>BoringSSL/crypto/lhash/lhash.c\<close>.  A chain of
  \<^verbatim>\<open>LHASH_ITEM\<close>s is the list of its (data, cached hash) pairs, and a pointer to a
  \<open>next\<close> field is a bucket index with a position in its chain.  The locale
  \<open>lhash_contract\<close> states what the table needs of the client's hash and comparison
  functions; under it every operation refines an operation on the bag of stored elements.
\<close>

section \<open>State and operations\<close>

type_synonym 'a lh_item = "'a \<times> u32"

record 'a lhash =
  lh_nitems :: nat
  lh_buckets :: "'a lh_item list list"
  lh_num_buckets :: nat
  lh_callback_depth :: nat
  lh_comp :: "'a \<Rightarrow> 'a \<Rightarrow> int"
  lh_hash :: "'a \<Rightarrow> u32"

definition kMinNumBuckets :: nat where "kMinNumBuckets = 16"
definition kMaxAverageChainLength :: nat where "kMaxAverageChainLength = 2"
definition kMinAverageChainLength :: nat where "kMinAverageChainLength = 1"
definition UINT_MAX :: nat where "UINT_MAX = 4294967295"

definition lh_new ::
  "bool \<Rightarrow> bool \<Rightarrow> ('a \<Rightarrow> u32) \<Rightarrow> ('a \<Rightarrow> 'a \<Rightarrow> int) \<Rightarrow> 'a lhash option" where
  "lh_new ok_hdr ok_buckets hash cmpf =
     (if \<not> ok_hdr then None
      else if \<not> ok_buckets then None
      else Some \<lparr>lh_nitems = 0, lh_buckets = replicate kMinNumBuckets [],
                 lh_num_buckets = kMinNumBuckets, lh_callback_depth = 0,
                 lh_comp = cmpf, lh_hash = hash\<rparr>)"

definition lh_num_items :: "'a lhash \<Rightarrow> nat" where
  "lh_num_items lh = lh_nitems lh"

text \<open>The search loop: the position of the first equal item, or of the chain's end.\<close>

fun chain_pos :: "('a \<Rightarrow> 'a \<Rightarrow> int) \<Rightarrow> 'a \<Rightarrow> 'a lh_item list \<Rightarrow> nat" where
  "chain_pos cmpf d [] = 0"
| "chain_pos cmpf d (cur # cs) =
     (if cmpf (fst cur) d = 0 then 0 else Suc (chain_pos cmpf d cs))"

definition get_next_ptr_and_hash :: "'a lhash \<Rightarrow> 'a \<Rightarrow> u32 \<times> nat \<times> nat" where
  "get_next_ptr_and_hash lh d =
     (let hash = lh_hash lh d; b = unat hash mod lh_num_buckets lh
      in (hash, b, chain_pos (lh_comp lh) d (lh_buckets lh ! b)))"

text \<open>\<open>*next_ptr\<close>: the item the pointer points to, \<open>None\<close> at the end of the chain.\<close>

definition deref :: "'a lhash \<Rightarrow> nat \<Rightarrow> nat \<Rightarrow> 'a lh_item option" where
  "deref lh b i = (if i < length (lh_buckets lh ! b) then Some (lh_buckets lh ! b ! i) else None)"

definition lh_retrieve :: "'a lhash \<Rightarrow> 'a \<Rightarrow> 'a option" where
  "lh_retrieve lh d =
     (case get_next_ptr_and_hash lh d of (_, b, i) \<Rightarrow> map_option fst (deref lh b i))"

fun move_chain :: "nat \<Rightarrow> 'a lh_item list \<Rightarrow> 'a lh_item list list \<Rightarrow> 'a lh_item list list" where
  "move_chain n [] nb = nb"
| "move_chain n (cur # cs) nb =
     (let b = unat (snd cur) mod n in move_chain n cs (nb[b := cur # nb ! b]))"

fun move_all :: "nat \<Rightarrow> 'a lh_item list list \<Rightarrow> 'a lh_item list list \<Rightarrow> 'a lh_item list list" where
  "move_all n [] nb = nb"
| "move_all n (ch # chs) nb = move_all n chs (move_chain n ch nb)"

definition lh_rebucket :: "bool \<Rightarrow> 'a lhash \<Rightarrow> nat \<Rightarrow> 'a lhash" where
  "lh_rebucket ok lh n =
     (let alloc_size = sz (8 * n) in
      if alloc_size div 8 \<noteq> n then lh
      else if \<not> ok then lh
      else lh\<lparr>lh_num_buckets := n,
              lh_buckets := move_all n (lh_buckets lh) (replicate n [])\<rparr>)"

definition lh_maybe_resize :: "bool \<Rightarrow> 'a lhash \<Rightarrow> 'a lhash" where
  "lh_maybe_resize ok lh =
     (if lh_callback_depth lh > 0 then lh
      else let avg = lh_nitems lh div lh_num_buckets lh in
        if avg > kMaxAverageChainLength then
          let n = sz (lh_num_buckets lh * 2) in
          if n > lh_num_buckets lh then lh_rebucket ok lh n else lh
        else if avg < kMinAverageChainLength \<and> lh_num_buckets lh > kMinNumBuckets then
          let n = lh_num_buckets lh div 2;
              n = (if n < kMinNumBuckets then kMinNumBuckets else n)
          in lh_rebucket ok lh n
        else lh)"

text \<open>
  Insertion: return value, \<open>*old_data\<close>, table.  \<open>ok_item\<close> and \<open>ok_buckets\<close> are the
  outcomes of the allocations of the item and of a new bucket array.
\<close>

definition lh_insert ::
  "bool \<Rightarrow> bool \<Rightarrow> 'a lhash \<Rightarrow> 'a \<Rightarrow> bool \<times> 'a option \<times> 'a lhash" where
  "lh_insert ok_item ok_buckets lh d =
     (case get_next_ptr_and_hash lh d of (hash, b, i) \<Rightarrow>
        (case deref lh b i of
           Some item \<Rightarrow>
             (True, Some (fst item),
              lh\<lparr>lh_buckets := (lh_buckets lh)[b := (lh_buckets lh ! b)[i := (d, snd item)]]\<rparr>)
         | None \<Rightarrow>
             if \<not> ok_item then (False, None, lh)
             else (True, None,
                   lh_maybe_resize ok_buckets
                     (lh\<lparr>lh_buckets := (lh_buckets lh)[b := lh_buckets lh ! b @ [(d, hash)]],
                         lh_nitems := lh_nitems lh + 1\<rparr>))))"

definition lh_delete :: "bool \<Rightarrow> 'a lhash \<Rightarrow> 'a \<Rightarrow> 'a option \<times> 'a lhash" where
  "lh_delete ok_buckets lh d =
     (case get_next_ptr_and_hash lh d of (_, b, i) \<Rightarrow>
        (case deref lh b i of
           None \<Rightarrow> (None, lh)
         | Some item \<Rightarrow>
             (Some (fst item),
              lh_maybe_resize ok_buckets
                (lh\<lparr>lh_buckets := (lh_buckets lh)[b := take i (lh_buckets lh ! b) @
                                                   drop (Suc i) (lh_buckets lh ! b)],
                    lh_nitems := lh_nitems lh - 1\<rparr>))))"

text \<open>
  Iteration.  The callback gets an element and the client's state, and answers the new
  client state and whether it deletes that element from the table (with \<open>lh_delete\<close>),
  which is what the flushing callbacks of the library do.  The next pointer is read before
  the call, so the chain walked is the one found when the bucket is reached.
\<close>

fun doall_chain ::
  "bool \<Rightarrow> ('a \<Rightarrow> 's \<Rightarrow> 's \<times> bool) \<Rightarrow> 'a lh_item list \<Rightarrow> 's \<times> 'a lhash \<Rightarrow> 's \<times> 'a lhash" where
  "doall_chain ok f [] st = st"
| "doall_chain ok f (cur # cs) (s, lh) =
     (case f (fst cur) s of (s', del) \<Rightarrow>
        doall_chain ok f cs (s', if del then snd (lh_delete ok lh (fst cur)) else lh))"

fun doall_buckets ::
  "bool \<Rightarrow> ('a \<Rightarrow> 's \<Rightarrow> 's \<times> bool) \<Rightarrow> nat \<Rightarrow> nat \<Rightarrow> 's \<times> 'a lhash \<Rightarrow> 's \<times> 'a lhash" where
  "doall_buckets ok f i 0 st = st"
| "doall_buckets ok f i (Suc n) st =
     doall_buckets ok f (i + 1) n (doall_chain ok f (lh_buckets (snd st) ! i) st)"

definition lh_doall_internal ::
  "bool \<Rightarrow> ('a \<Rightarrow> 's \<Rightarrow> 's \<times> bool) \<Rightarrow> 's \<Rightarrow> 'a lhash \<Rightarrow> 's \<times> 'a lhash" where
  "lh_doall_internal ok f s lh =
     (let lh1 = (if lh_callback_depth lh < UINT_MAX
                 then lh\<lparr>lh_callback_depth := lh_callback_depth lh + 1\<rparr> else lh);
          (s', lh2) = doall_buckets ok f 0 (lh_num_buckets lh1) (s, lh1);
          lh3 = (if lh_callback_depth lh2 < UINT_MAX
                 then lh2\<lparr>lh_callback_depth := lh_callback_depth lh2 - 1\<rparr> else lh2)
      in (s', lh_maybe_resize ok lh3))"

text \<open>
  The reference for an iteration: the callback runs on each element of a list in turn; the
  elements it does not delete remain.
\<close>

fun run_callback :: "('a \<Rightarrow> 's \<Rightarrow> 's \<times> bool) \<Rightarrow> 'a list \<Rightarrow> 's \<Rightarrow> 's \<times> 'a list" where
  "run_callback f [] s = (s, [])"
| "run_callback f (x # xs) s =
     (case f x s of (s1, del) \<Rightarrow>
        (case run_callback f xs s1 of (s2, ks) \<Rightarrow> (s2, if del then ks else x # ks)))"

section \<open>The contract and the invariant\<close>

locale lhash_contract =
  fixes hash :: "'a \<Rightarrow> u32" and cmpf :: "'a \<Rightarrow> 'a \<Rightarrow> int"
  assumes cmp_refl: "cmpf x x = 0"
    and cmp_sym: "cmpf x y = 0 \<Longrightarrow> cmpf y x = 0"
    and cmp_trans: "cmpf x y = 0 \<Longrightarrow> cmpf y z = 0 \<Longrightarrow> cmpf x z = 0"
    and cmp_hash: "cmpf x y = 0 \<Longrightarrow> hash x = hash y"

definition lh_items :: "'a lhash \<Rightarrow> 'a list" where
  "lh_items lh = map fst (concat (lh_buckets lh))"

text \<open>No two elements of a list compare equal.\<close>

definition cmp_distinct :: "('a \<Rightarrow> 'a \<Rightarrow> int) \<Rightarrow> 'a list \<Rightarrow> bool" where
  "cmp_distinct cmpf xs \<longleftrightarrow> sorted_wrt (\<lambda>x y. cmpf x y \<noteq> 0) xs"

text \<open>Every item sits in the bucket of its hash, and the cached hash is right.\<close>

definition placed :: "('a \<Rightarrow> u32) \<Rightarrow> nat \<Rightarrow> 'a lh_item list list \<Rightarrow> bool" where
  "placed hash n bs \<longleftrightarrow>
     (\<forall>b < length bs. \<forall>it \<in> set (bs ! b). snd it = hash (fst it) \<and> unat (hash (fst it)) mod n = b)"

definition lh_inv :: "('a \<Rightarrow> u32) \<Rightarrow> ('a \<Rightarrow> 'a \<Rightarrow> int) \<Rightarrow> 'a lhash \<Rightarrow> bool" where
  "lh_inv hash cmpf lh \<longleftrightarrow>
     lh_hash lh = hash \<and> lh_comp lh = cmpf \<and>
     length (lh_buckets lh) = lh_num_buckets lh \<and> kMinNumBuckets \<le> lh_num_buckets lh \<and>
     lh_num_buckets lh * 8 < SIZE_LIMIT \<and>
     lh_nitems lh = length (lh_items lh) \<and>
     placed hash (lh_num_buckets lh) (lh_buckets lh) \<and>
     (\<forall>ch \<in> set (lh_buckets lh). cmp_distinct cmpf (map fst ch))"

lemma chain_pos_le: "chain_pos cmpf d ch \<le> length ch"
  by (induction ch) auto

lemma chain_pos_found:
  "chain_pos cmpf d ch < length ch \<Longrightarrow> cmpf (fst (ch ! chain_pos cmpf d ch)) d = 0"
  by (induction ch) auto

lemma chain_pos_none:
  "\<not> chain_pos cmpf d ch < length ch \<Longrightarrow> it \<in> set ch \<Longrightarrow> cmpf (fst it) d \<noteq> 0"
  by (induction ch) (auto split: if_splits)

lemma concat_at:
  "b < length bs \<Longrightarrow> concat bs = concat (take b bs) @ bs ! b @ concat (drop (Suc b) bs)"
  by (metis concat.simps(2) concat_append id_take_nth_drop)

lemma concat_update:
  "b < length bs \<Longrightarrow> concat (bs[b := ch]) = concat (take b bs) @ ch @ concat (drop (Suc b) bs)"
  by (simp add: upd_conv_take_nth_drop)

text \<open>The bag of elements after one chain is replaced.\<close>

lemma mset_items_update:
  assumes "b < length bs"
  shows "mset (map fst (concat (bs[b := ch]))) + mset (map fst (bs ! b)) =
         mset (map fst (concat bs)) + mset (map fst ch)"
  using concat_at [OF assms] concat_update [OF assms, of ch] by simp

lemma cmp_distinct_append:
  "cmp_distinct cmpf (xs @ ys) \<longleftrightarrow>
     cmp_distinct cmpf xs \<and> cmp_distinct cmpf ys \<and> (\<forall>x\<in>set xs. \<forall>y\<in>set ys. cmpf x y \<noteq> 0)"
  by (simp add: cmp_distinct_def sorted_wrt_append)

lemma cmp_distinct_simps [simp]:
  "cmp_distinct cmpf []" "cmp_distinct cmpf [x]"
  by (simp_all add: cmp_distinct_def)

lemma cmp_distinct_Cons:
  "cmp_distinct cmpf (x # xs) \<longleftrightarrow> (\<forall>y\<in>set xs. cmpf x y \<noteq> 0) \<and> cmp_distinct cmpf xs"
  by (simp add: cmp_distinct_def)

lemma placedD:
  "placed hash n bs \<Longrightarrow> b < length bs \<Longrightarrow> it \<in> set (bs ! b) \<Longrightarrow>
   snd it = hash (fst it) \<and> unat (hash (fst it)) mod n = b"
  unfolding placed_def by blast

lemma placed_update:
  "placed hash n bs \<Longrightarrow> \<forall>it\<in>set ch. snd it = hash (fst it) \<and> unat (hash (fst it)) mod n = b \<Longrightarrow>
   placed hash n (bs[b := ch])"
  unfolding placed_def by (metis length_list_update nth_list_update_eq nth_list_update_neq)

lemma placed_item:
  assumes "placed hash n bs" "length bs = n" "it \<in> set (concat bs)"
  shows "snd it = hash (fst it) \<and> it \<in> set (bs ! (unat (hash (fst it)) mod n))"
proof -
  from assms(3) obtain b where "b < length bs" "it \<in> set (bs ! b)"
    by (metis UN_E in_set_conv_nth set_concat)
  with placedD [OF assms(1)] show ?thesis by auto
qed

section \<open>Rebucketing\<close>

lemma move_chain_spec:
  assumes "length nb = n" "0 < n" "placed hash n nb" "\<forall>it\<in>set ch. snd it = hash (fst it)"
  shows "length (move_chain n ch nb) = n \<and> placed hash n (move_chain n ch nb) \<and>
         mset (concat (move_chain n ch nb)) = mset (concat nb) + mset ch"
  using assms
proof (induction ch arbitrary: nb)
  case (Cons c cs)
  define b where "b = unat (snd c) mod n"
  define nb1 where "nb1 = nb[b := c # nb ! b]"
  have b: "b < length nb" using Cons.prems by (simp add: b_def)
  have c: "snd c = hash (fst c)" using Cons.prems(4) by simp
  have p: "placed hash n nb1"
    unfolding nb1_def using Cons.prems(3) placedD [OF Cons.prems(3) b] c
    by (intro placed_update) (auto simp: b_def)
  have m: "mset (concat nb1) = mset (concat nb) + {#c#}"
    using concat_at [OF b] by (simp add: nb1_def concat_update [OF b])
  have "move_chain n (c # cs) nb = move_chain n cs nb1"
    by (simp add: nb1_def b_def Let_def)
  moreover have "length nb1 = n" using Cons.prems(1) by (simp add: nb1_def)
  ultimately show ?case
    using Cons.IH [of nb1] p m Cons.prems(2,4) by simp
qed simp

lemma move_all_spec:
  assumes "length nb = n" "0 < n" "placed hash n nb"
    "\<forall>ch\<in>set chs. \<forall>it\<in>set ch. snd it = hash (fst it)"
  shows "length (move_all n chs nb) = n \<and> placed hash n (move_all n chs nb) \<and>
         mset (concat (move_all n chs nb)) = mset (concat nb) + mset (concat chs)"
  using assms
proof (induction chs arbitrary: nb)
  case (Cons ch chs)
  with move_chain_spec [of nb n hash ch] Cons.IH [of "move_chain n ch nb"] show ?case by simp
qed simp

lemma mset_move_all:
  assumes "length bs = m" "placed hash m bs" "0 < n"
  shows "mset (concat (move_all n bs (replicate n []))) = mset (concat bs)"
    and "placed hash n (move_all n bs (replicate n []))"
    and "length (move_all n bs (replicate n [])) = n"
proof -
  have "\<forall>ch\<in>set bs. \<forall>it\<in>set ch. snd it = hash (fst it)"
    using placedD [OF assms(2)] by (metis in_set_conv_nth)
  from move_all_spec [OF _ assms(3) _ this, of "replicate n []"]
  show "mset (concat (move_all n bs (replicate n []))) = mset (concat bs)"
    and "placed hash n (move_all n bs (replicate n []))"
    and "length (move_all n bs (replicate n [])) = n"
    by (simp_all add: placed_def)
qed

text \<open>
  Elements with distinct contents stay distinct in whatever chain they end up in: pairwise
  inequality of a bag does not depend on the order.
\<close>

lemma cmp_distinct_mset:
  assumes sym: "\<And>x y. cmpf x y = 0 \<Longrightarrow> cmpf y x = 0" and "mset xs = mset ys" "cmp_distinct cmpf xs"
  shows "cmp_distinct cmpf ys"
  using assms(2,3)
proof (induction ys arbitrary: xs)
  case (Cons y ys)
  then have "y \<in> set xs" by (metis list.set_intros(1) set_mset_mset)
  then obtain as bs where xs: "xs = as @ y # bs" by (meson split_list)
  with Cons.prems have m: "mset (as @ bs) = mset ys" by simp
  have d: "cmp_distinct cmpf (as @ bs)" "\<forall>z\<in>set (as @ bs). cmpf y z \<noteq> 0"
    using Cons.prems(2) sym unfolding xs cmp_distinct_append cmp_distinct_Cons by auto
  have "set ys = set (as @ bs)" using m by (metis set_mset_mset)
  with d Cons.IH [OF m] show ?case by (simp add: cmp_distinct_Cons)
qed simp

context lhash_contract
begin

lemma cmp_distinct_unique:
  "cmp_distinct cmpf xs \<Longrightarrow> x \<in> set xs \<Longrightarrow> y \<in> set xs \<Longrightarrow> cmpf x y = 0 \<Longrightarrow> x = y"
  by (induction xs) (auto simp: cmp_distinct_Cons dest: cmp_sym)

text \<open>What the search finds, in a table that satisfies the invariant.\<close>

lemma search_cases:
  assumes inv: "lh_inv hash cmpf lh"
  obtains (none) b i where "get_next_ptr_and_hash lh d = (hash d, b, i)"
    "b = unat (hash d) mod lh_num_buckets lh" "b < length (lh_buckets lh)"
    "deref lh b i = None" "i = length (lh_buckets lh ! b)"
    "\<forall>x\<in>set (lh_items lh). cmpf x d \<noteq> 0"
  | (some) b i x where "get_next_ptr_and_hash lh d = (hash d, b, i)"
    "b = unat (hash d) mod lh_num_buckets lh" "b < length (lh_buckets lh)"
    "deref lh b i = Some (x, hash d)" "i < length (lh_buckets lh ! b)"
    "lh_buckets lh ! b ! i = (x, hash d)" "cmpf x d = 0" "x \<in> set (lh_items lh)"
    "\<forall>y\<in>set (lh_items lh). cmpf y d = 0 \<longrightarrow> y = x"
proof -
  define b where "b = unat (hash d) mod lh_num_buckets lh"
  define ch where "ch = lh_buckets lh ! b"
  define i where "i = chain_pos cmpf d ch"
  have pl: "placed hash (lh_num_buckets lh) (lh_buckets lh)"
    and len: "length (lh_buckets lh) = lh_num_buckets lh"
    using inv by (simp_all add: lh_inv_def)
  have b: "b < length (lh_buckets lh)"
    using inv by (simp add: lh_inv_def b_def kMinNumBuckets_def)
  then have dist: "cmp_distinct cmpf (map fst ch)"
    using inv by (simp add: lh_inv_def ch_def)
  have get: "get_next_ptr_and_hash lh d = (hash d, b, i)"
    using inv by (simp add: get_next_ptr_and_hash_def lh_inv_def b_def i_def ch_def Let_def)
  have here: "y \<in> set (map fst ch)" if "y \<in> set (lh_items lh)" "cmpf y d = 0" for y
  proof -
    from that(1) obtain it where "it \<in> set (concat (lh_buckets lh))" "y = fst it"
      by (auto simp: lh_items_def)
    with placed_item [OF pl len, of it] cmp_hash [OF that(2)] show ?thesis
      by (auto simp: ch_def b_def)
  qed
  show thesis
  proof (cases "i < length ch")
    case False
    have "cmpf x d \<noteq> 0" if x: "x \<in> set (lh_items lh)" for x
    proof
      assume z: "cmpf x d = 0"
      obtain it where "it \<in> set ch" "x = fst it" using here [OF x z] by auto
      with z False chain_pos_none [of cmpf d ch it] show False by (simp add: i_def)
    qed
    moreover have "i = length ch" using False chain_pos_le [of cmpf d ch] by (simp add: i_def)
    ultimately show thesis
      using False by (intro none [OF get b_def b]) (simp_all add: deref_def ch_def)
  next
    case True
    obtain x h where x: "ch ! i = (x, h)" by (cases "ch ! i")
    have mem: "(x, h) \<in> set ch" using True x by (metis nth_mem)
    have z: "cmpf x d = 0" using chain_pos_found [of cmpf d ch] True x by (simp add: i_def)
    have "h = hash x" using placedD [OF pl b] mem by (auto simp: ch_def)
    then have h: "h = hash d" using cmp_hash [OF z] by simp
    have xm: "x \<in> set (map fst ch)" using imageI [OF mem, of fst] by simp
    have "(x, h) \<in> set (concat (lh_buckets lh))" using mem b by (auto simp: ch_def)
    then have xi: "x \<in> set (lh_items lh)" using imageI [of "(x, h)" _ fst] by (simp add: lh_items_def)
    have uniq: "y = x" if "y \<in> set (lh_items lh)" "cmpf y d = 0" for y
      by (rule cmp_distinct_unique [OF dist here [OF that] xm])
        (rule cmp_trans [OF that(2) cmp_sym [OF z]])
    show thesis
    proof (rule some [OF get b_def b _ _ _ z xi])
      show "lh_buckets lh ! b ! i = (x, hash d)" "i < length (lh_buckets lh ! b)"
        "deref lh b i = Some (x, hash d)"
        using True x h by (simp_all add: deref_def ch_def)
    qed (use uniq in blast)
  qed
qed

lemma lh_retrieve_iff:
  "lh_inv hash cmpf lh \<Longrightarrow> lh_retrieve lh d = Some x \<longleftrightarrow> x \<in> set (lh_items lh) \<and> cmpf x d = 0"
proof (erule search_cases [of lh d])
  show ?thesis if "get_next_ptr_and_hash lh d = (hash d, b, i)" "deref lh b i = None"
    "\<forall>x\<in>set (lh_items lh). cmpf x d \<noteq> 0" for b i
    using that by (auto simp: lh_retrieve_def)
  show ?thesis if "get_next_ptr_and_hash lh d = (hash d, b, i)" "deref lh b i = Some (y, hash d)"
    "cmpf y d = 0" "y \<in> set (lh_items lh)" "\<forall>z\<in>set (lh_items lh). cmpf z d = 0 \<longrightarrow> z = y" for b i y
  proof -
    have "lh_retrieve lh d = Some y" using that(1,2) by (simp add: lh_retrieve_def)
    then show ?thesis using that(3-5) by (metis option.inject)
  qed
qed

lemma lh_retrieve_None:
  "lh_inv hash cmpf lh \<Longrightarrow> lh_retrieve lh d = None \<longleftrightarrow> (\<forall>x\<in>set (lh_items lh). cmpf x d \<noteq> 0)"
  by (metis lh_retrieve_iff option.exhaust option.simps(3))

text \<open>All elements of the table are pairwise different, not only those of one chain.\<close>

lemma chains_distinct:
  assumes "placed hash n bs" "length bs = n" "\<forall>ch\<in>set bs. cmp_distinct cmpf (map fst ch)" "k \<le> n"
  shows "cmp_distinct cmpf (map fst (concat (take k bs)))"
  using assms(4)
proof (induction k)
  case (Suc k)
  then have k: "k < length bs" using assms(2) by simp
  have "cmpf (fst x) (fst y) \<noteq> 0" if x: "x \<in> set (concat (take k bs))" and y: "y \<in> set (bs ! k)" for x y
  proof
    assume "cmpf (fst x) (fst y) = 0"
    then have eq: "hash (fst x) = hash (fst y)" by (rule cmp_hash)
    obtain ch where ch: "ch \<in> set (take k bs)" "x \<in> set ch" using x by auto
    obtain j where "j < k" "ch = bs ! j" using ch(1) by (auto simp: in_set_conv_nth)
    with ch(2) have "j < k" "x \<in> set (bs ! j)" by simp_all
    then have "unat (hash (fst x)) mod n = j"
      using placedD [OF assms(1) less_trans [OF \<open>j < k\<close> k]] by blast
    moreover have "unat (hash (fst y)) mod n = k"
      using placedD [OF assms(1) k y] by blast
    ultimately show False using eq \<open>j < k\<close> by simp
  qed
  then have "\<forall>x\<in>set (map fst (concat (take k bs))). \<forall>y\<in>set (map fst (bs ! k)). cmpf x y \<noteq> 0"
    unfolding set_map by blast
  moreover have "cmp_distinct cmpf (map fst (bs ! k))" using assms(3) k by simp
  moreover have "cmp_distinct cmpf (map fst (concat (take k bs)))" using Suc by simp
  ultimately show ?case
    using k by (simp only: take_Suc_conv_app_nth concat_append map_append cmp_distinct_append
        concat.simps append_Nil2)
qed simp

lemma lh_items_distinct:
  assumes "lh_inv hash cmpf lh"
  shows "cmp_distinct cmpf (lh_items lh)"
proof -
  from assms have "placed hash (lh_num_buckets lh) (lh_buckets lh)"
    "length (lh_buckets lh) = lh_num_buckets lh"
    "\<forall>ch\<in>set (lh_buckets lh). cmp_distinct cmpf (map fst ch)"
    by (simp_all add: lh_inv_def)
  from chains_distinct [OF this order.refl] this(2) show ?thesis by (simp add: lh_items_def)
qed

section \<open>Resizing and the operations\<close>

text \<open>
  The elements of a table after its buckets are exchanged for others that hold the same
  items in the right places.
\<close>

lemma lh_inv_rebucket:
  assumes inv: "lh_inv hash cmpf lh" and n: "kMinNumBuckets \<le> n" "n * 8 < SIZE_LIMIT"
    and bs: "length bs = n" "placed hash n bs" "mset (concat bs) = mset (concat (lh_buckets lh))"
  shows "lh_inv hash cmpf (lh\<lparr>lh_num_buckets := n, lh_buckets := bs\<rparr>)"
    and "mset (map fst (concat bs)) = mset (lh_items lh)"
proof -
  show m: "mset (map fst (concat bs)) = mset (lh_items lh)"
    using bs(3) by (simp add: lh_items_def)
  then have len: "length (map fst (concat bs)) = length (lh_items lh)"
    by (rule mset_eq_length)
  have "cmp_distinct cmpf (map fst (concat bs))"
    by (rule cmp_distinct_mset [OF cmp_sym m [symmetric] lh_items_distinct [OF inv]])
  then have "cmp_distinct cmpf (map fst ch)" if "ch \<in> set bs" for ch
    using split_list [OF that] by (auto simp: cmp_distinct_append)
  then show "lh_inv hash cmpf (lh\<lparr>lh_num_buckets := n, lh_buckets := bs\<rparr>)"
    using inv n bs(1,2) len by (simp add: lh_inv_def lh_items_def)
qed

lemma lh_rebucket_spec:
  assumes inv: "lh_inv hash cmpf lh" and n: "kMinNumBuckets \<le> n" "n < SIZE_LIMIT"
  shows "lh_inv hash cmpf (lh_rebucket ok lh n) \<and>
         mset (lh_items (lh_rebucket ok lh n)) = mset (lh_items lh) \<and>
         lh_callback_depth (lh_rebucket ok lh n) = lh_callback_depth lh"
proof (cases "sz (8 * n) div 8 \<noteq> n \<or> \<not> ok")
  case True
  then show ?thesis using inv by (auto simp: lh_rebucket_def Let_def)
next
  case False
  then have n8: "n * 8 < SIZE_LIMIT"
    using alloc_check [OF n(2)] by (simp add: mult.commute)
  let ?bs = "move_all n (lh_buckets lh) (replicate n [])"
  have eq: "lh_rebucket ok lh n = lh\<lparr>lh_num_buckets := n, lh_buckets := ?bs\<rparr>"
    using False by (simp add: lh_rebucket_def Let_def)
  have pos: "0 < n" using n by (simp add: kMinNumBuckets_def)
  have "length (lh_buckets lh) = lh_num_buckets lh" "placed hash (lh_num_buckets lh) (lh_buckets lh)"
    using inv by (simp_all add: lh_inv_def)
  from lh_inv_rebucket [OF inv n(1) n8 mset_move_all(3,2,1) [OF this pos]]
  show ?thesis unfolding eq by (simp add: lh_items_def)
qed

lemma lh_maybe_resize_spec:
  assumes inv: "lh_inv hash cmpf lh"
  shows "lh_inv hash cmpf (lh_maybe_resize ok lh) \<and>
         mset (lh_items (lh_maybe_resize ok lh)) = mset (lh_items lh) \<and>
         lh_callback_depth (lh_maybe_resize ok lh) = lh_callback_depth lh"
proof -
  have n: "kMinNumBuckets \<le> lh_num_buckets lh" "lh_num_buckets lh < SIZE_LIMIT"
    using inv by (simp_all add: lh_inv_def)
  have small: "kMinNumBuckets < SIZE_LIMIT"
    by (simp add: kMinNumBuckets_def SIZE_LIMIT_def)
  have half: "lh_num_buckets lh div 2 < SIZE_LIMIT" using n(2) by simp
  let ?n1 = "sz (lh_num_buckets lh * 2)"
    and ?n2 = "if lh_num_buckets lh div 2 < kMinNumBuckets then kMinNumBuckets
               else lh_num_buckets lh div 2"
  have "lh_maybe_resize ok lh = lh \<or>
    lh_maybe_resize ok lh = lh_rebucket ok lh ?n1 \<and> lh_num_buckets lh < ?n1 \<or>
    lh_maybe_resize ok lh = lh_rebucket ok lh ?n2"
    unfolding lh_maybe_resize_def Let_def by presburger
  moreover have "kMinNumBuckets \<le> ?n2" "?n2 < SIZE_LIMIT" using small half by simp_all
  ultimately show ?thesis
    using inv n(1) lh_rebucket_spec [OF inv, of ?n1 ok] lh_rebucket_spec [OF inv, of ?n2 ok]
    by (elim disjE) simp_all
qed

text \<open>The table right after one chain was changed, before any resizing.\<close>

lemma lh_inv_update:
  assumes inv: "lh_inv hash cmpf lh" and b: "b < length (lh_buckets lh)"
    and ch: "\<forall>it\<in>set ch. snd it = hash (fst it) \<and> unat (hash (fst it)) mod lh_num_buckets lh = b"
    and d: "cmp_distinct cmpf (map fst ch)"
    and k: "k = length (lh_items lh) + length ch - length (lh_buckets lh ! b)"
  shows "lh_inv hash cmpf (lh\<lparr>lh_buckets := (lh_buckets lh)[b := ch], lh_nitems := k\<rparr>)"
    and "mset (lh_items (lh\<lparr>lh_buckets := (lh_buckets lh)[b := ch], lh_nitems := k\<rparr>)) +
         mset (map fst (lh_buckets lh ! b)) = mset (lh_items lh) + mset (map fst ch)"
proof -
  let ?lh = "lh\<lparr>lh_buckets := (lh_buckets lh)[b := ch], lh_nitems := k\<rparr>"
  show m: "mset (lh_items ?lh) + mset (map fst (lh_buckets lh ! b)) = mset (lh_items lh) + mset (map fst ch)"
    using mset_items_update [OF b, of ch] by (simp add: lh_items_def)
  have "length (lh_items ?lh) + length (lh_buckets lh ! b) = length (lh_items lh) + length ch"
    using arg_cong [OF m, of size] by simp
  then have "k = length (lh_items ?lh)" using k by simp
  moreover have "placed hash (lh_num_buckets lh) ((lh_buckets lh)[b := ch])"
    using inv ch by (intro placed_update) (simp_all add: lh_inv_def)
  moreover have "\<forall>c\<in>set ((lh_buckets lh)[b := ch]). cmp_distinct cmpf (map fst c)"
    using inv d set_update_subset_insert [of "lh_buckets lh" b ch] by (auto simp: lh_inv_def)
  ultimately show "lh_inv hash cmpf ?lh" using inv by (simp add: lh_inv_def)
qed

text \<open>The element found, as a bag of at most one element.\<close>

lemma lh_insert_spec:
  assumes inv: "lh_inv hash cmpf lh" and run: "lh_insert ok1 ok2 lh d = (r, old, lh')"
  shows "if r then lh_inv hash cmpf lh' \<and> old = lh_retrieve lh d \<and>
           lh_callback_depth lh' = lh_callback_depth lh \<and>
           mset (lh_items lh') + mset_set (set_option old) = add_mset d (mset (lh_items lh))
         else \<not> ok1 \<and> lh' = lh \<and> old = None \<and> lh_retrieve lh d = None"
  using inv
proof (cases rule: search_cases [where d = d])
  case (none b i)
  have ret: "lh_retrieve lh d = None" using none by (simp add: lh_retrieve_def)
  show ?thesis
  proof (cases ok1)
    case False
    then show ?thesis using run none ret by (simp add: lh_insert_def)
  next
    case True
    let ?ch = "lh_buckets lh ! b @ [(d, hash d)]"
    let ?lh = "lh\<lparr>lh_buckets := (lh_buckets lh)[b := ?ch], lh_nitems := lh_nitems lh + 1\<rparr>"
    have eq: "r" "old = None" "lh' = lh_maybe_resize ok2 ?lh"
      using run none True by (auto simp: lh_insert_def)
    have pl: "placed hash (lh_num_buckets lh) (lh_buckets lh)"
      and ds: "cmp_distinct cmpf (map fst (lh_buckets lh ! b))"
      and ni: "lh_nitems lh = length (lh_items lh)"
      using inv none(3) by (simp_all add: lh_inv_def)
    have "\<forall>it\<in>set ?ch. snd it = hash (fst it) \<and> unat (hash (fst it)) mod lh_num_buckets lh = b"
      using placedD [OF pl none(3)] none(2) by auto
    moreover have "cmp_distinct cmpf (map fst ?ch)"
      using ds none(3,6) by (auto simp: cmp_distinct_append lh_items_def)
    ultimately have "lh_inv hash cmpf ?lh" "mset (lh_items ?lh) = add_mset d (mset (lh_items lh))"
      using lh_inv_update [OF inv none(3), of ?ch "lh_nitems lh + 1"] ni by simp_all
    with lh_maybe_resize_spec [of ?lh ok2] eq ret show ?thesis by simp
  qed
next
  case (some b i x)
  let ?ch = "(lh_buckets lh ! b)[i := (d, hash d)]"
  let ?lh = "lh\<lparr>lh_buckets := (lh_buckets lh)[b := ?ch]\<rparr>"
  have eq: "r" "old = Some x" "lh' = ?lh" and ret: "lh_retrieve lh d = Some x"
    using run some(1,4) by (auto simp: lh_insert_def lh_retrieve_def)
  have pl: "placed hash (lh_num_buckets lh) (lh_buckets lh)"
    and ds: "cmp_distinct cmpf (map fst (lh_buckets lh ! b))"
    and ni: "lh_nitems lh = length (lh_items lh)"
    using inv some(3) by (simp_all add: lh_inv_def)
  have split: "lh_buckets lh ! b = take i (lh_buckets lh ! b) @ (x, hash d) # drop (Suc i) (lh_buckets lh ! b)"
    using id_take_nth_drop [OF some(5)] some(6) by simp
  have ch: "?ch = take i (lh_buckets lh ! b) @ (d, hash d) # drop (Suc i) (lh_buckets lh ! b)"
    using some(5) by (simp add: upd_conv_take_nth_drop)
  have P: "\<forall>it\<in>set ?ch. snd it = hash (fst it) \<and> unat (hash (fst it)) mod lh_num_buckets lh = b"
  proof
    fix it assume "it \<in> set ?ch"
    then consider "it = (d, hash d)" | "it \<in> set (lh_buckets lh ! b)"
      using set_update_subset_insert [of "lh_buckets lh ! b" i "(d, hash d)"] by blast
    then show "snd it = hash (fst it) \<and> unat (hash (fst it)) mod lh_num_buckets lh = b"
    proof cases
      case 1
      then show ?thesis by (simp add: some(2))
    qed (rule placedD [OF pl some(3)])
  qed
  have D: "cmp_distinct cmpf (map fst ?ch)"
  proof -
    have dx: "cmpf a d = 0 \<longleftrightarrow> cmpf a x = 0" "cmpf d a = 0 \<longleftrightarrow> cmpf x a = 0" for a
      using some(7) cmp_sym cmp_trans by blast+
    have "cmp_distinct cmpf (map fst (take i (lh_buckets lh ! b) @ (x, hash d) # drop (Suc i) (lh_buckets lh ! b)))"
      using ds split by simp
    then show ?thesis unfolding ch by (simp add: cmp_distinct_append cmp_distinct_Cons dx)
  qed
  have M: "mset (map fst ?ch) + {#x#} = mset (map fst (lh_buckets lh ! b)) + {#d#}"
    using arg_cong [OF split, of "\<lambda>c. mset (map fst c)"] unfolding ch by simp
  have N: "lh_nitems lh = length (lh_items lh) + length ?ch - length (lh_buckets lh ! b)"
    using ni by simp
  have id: "lh\<lparr>lh_buckets := (lh_buckets lh)[b := ?ch], lh_nitems := lh_nitems lh\<rparr> = ?lh"
    by simp
  note upd = lh_inv_update [OF inv some(3) P D N, unfolded id]
  show ?thesis using eq ret upd(1) bag_exchange [OF upd(2) M] by simp
qed

lemma lh_delete_spec:
  assumes inv: "lh_inv hash cmpf lh" and run: "lh_delete ok lh d = (r, lh')"
  shows "lh_inv hash cmpf lh' \<and> r = lh_retrieve lh d \<and>
         lh_callback_depth lh' = lh_callback_depth lh \<and>
         mset (lh_items lh') + mset_set (set_option r) = mset (lh_items lh)"
  using inv
proof (cases rule: search_cases [where d = d])
  case (none b i)
  with inv run show ?thesis by (simp add: lh_delete_def lh_retrieve_def)
next
  case (some b i x)
  let ?B = "lh_buckets lh ! b"
  let ?ch = "take i ?B @ drop (Suc i) ?B"
  let ?lh = "lh\<lparr>lh_buckets := (lh_buckets lh)[b := ?ch], lh_nitems := lh_nitems lh - 1\<rparr>"
  have eq: "r = Some x" "lh' = lh_maybe_resize ok ?lh" and ret: "lh_retrieve lh d = Some x"
    using run some(1,4) by (auto simp: lh_delete_def lh_retrieve_def)
  have pl: "placed hash (lh_num_buckets lh) (lh_buckets lh)"
    and ds: "cmp_distinct cmpf (map fst ?B)" and ni: "lh_nitems lh = length (lh_items lh)"
    using inv some(3) by (simp_all add: lh_inv_def)
  have split: "?B = take i ?B @ (x, hash d) # drop (Suc i) ?B"
    using id_take_nth_drop [OF some(5)] some(6) by simp
  have "set ?ch \<subseteq> set ?B" by (auto dest: in_set_takeD in_set_dropD)
  then have P: "\<forall>it\<in>set ?ch. snd it = hash (fst it) \<and> unat (hash (fst it)) mod lh_num_buckets lh = b"
    using placedD [OF pl some(3)] by blast
  have D: "cmp_distinct cmpf (map fst ?ch)"
    using arg_cong [OF split, of "\<lambda>c. cmp_distinct cmpf (map fst c)"] ds
    by (simp add: cmp_distinct_append cmp_distinct_Cons)
  have M: "mset (map fst ?ch) + {#x#} = mset (map fst ?B) + {#}"
    using arg_cong [OF split, of "\<lambda>c. mset (map fst c)"] by simp
  have N: "lh_nitems lh - 1 = length (lh_items lh) + length ?ch - length ?B"
    using ni arg_cong [OF split, of length] by simp
  note upd = lh_inv_update [OF inv some(3) P D N]
  show ?thesis
    using eq ret lh_maybe_resize_spec [OF upd(1), of ok] bag_exchange [OF upd(2) M] by simp
qed

lemma cmp_distinct_distinct: "cmp_distinct cmpf xs \<Longrightarrow> distinct xs"
  by (induction xs) (auto simp: cmp_distinct_Cons cmp_refl)

lemma lh_items_count:
  "lh_inv hash cmpf lh \<Longrightarrow> count (mset (lh_items lh)) x = (if x \<in> set (lh_items lh) then 1 else 0)"
  using cmp_distinct_distinct [OF lh_items_distinct] distinct_count_atmost_1 by blast

lemma lh_retrieve_eqI:
  assumes "lh_inv hash cmpf lh" "lh_inv hash cmpf lh'"
    and "\<And>x. cmpf x k = 0 \<Longrightarrow> x \<in> set (lh_items lh') \<longleftrightarrow> x \<in> set (lh_items lh)"
  shows "lh_retrieve lh' k = lh_retrieve lh k"
proof (cases "lh_retrieve lh k")
  case None
  then show ?thesis
    using assms(3) lh_retrieve_None [OF assms(1)] lh_retrieve_None [OF assms(2)] by metis
next
  case (Some x)
  then have "x \<in> set (lh_items lh)" "cmpf x k = 0" using lh_retrieve_iff [OF assms(1)] by simp_all
  then show ?thesis using assms(3) Some lh_retrieve_iff [OF assms(2)] by simp
qed

lemma cmp_cong: "cmpf x d = 0 \<Longrightarrow> cmpf x k = 0 \<Longrightarrow> cmpf d k = 0"
  using cmp_sym cmp_trans by blast

text \<open>The table as a map from equality classes to the element stored for the class.\<close>

lemma lh_retrieve_insert:
  assumes inv: "lh_inv hash cmpf lh" and run: "lh_insert ok1 ok2 lh d = (True, old, lh')"
  shows "lh_retrieve lh' k = (if cmpf d k = 0 then Some d else lh_retrieve lh k)"
proof -
  have sp: "lh_inv hash cmpf lh'" "old = lh_retrieve lh d"
    "mset (lh_items lh') + mset_set (set_option old) = add_mset d (mset (lh_items lh))"
    using lh_insert_spec [OF inv run] by auto
  have mem: "x \<in> set (lh_items lh') \<longleftrightarrow> x = d \<or> x \<in> set (lh_items lh) \<and> old \<noteq> Some x" for x
  proof -
    have "old = Some x \<Longrightarrow> x \<in> set (lh_items lh)"
      using sp(2) lh_retrieve_iff [OF inv] by simp
    moreover have "count (mset (lh_items lh')) x + (if old = Some x then 1 else 0) =
        count (mset (lh_items lh)) x + (if x = d then 1 else 0)"
      using arg_cong [OF sp(3), of "\<lambda>M. count M x"] by (cases old) (auto split: if_splits)
    ultimately show ?thesis
      unfolding lh_items_count [OF inv] lh_items_count [OF sp(1)] by (auto split: if_splits)
  qed
  show ?thesis
  proof (cases "cmpf d k = 0")
    case True
    then show ?thesis using mem [of d] lh_retrieve_iff [OF sp(1)] by simp
  next
    case False
    have "x \<in> set (lh_items lh') \<longleftrightarrow> x \<in> set (lh_items lh)" if "cmpf x k = 0" for x
    proof -
      have "old \<noteq> Some x"
        using False that cmp_cong sp(2) lh_retrieve_iff [OF inv] by metis
      moreover have "x \<noteq> d" using False that by auto
      ultimately show ?thesis using mem [of x] by simp
    qed
    with lh_retrieve_eqI [OF inv sp(1)] False show ?thesis by simp
  qed
qed

lemma lh_retrieve_delete:
  assumes inv: "lh_inv hash cmpf lh" and run: "lh_delete ok lh d = (r, lh')"
  shows "lh_retrieve lh' k = (if cmpf d k = 0 then None else lh_retrieve lh k)"
proof -
  have sp: "lh_inv hash cmpf lh'" "r = lh_retrieve lh d"
    "mset (lh_items lh') + mset_set (set_option r) = mset (lh_items lh)"
    using lh_delete_spec [OF inv run] by auto
  have mem: "x \<in> set (lh_items lh') \<longleftrightarrow> x \<in> set (lh_items lh) \<and> r \<noteq> Some x" for x
  proof -
    have "count (mset (lh_items lh')) x + (if r = Some x then 1 else 0) =
        count (mset (lh_items lh)) x"
      using arg_cong [OF sp(3), of "\<lambda>M. count M x"] by (cases r) (auto split: if_splits)
    then show ?thesis
      unfolding lh_items_count [OF inv] lh_items_count [OF sp(1)] by (auto split: if_splits)
  qed
  show ?thesis
  proof (cases "cmpf d k = 0")
    case True
    have "cmpf x k \<noteq> 0" if x: "x \<in> set (lh_items lh')" for x
    proof
      assume "cmpf x k = 0"
      then have "cmpf x d = 0" using cmp_trans [OF _ cmp_sym [OF True]] by blast
      then have "r = Some x" using sp(2) lh_retrieve_iff [OF inv] mem [of x] x by simp
      with mem [of x] x show False by simp
    qed
    then show ?thesis using True lh_retrieve_None [OF sp(1)] by simp
  next
    case False
    have "x \<in> set (lh_items lh') \<longleftrightarrow> x \<in> set (lh_items lh)" if "cmpf x k = 0" for x
    proof -
      have "r \<noteq> Some x"
        using False that cmp_cong sp(2) lh_retrieve_iff [OF inv] by metis
      then show ?thesis using mem [of x] by simp
    qed
    with lh_retrieve_eqI [OF inv sp(1)] False show ?thesis by simp
  qed
qed

section \<open>Iteration\<close>

lemma chain_pos_here:
  "cmp_distinct cmpf (map fst (kept @ it # rest)) \<Longrightarrow>
   chain_pos cmpf (fst it) (kept @ it # rest) = length kept"
  by (induction kept) (auto simp: cmp_distinct_Cons cmp_distinct_append cmp_refl)

text \<open>While an iteration runs, deleting the current element unlinks just its item.\<close>

lemma lh_delete_current:
  assumes inv: "lh_inv hash cmpf lh" and dp: "0 < lh_callback_depth lh"
    and b: "b < length (lh_buckets lh)" and B: "lh_buckets lh ! b = kept @ it # rest"
  shows "snd (lh_delete ok lh (fst it)) =
         lh\<lparr>lh_buckets := (lh_buckets lh)[b := kept @ rest], lh_nitems := lh_nitems lh - 1\<rparr>"
proof -
  have pl: "placed hash (lh_num_buckets lh) (lh_buckets lh)" and cmp: "lh_comp lh = cmpf" "lh_hash lh = hash"
    and ds: "cmp_distinct cmpf (map fst (lh_buckets lh ! b))"
    using inv b by (simp_all add: lh_inv_def)
  have "unat (hash (fst it)) mod lh_num_buckets lh = b"
    using placedD [OF pl b, of it] B by simp
  then have "get_next_ptr_and_hash lh (fst it) = (hash (fst it), b, length kept)"
    using chain_pos_here [of kept it rest] ds B
    by (simp add: get_next_ptr_and_hash_def cmp Let_def)
  then show ?thesis
    using B dp by (simp add: lh_delete_def deref_def lh_maybe_resize_def)
qed

lemma doall_chain_spec:
  assumes "lh_inv hash cmpf lh" "0 < lh_callback_depth lh" "b < length (lh_buckets lh)"
    "lh_buckets lh ! b = kept @ cs"
  obtains lh' ks where
    "doall_chain ok f cs (s, lh) = (fst (run_callback f (map fst cs) s), lh')"
    "lh_inv hash cmpf lh'" "lh_callback_depth lh' = lh_callback_depth lh"
    "lh_num_buckets lh' = lh_num_buckets lh"
    "lh_buckets lh' = (lh_buckets lh)[b := kept @ ks]"
    "map fst ks = snd (run_callback f (map fst cs) s)"
  using assms
proof (induction cs arbitrary: s lh kept thesis)
  case Nil
  have "lh_buckets lh = (lh_buckets lh)[b := kept @ []]"
    using Nil.prems(5) by (metis append.right_neutral list_update_id)
  with Nil show ?case by (intro Nil.prems(1) [of lh "[]"]) simp_all
next
  case (Cons c cs)
  note inv = Cons.prems(2) and dp = Cons.prems(3) and b = Cons.prems(4) and B = Cons.prems(5)
  obtain s1 del where f: "f (fst c) s = (s1, del)" by (cases "f (fst c) s")
  show ?case
  proof (cases del)
    case False
    from B have B': "lh_buckets lh ! b = (kept @ [c]) @ cs" by simp
    show ?thesis
    proof (rule Cons.IH [OF _ inv dp b B', of s1])
      fix lh' ks
      assume "doall_chain ok f cs (s1, lh) = (fst (run_callback f (map fst cs) s1), lh')"
        "lh_inv hash cmpf lh'" "lh_callback_depth lh' = lh_callback_depth lh"
        "lh_num_buckets lh' = lh_num_buckets lh"
        "lh_buckets lh' = (lh_buckets lh)[b := (kept @ [c]) @ ks]"
        "map fst ks = snd (run_callback f (map fst cs) s1)"
      with False f show ?thesis
        by (intro Cons.prems(1) [of lh' "c # ks"]) (simp_all add: split_def)
    qed
  next
    case True
    let ?lh = "lh\<lparr>lh_buckets := (lh_buckets lh)[b := kept @ cs], lh_nitems := lh_nitems lh - 1\<rparr>"
    have del: "snd (lh_delete ok lh (fst c)) = ?lh"
      by (rule lh_delete_current [OF inv dp b B])
    have inv': "lh_inv hash cmpf ?lh"
      using lh_delete_spec [OF inv surjective_pairing, of ok "fst c"] unfolding del by blast
    show ?thesis
    proof (rule Cons.IH [OF _ inv', where kept = kept and s = s1])
      fix lh' ks
      assume "doall_chain ok f cs (s1, ?lh) = (fst (run_callback f (map fst cs) s1), lh')"
        "lh_inv hash cmpf lh'" "lh_callback_depth lh' = lh_callback_depth ?lh"
        "lh_num_buckets lh' = lh_num_buckets ?lh"
        "lh_buckets lh' = (lh_buckets ?lh)[b := kept @ ks]"
        "map fst ks = snd (run_callback f (map fst cs) s1)"
      with True f del show ?thesis
        by (intro Cons.prems(1) [of lh' ks]) (simp_all add: split_def)
    qed (use dp b in simp_all)
  qed
qed

lemma run_callback_append:
  "run_callback f (xs @ ys) s =
     (fst (run_callback f ys (fst (run_callback f xs s))),
      snd (run_callback f xs s) @ snd (run_callback f ys (fst (run_callback f xs s))))"
  by (induction xs arbitrary: s) (simp_all add: split_def)

lemma doall_buckets_spec:
  assumes "lh_inv hash cmpf lh" "0 < lh_callback_depth lh" "i + n = length (lh_buckets lh)"
  obtains lh' where
    "doall_buckets ok f i n (s, lh) =
       (fst (run_callback f (map fst (concat (drop i (lh_buckets lh)))) s), lh')"
    "lh_inv hash cmpf lh'" "lh_callback_depth lh' = lh_callback_depth lh"
    "lh_items lh' = map fst (concat (take i (lh_buckets lh))) @
       snd (run_callback f (map fst (concat (drop i (lh_buckets lh)))) s)"
  using assms
proof (induction n arbitrary: i s lh thesis)
  case 0
  then show ?case by (intro "0.prems"(1) [of lh]) (simp_all add: lh_items_def)
next
  case (Suc n)
  let ?B = "lh_buckets lh"
  have i: "i < length ?B" using Suc.prems(4) by simp
  obtain lh1 ks where
    c: "doall_chain ok f (?B ! i) (s, lh) = (fst (run_callback f (map fst (?B ! i)) s), lh1)"
      "lh_inv hash cmpf lh1" "lh_callback_depth lh1 = lh_callback_depth lh"
      "lh_buckets lh1 = ?B[i := ks]" "map fst ks = snd (run_callback f (map fst (?B ! i)) s)"
    by (rule doall_chain_spec [OF Suc.prems(2,3) i, of "[]" "?B ! i" ok f s]) simp_all
  let ?s1 = "fst (run_callback f (map fst (?B ! i)) s)"
  have tk: "take (i + 1) (lh_buckets lh1) = take i ?B @ [ks]"
    using i by (simp add: c(4) take_Suc_conv_app_nth)
  have dr: "drop (i + 1) (lh_buckets lh1) = drop (i + 1) ?B"
    by (simp add: c(4))
  have sp: "drop i ?B = ?B ! i # drop (i + 1) ?B" using i by (simp add: Cons_nth_drop_Suc)
  obtain lh' where
    r: "doall_buckets ok f (i + 1) n (?s1, lh1) =
         (fst (run_callback f (map fst (concat (drop (i + 1) (lh_buckets lh1)))) ?s1), lh')"
      "lh_inv hash cmpf lh'" "lh_callback_depth lh' = lh_callback_depth lh1"
      "lh_items lh' = map fst (concat (take (i + 1) (lh_buckets lh1))) @
         snd (run_callback f (map fst (concat (drop (i + 1) (lh_buckets lh1)))) ?s1)"
    by (rule Suc.IH [OF _ c(2), of "i + 1" ?s1]) (use c Suc.prems in simp_all)
  show ?case
  proof (rule Suc.prems(1) [of lh'])
    show "doall_buckets ok f i (Suc n) (s, lh) =
      (fst (run_callback f (map fst (concat (drop i ?B))) s), lh')"
      unfolding sp using r(1) [unfolded dr] c(1) by (simp add: run_callback_append)
    show "lh_items lh' = map fst (concat (take i ?B)) @
      snd (run_callback f (map fst (concat (drop i ?B))) s)"
      unfolding sp using r(4) [unfolded dr tk] c(5) by (simp add: run_callback_append)
  qed (use r c in simp_all)
qed

lemma lh_doall_spec:
  assumes inv: "lh_inv hash cmpf lh" and dp: "lh_callback_depth lh + 1 < UINT_MAX"
    and run: "lh_doall_internal ok f s lh = (s', lh')"
  shows "s' = fst (run_callback f (lh_items lh) s) \<and> lh_inv hash cmpf lh' \<and>
         lh_callback_depth lh' = lh_callback_depth lh \<and>
         mset (lh_items lh') = mset (snd (run_callback f (lh_items lh) s))"
proof -
  let ?lh1 = "lh\<lparr>lh_callback_depth := lh_callback_depth lh + 1\<rparr>"
  have inv1: "lh_inv hash cmpf ?lh1" using inv by (simp add: lh_inv_def lh_items_def)
  obtain lh2 where
    b: "doall_buckets ok f 0 (lh_num_buckets lh) (s, ?lh1) =
         (fst (run_callback f (lh_items lh) s), lh2)"
      "lh_inv hash cmpf lh2" "lh_callback_depth lh2 = lh_callback_depth lh + 1"
      "lh_items lh2 = snd (run_callback f (lh_items lh) s)"
    by (rule doall_buckets_spec [OF inv1, of 0 "lh_num_buckets lh" ok f s])
      (use inv in \<open>simp_all add: lh_inv_def lh_items_def\<close>)
  let ?lh3 = "lh2\<lparr>lh_callback_depth := lh_callback_depth lh\<rparr>"
  have inv3: "lh_inv hash cmpf ?lh3" using b(2) by (simp add: lh_inv_def lh_items_def)
  have "s' = fst (run_callback f (lh_items lh) s)" "lh' = lh_maybe_resize ok ?lh3"
    using run b dp by (simp_all add: lh_doall_internal_def)
  moreover have "lh_items ?lh3 = lh_items lh2" by (simp add: lh_items_def)
  ultimately show ?thesis using lh_maybe_resize_spec [OF inv3, of ok] b(4) by simp
qed

end

section \<open>Properties\<close>

lemma lh_new_inv:
  assumes "lh_new ok1 ok2 hash cmpf = Some lh"
  shows "lh_inv hash cmpf lh \<and> lh_items lh = [] \<and> lh_callback_depth lh = 0"
proof -
  have "concat (replicate n []) = []" for n :: nat by (induction n) simp_all
  with assms show ?thesis
    by (auto simp: lh_new_def lh_inv_def lh_items_def placed_def kMinNumBuckets_def SIZE_LIMIT_def
        split: if_splits)
qed

text \<open>C19. Insertion.  For a hash and a comparison that agree with each other, inserting into
  a table in which every item is in its bucket and all elements differ either reports an
  allocation failure and changes nothing, or reports the element it replaces, keeps the table
  invariant whether or not the bucket array was resized, and from then on a lookup finds the new
  element for every key equal to it and what it found before for every other key.\<close>

theorem lh_insert_correct:
  assumes "lhash_contract hash cmpf" and "lh_inv hash cmpf lh"
    and "lh_insert ok1 ok2 lh d = (r, old, lh')"
  shows "if r then lh_inv hash cmpf lh' \<and> old = lh_retrieve lh d \<and>
           lh_num_items lh' = lh_num_items lh + (if old = None then 1 else 0) \<and>
           (\<forall>k. lh_retrieve lh' k = (if cmpf d k = 0 then Some d else lh_retrieve lh k))
         else \<not> ok1 \<and> lh' = lh \<and> old = None"
proof (cases r)
  case True
  then have True_r: "r = True" by simp
  have sp: "lh_inv hash cmpf lh'" "old = lh_retrieve lh d"
    "mset (lh_items lh') + mset_set (set_option old) = add_mset d (mset (lh_items lh))"
    using lhash_contract.lh_insert_spec [OF assms] True by auto
  have "length (lh_items lh') + (if old = None then 0 else 1) = length (lh_items lh) + 1"
    using arg_cong [OF sp(3), of size] by (cases old) simp_all
  then have "lh_num_items lh' = lh_num_items lh + (if old = None then 1 else 0)"
    using assms(2) sp(1) by (auto simp: lh_num_items_def lh_inv_def split: if_splits)
  moreover have "lh_retrieve lh' k = (if cmpf d k = 0 then Some d else lh_retrieve lh k)" for k
    by (rule lhash_contract.lh_retrieve_insert [OF assms(1,2) assms(3) [unfolded True_r]])
  ultimately show ?thesis using True sp by simp
next
  case False
  with lhash_contract.lh_insert_spec [OF assms] show ?thesis by simp
qed

text \<open>C20. Deletion returns what a lookup of the key would have found, keeps the invariant and
  the count, and removes exactly that element: afterwards no key equal to it is found, and all
  other lookups answer as before.\<close>

theorem lh_delete_correct:
  assumes "lhash_contract hash cmpf" and "lh_inv hash cmpf lh" and "lh_delete ok lh d = (r, lh')"
  shows "lh_inv hash cmpf lh' \<and> r = lh_retrieve lh d \<and>
         lh_num_items lh' = lh_num_items lh - (if r = None then 0 else 1) \<and>
         (\<forall>k. lh_retrieve lh' k = (if cmpf d k = 0 then None else lh_retrieve lh k))"
proof -
  have sp: "lh_inv hash cmpf lh'" "r = lh_retrieve lh d"
    "mset (lh_items lh') + mset_set (set_option r) = mset (lh_items lh)"
    using lhash_contract.lh_delete_spec [OF assms] by auto
  have "length (lh_items lh') + (if r = None then 0 else 1) = length (lh_items lh)"
    using arg_cong [OF sp(3), of size] by (cases r) simp_all
  then have "lh_num_items lh' = lh_num_items lh - (if r = None then 0 else 1)"
    using assms(2) sp(1) by (auto simp: lh_num_items_def lh_inv_def split: if_splits)
  with sp lhash_contract.lh_retrieve_delete [OF assms] show ?thesis by simp
qed


lemma div_le_2: "0 < b \<Longrightarrow> a div b \<le> 2 \<longleftrightarrow> a < 3 * (b :: nat)"
  using div_less_iff_less_mult [of b a 3] by auto

lemma resize_arith:
  fixes n :: nat
  assumes "0 < n" "k < 3 * n"
  shows "(k + 1) div (if 2 < (k + 1) div n then n * 2
          else if (k + 1) div n < 1 \<and> 16 < n then (if n div 2 < 16 then 16 else n div 2)
          else n) \<le> 2"
proof -
  have "k + 1 < 3 * (n div 2)" if "k + 1 < n" "16 < n"
  proof -
    have "n \<le> 2 * (n div 2) + 1" by simp
    with that show ?thesis by linarith
  qed
  moreover have "(k + 1) div n < 1 \<longleftrightarrow> k + 1 < n"
    using assms(1) by (simp add: div_eq_0_iff)
  ultimately show ?thesis
    using assms by (auto simp: div_le_2 not_less)
qed

lemma lh_insert_shape:
  assumes "lh_insert ok1 ok2 lh d = (r, old, lh')"
  shows "lh_nitems lh' = lh_nitems lh \<and> lh_num_buckets lh' = lh_num_buckets lh \<or>
    (\<exists>t. lh' = lh_maybe_resize ok2 t \<and> lh_nitems t = lh_nitems lh + 1 \<and>
         lh_num_buckets t = lh_num_buckets lh \<and> lh_callback_depth t = lh_callback_depth lh)"
proof -
  obtain h b i where g: "get_next_ptr_and_hash lh d = (h, b, i)" by (metis prod_cases3)
  show ?thesis
  proof (cases "deref lh b i")
    case None
    with assms g show ?thesis
      by (cases ok1) (auto simp: lh_insert_def intro!: exI [of _
            "lh\<lparr>lh_buckets := (lh_buckets lh)[b := lh_buckets lh ! b @ [(d, h)]],
                lh_nitems := lh_nitems lh + 1\<rparr>"])
  qed (use assms g in \<open>auto simp: lh_insert_def\<close>)
qed


text \<open>Witnesses: a table of numbers, hashed to themselves, with the numbers 1 and 17, which
  share a bucket.\<close>

definition num_cmp :: "u32 \<Rightarrow> u32 \<Rightarrow> int" where
  "num_cmp a b = (if a = b then 0 else 1)"

definition ex_table :: "u32 lhash" where
  "ex_table = snd (snd (lh_insert True True (snd (snd (lh_insert True True
     (the (lh_new True True id num_cmp)) 1))) 17))"

lemma num_contract: "lhash_contract id num_cmp"
  by unfold_locales (auto simp: num_cmp_def split: if_splits)

lemma ex_table_eq:
  "ex_table = \<lparr>lh_nitems = 2, lh_buckets = (replicate 16 [])[1 := [(1, 1), (17, 17)]],
     lh_num_buckets = 16, lh_callback_depth = 0, lh_comp = num_cmp, lh_hash = id\<rparr>"
  by (simp add: ex_table_def lh_new_def lh_insert_def get_next_ptr_and_hash_def deref_def
      lh_maybe_resize_def kMinNumBuckets_def kMaxAverageChainLength_def kMinAverageChainLength_def
      num_cmp_def Let_def)

lemma ex_table_inv: "lh_inv id num_cmp ex_table"
proof -
  obtain t where t: "lh_new True True id num_cmp = Some t" by (simp add: lh_new_def)
  obtain r1 o1 t1 where i1: "lh_insert True True t (1 :: u32) = (r1, o1, t1)" by (metis prod_cases3)
  have inv1: "lh_inv id num_cmp t1"
    using lhash_contract.lh_insert_spec [OF num_contract _ i1] lh_new_inv [OF t] by (cases r1) auto
  obtain r2 o2 t2 where i2: "lh_insert True True t1 (17 :: u32) = (r2, o2, t2)" by (metis prod_cases3)
  have "lh_inv id num_cmp t2"
    using lhash_contract.lh_insert_spec [OF num_contract inv1 i2] inv1 by (cases r2) auto
  then show ?thesis using t i1 i2 by (simp add: ex_table_def)
qed

theorem lh_insert_correct_witness:
  "\<exists>lh'. lh_insert True False ex_table 33 = (True, None, lh') \<and> lh_retrieve lh' 33 = Some 33 \<and>
     lh_retrieve lh' 17 = lh_retrieve ex_table 17"
proof -
  obtain r old lh' where run: "lh_insert True False ex_table 33 = (r, old, lh')" by (metis prod_cases3)
  then have "r \<and> old = None"
    by (simp add: ex_table_eq lh_insert_def get_next_ptr_and_hash_def deref_def num_cmp_def Let_def)
  with lh_insert_correct [OF num_contract ex_table_inv run] run show ?thesis
    by (auto simp: num_cmp_def)
qed

theorem lh_delete_correct_witness:
  "\<exists>lh'. lh_delete True ex_table 1 = (lh_retrieve ex_table 1, lh') \<and> lh_retrieve lh' 1 = None \<and>
     lh_retrieve lh' 17 = lh_retrieve ex_table 17"
proof -
  obtain r lh' where run: "lh_delete True ex_table 1 = (r, lh')" by (metis surj_pair)
  from lh_delete_correct [OF num_contract ex_table_inv run] run show ?thesis
    by (auto simp: num_cmp_def)
qed



end
