(* ===== verification/Mem.thy ===== *)
theory Mem
  imports Prelude
begin

text \<open>
  The memory and string helpers of \<^verbatim>\<open>BoringSSL/crypto/mem.c\<close>: the allocator that stores
  the block size in a prefix and wipes freed blocks, constant-time and case-insensitive
  comparison, bounded length, and the FNV-1a hash.  \<^verbatim>\<open>malloc\<close> is an argument: a function
  from a size to the raw block it returns, if any.  A string is the list of its bytes in
  memory; reading past the end of the list is \<open>None\<close>.
\<close>

section \<open>Allocation\<close>

definition MALLOC_PREFIX :: nat where "MALLOC_PREFIX = 8"

text \<open>The raw block, with its prefix; the pointer handed out is 8 bytes into it.\<close>

definition OPENSSL_malloc :: "(nat \<Rightarrow> bytes option) \<Rightarrow> nat \<Rightarrow> bytes option" where
  "OPENSSL_malloc malloc n =
     (case malloc (sz (n + MALLOC_PREFIX)) of
        None \<Rightarrow> None
      | Some raw \<Rightarrow> Some (blit raw 0 (le_bytes 8 n)))"

definition block_size :: "bytes \<Rightarrow> nat" where
  "block_size raw = le_val (take MALLOC_PREFIX raw)"

definition user_data :: "bytes \<Rightarrow> bytes" where
  "user_data raw = drop MALLOC_PREFIX raw"

text \<open>\<open>OPENSSL_cleanse\<close> on the first \<open>len\<close> bytes of a block.\<close>

definition OPENSSL_cleanse :: "bytes \<Rightarrow> nat \<Rightarrow> bytes" where
  "OPENSSL_cleanse raw len = blit raw 0 (replicate len 0)"

text \<open>\<open>OPENSSL_free\<close>: the contents of the block at the moment it is given to \<open>free\<close>.\<close>

definition OPENSSL_free :: "bytes \<Rightarrow> bytes" where
  "OPENSSL_free raw = OPENSSL_cleanse raw (sz (block_size raw + MALLOC_PREFIX))"

text \<open>\<open>OPENSSL_realloc\<close>: the new block and what is handed to \<open>free\<close>, if the new block
  could be allocated.\<close>

definition OPENSSL_realloc ::
  "(nat \<Rightarrow> bytes option) \<Rightarrow> bytes option \<Rightarrow> nat \<Rightarrow> (bytes \<times> bytes option) option" where
  "OPENSSL_realloc malloc orig new_size =
     (case orig of
        None \<Rightarrow> map_option (\<lambda>r. (r, None)) (OPENSSL_malloc malloc new_size)
      | Some raw \<Rightarrow>
          (case OPENSSL_malloc malloc new_size of
             None \<Rightarrow> None
           | Some ret \<Rightarrow>
               let old_size = block_size raw;
                   to_copy = (if old_size < new_size then old_size else new_size)
               in Some (blit ret MALLOC_PREFIX (take to_copy (user_data raw)),
                        Some (OPENSSL_free raw))))"

text \<open>A block made by \<open>OPENSSL_malloc\<close>: the stored size is the number of usable bytes.\<close>

definition block_ok :: "bytes \<Rightarrow> bool" where
  "block_ok raw \<longleftrightarrow> length raw = block_size raw + MALLOC_PREFIX \<and> length raw < SIZE_LIMIT"

definition malloc_ok :: "(nat \<Rightarrow> bytes option) \<Rightarrow> bool" where
  "malloc_ok malloc \<longleftrightarrow> (\<forall>n raw. malloc n = Some raw \<longrightarrow> length raw = n)"

lemma OPENSSL_malloc_block:
  assumes "malloc_ok malloc" "n + MALLOC_PREFIX < SIZE_LIMIT"
    and "OPENSSL_malloc malloc n = Some raw"
  shows "block_ok raw \<and> block_size raw = n \<and> length (user_data raw) = n"
proof -
  from assms obtain r where r: "length r = n + 8" "raw = blit r 0 (le_bytes 8 n)"
    by (auto simp: OPENSSL_malloc_def malloc_ok_def MALLOC_PREFIX_def split: option.splits)
  then have "length raw = n + 8" by (simp add: length_blit)
  moreover have "take 8 raw = le_bytes 8 n"
    using take_blit_end [of 0 r "le_bytes 8 n"] r by simp
  then have "block_size raw = n"
    using assms(2) by (simp add: block_size_def MALLOC_PREFIX_def le_val_le_bytes SIZE_LIMIT_def)
  ultimately show ?thesis
    using assms(2) by (simp add: block_ok_def user_data_def MALLOC_PREFIX_def)
qed

section \<open>Comparison, length and hash\<close>

fun CRYPTO_memcmp_loop :: "u8 \<Rightarrow> bytes \<Rightarrow> bytes \<Rightarrow> u8" where
  "CRYPTO_memcmp_loop x (a # as) (b # bs) = CRYPTO_memcmp_loop (x OR (a XOR b)) as bs"
| "CRYPTO_memcmp_loop x _ _ = x"

text \<open>Both buffers have \<open>len\<close> bytes.\<close>

definition CRYPTO_memcmp :: "bytes \<Rightarrow> bytes \<Rightarrow> u8" where
  "CRYPTO_memcmp a b = CRYPTO_memcmp_loop 0 a b"

definition OPENSSL_hash32 :: "bytes \<Rightarrow> u32" where
  "OPENSSL_hash32 bs = foldl (\<lambda>h b. (h XOR ucast b) * 16777619) 2166136261 bs"

text \<open>\<open>n\<close> iterations from index \<open>i\<close>; \<open>None\<close> is a read outside the buffer.\<close>

fun strnlen_loop :: "bytes \<Rightarrow> nat \<Rightarrow> nat \<Rightarrow> nat option" where
  "strnlen_loop s i 0 = Some i"
| "strnlen_loop s i (Suc n) =
     (if i < length s then (if s ! i = 0 then Some i else strnlen_loop s (i + 1) n) else None)"

definition OPENSSL_strnlen :: "bytes \<Rightarrow> nat \<Rightarrow> nat option" where
  "OPENSSL_strnlen s len = strnlen_loop s 0 len"

definition OPENSSL_tolower :: "int \<Rightarrow> int" where
  "OPENSSL_tolower c = (if 65 \<le> c \<and> c \<le> 90 then c + (97 - 65) else c)"

text \<open>\<open>char\<close> is signed on the targets of the application.\<close>

fun OPENSSL_strcasecmp :: "bytes \<Rightarrow> bytes \<Rightarrow> int option" where
  "OPENSSL_strcasecmp (a # as) (b # bs) =
     (let aa = OPENSSL_tolower (sint a); bb = OPENSSL_tolower (sint b)
      in if aa < bb then Some (- 1)
         else if aa > bb then Some 1
         else if aa = 0 then Some 0
         else OPENSSL_strcasecmp as bs)"
| "OPENSSL_strcasecmp _ _ = None"

fun OPENSSL_strncasecmp :: "bytes \<Rightarrow> bytes \<Rightarrow> nat \<Rightarrow> int option" where
  "OPENSSL_strncasecmp _ _ 0 = Some 0"
| "OPENSSL_strncasecmp (a # as) (b # bs) (Suc n) =
     (let aa = OPENSSL_tolower (sint a); bb = OPENSSL_tolower (sint b)
      in if aa < bb then Some (- 1)
         else if aa > bb then Some 1
         else if aa = 0 then Some 0
         else OPENSSL_strncasecmp as bs n)"
| "OPENSSL_strncasecmp _ _ (Suc n) = None"

lemma CRYPTO_memcmp_loop_zero:
  "length a = length b \<Longrightarrow> CRYPTO_memcmp_loop x a b = 0 \<longleftrightarrow> x = 0 \<and> a = b"
proof (induction a b arbitrary: x rule: list_induct2)
  case (Cons a as b bs)
  have "(x OR (a XOR b)) = 0 \<longleftrightarrow> x = 0 \<and> a = b"
    by (metis or_eq_0_iff xor_self_eq xor.right_neutral xor.assoc xor.commute)
  with Cons.IH show ?case by simp
qed simp

text \<open>The bytes of a C string without NUL, and its case-folded form.\<close>

definition cstring :: "bytes \<Rightarrow> bool" where
  "cstring s \<longleftrightarrow> 0 \<notin> set s"

definition fold_case :: "bytes \<Rightarrow> int list" where
  "fold_case s = map (\<lambda>c. OPENSSL_tolower (sint c)) s"

lemma tolower_zero: "OPENSSL_tolower (sint (c :: u8)) = 0 \<longleftrightarrow> c = 0"
  by (auto simp: OPENSSL_tolower_def signed_eq_0_iff)

lemma tolower_0 [simp]: "OPENSSL_tolower 0 = 0"
  by (simp add: OPENSSL_tolower_def)

lemma strcasecmp_cases:
  assumes "cstring s" "cstring t"
  shows "\<exists>r \<in> {- 1, 0, 1}. OPENSSL_strcasecmp (s @ 0 # u) (t @ 0 # v) = Some r \<and>
     OPENSSL_strcasecmp (t @ 0 # v) (s @ 0 # u) = Some (- r) \<and> (r = 0 \<longleftrightarrow> fold_case s = fold_case t)"
  using assms
proof (induction s arbitrary: t)
  case Nil
  show ?case
  proof (cases t)
    case (Cons b bs)
    then have "OPENSSL_tolower (sint b) \<noteq> 0" using Nil tolower_zero by (simp add: cstring_def)
    then show ?thesis using Cons
      by (cases "OPENSSL_tolower (sint b) < 0") (simp_all add: fold_case_def Let_def)
  qed (simp add: fold_case_def)
next
  case (Cons a as)
  then have a: "OPENSSL_tolower (sint a) \<noteq> 0" "cstring as" using tolower_zero by (auto simp: cstring_def)
  show ?case
  proof (cases t)
    case Nil
    with a show ?thesis
      by (cases "OPENSSL_tolower (sint a) < 0") (simp_all add: fold_case_def Let_def)
  next
    case (Cons b bs)
    with Cons.prems have "cstring bs" by (simp add: cstring_def)
    from Cons.IH [OF a(2) this] Cons a show ?thesis
      by (cases "OPENSSL_tolower (sint a)" "OPENSSL_tolower (sint b)" rule: linorder_cases)
        (auto simp: fold_case_def Let_def)
  qed
qed

section \<open>Properties\<close>

text \<open>C38. The constant-time comparison of two buffers of the same length is zero exactly when
  they are equal.\<close>

theorem CRYPTO_memcmp_zero_iff:
  "length a = length b \<Longrightarrow> CRYPTO_memcmp a b = 0 \<longleftrightarrow> a = b"
  by (simp add: CRYPTO_memcmp_def CRYPTO_memcmp_loop_zero)

theorem CRYPTO_memcmp_zero_iff_witness:
  "CRYPTO_memcmp [1, 2, 3] [1, 2, 3] = 0 \<and> CRYPTO_memcmp [1, 2, 3] [1, 2, 4] \<noteq> 0"
  using CRYPTO_memcmp_zero_iff [of "[1, 2, 3]" "[1, 2, 3]"]
    CRYPTO_memcmp_zero_iff [of "[1, 2, 3]" "[1, 2, 4]"] by simp



text \<open>C36. Reallocation of a block made by the allocator, to a size that leaves room for the
  prefix, yields a block of that size that starts with the old contents (as much of them as
  fit), and the old block is handed to \<open>free\<close> with all its bytes overwritten by zero.\<close>

theorem OPENSSL_realloc_correct:
  assumes "malloc_ok malloc" and "block_ok raw" and "n + MALLOC_PREFIX < SIZE_LIMIT"
    and "OPENSSL_realloc malloc (Some raw) n = Some (ret, freed)"
  shows "block_ok ret \<and> block_size ret = n \<and>
     take (min (block_size raw) n) (user_data ret) = take n (user_data raw) \<and>
     freed = Some (replicate (length raw) 0)"
proof -
  from assms(4) obtain b where b: "OPENSSL_malloc malloc n = Some b"
    and ret: "ret = blit b 8 (take (min (block_size raw) n) (user_data raw))"
    and freed: "freed = Some (OPENSSL_free raw)"
    by (auto simp: OPENSSL_realloc_def MALLOC_PREFIX_def Let_def min_def not_less
        split: option.splits if_splits)
  let ?k = "min (block_size raw) n" and ?src = "take (min (block_size raw) n) (user_data raw)"
  have bk: "block_ok b" "block_size b = n" using OPENSSL_malloc_block [OF assms(1,3) b] by auto
  have raw: "length (user_data raw) = block_size raw" "length raw = block_size raw + 8"
    "length raw < SIZE_LIMIT"
    using assms(2) by (simp_all add: block_ok_def user_data_def MALLOC_PREFIX_def)
  have len: "length b = n + 8" using bk by (simp add: block_ok_def MALLOC_PREFIX_def)
  have src: "length ?src = ?k" using raw(1) by simp
  have "length ret = length b" unfolding ret by (rule length_blit) (use src len in simp)
  moreover have "take 8 ret = take 8 b" unfolding ret by (rule take_blit_before) (use len in simp_all)
  ultimately have "block_size ret = n" "block_ok ret"
    using bk by (simp_all add: block_ok_def block_size_def MALLOC_PREFIX_def)
  moreover have "take ?k (user_data ret) = ?src"
    using len src by (simp add: ret user_data_def blit_def MALLOC_PREFIX_def)
  moreover have "?src = take n (user_data raw)" using raw(1) by (simp add: min_def)
  moreover have "OPENSSL_free raw = replicate (length raw) 0"
    using raw(2,3) by (simp add: OPENSSL_free_def OPENSSL_cleanse_def blit_all MALLOC_PREFIX_def)
  ultimately show ?thesis using freed by simp
qed

text \<open>Witness: a three-byte block grown to five bytes.\<close>

definition zero_malloc :: "nat \<Rightarrow> bytes option" where
  "zero_malloc n = (if n < 1000 then Some (replicate n 0) else None)"

theorem OPENSSL_realloc_correct_witness:
  "\<exists>ret. OPENSSL_realloc zero_malloc (Some (le_bytes 8 3 @ [7, 8, 9])) 5 =
        Some (ret, Some (replicate 11 0)) \<and> block_size ret = 5 \<and> take 3 (user_data ret) = [7, 8, 9]"
proof -
  let ?raw = "le_bytes 8 3 @ [7, 8, 9]"
  have m: "malloc_ok zero_malloc" by (simp add: malloc_ok_def zero_malloc_def)
  have s: "block_size ?raw = 3" by (simp add: block_size_def MALLOC_PREFIX_def le_val_le_bytes)
  have b: "block_ok ?raw" using s by (simp add: block_ok_def MALLOC_PREFIX_def SIZE_LIMIT_def)
  have n: "5 + MALLOC_PREFIX < SIZE_LIMIT" by (simp add: MALLOC_PREFIX_def SIZE_LIMIT_def)
  have "\<exists>ret freed. OPENSSL_realloc zero_malloc (Some ?raw) 5 = Some (ret, freed)"
    by (simp add: OPENSSL_realloc_def OPENSSL_malloc_def zero_malloc_def MALLOC_PREFIX_def
        SIZE_LIMIT_def Let_def)
  then obtain ret freed where r: "OPENSSL_realloc zero_malloc (Some ?raw) 5 = Some (ret, freed)" by blast
  from OPENSSL_realloc_correct [OF m b n r] r s show ?thesis
    by (simp add: user_data_def MALLOC_PREFIX_def)
qed

text \<open>The sum \<open>size + 8\<close> is not checked: for the eight largest sizes it wraps around, the
  raw block requested is smaller than the prefix that is then written into it.\<close>

lemma OPENSSL_malloc_wraps:
  assumes "SIZE_LIMIT - 8 \<le> n" "n < SIZE_LIMIT" "malloc_ok malloc"
    "malloc (sz (n + MALLOC_PREFIX)) = Some raw"
  shows "length raw < MALLOC_PREFIX"
proof -
  have "sz (n + MALLOC_PREFIX) = n + 8 - SIZE_LIMIT"
    using assms(1,2) by (simp add: sz_def MALLOC_PREFIX_def le_mod_geq SIZE_LIMIT_def)
  moreover have "n + 8 - SIZE_LIMIT < 8" using assms(2) by simp
  ultimately show ?thesis using assms(3,4) by (auto simp: malloc_ok_def MALLOC_PREFIX_def)
qed

end
