(* ===== verification/Pool.thy ===== *)
theory Pool
  imports Lhash Mem
begin

text \<open>
  The buffer pool of \<^verbatim>\<open>BoringSSL/crypto/pool/pool.c\<close>: reference-counted, deduplicated
  immutable buffers in a hash table, shared between threads.  Each critical section is one
  operation on the pool; \<open>CRYPTO_BUFFER_new\<close> has two of them, with an unlocked gap in
  between, and the step relation interleaves the critical sections of any number of threads.
  A buffer's address and bytes never change and are one value; the reference counts live in a
  store indexed by address.  \<open>None\<close> is a use after free, an \<open>abort\<close> or a failed \<open>assert\<close>.
\<close>

section \<open>Hash, comparison and reference counts\<close>

record crypto_buffer =
  cb_id :: nat
  cb_data :: bytes

fun libc_memcmp :: "bytes \<Rightarrow> bytes \<Rightarrow> int" where
  "libc_memcmp (a # as) (b # bs) =
     (if a < b then - 1 else if b < a then 1 else libc_memcmp as bs)"
| "libc_memcmp _ _ = 0"

definition CRYPTO_BUFFER_hash :: "crypto_buffer \<Rightarrow> u32" where
  "CRYPTO_BUFFER_hash buf = OPENSSL_hash32 (cb_data buf)"

definition CRYPTO_BUFFER_cmp :: "crypto_buffer \<Rightarrow> crypto_buffer \<Rightarrow> int" where
  "CRYPTO_BUFFER_cmp a b =
     (if length (cb_data a) \<noteq> length (cb_data b) then 1
      else libc_memcmp (cb_data a) (cb_data b))"

lemma libc_memcmp_zero: "length a = length b \<Longrightarrow> libc_memcmp a b = 0 \<longleftrightarrow> a = b"
  by (induction a b rule: list_induct2) auto

lemma CRYPTO_BUFFER_cmp_zero: "CRYPTO_BUFFER_cmp a b = 0 \<longleftrightarrow> cb_data a = cb_data b"
  by (auto simp: CRYPTO_BUFFER_cmp_def libc_memcmp_zero)

interpretation pool_lh: lhash_contract CRYPTO_BUFFER_hash CRYPTO_BUFFER_cmp
  by unfold_locales (simp_all add: CRYPTO_BUFFER_cmp_zero CRYPTO_BUFFER_hash_def)

definition CRYPTO_REFCOUNT_MAX :: u32 where "CRYPTO_REFCOUNT_MAX = 0xffffffff"

text \<open>The compare-and-swap loops of \<^verbatim>\<open>refcount_c11.c\<close>, by their atomic effect.\<close>

definition CRYPTO_refcount_inc :: "u32 \<Rightarrow> u32" where
  "CRYPTO_refcount_inc c = (if c \<noteq> CRYPTO_REFCOUNT_MAX then c + 1 else c)"

definition CRYPTO_refcount_dec_and_test_zero :: "u32 \<Rightarrow> (u32 \<times> bool) option" where
  "CRYPTO_refcount_dec_and_test_zero c =
     (if c = 0 then None
      else if c = CRYPTO_REFCOUNT_MAX then Some (c, False)
      else Some (c - 1, c - 1 = 0))"

section \<open>Pool operations\<close>

record pool =
  pl_bufs :: "crypto_buffer lhash"
  pl_refs :: "nat \<Rightarrow> u32 option"
  pl_next :: nat

definition CRYPTO_BUFFER_POOL_new :: "bool \<Rightarrow> bool \<Rightarrow> bool \<Rightarrow> pool option" where
  "CRYPTO_BUFFER_POOL_new ok_pool ok_hdr ok_buckets =
     (if \<not> ok_pool then None
      else (case lh_new ok_hdr ok_buckets CRYPTO_BUFFER_hash CRYPTO_BUFFER_cmp of
              None \<Rightarrow> None
            | Some bufs \<Rightarrow> Some \<lparr>pl_bufs = bufs, pl_refs = (\<lambda>_. None), pl_next = 0\<rparr>))"

definition CRYPTO_BUFFER_up_ref :: "crypto_buffer \<Rightarrow> pool \<Rightarrow> pool option" where
  "CRYPTO_BUFFER_up_ref b p =
     (case pl_refs p (cb_id b) of
        None \<Rightarrow> None
      | Some c \<Rightarrow> Some (p\<lparr>pl_refs := (pl_refs p)(cb_id b := Some (CRYPTO_refcount_inc c))\<rparr>))"

text \<open>The read-locked lookup at the start of \<open>CRYPTO_BUFFER_new\<close>.\<close>

definition CRYPTO_BUFFER_new_lookup :: "bytes \<Rightarrow> pool \<Rightarrow> (crypto_buffer option \<times> pool) option" where
  "CRYPTO_BUFFER_new_lookup data p =
     (case lh_retrieve (pl_bufs p) \<lparr>cb_id = pl_next p, cb_data = data\<rparr> of
        None \<Rightarrow> Some (None, p)
      | Some dup \<Rightarrow> map_option (\<lambda>p'. (Some dup, p')) (CRYPTO_BUFFER_up_ref dup p))"

text \<open>
  The rest of \<open>CRYPTO_BUFFER_new\<close> after a miss: allocation of the buffer and of a copy of the
  data, then the write-locked second lookup and insertion.
\<close>

definition CRYPTO_BUFFER_new_insert ::
  "bool \<Rightarrow> bool \<Rightarrow> bool \<Rightarrow> bool \<Rightarrow> bytes \<Rightarrow> pool \<Rightarrow> (crypto_buffer option \<times> pool) option" where
  "CRYPTO_BUFFER_new_insert ok_buf ok_data ok_item ok_buckets data p =
     (if \<not> ok_buf then Some (None, p)
      else if data \<noteq> [] \<and> \<not> ok_data then Some (None, p)
      else let buf = \<lparr>cb_id = pl_next p, cb_data = data\<rparr>;
               p1 = p\<lparr>pl_next := pl_next p + 1, pl_refs := (pl_refs p)(cb_id buf := Some 1)\<rparr>
        in (case lh_retrieve (pl_bufs p1) buf of
              None \<Rightarrow>
                (case lh_insert ok_item ok_buckets (pl_bufs p1) buf of (inserted, old, bufs) \<Rightarrow>
                   if old \<noteq> None then None
                   else if inserted then Some (Some buf, p1\<lparr>pl_bufs := bufs\<rparr>)
                   else Some (None, p1\<lparr>pl_bufs := bufs, pl_refs := (pl_refs p1)(cb_id buf := None)\<rparr>))
            | Some dup \<Rightarrow>
                map_option (\<lambda>p'. (Some dup, p'\<lparr>pl_refs := (pl_refs p')(cb_id buf := None)\<rparr>))
                  (CRYPTO_BUFFER_up_ref dup p1)))"

text \<open>\<open>CRYPTO_BUFFER_new\<close> without interference.\<close>

definition CRYPTO_BUFFER_new ::
  "bool \<Rightarrow> bool \<Rightarrow> bool \<Rightarrow> bool \<Rightarrow> bytes \<Rightarrow> pool \<Rightarrow> (crypto_buffer option \<times> pool) option" where
  "CRYPTO_BUFFER_new ok_buf ok_data ok_item ok_buckets data p =
     (case CRYPTO_BUFFER_new_lookup data p of
        None \<Rightarrow> None
      | Some (Some dup, p') \<Rightarrow> Some (Some dup, p')
      | Some (None, p') \<Rightarrow> CRYPTO_BUFFER_new_insert ok_buf ok_data ok_item ok_buckets data p')"

definition CRYPTO_BUFFER_free :: "bool \<Rightarrow> crypto_buffer \<Rightarrow> pool \<Rightarrow> pool option" where
  "CRYPTO_BUFFER_free ok_buckets b p =
     (case pl_refs p (cb_id b) of
        None \<Rightarrow> None
      | Some c \<Rightarrow>
          (case CRYPTO_refcount_dec_and_test_zero c of
             None \<Rightarrow> None
           | Some (c', zero) \<Rightarrow>
               if \<not> zero then Some (p\<lparr>pl_refs := (pl_refs p)(cb_id b := Some c')\<rparr>)
               else (case lh_delete ok_buckets (pl_bufs p) b of (found, bufs) \<Rightarrow>
                       if found = Some b
                       then Some (p\<lparr>pl_bufs := bufs, pl_refs := (pl_refs p)(cb_id b := None)\<rparr>)
                       else None)))"

section \<open>Threads\<close>

text \<open>
  The pool, the references held by the threads, and the data of the calls of
  \<open>CRYPTO_BUFFER_new\<close> that missed in their first lookup and have not inserted yet.
\<close>

record pool_sys =
  sys_pool :: pool
  sys_held :: "crypto_buffer multiset"
  sys_pending :: "bytes multiset"

inductive pool_step :: "pool_sys \<Rightarrow> pool_sys \<Rightarrow> bool" where
  lookup_hit: "CRYPTO_BUFFER_new_lookup data (sys_pool s) = Some (Some b, p) \<Longrightarrow>
     pool_step s (s\<lparr>sys_pool := p, sys_held := add_mset b (sys_held s)\<rparr>)"
| lookup_miss: "CRYPTO_BUFFER_new_lookup data (sys_pool s) = Some (None, p) \<Longrightarrow>
     pool_step s (s\<lparr>sys_pool := p, sys_pending := add_mset data (sys_pending s)\<rparr>)"
| insert: "sys_pending s = add_mset data pend \<Longrightarrow>
     CRYPTO_BUFFER_new_insert ok1 ok2 ok3 ok4 data (sys_pool s) = Some (r, p) \<Longrightarrow>
     pool_step s (s\<lparr>sys_pool := p, sys_pending := pend,
                    sys_held := sys_held s + mset_set (set_option r)\<rparr>)"
| up_ref: "b \<in># sys_held s \<Longrightarrow> CRYPTO_BUFFER_up_ref b (sys_pool s) = Some p \<Longrightarrow>
     pool_step s (s\<lparr>sys_pool := p, sys_held := add_mset b (sys_held s)\<rparr>)"
| free: "sys_held s = add_mset b held \<Longrightarrow>
     CRYPTO_BUFFER_free ok b (sys_pool s) = Some p \<Longrightarrow>
     pool_step s (s\<lparr>sys_pool := p, sys_held := held\<rparr>)"

section \<open>The invariant\<close>

abbreviation pool_items :: "pool \<Rightarrow> crypto_buffer list" where
  "pool_items p \<equiv> lh_items (pl_bufs p)"

text \<open>The count of a buffer is the number of references held, unless it is saturated.\<close>

definition count_ok :: "pool \<Rightarrow> crypto_buffer multiset \<Rightarrow> crypto_buffer \<Rightarrow> bool" where
  "count_ok p held b \<longleftrightarrow>
     (\<exists>c. pl_refs p (cb_id b) = Some c \<and> c \<noteq> 0 \<and>
          (c = CRYPTO_REFCOUNT_MAX \<or> unat c = count held b))"

definition pool_inv :: "pool \<Rightarrow> crypto_buffer multiset \<Rightarrow> bool" where
  "pool_inv p held \<longleftrightarrow>
     lh_inv CRYPTO_BUFFER_hash CRYPTO_BUFFER_cmp (pl_bufs p) \<and>
     inj_on cb_id (set (pool_items p)) \<and>
     (\<forall>b\<in>set (pool_items p). cb_id b < pl_next p \<and> count_ok p held b) \<and>
     set_mset held \<subseteq> set (pool_items p) \<and>
     (\<forall>i. pl_refs p i \<noteq> None \<longrightarrow> i \<in> cb_id ` set (pool_items p))"

lemma refcount_inc_unat:
  "c \<noteq> CRYPTO_REFCOUNT_MAX \<Longrightarrow> unat (c + 1) = unat c + 1 \<and> c + 1 \<noteq> 0"
proof -
  assume a: "c \<noteq> CRYPTO_REFCOUNT_MAX"
  have "1 + c \<noteq> 0"
  proof
    assume "1 + c = 0"
    then have "c = - 1" by (simp add: eq_neg_iff_add_eq_0 add.commute)
    also have "(- 1 :: u32) = CRYPTO_REFCOUNT_MAX" by (simp add: CRYPTO_REFCOUNT_MAX_def)
    finally show False using a by simp
  qed
  then show ?thesis using unatSuc [of c] by (simp add: add.commute)
qed

lemma refcount_dec_unat: "c \<noteq> (0 :: u32) \<Longrightarrow> unat (c - 1) + 1 = unat c"
  by (simp add: unat_minus_one unat_gt_0 Suc_leI flip: Suc_eq_plus1)

lemma pool_found:
  assumes "pool_inv p held"
  shows "case lh_retrieve (pl_bufs p) \<lparr>cb_id = i, cb_data = data\<rparr> of
           None \<Rightarrow> \<forall>b\<in>set (pool_items p). cb_data b \<noteq> data
         | Some b \<Rightarrow> b \<in> set (pool_items p) \<and> cb_data b = data"
  using assms pool_lh.lh_retrieve_iff [of "pl_bufs p"] pool_lh.lh_retrieve_None [of "pl_bufs p"]
  by (auto simp: pool_inv_def CRYPTO_BUFFER_cmp_zero split: option.splits)

lemma count_ok_other:
  "count_ok p held a \<Longrightarrow> a \<noteq> b \<Longrightarrow> cb_id a \<noteq> cb_id b \<Longrightarrow>
   count_ok (p\<lparr>pl_refs := (pl_refs p)(cb_id b := v)\<rparr>) (add_mset b held) a"
  by (simp add: count_ok_def)

lemma pool_up_ref:
  assumes inv: "pool_inv p held" and b: "b \<in> set (pool_items p)"
  shows "\<exists>p'. CRYPTO_BUFFER_up_ref b p = Some p' \<and> pool_inv p' (add_mset b held) \<and>
     pl_bufs p' = pl_bufs p \<and> pl_next p' = pl_next p \<and>
     (\<forall>i. i \<noteq> cb_id b \<longrightarrow> pl_refs p' i = pl_refs p i)"
proof -
  have inj: "inj_on cb_id (set (pool_items p))" using inv by (simp add: pool_inv_def)
  from inv b obtain c where c: "pl_refs p (cb_id b) = Some c" "c \<noteq> 0"
    "c = CRYPTO_REFCOUNT_MAX \<or> unat c = count held b"
    by (auto simp: pool_inv_def count_ok_def)
  let ?p = "p\<lparr>pl_refs := (pl_refs p)(cb_id b := Some (CRYPTO_refcount_inc c))\<rparr>"
  have "count_ok ?p (add_mset b held) a" if a: "a \<in> set (pool_items p)" for a
  proof (cases "a = b")
    case True
    then show ?thesis
      using c refcount_inc_unat [of c] by (auto simp: count_ok_def CRYPTO_refcount_inc_def)
  next
    case False
    then have "cb_id a \<noteq> cb_id b" using inj a b by (auto dest: inj_onD)
    with False inv a show ?thesis by (intro count_ok_other) (auto simp: pool_inv_def)
  qed
  then have "pool_inv ?p (add_mset b held)"
    using inv b by (auto simp: pool_inv_def)
  moreover have "CRYPTO_BUFFER_up_ref b p = Some ?p"
    by (simp add: CRYPTO_BUFFER_up_ref_def c)
  ultimately show ?thesis by auto
qed

lemma pool_lookup:
  assumes inv: "pool_inv p held"
  shows "\<exists>r p'. CRYPTO_BUFFER_new_lookup data p = Some (r, p') \<and>
     (case r of None \<Rightarrow> p' = p \<and> (\<forall>b\<in>set (pool_items p). cb_data b \<noteq> data)
      | Some b \<Rightarrow> cb_data b = data \<and> pool_inv p' (add_mset b held))"
  using pool_found [OF inv, where i = "pl_next p" and data = data] pool_up_ref [OF inv]
  by (fastforce simp: CRYPTO_BUFFER_new_lookup_def split: option.splits)

lemma pool_inv_next:
  "pool_inv p held \<Longrightarrow> pl_next p \<le> n \<Longrightarrow> pool_inv (p\<lparr>pl_next := n\<rparr>) held"
  by (auto simp: pool_inv_def count_ok_def intro: less_le_trans)

lemma pool_fresh: "pool_inv p held \<Longrightarrow> pl_refs p (pl_next p) = None"
  by (fastforce simp: pool_inv_def)

lemma pool_insert_new:
  assumes inv: "pool_inv p held"
    and bufs: "lh_inv CRYPTO_BUFFER_hash CRYPTO_BUFFER_cmp bufs"
    and items: "mset (lh_items bufs) = add_mset b (mset (pool_items p))" and b: "cb_id b = pl_next p"
  shows "pool_inv (p\<lparr>pl_next := pl_next p + 1, pl_refs := (pl_refs p)(pl_next p := Some 1),
                     pl_bufs := bufs\<rparr>) (add_mset b held)"
proof -
  have set: "set (lh_items bufs) = insert b (set (pool_items p))"
    using arg_cong [OF items, of set_mset] by simp
  have lt: "cb_id a < pl_next p" if "a \<in> set (pool_items p)" for a
    using inv that by (simp add: pool_inv_def)
  have nb: "b \<notin> set (pool_items p)" using lt b by fastforce
  then have "count held b = 0"
    using inv by (auto simp: pool_inv_def count_eq_zero_iff)
  moreover have "a \<noteq> b \<and> cb_id a \<noteq> pl_next p" if "a \<in> set (pool_items p)" for a
    using lt [OF that] b by auto
  ultimately show ?thesis
    using inv bufs b set lt nb
    by (fastforce simp: pool_inv_def count_ok_def inj_on_insert less_Suc_eq)
qed

lemma pool_new_insert:
  assumes inv: "pool_inv p held"
  shows "\<exists>r p'. CRYPTO_BUFFER_new_insert ok1 ok2 ok3 ok4 data p = Some (r, p') \<and>
     pool_inv p' (held + mset_set (set_option r)) \<and> (\<forall>b. r = Some b \<longrightarrow> cb_data b = data)"
proof (cases "\<not> ok1 \<or> (data \<noteq> [] \<and> \<not> ok2)")
  case True
  with inv show ?thesis by (auto simp: CRYPTO_BUFFER_new_insert_def)
next
  case ok: False
  let ?buf = "\<lparr>cb_id = pl_next p, cb_data = data\<rparr>"
  show ?thesis
  proof (cases "lh_retrieve (pl_bufs p) ?buf")
    case (Some dup)
    with pool_found [OF inv, where i = "pl_next p" and data = data]
    have dup: "dup \<in> set (pool_items p)" "cb_data dup = data" by auto
    then have ne: "cb_id dup \<noteq> pl_next p" using inv by (auto simp: pool_inv_def)
    obtain c where c: "pl_refs p (cb_id dup) = Some c"
      using inv dup by (auto simp: pool_inv_def count_ok_def)
    let ?p = "p\<lparr>pl_refs := (pl_refs p)(cb_id dup := Some (CRYPTO_refcount_inc c))\<rparr>"
    have "CRYPTO_BUFFER_up_ref dup p = Some ?p" by (simp add: CRYPTO_BUFFER_up_ref_def c)
    with pool_up_ref [OF inv dup(1)] have "pool_inv ?p (add_mset dup held)" by auto
    then have "pool_inv (?p\<lparr>pl_next := pl_next p + 1\<rparr>) (add_mset dup held)"
      by (rule pool_inv_next) simp
    moreover have "((pl_refs p)(pl_next p := Some 1, cb_id dup := Some (CRYPTO_refcount_inc c),
        pl_next p := None)) = (pl_refs p)(cb_id dup := Some (CRYPTO_refcount_inc c))"
      using ne pool_fresh [OF inv] by (auto simp: fun_eq_iff)
    then have "CRYPTO_BUFFER_new_insert ok1 ok2 ok3 ok4 data p =
        Some (Some dup, ?p\<lparr>pl_next := pl_next p + 1\<rparr>)"
      using ok Some ne c
      by (simp add: CRYPTO_BUFFER_new_insert_def CRYPTO_BUFFER_up_ref_def Let_def)
    ultimately show ?thesis using dup by auto
  next
    case None
    obtain ins old bufs where run: "lh_insert ok3 ok4 (pl_bufs p) ?buf = (ins, old, bufs)"
      by (metis prod_cases3)
    have lhinv: "lh_inv CRYPTO_BUFFER_hash CRYPTO_BUFFER_cmp (pl_bufs p)"
      using inv by (simp add: pool_inv_def)
    note sp = pool_lh.lh_insert_spec [OF lhinv run]
    show ?thesis
    proof (cases ins)
      case True
      with sp None have old: "old = None" by simp
      with sp True have bufs: "lh_inv CRYPTO_BUFFER_hash CRYPTO_BUFFER_cmp bufs"
        "mset (lh_items bufs) = add_mset ?buf (mset (pool_items p))" by simp_all
      have "CRYPTO_BUFFER_new_insert ok1 ok2 ok3 ok4 data p = Some (Some ?buf,
          p\<lparr>pl_next := pl_next p + 1, pl_refs := (pl_refs p)(pl_next p := Some 1), pl_bufs := bufs\<rparr>)"
        using ok None run True old by (simp add: CRYPTO_BUFFER_new_insert_def Let_def)
      with pool_insert_new [OF inv bufs] show ?thesis by simp
    next
      case False
      with sp have old: "old = None" "bufs = pl_bufs p" by simp_all
      have "(pl_refs p)(pl_next p := None) = pl_refs p"
        using pool_fresh [OF inv] by (auto simp: fun_eq_iff)
      then have "CRYPTO_BUFFER_new_insert ok1 ok2 ok3 ok4 data p =
          Some (None, p\<lparr>pl_next := pl_next p + 1\<rparr>)"
        using ok None run False old by (auto simp: CRYPTO_BUFFER_new_insert_def Let_def)
      with pool_inv_next [OF inv, of "pl_next p + 1"] show ?thesis by simp
    qed
  qed
qed

lemma pool_drop:
  assumes inv: "pool_inv p (add_mset b held)" and b: "count_ok q held b"
    and q: "q = p\<lparr>pl_refs := (pl_refs p)(cb_id b := Some c)\<rparr>"
  shows "pool_inv q held"
proof -
  have bi: "b \<in> set (pool_items p)" and inj: "inj_on cb_id (set (pool_items p))"
    using inv by (simp_all add: pool_inv_def)
  have "count_ok q held a" if a: "a \<in> set (pool_items p)" for a
  proof (cases "a = b")
    case False
    then have "cb_id a \<noteq> cb_id b" using inj a bi by (auto dest: inj_onD)
    with False inv a show ?thesis by (auto simp: pool_inv_def count_ok_def q)
  qed (use b in simp)
  with inv bi show ?thesis by (auto simp: pool_inv_def q)
qed

lemma pool_free:
  assumes inv: "pool_inv p (add_mset b held)"
  shows "\<exists>p'. CRYPTO_BUFFER_free ok b p = Some p' \<and> pool_inv p' held"
proof -
  have b: "b \<in> set (pool_items p)" and lhinv: "lh_inv CRYPTO_BUFFER_hash CRYPTO_BUFFER_cmp (pl_bufs p)"
    and inj: "inj_on cb_id (set (pool_items p))"
    using inv by (simp_all add: pool_inv_def)
  from inv b obtain c where c: "pl_refs p (cb_id b) = Some c" "c \<noteq> 0"
    "c = CRYPTO_REFCOUNT_MAX \<or> unat c = count held b + 1"
    by (auto simp: pool_inv_def count_ok_def)
  consider (sat) "c = CRYPTO_REFCOUNT_MAX" | (last) "c \<noteq> CRYPTO_REFCOUNT_MAX" "c - 1 = 0"
    | (more) "c \<noteq> CRYPTO_REFCOUNT_MAX" "c - 1 \<noteq> 0" by blast
  then show ?thesis
  proof cases
    case sat
    let ?q = "p\<lparr>pl_refs := (pl_refs p)(cb_id b := Some c)\<rparr>"
    have "pool_inv ?q held" by (rule pool_drop [OF inv]) (simp_all add: count_ok_def sat c(2) [unfolded sat])
    with c sat show ?thesis
      by (simp add: CRYPTO_BUFFER_free_def CRYPTO_refcount_dec_and_test_zero_def)
  next
    case more
    let ?q = "p\<lparr>pl_refs := (pl_refs p)(cb_id b := Some (c - 1))\<rparr>"
    have "unat (c - 1) = count held b" using c more(1) refcount_dec_unat [OF c(2)] by simp
    then have "pool_inv ?q held" by (intro pool_drop [OF inv]) (use more(2) in \<open>simp_all add: count_ok_def\<close>)
    with c more show ?thesis
      by (simp add: CRYPTO_BUFFER_free_def CRYPTO_refcount_dec_and_test_zero_def)
  next
    case last
    then have c1: "c = 1" by simp
    from c(3) last(1) have "unat c = count held b + 1" by blast
    then have "count held b = 0" by (simp add: c1)
    then have nb: "b \<notin># held" by (simp add: count_eq_zero_iff)
    obtain found bufs where run: "lh_delete ok (pl_bufs p) b = (found, bufs)" by (metis surj_pair)
    have found: "found = Some b"
      using pool_lh.lh_delete_spec [OF lhinv run] pool_lh.lh_retrieve_iff [OF lhinv] b pool_lh.cmp_refl
      by auto
    let ?q = "p\<lparr>pl_bufs := bufs, pl_refs := (pl_refs p)(cb_id b := None)\<rparr>"
    have bufs: "lh_inv CRYPTO_BUFFER_hash CRYPTO_BUFFER_cmp bufs"
      "add_mset b (mset (lh_items bufs)) = mset (pool_items p)"
      using pool_lh.lh_delete_spec [OF lhinv run] found by simp_all
    have "b \<notin> set (lh_items bufs)"
    proof
      assume "b \<in> set (lh_items bufs)"
      then have "count (mset (pool_items p)) b \<ge> 2"
        unfolding bufs(2) [symmetric] by (simp add: Suc_le_eq count_greater_zero_iff numeral_2_eq_2)
      then show False using pool_lh.lh_items_count [OF lhinv, of b] by (simp split: if_splits)
    qed
    moreover have "insert b (set (lh_items bufs)) = set (pool_items p)"
      using arg_cong [OF bufs(2), of set_mset] by simp
    ultimately have items: "set (lh_items bufs) = set (pool_items p) - {b}" by blast
    have ids: "cb_id a \<noteq> cb_id b" if "a \<in> set (lh_items bufs)" for a
      using that items inj b by (auto dest: inj_onD)
    have "count_ok ?q held a" if a: "a \<in> set (lh_items bufs)" for a
      using inv items ids [OF a] a by (auto simp: pool_inv_def count_ok_def)
    moreover have "inj_on cb_id (set (lh_items bufs))"
      using inj items by (auto intro: inj_on_subset)
    ultimately have "pool_inv ?q held"
      using inv bufs(1) items nb by (auto simp: pool_inv_def)
    with c last run found show ?thesis
      by (simp add: CRYPTO_BUFFER_free_def CRYPTO_refcount_dec_and_test_zero_def)
  qed
qed

section \<open>Reachable states\<close>

definition sys_init :: "pool \<Rightarrow> pool_sys" where
  "sys_init p = \<lparr>sys_pool = p, sys_held = {#}, sys_pending = {#}\<rparr>"

inductive pool_reach :: "pool \<Rightarrow> pool_sys \<Rightarrow> bool" for p0 where
  init: "pool_reach p0 (sys_init p0)"
| step: "pool_reach p0 s \<Longrightarrow> pool_step s s' \<Longrightarrow> pool_reach p0 s'"

lemma pool_step_inv:
  assumes "pool_step s s'" and "pool_inv (sys_pool s) (sys_held s)"
  shows "pool_inv (sys_pool s') (sys_held s')"
  using assms
proof cases
  case (lookup_hit data b p)
  with pool_lookup [OF assms(2), of data] show ?thesis by auto
next
  case (lookup_miss data p)
  with pool_lookup [OF assms(2), of data] assms(2) show ?thesis by auto
next
  case (insert data pend ok1 ok2 ok3 ok4 r p)
  with pool_new_insert [OF assms(2), of ok1 ok2 ok3 ok4 data] show ?thesis by auto
next
  case (up_ref b p)
  have "b \<in> set (pool_items (sys_pool s))"
    using assms(2) up_ref(2) by (auto simp: pool_inv_def)
  from pool_up_ref [OF assms(2) this] up_ref show ?thesis by auto
next
  case (free b held ok p)
  with pool_free [of "sys_pool s" b held ok] assms(2) show ?thesis by auto
qed

lemma POOL_new_inv:
  assumes "CRYPTO_BUFFER_POOL_new ok1 ok2 ok3 = Some p"
  shows "pool_inv p {#}"
proof -
  obtain bufs where "lh_new ok2 ok3 CRYPTO_BUFFER_hash CRYPTO_BUFFER_cmp = Some bufs"
    and p: "p = \<lparr>pl_bufs = bufs, pl_refs = (\<lambda>_. None), pl_next = 0\<rparr>"
    using assms by (auto simp: CRYPTO_BUFFER_POOL_new_def split: if_splits option.splits)
  from lh_new_inv [OF this(1)] show ?thesis by (simp add: pool_inv_def p)
qed

lemma pool_reach_inv:
  assumes "pool_reach p s" and "CRYPTO_BUFFER_POOL_new ok1 ok2 ok3 = Some p"
  shows "pool_inv (sys_pool s) (sys_held s)"
  using assms
  by (induction rule: pool_reach.induct) (auto simp: sys_init_def POOL_new_inv intro: pool_step_inv)

lemma pool_new:
  assumes inv: "pool_inv p held"
  shows "\<exists>r p'. CRYPTO_BUFFER_new ok1 ok2 ok3 ok4 data p = Some (r, p') \<and>
     (case r of None \<Rightarrow> pool_inv p' held
      | Some b \<Rightarrow> cb_data b = data \<and> pool_inv p' (add_mset b held))"
proof -
  obtain r p1 where look: "CRYPTO_BUFFER_new_lookup data p = Some (r, p1)"
    and r: "case r of None \<Rightarrow> p1 = p \<and> (\<forall>b\<in>set (pool_items p). cb_data b \<noteq> data)
      | Some b \<Rightarrow> cb_data b = data \<and> pool_inv p1 (add_mset b held)"
    using pool_lookup [OF inv, of data] by blast
  show ?thesis
  proof (cases r)
    case None
    with r have "p1 = p" by simp
    with None look pool_new_insert [OF inv, of ok1 ok2 ok3 ok4 data] show ?thesis
      by (fastforce simp: CRYPTO_BUFFER_new_def split: option.splits)
  qed (use look r in \<open>simp add: CRYPTO_BUFFER_new_def\<close>)
qed

lemma pool_lookup_held:
  assumes inv: "pool_inv p held" and b: "b \<in># held"
  shows "\<exists>p'. CRYPTO_BUFFER_new_lookup (cb_data b) p = Some (Some b, p') \<and> lh_retrieve (pl_bufs p) b = Some b"
proof -
  have lh: "lh_inv CRYPTO_BUFFER_hash CRYPTO_BUFFER_cmp (pl_bufs p)" and bi: "b \<in> set (pool_items p)"
    using inv b by (auto simp: pool_inv_def)
  have "lh_retrieve (pl_bufs p) \<lparr>cb_id = pl_next p, cb_data = cb_data b\<rparr> = Some b"
    "lh_retrieve (pl_bufs p) b = Some b"
    using pool_lh.lh_retrieve_iff [OF lh] bi by (simp_all add: CRYPTO_BUFFER_cmp_zero)
  then show ?thesis
    using pool_up_ref [OF inv bi] by (auto simp: CRYPTO_BUFFER_new_lookup_def)
qed

section \<open>A concrete history\<close>

text \<open>A pool, a missed lookup, the insertion that follows it and the release of the buffer.\<close>

definition demo_pool :: pool where
  "demo_pool = the (CRYPTO_BUFFER_POOL_new True True True)"

definition demo_buf :: crypto_buffer where
  "demo_buf = \<lparr>cb_id = 0, cb_data = [1, 2]\<rparr>"

definition demo_insert :: pool where
  "demo_insert = snd (the (CRYPTO_BUFFER_new_insert True True True True [1, 2] demo_pool))"

definition demo_free :: pool where
  "demo_free = the (CRYPTO_BUFFER_free True demo_buf demo_insert)"

definition demo_sys1 :: pool_sys where
  "demo_sys1 = \<lparr>sys_pool = demo_pool, sys_held = {#}, sys_pending = {#[1, 2]#}\<rparr>"

definition demo_sys2 :: pool_sys where
  "demo_sys2 = \<lparr>sys_pool = demo_insert, sys_held = {#demo_buf#}, sys_pending = {#}\<rparr>"

definition demo_sys3 :: pool_sys where
  "demo_sys3 = \<lparr>sys_pool = demo_free, sys_held = {#}, sys_pending = {#}\<rparr>"

lemma demo_pool: "CRYPTO_BUFFER_POOL_new True True True = Some demo_pool"
  by (simp add: demo_pool_def CRYPTO_BUFFER_POOL_new_def lh_new_def)

lemma demo_pool_inv: "pool_inv demo_pool {#}" and demo_pool_items: "pool_items demo_pool = []"
  and demo_pool_next: "pl_next demo_pool = 0" and demo_pool_refs: "pl_refs demo_pool = (\<lambda>_. None)"
  using POOL_new_inv [OF demo_pool]
  by (simp_all add: demo_pool_def CRYPTO_BUFFER_POOL_new_def lh_new_def lh_items_def numeral_eq_Suc
      kMinNumBuckets_def)

lemma demo_lookup: "CRYPTO_BUFFER_new_lookup [1, 2] demo_pool = Some (None, demo_pool)"
  using pool_lookup [OF demo_pool_inv, of "[1, 2]"] pool_found [OF demo_pool_inv, of "[1, 2]" "pl_next demo_pool"]
  by (auto simp: CRYPTO_BUFFER_new_lookup_def demo_pool_items split: option.splits)

lemma demo_insert:
  "CRYPTO_BUFFER_new_insert True True True True [1, 2] demo_pool = Some (Some demo_buf, demo_insert) \<and>
   pl_refs demo_insert = [0 \<mapsto> 1]"
proof -
  have miss: "lh_retrieve (pl_bufs demo_pool) demo_buf = None"
    using pool_found [OF demo_pool_inv, of "[1, 2]" 0]
    by (auto simp: demo_pool_items demo_buf_def split: option.splits)
  obtain ins old bufs where run: "lh_insert True True (pl_bufs demo_pool) demo_buf = (ins, old, bufs)"
    by (metis prod_cases3)
  then have "ins" and "old = None" using miss
    by (auto simp: lh_insert_def lh_retrieve_def Let_def split_def split: option.splits)
  with run miss show ?thesis
    by (simp add: CRYPTO_BUFFER_new_insert_def demo_insert_def demo_buf_def demo_pool_next
        demo_pool_refs Let_def)
qed

lemma demo_insert_inv: "pool_inv demo_insert {#demo_buf#}"
  using pool_new_insert [OF demo_pool_inv, of True True True True "[1, 2]"] demo_insert by simp

lemma demo_free: "CRYPTO_BUFFER_free True demo_buf demo_insert = Some demo_free \<and>
   pl_refs demo_free = (\<lambda>_. None)"
proof -
  obtain p where "CRYPTO_BUFFER_free True demo_buf demo_insert = Some p"
    using pool_free [of demo_insert demo_buf "{#}" True] demo_insert_inv by auto
  then show ?thesis
    using demo_insert
    by (auto simp: demo_free_def CRYPTO_BUFFER_free_def CRYPTO_refcount_dec_and_test_zero_def
        CRYPTO_REFCOUNT_MAX_def demo_buf_def fun_eq_iff split: prod.splits if_splits)
qed

lemma demo_reach2: "pool_reach demo_pool demo_sys2"
proof -
  have "pool_step (sys_init demo_pool) demo_sys1"
    using pool_step.lookup_miss [of "[1, 2]" "sys_init demo_pool" demo_pool] demo_lookup
    by (simp add: sys_init_def demo_sys1_def)
  then have "pool_reach demo_pool demo_sys1" by (rule pool_reach.step [OF pool_reach.init])
  moreover have "pool_step demo_sys1 demo_sys2"
    using pool_step.insert [of demo_sys1 "[1, 2]" "{#}" True True True True "Some demo_buf" demo_insert]
      demo_insert by (simp add: demo_sys1_def demo_sys2_def)
  ultimately show ?thesis by (rule pool_reach.step)
qed

lemma demo_reach3: "pool_reach demo_pool demo_sys3"
proof (rule pool_reach.step [OF demo_reach2])
  show "pool_step demo_sys2 demo_sys3"
    using pool_step.free [of demo_sys2 demo_buf "{#}" True demo_free] demo_free
    by (simp add: demo_sys2_def demo_sys3_def)
qed

section \<open>Properties\<close>

text \<open>C18. Memory safety of the pool under any interleaving of its critical sections: in every
  reachable state every buffer a thread holds is in the table under its own bytes, two held
  buffers with the same bytes are the same buffer, its count is the number of references held
  unless saturated, and no operation a thread may call next reads freed memory, aborts on a
  zero count or fails the assertions.\<close>

theorem pool_safe:
  assumes "CRYPTO_BUFFER_POOL_new ok1 ok2 ok3 = Some p0" and "pool_reach p0 s"
  shows "(\<forall>b\<in>#sys_held s. lh_retrieve (pl_bufs (sys_pool s)) b = Some b \<and>
            count_ok (sys_pool s) (sys_held s) b \<and>
            CRYPTO_BUFFER_up_ref b (sys_pool s) \<noteq> None \<and>
            CRYPTO_BUFFER_free ok b (sys_pool s) \<noteq> None) \<and>
     (\<forall>a\<in>#sys_held s. \<forall>b\<in>#sys_held s. cb_data a = cb_data b \<longrightarrow> a = b) \<and>
     CRYPTO_BUFFER_new_lookup data (sys_pool s) \<noteq> None \<and>
     CRYPTO_BUFFER_new_insert ok4 ok5 ok6 ok7 data (sys_pool s) \<noteq> None"
proof -
  note inv = pool_reach_inv [OF assms(2,1)]
  have same: "a = b" if a: "a \<in># sys_held s" and b: "b \<in># sys_held s" and e: "cb_data a = cb_data b" for a b
  proof -
    obtain p1 where "CRYPTO_BUFFER_new_lookup (cb_data a) (sys_pool s) = Some (Some a, p1)"
      using pool_lookup_held [OF inv a] by (elim exE conjE)
    moreover obtain p2 where "CRYPTO_BUFFER_new_lookup (cb_data b) (sys_pool s) = Some (Some b, p2)"
      using pool_lookup_held [OF inv b] by (elim exE conjE)
    ultimately have "Some (Some a, p1) = Some (Some b, p2)" unfolding e by (rule trans [OF sym])
    then show ?thesis by simp
  qed
  have "lh_retrieve (pl_bufs (sys_pool s)) b = Some b \<and> count_ok (sys_pool s) (sys_held s) b \<and>
      CRYPTO_BUFFER_up_ref b (sys_pool s) \<noteq> None \<and> CRYPTO_BUFFER_free ok b (sys_pool s) \<noteq> None"
    if b: "b \<in># sys_held s" for b
  proof -
    have bi: "b \<in> set (pool_items (sys_pool s))" "count_ok (sys_pool s) (sys_held s) b"
      using inv b by (auto simp: pool_inv_def)
    obtain held where held: "sys_held s = add_mset b held" using multi_member_split [OF b] by blast
    have "lh_retrieve (pl_bufs (sys_pool s)) b = Some b" using pool_lookup_held [OF inv b] by blast
    moreover have "CRYPTO_BUFFER_up_ref b (sys_pool s) \<noteq> None"
      using pool_up_ref [OF inv bi(1)] by fastforce
    moreover have "CRYPTO_BUFFER_free ok b (sys_pool s) \<noteq> None"
      using pool_free [OF inv [unfolded held], of ok] by (elim exE conjE) simp
    ultimately show ?thesis using bi(2) by blast
  qed
  then have 1: "\<forall>b\<in>#sys_held s. lh_retrieve (pl_bufs (sys_pool s)) b = Some b \<and>
      count_ok (sys_pool s) (sys_held s) b \<and> CRYPTO_BUFFER_up_ref b (sys_pool s) \<noteq> None \<and>
      CRYPTO_BUFFER_free ok b (sys_pool s) \<noteq> None" by blast
  have 2: "CRYPTO_BUFFER_new_lookup data (sys_pool s) \<noteq> None"
    using pool_lookup [OF inv, of data] by auto
  have 3: "CRYPTO_BUFFER_new_insert ok4 ok5 ok6 ok7 data (sys_pool s) \<noteq> None"
    using pool_new_insert [OF inv, of ok4 ok5 ok6 ok7 data] by auto
  show ?thesis using 1 2 3 same by blast
qed

text \<open>The concrete history after the insertion.\<close>

lemma pool_safe_witness:
  "sys_held demo_sys2 = {#demo_buf#} \<and> lh_retrieve (pl_bufs (sys_pool demo_sys2)) demo_buf = Some demo_buf \<and>
   CRYPTO_BUFFER_free True demo_buf (sys_pool demo_sys2) \<noteq> None"
proof -
  have h: "sys_held demo_sys2 = {#demo_buf#}" by (simp add: demo_sys2_def)
  show ?thesis
    using pool_safe [OF demo_pool demo_reach2, of True "[]" True True True True] h by simp
qed



text \<open>C27. No leak: when the threads hold no reference and no count has saturated, the table is
  empty, as \<open>CRYPTO_BUFFER_POOL_free\<close> asserts, and no buffer is left allocated.\<close>

theorem pool_reclaims:
  assumes "CRYPTO_BUFFER_POOL_new ok1 ok2 ok3 = Some p0" and "pool_reach p0 s"
    and "sys_held s = {#}" and "\<forall>i. pl_refs (sys_pool s) i \<noteq> Some CRYPTO_REFCOUNT_MAX"
  shows "lh_num_items (pl_bufs (sys_pool s)) = 0 \<and> pl_refs (sys_pool s) = (\<lambda>_. None)"
proof -
  note inv = pool_reach_inv [OF assms(2,1)]
  have "b \<notin> set (pool_items (sys_pool s))" for b
    using inv assms(3,4) by (auto simp: pool_inv_def count_ok_def unat_eq_0)
  then have "pool_items (sys_pool s) = []" by (meson list.set_sel(1))
  with inv show ?thesis
    by (auto simp: pool_inv_def lh_inv_def lh_num_items_def fun_eq_iff)
qed

text \<open>The concrete history after the release.\<close>

lemma pool_reclaims_witness:
  "pool_reach demo_pool demo_sys3 \<and> lh_num_items (pl_bufs (sys_pool demo_sys3)) = 0"
proof -
  have "sys_held demo_sys3 = {#}" "\<forall>i. pl_refs (sys_pool demo_sys3) i \<noteq> Some CRYPTO_REFCOUNT_MAX"
    using demo_free by (simp_all add: demo_sys3_def)
  from pool_reclaims [OF demo_pool demo_reach3 this] demo_reach3 show ?thesis by simp
qed

end
