(* ===== verification/ConstTime.thy ===== *)
theory ConstTime
  imports Prelude
begin

text \<open>
  The branch-free primitives of \<^verbatim>\<open>BoringSSL/crypto/internal.h\<close> on 64-bit words: masks that
  are all ones or all zeros, computed by the most significant bit of a formula.  Each is
  translated as written; the collection \<open>ct_simps\<close> says which test it computes, and is
  what the proofs about their callers rewrite with.
\<close>

definition constant_time_msb_w :: "u64 \<Rightarrow> u64" where
  "constant_time_msb_w a = 0 - drop_bit 63 a"

definition constant_time_lt_w :: "u64 \<Rightarrow> u64 \<Rightarrow> u64" where
  "constant_time_lt_w a b = constant_time_msb_w (a XOR ((a XOR b) OR ((a - b) XOR a)))"

definition constant_time_lt_8 :: "u64 \<Rightarrow> u64 \<Rightarrow> u8" where
  "constant_time_lt_8 a b = ucast (constant_time_lt_w a b)"

definition constant_time_ge_w :: "u64 \<Rightarrow> u64 \<Rightarrow> u64" where
  "constant_time_ge_w a b = NOT (constant_time_lt_w a b)"

definition constant_time_ge_8 :: "u64 \<Rightarrow> u64 \<Rightarrow> u8" where
  "constant_time_ge_8 a b = ucast (constant_time_ge_w a b)"

definition constant_time_is_zero_w :: "u64 \<Rightarrow> u64" where
  "constant_time_is_zero_w a = constant_time_msb_w (NOT a AND (a - 1))"

definition constant_time_is_zero_8 :: "u64 \<Rightarrow> u8" where
  "constant_time_is_zero_8 a = ucast (constant_time_is_zero_w a)"

definition constant_time_eq_w :: "u64 \<Rightarrow> u64 \<Rightarrow> u64" where
  "constant_time_eq_w a b = constant_time_is_zero_w (a XOR b)"

definition constant_time_eq_8 :: "u64 \<Rightarrow> u64 \<Rightarrow> u8" where
  "constant_time_eq_8 a b = ucast (constant_time_eq_w a b)"

text \<open>An \<open>int\<close> argument is converted to the unsigned word modulo \<open>2 ^ 64\<close>.\<close>

definition constant_time_eq_int :: "32 word \<Rightarrow> 32 word \<Rightarrow> u64" where
  "constant_time_eq_int a b = constant_time_eq_w (scast a) (scast b)"

definition constant_time_eq_int_8 :: "32 word \<Rightarrow> 32 word \<Rightarrow> u8" where
  "constant_time_eq_int_8 a b = constant_time_eq_8 (scast a) (scast b)"

definition constant_time_select_w :: "u64 \<Rightarrow> u64 \<Rightarrow> u64 \<Rightarrow> u64" where
  "constant_time_select_w m a b = (m AND a) OR (NOT m AND b)"

definition constant_time_select_8 :: "u8 \<Rightarrow> u8 \<Rightarrow> u8 \<Rightarrow> u8" where
  "constant_time_select_8 m a b = ucast (constant_time_select_w (ucast m) (ucast a) (ucast b))"

definition constant_time_select_int :: "u64 \<Rightarrow> 32 word \<Rightarrow> 32 word \<Rightarrow> 32 word" where
  "constant_time_select_int m a b = ucast (constant_time_select_w m (scast a) (scast b))"

section \<open>What they compute\<close>

text \<open>The two masks.\<close>

definition ct_mask :: "bool \<Rightarrow> 'a::len word" where
  "ct_mask b = (if b then - 1 else 0)"

lemma bit63_iff: "bit (a :: u64) 63 \<longleftrightarrow> 2 ^ 63 \<le> unat a"
proof -
  have "unat a < 2 ^ 64" using unsigned_less [of a] by simp
  then have "unat a div 2 ^ 63 < 2" by (simp add: less_mult_imp_div_less)
  then have "odd (unat a div 2 ^ 63) \<longleftrightarrow> unat a div 2 ^ 63 \<noteq> 0" by (cases "unat a div 2 ^ 63") auto
  moreover have "bit a 63 \<longleftrightarrow> odd (unat a div 2 ^ 63)"
  proof -
    have "bit (unat a) 63 \<longleftrightarrow> bit a 63" by (simp add: bit_unsigned_iff)
    then show ?thesis by (simp add: bit_iff_odd [of "unat a"])
  qed
  ultimately show ?thesis by (simp add: div_eq_0_iff not_less)
qed

lemma msb_mask [ct_simps]: "constant_time_msb_w a = ct_mask (bit a 63)"
proof -
  have "drop_bit 63 a = of_bool (bit a 63)"
    proof (rule bit_eqI)
    fix n
    have "bit a (63 + n) \<Longrightarrow> n = 0" using bit_imp_le_length [of a "63 + n"] by simp
    then show "bit (drop_bit 63 a) n \<longleftrightarrow> bit (of_bool (bit a 63) :: u64) n"
      by (cases "n = 0") (auto simp: bit_simps)
  qed
  then show ?thesis by (simp add: constant_time_msb_w_def ct_mask_def)
qed

lemma lt_mask [ct_simps]: "constant_time_lt_w a b = ct_mask (a < b)"
proof -
  have "unat (a - b) = (if unat b \<le> unat a then unat a - unat b else unat a + 2 ^ 64 - unat b)"
    by (simp add: unat_sub_if')
  moreover have "unat a < 2 ^ 64" "unat b < 2 ^ 64" using unsigned_less [of a] unsigned_less [of b] by simp_all
  ultimately have "bit (a XOR ((a XOR b) OR ((a - b) XOR a))) 63 \<longleftrightarrow> unat a < unat b"
    by (simp add: bit_simps) (auto simp: bit63_iff)
  then show ?thesis
    by (simp add: constant_time_lt_w_def msb_mask word_less_nat_alt)
qed

lemma is_zero_mask [ct_simps]: "constant_time_is_zero_w a = ct_mask (a = 0)"
proof -
  have "bit (NOT a AND (a - 1)) 63 \<longleftrightarrow> a = 0"
  proof (cases "a = 0")
    case False
    then have "unat (a - 1) < unat a" by (simp add: unat_minus_one unat_gt_0)
    then have "\<not> (\<not> bit a 63 \<and> bit (a - 1) 63)" by (auto simp: bit63_iff)
    with False show ?thesis by (simp add: bit_simps)
  qed (simp add: bit_simps)
  then show ?thesis by (simp add: constant_time_is_zero_w_def msb_mask)
qed

lemma eq_mask [ct_simps]: "constant_time_eq_w a b = ct_mask (a = b)"
proof -
  have "a XOR b = 0 \<longleftrightarrow> a = b"
  proof
    assume e: "a XOR b = 0"
    have "a = (a XOR b) XOR b" by (simp add: xor.assoc)
    then show "a = b" unfolding e by simp
  qed simp
  then show ?thesis by (simp add: constant_time_eq_w_def is_zero_mask)
qed

lemma ct_mask_narrow [ct_simps]: "ucast (ct_mask b :: u64) = (ct_mask b :: u8)"
  by (rule bit_eqI) (simp add: ct_mask_def bit_simps)

lemma ct_mask_not [ct_simps]: "NOT (ct_mask b) = ct_mask (\<not> b)"
  by (simp add: ct_mask_def)

lemma ct_mask_and [ct_simps]: "ct_mask b AND ct_mask c = ct_mask (b \<and> c)"
  by (simp add: ct_mask_def)

lemma ct_mask_or [ct_simps]: "ct_mask b OR ct_mask c = ct_mask (b \<or> c)"
  by (simp add: ct_mask_def)

lemma ct_narrow [ct_simps]:
  "constant_time_lt_8 a b = ct_mask (a < b)"
  "constant_time_ge_w a b = ct_mask (b \<le> a)"
  "constant_time_ge_8 a b = ct_mask (b \<le> a)"
  "constant_time_is_zero_8 a = ct_mask (a = 0)"
  "constant_time_eq_8 a b = ct_mask (a = b)"
  by (simp_all add: constant_time_lt_8_def constant_time_ge_w_def constant_time_ge_8_def
      constant_time_is_zero_8_def constant_time_eq_8_def ct_simps not_less)

lemma scast_u64_back: "ucast (scast (a :: 32 word) :: u64) = a"
  by (rule bit_eqI) (auto simp: bit_simps)

lemma scast_u64_inj: "scast (a :: 32 word) = (scast b :: u64) \<longleftrightarrow> a = b"
proof
  assume "scast a = (scast b :: u64)"
  then have "(ucast (scast a :: u64) :: 32 word) = ucast (scast b :: u64)" by simp
  then show "a = b" by (simp only: scast_u64_back)
qed simp

lemma eq_int_mask [ct_simps]:
  "constant_time_eq_int a b = ct_mask (a = b)" "constant_time_eq_int_8 a b = ct_mask (a = b)"
  by (simp_all add: constant_time_eq_int_def constant_time_eq_int_8_def ct_simps scast_u64_inj)

lemma select_w_mask [ct_simps]: "constant_time_select_w (ct_mask c) a b = (if c then a else b)"
  by (simp add: constant_time_select_w_def ct_mask_def)

lemma select_8_mask [ct_simps]: "constant_time_select_8 (ct_mask c) a b = (if c then a else b)"
  by (rule bit_eqI) (auto simp: constant_time_select_8_def constant_time_select_w_def ct_mask_def bit_simps)

lemma select_int_mask [ct_simps]: "constant_time_select_int (ct_mask c) a b = (if c then a else b)"
  by (simp add: constant_time_select_int_def ct_simps scast_u64_back)

section \<open>Properties\<close>

text \<open>C34. The comparisons of the constant-time layer are exact for all 64-bit arguments, unsigned
  and without overflow cases, and the selections pick an argument by the mask: one formula
  each, with no branch.\<close>

theorem constant_time_correct:
  "constant_time_lt_w a b = (if a < b then - 1 else 0) \<and>
   constant_time_ge_w a b = (if b \<le> a then - 1 else 0) \<and>
   constant_time_is_zero_w a = (if a = 0 then - 1 else 0) \<and>
   constant_time_eq_w a b = (if a = b then - 1 else 0) \<and>
   constant_time_eq_int i j = (if i = j then - 1 else 0) \<and>
   constant_time_select_w (constant_time_lt_w a b) x y = (if a < b then x else y) \<and>
   constant_time_select_8 (constant_time_lt_8 a b) x8 y8 = (if a < b then x8 else y8) \<and>
   constant_time_select_int (constant_time_ge_w a b) i j = (if b \<le> a then i else j)"
  by (simp add: ct_simps) (simp add: ct_mask_def)

end
