(* ===== verification/Base64.thy ===== *)
theory Base64
  imports ConstTime
begin

text \<open>
  \<^verbatim>\<open>BoringSSL/crypto/base64/base64.c\<close>: constant-time base64, one-shot and streaming.  What a
  call writes at its output pointer is the list of the bytes written there; \<open>put out p bs\<close>
  continues it at position \<open>p\<close>, overwriting the terminator an earlier write left.  The
  characters are bytes; \<open>int\<close> results are HOL integers.
\<close>

section \<open>Characters\<close>

definition constant_time_lt_args_8 :: "u8 \<Rightarrow> u8 \<Rightarrow> u8" where
  "constant_time_lt_args_8 a b =
     (let aw = (ucast a :: u64); bw = ucast b in ucast (constant_time_msb_w (aw - bw)))"

definition constant_time_in_range_8 :: "u8 \<Rightarrow> u8 \<Rightarrow> u8 \<Rightarrow> u8" where
  "constant_time_in_range_8 a lo hi = (let a = a - lo in constant_time_lt_args_8 a (hi - lo + 1))"

definition conv_bin2ascii :: "u8 \<Rightarrow> u8" where
  "conv_bin2ascii a0 =
     (let a = a0 AND 0x3f;
          ret = constant_time_select_8 (constant_time_eq_8 (ucast a) 62) 43 47;
          ret = constant_time_select_8 (constant_time_lt_args_8 a 62) (a - 52 + 48) ret;
          ret = constant_time_select_8 (constant_time_lt_args_8 a 52) (a - 26 + 97) ret;
          ret = constant_time_select_8 (constant_time_lt_args_8 a 26) (a + 65) ret
      in ret)"

definition base64_ascii_to_bin :: "u8 \<Rightarrow> u8" where
  "base64_ascii_to_bin a =
     (let is_upper = constant_time_in_range_8 a 65 90;
          is_lower = constant_time_in_range_8 a 97 122;
          is_digit = constant_time_in_range_8 a 48 57;
          is_plus = constant_time_eq_8 (ucast a) 43;
          is_slash = constant_time_eq_8 (ucast a) 47;
          is_equals = constant_time_eq_8 (ucast a) 61;
          ret = 0xff;
          ret = constant_time_select_8 is_upper (a - 65) ret;
          ret = constant_time_select_8 is_lower (a - 97 + 26) ret;
          ret = constant_time_select_8 is_digit (a - 48 + 52) ret;
          ret = constant_time_select_8 is_plus 62 ret;
          ret = constant_time_select_8 is_slash 63 ret;
          ret = constant_time_select_8 is_equals 0 ret
      in ret)"

section \<open>Encoding\<close>

definition EVP_EncodedLength :: "nat \<Rightarrow> nat option" where
  "EVP_EncodedLength len0 =
     (if sz (len0 + 2) < len0 then None
      else let len1 = sz (len0 + 2) div 3 in
           if sz (len1 * 4) div 4 \<noteq> len1 then None
           else let len2 = sz (len1 * 4) in
                if sz (len2 + 1) < len2 then None else Some (sz (len2 + 1)))"

text \<open>The four characters one turn of the loop of \<open>EVP_EncodeBlock\<close> writes.\<close>

definition encode_quad :: "bytes \<Rightarrow> bytes" where
  "encode_quad src =
     (if length src \<ge> 3 then
        let l = push_bit 16 (ucast (src ! 0)) OR push_bit 8 (ucast (src ! 1)) OR ucast (src ! 2) :: u32
        in [conv_bin2ascii (ucast (drop_bit 18 l)), conv_bin2ascii (ucast (drop_bit 12 l)),
            conv_bin2ascii (ucast (drop_bit 6 l)), conv_bin2ascii (ucast l)]
      else
        let l = push_bit 16 (ucast (src ! 0)) :: u32;
            l = (if length src = 2 then l OR push_bit 8 (ucast (src ! 1)) else l)
        in [conv_bin2ascii (ucast (drop_bit 18 l)), conv_bin2ascii (ucast (drop_bit 12 l)),
            if length src = 1 then 61 else conv_bin2ascii (ucast (drop_bit 6 l)), 61])"

function EncodeBlock_loop :: "bytes \<Rightarrow> bytes" where
  "EncodeBlock_loop src =
     (if src = [] then []
      else if length src \<ge> 3 then encode_quad src @ EncodeBlock_loop (drop 3 src)
      else encode_quad src)"
  by auto
termination by (relation "measure length") auto

declare EncodeBlock_loop.simps [simp del]

definition EVP_EncodeBlock :: "bytes \<Rightarrow> bytes \<times> nat" where
  "EVP_EncodeBlock src = (let dst = EncodeBlock_loop src in (dst @ [0], length dst))"

record evp_encode_ctx =
  data_used :: nat
  ctx_data :: bytes
  eof_seen :: bool
  error_encountered :: bool

definition EVP_EncodeInit :: evp_encode_ctx where
  "EVP_EncodeInit = \<lparr>data_used = 0, ctx_data = replicate 48 0, eof_seen = False,
                     error_encountered = False\<rparr>"

definition put :: "bytes \<Rightarrow> nat \<Rightarrow> bytes \<Rightarrow> bytes" where
  "put out p bs = take p out @ bs"

text \<open>
  The loop over the full lines: the bytes written, the output position, the running tot
  and the rest of the input; \<open>None\<close> when the total wraps.
\<close>

function EncodeUpdate_loop ::
  "bytes \<Rightarrow> nat \<Rightarrow> nat \<Rightarrow> bytes \<Rightarrow> bytes \<times> nat option \<times> bytes" where
  "EncodeUpdate_loop out p tot inp =
     (if length inp \<ge> 48 then
        let (blk, encoded) = EVP_EncodeBlock (take 48 inp);
            out = put (put out p blk) (p + encoded) [10, 0]; p = p + encoded + 1
        in if sz (tot + encoded + 1) < tot then (out, None, drop 48 inp)
           else EncodeUpdate_loop out p (sz (tot + encoded + 1)) (drop 48 inp)
      else (out, Some tot, inp))"
  by auto
termination by (relation "measure (\<lambda>(_, _, _, inp). length inp)") auto

declare EncodeUpdate_loop.simps [simp del]

definition EVP_EncodeUpdate ::
  "evp_encode_ctx \<Rightarrow> bytes \<Rightarrow> int \<times> bytes \<times> evp_encode_ctx" where
  "EVP_EncodeUpdate ctx inp =
     (if inp = [] then (0, [], ctx)
      else if 48 - data_used ctx > length inp then
        (0, [], ctx\<lparr>ctx_data := blit (ctx_data ctx) (data_used ctx) inp,
                    data_used := data_used ctx + length inp\<rparr>)
      else
        let (out, p, tot, rest, ctx) =
              (if data_used ctx \<noteq> 0 then
                 let todo = 48 - data_used ctx;
                     dat = blit (ctx_data ctx) (data_used ctx) (take todo inp);
                     (blk, encoded) = EVP_EncodeBlock dat
                 in (put blk encoded [10, 0], encoded + 1, encoded + 1, drop todo inp,
                     ctx\<lparr>ctx_data := dat, data_used := 0\<rparr>)
               else ([], 0, 0, inp, ctx))
        in (case EncodeUpdate_loop out p tot rest of
              (out, None, _) \<Rightarrow> (0, out, ctx)
            | (out, Some tot, rest) \<Rightarrow>
                let ctx = ctx\<lparr>ctx_data := blit (ctx_data ctx) 0 rest, data_used := length rest\<rparr>;
                    tot = (if tot > INT_MAX then 0 else tot)
                in (int tot, out, ctx)))"

definition EVP_EncodeFinal :: "evp_encode_ctx \<Rightarrow> int \<times> bytes \<times> evp_encode_ctx" where
  "EVP_EncodeFinal ctx =
     (if data_used ctx = 0 then (0, [], ctx)
      else let (blk, encoded) = EVP_EncodeBlock (take (data_used ctx) (ctx_data ctx));
               out = put blk encoded [10, 0]
           in (int (encoded + 1), out, ctx\<lparr>data_used := 0\<rparr>))"

section \<open>Decoding\<close>

definition EVP_DecodedLength :: "nat \<Rightarrow> nat option" where
  "EVP_DecodedLength len = (if len mod 4 \<noteq> 0 then None else Some (sz (len div 4 * 3)))"

definition EVP_DecodeInit :: evp_encode_ctx where
  "EVP_DecodeInit = \<lparr>data_used = 0, ctx_data = replicate 48 0, eof_seen = False,
                     error_encountered = False\<rparr>"

text \<open>The bytes written by \<open>base64_decode_quad\<close>, \<open>None\<close> for an error (0).\<close>

definition base64_decode_quad :: "bytes \<Rightarrow> bytes option" where
  "base64_decode_quad inp =
     (let a = base64_ascii_to_bin (inp ! 0); b = base64_ascii_to_bin (inp ! 1);
          c = base64_ascii_to_bin (inp ! 2); d = base64_ascii_to_bin (inp ! 3)
      in if a = 0xff \<or> b = 0xff \<or> c = 0xff \<or> d = 0xff then None
         else
           let v = push_bit 18 (ucast a) OR push_bit 12 (ucast b) OR push_bit 6 (ucast c) OR ucast d :: u32;
               padding_pattern = push_bit 3 (of_bool (inp ! 0 = 61)) OR
                                 push_bit 2 (of_bool (inp ! 1 = 61)) OR
                                 push_bit 1 (of_bool (inp ! 2 = 61)) OR
                                 of_bool (inp ! 3 = 61) :: u32
           in if padding_pattern = 0 then
                Some [ucast (drop_bit 16 v), ucast (drop_bit 8 v), ucast v]
              else if padding_pattern = 1 then Some [ucast (drop_bit 16 v), ucast (drop_bit 8 v)]
              else if padding_pattern = 3 then Some [ucast (drop_bit 16 v)]
              else None)"

text \<open>The loop of \<open>EVP_DecodeUpdate\<close>: whether it ended without an error, the bytes
  written, and the context.\<close>

fun DecodeUpdate_loop ::
  "evp_encode_ctx \<Rightarrow> bytes \<Rightarrow> bytes \<Rightarrow> bool \<times> bytes \<times> evp_encode_ctx" where
  "DecodeUpdate_loop ctx out [] = (True, out, ctx)"
| "DecodeUpdate_loop ctx out (c # cs) =
     (if c = 32 \<or> c = 9 \<or> c = 13 \<or> c = 10 then DecodeUpdate_loop ctx out cs
      else if eof_seen ctx then (False, out, ctx\<lparr>error_encountered := True\<rparr>)
      else
        let ctx = ctx\<lparr>ctx_data := (ctx_data ctx)[data_used ctx := c], data_used := data_used ctx + 1\<rparr>
        in if data_used ctx = 4 then
             (case base64_decode_quad (ctx_data ctx) of
                None \<Rightarrow> (False, out, ctx\<lparr>error_encountered := True\<rparr>)
              | Some bs \<Rightarrow>
                  let ctx = ctx\<lparr>data_used := 0\<rparr>;
                      ctx = (if length bs < 3 then ctx\<lparr>eof_seen := True\<rparr> else ctx)
                  in DecodeUpdate_loop ctx (out @ bs) cs)
           else DecodeUpdate_loop ctx out cs)"

text \<open>The return value, \<open>*out_len\<close>, the bytes written at \<open>out\<close>, and the context.\<close>

definition EVP_DecodeUpdate ::
  "evp_encode_ctx \<Rightarrow> bytes \<Rightarrow> int \<times> int \<times> bytes \<times> evp_encode_ctx" where
  "EVP_DecodeUpdate ctx inp =
     (if error_encountered ctx then (- 1, 0, [], ctx)
      else (case DecodeUpdate_loop ctx [] inp of
              (False, out, ctx) \<Rightarrow> (- 1, 0, out, ctx)
            | (True, out, ctx) \<Rightarrow>
                if length out > INT_MAX then (- 1, 0, out, ctx\<lparr>error_encountered := True\<rparr>)
                else (if eof_seen ctx then 0 else 1, int (length out), out, ctx)))"

definition EVP_DecodeFinal :: "evp_encode_ctx \<Rightarrow> int \<times> int" where
  "EVP_DecodeFinal ctx = (if error_encountered ctx \<or> data_used ctx \<noteq> 0 then (- 1, 0) else (1, 0))"

function DecodeBase64_loop :: "bytes \<Rightarrow> bytes \<Rightarrow> bool \<times> bytes" where
  "DecodeBase64_loop out inp =
     (if inp = [] then (True, out)
      else (case base64_decode_quad inp of
              None \<Rightarrow> (False, out)
            | Some bs \<Rightarrow>
                if length bs \<noteq> 3 \<and> length inp \<noteq> 4 then (False, out @ bs)
                else DecodeBase64_loop (out @ bs) (drop 4 inp)))"
  by auto
termination by (relation "measure (\<lambda>(_, inp). length inp)") auto

declare DecodeBase64_loop.simps [simp del]

text \<open>The return value, \<open>*out_len\<close> and the bytes written at \<open>out\<close>.\<close>

definition EVP_DecodeBase64 :: "nat \<Rightarrow> bytes \<Rightarrow> bool \<times> nat \<times> bytes" where
  "EVP_DecodeBase64 max_out inp =
     (if length inp mod 4 \<noteq> 0 then (False, 0, [])
      else (case EVP_DecodedLength (length inp) of
              None \<Rightarrow> (False, 0, [])
            | Some max_len \<Rightarrow>
                if max_out < max_len then (False, 0, [])
                else (case DecodeBase64_loop [] inp of
                        (False, out) \<Rightarrow> (False, 0, out)
                      | (True, out) \<Rightarrow> (True, length out, out))))"

definition EVP_DecodeBlock :: "bytes \<Rightarrow> int \<times> bytes" where
  "EVP_DecodeBlock src0 =
     (let src = dropWhile (\<lambda>c. c = 32 \<or> c = 9) src0;
          src = rev (dropWhile (\<lambda>c. c = 32 \<or> c = 9 \<or> c = 13 \<or> c = 10) (rev src))
      in (case EVP_DecodedLength (length src) of
            None \<Rightarrow> (- 1, [])
          | Some dst_len \<Rightarrow>
              if dst_len > INT_MAX then (- 1, [])
              else (case EVP_DecodeBase64 dst_len src of
                      (False, _, dst) \<Rightarrow> (- 1, dst)
                    | (True, n, dst) \<Rightarrow>
                        let pad = replicate ((3 - n mod 3) mod 3) 0
                        in (int (n + length pad), dst @ pad))))"

section \<open>Reference encoding\<close>

text \<open>
  RFC 4648: each group of three bytes is a 24-bit number, written as four digits to the base
  64; a last group of one or two bytes is filled with zeros, and the digits that carry no
  input bits are written as \<open>=\<close>.
\<close>

definition b64_alphabet :: bytes where
  "b64_alphabet = map word_of_nat ([65..<91] @ [97..<123] @ [48..<58] @ [43, 47])"

definition b64_digit :: "nat \<Rightarrow> u8" where
  "b64_digit n = b64_alphabet ! (n mod 64)"

fun b64 :: "bytes \<Rightarrow> bytes" where
  "b64 [] = []"
| "b64 [a] = (let v = be_val [a, 0, 0] in [b64_digit (v div 2 ^ 18), b64_digit (v div 2 ^ 12), 61, 61])"
| "b64 [a, b] =
     (let v = be_val [a, b, 0]
      in [b64_digit (v div 2 ^ 18), b64_digit (v div 2 ^ 12), b64_digit (v div 2 ^ 6), 61])"
| "b64 (a # b # c # bs) =
     (let v = be_val [a, b, c]
      in [b64_digit (v div 2 ^ 18), b64_digit (v div 2 ^ 12), b64_digit (v div 2 ^ 6), b64_digit v] @
         b64 bs)"

definition b64_space :: "u8 \<Rightarrow> bool" where
  "b64_space c \<longleftrightarrow> c = 32 \<or> c = 9 \<or> c = 13 \<or> c = 10"

section \<open>Characters\<close>

lemma lt_args_8_mask [ct_simps]: "constant_time_lt_args_8 a b = ct_mask (a < b)"
proof -
  have "unat (ucast a - ucast b :: u64) = (if unat b \<le> unat a then unat a - unat b
      else unat a + 2 ^ 64 - unat b)"
    by (simp add: unat_sub_if')
  then have "bit (ucast a - ucast b :: u64) 63 \<longleftrightarrow> unat a < unat b"
    using unat_u8_less [of a] unat_u8_less [of b] unfolding bit63_iff
    by (cases "unat b \<le> unat a") (simp_all del: unat_u8_less)
  then show ?thesis by (simp add: constant_time_lt_args_8_def ct_simps word_less_nat_alt)
qed

lemma conv_bin2ascii_if:
  "conv_bin2ascii x = (let a = x AND 63 in
     if a < 26 then a + 65 else if a < 52 then a - 26 + 97
     else if a < 62 then a - 52 + 48 else if ucast a = (62 :: u64) then 43 else 47)"
  by (simp add: conv_bin2ascii_def ct_simps Let_def)

lemma sextet_cases:
  assumes "list_all P [0..<64]" shows "n < 64 \<Longrightarrow> P n"
  using assms by (simp add: list_all_iff)

lemma digit_table:
  "n < 64 \<Longrightarrow> conv_bin2ascii (word_of_nat n) = b64_digit n \<and>
     base64_ascii_to_bin (b64_digit n) = word_of_nat n \<and> b64_digit n \<noteq> 61 \<and>
     \<not> b64_space (b64_digit n)"
proof (rule sextet_cases [where P = "\<lambda>n. conv_bin2ascii (word_of_nat n) = b64_digit n \<and>
     base64_ascii_to_bin (b64_digit n) = word_of_nat n \<and> b64_digit n \<noteq> 61 \<and>
     \<not> b64_space (b64_digit n)"])
qed code_simp

lemma conv_digit: "conv_bin2ascii x = b64_digit (unat x)"
proof -
  have u: "x AND 63 = word_of_nat (unat x mod 64)"
  proof (rule word_unat_eq_iff [THEN iffD2])
    have "x AND 63 = take_bit 6 x" by (simp add: take_bit_eq_mask mask_eq_exp_minus_1)
    then show "unat (x AND 63) = unat (word_of_nat (unat x mod 64) :: u8)"
      by (simp add: take_bit_eq_mod unat_mod unat_u8_of_nat)
  qed
  have "conv_bin2ascii x = conv_bin2ascii (x AND 63)" by (simp add: conv_bin2ascii_def and.assoc)
  also have "\<dots> = b64_digit (unat x mod 64)" unfolding u using digit_table by simp
  finally show ?thesis by (simp add: b64_digit_def)
qed

lemma bin_digit: "base64_ascii_to_bin (b64_digit n) = word_of_nat (n mod 64)"
  and digit_ne: "b64_digit n \<noteq> 61" and digit_nospace: "\<not> b64_space (b64_digit n)"
  using digit_table [of "n mod 64"] by (simp_all add: b64_digit_def)

lemma bin_pad: "base64_ascii_to_bin 61 = 0"
  by code_simp

section \<open>Blocks\<close>

lemma b64_digit_mod: "b64_digit (n mod 256) = b64_digit n"
  by (simp add: b64_digit_def mod_mod_cancel)

lemmas sextet_simps = conv_digit unat_drop_bit b64_digit_mod Let_def

lemma encode_quad_b64:
  "encode_quad [a] = b64 [a]" "encode_quad [a, b] = b64 [a, b]"
  "encode_quad (a # b # c # bs) = b64 [a, b, c]"
  using be24_word [of a 0 0] be24_word [of a b 0] be24_word [of a b c]
  by (simp_all add: encode_quad_def sextet_simps)

lemma EncodeBlock_loop_b64: "EncodeBlock_loop src = b64 src"
proof (induction src rule: b64.induct)
  case (4 a b c bs)
  then show ?case by (subst EncodeBlock_loop.simps) (simp add: encode_quad_b64 Let_def)
qed (subst EncodeBlock_loop.simps, simp add: encode_quad_b64)+

lemma length_b64: "length (b64 src) = (length src + 2) div 3 * 4"
proof (induction src rule: b64.induct)
  case (4 a b c bs)
  have "(length bs + 3 + 2) div 3 = (length bs + 2) div 3 + 1" by presburger
  with 4 show ?case by (simp add: Let_def)
qed (simp_all add: Let_def)

lemma b64_append: "length xs mod 3 = 0 \<Longrightarrow> b64 (xs @ ys) = b64 xs @ b64 ys"
  by (induction xs rule: b64.induct) (simp_all add: Let_def)

lemma b64_nospace: "c \<in> set (b64 src) \<Longrightarrow> \<not> b64_space c"
  by (induction src rule: b64.induct) (auto simp: Let_def digit_nospace b64_space_def [of 61])

text \<open>Reassembly of the number from its digits.\<close>

lemma digits_word:
  fixes v :: nat
  assumes "v < 2 ^ 24"
  shows "unat (push_bit 18 (ucast (word_of_nat (v div 2 ^ 18 mod 64) :: u8)) OR
      push_bit 12 (ucast (word_of_nat (v div 2 ^ 12 mod 64) :: u8)) OR
      push_bit 6 (ucast (word_of_nat (v div 2 ^ 6 mod 64) :: u8)) OR
      ucast (word_of_nat (v mod 64) :: u8) :: u32) = v"
proof -
  let ?w = "\<lambda>n. ucast (word_of_nat (n mod 64) :: u8) :: u32"
  have w: "unat (?w n) = n mod 64" for n
  proof -
    have "n mod 64 < 256" using mod_less_divisor [of 64 n] by linarith
    then show ?thesis by (simp add: unat_u8_of_nat)
  qed
  have b: "n mod 64 < 64" for n :: nat by simp
  have 1: "unat (push_bit 6 (?w (v div 2 ^ 6)) OR ?w v) = v div 2 ^ 6 mod 64 * 2 ^ 6 + v mod 64"
    using unat_or_push [of "?w v" 6 "?w (v div 2 ^ 6)" 6] unfolding w by simp
  also have "\<dots> = v mod 2 ^ 12" using mod_mult2_eq [of v "2 ^ 6" "2 ^ 6"] by simp
  finally have 1: "unat (push_bit 6 (?w (v div 2 ^ 6)) OR ?w v) = v mod 2 ^ 12" .
  have 2: "unat (push_bit 12 (?w (v div 2 ^ 12)) OR (push_bit 6 (?w (v div 2 ^ 6)) OR ?w v)) =
      v div 2 ^ 12 mod 64 * 2 ^ 12 + v mod 2 ^ 12"
    using unat_or_push [of "push_bit 6 (?w (v div 2 ^ 6)) OR ?w v" 12 "?w (v div 2 ^ 12)" 6]
    unfolding w 1 by simp
  also have "\<dots> = v mod 2 ^ 18" using mod_mult2_eq [of v "2 ^ 12" "2 ^ 6"] by simp
  finally have 2: "unat (push_bit 12 (?w (v div 2 ^ 12)) OR (push_bit 6 (?w (v div 2 ^ 6)) OR ?w v)) =
      v mod 2 ^ 18" .
  have "v div 2 ^ 18 mod 64 * 2 ^ 18 + v mod 2 ^ 18 = v"
    using assms mod_mult2_eq [of v "2 ^ 18" "2 ^ 6"] by simp
  then show ?thesis
    using unat_or_push [of "push_bit 12 (?w (v div 2 ^ 12)) OR (push_bit 6 (?w (v div 2 ^ 6)) OR ?w v)"
        18 "?w (v div 2 ^ 18)" 6]
    unfolding w 2 by (simp add: or.assoc)
qed

lemma sextet_valid: "(word_of_nat (n mod 64) :: u8) \<noteq> 255"
proof
  assume "(word_of_nat (n mod 64) :: u8) = 255"
  then have "unat (word_of_nat (n mod 64) :: u8) = 255" by simp
  moreover have "n mod 64 < 64" by simp
  ultimately show False by (simp only: unat_u8_of_nat)
qed

lemma be3: "be_val [a, b, c] = unat a * 2 ^ 16 + unat b * 2 ^ 8 + unat c"
  by (simp add: be_val_def)

lemma be3_parts:
  fixes w :: u32
  assumes "unat w = be_val [a, b, c]"
  shows "ucast (drop_bit 16 w) = a" "ucast (drop_bit 8 w) = b" "ucast w = c"
proof -
  have v: "unat w = unat c + 256 * (unat b + 256 * unat a)" using assms by (simp add: be3)
  have d8: "unat w div 256 = unat b + 256 * unat a"
    unfolding v using div_mult_self2 [of 256 "unat c" "unat b + 256 * unat a"] unat_u8_less [of c]
    by (simp only: div_less)
  have "unat w div 65536 = unat w div 256 div 256" by (simp flip: div_mult2_eq)
  then have d16: "unat w div 65536 = unat a" unfolding d8 by simp
  have "unat (ucast (drop_bit 16 w) :: u8) = unat a" by (simp add: unat_drop_bit d16)
  moreover have "unat (ucast (drop_bit 8 w) :: u8) = unat b" by (simp add: unat_drop_bit d8)
  moreover have "unat w mod 256 = unat c"
    unfolding v using mod_mult_self2 [of "unat c" 256] unat_u8_less [of c]
    by (simp only: mod_less)
  then have "unat (ucast w :: u8) = unat c" by simp
  ultimately show "ucast (drop_bit 16 w) = a" "ucast (drop_bit 8 w) = b" "ucast w = c"
    by (simp_all only: word_unat_eq_iff)
qed

lemma decode_quad_digits:
  assumes "a \<noteq> 255" "b \<noteq> 255" "c \<noteq> 255" "d \<noteq> 255"
    and "base64_ascii_to_bin x0 = a" "base64_ascii_to_bin x1 = b"
    and "base64_ascii_to_bin x2 = c" "base64_ascii_to_bin x3 = d" and "x0 \<noteq> 61" "x1 \<noteq> 61"
    and v: "unat (push_bit 18 (ucast a) OR push_bit 12 (ucast b) OR push_bit 6 (ucast c) OR ucast d :: u32) =
      be_val [p, q, r]"
  shows "base64_decode_quad (x0 # x1 # x2 # x3 # rest) =
    (if x2 \<noteq> 61 then if x3 \<noteq> 61 then Some [p, q, r] else Some [p, q]
     else if x3 = 61 then Some [p] else None)"
  using assms(1-10) be3_parts [OF v]
  by (auto simp: base64_decode_quad_def Let_def)

lemma decode_quad_b64:
  assumes "src \<noteq> []" and "length src \<le> 3"
  shows "base64_decode_quad (b64 src @ rest) = Some src"
proof -
  have lt: "be_val [a, b, c] < 2 ^ 24" for a b c using be_val_bound [of "[a, b, c]"] by simp
  consider (one) a where "src = [a]" | (two) a b where "src = [a, b]" | (three) a b c where "src = [a, b, c]"
    using assms by (cases src rule: b64.cases) auto
  then show ?thesis
  proof cases
    case one
    have z: "be_val [a, 0, 0] div 2 ^ 6 mod 64 = 0" "be_val [a, 0, 0] mod 64 = 0"
      by (simp_all add: be3)
    show ?thesis
      using decode_quad_digits [OF sextet_valid sextet_valid _ _ bin_digit bin_digit bin_pad bin_pad
          digit_ne digit_ne, of "be_val [a, 0, 0] div 2 ^ 18" "be_val [a, 0, 0] div 2 ^ 12" a 0 0 rest]
        digits_word [OF lt, of a 0 0] unfolding z by (simp add: one Let_def)
  next
    case two
    have z: "be_val [a, b, 0] mod 64 = 0" by (simp add: be3)
    show ?thesis
      using decode_quad_digits [OF sextet_valid sextet_valid sextet_valid _ bin_digit bin_digit bin_digit
          bin_pad digit_ne digit_ne, of "be_val [a, b, 0] div 2 ^ 18" "be_val [a, b, 0] div 2 ^ 12"
          "be_val [a, b, 0] div 2 ^ 6" a b 0 rest]
        digits_word [OF lt, of a b 0] unfolding z by (simp add: two Let_def digit_ne)
  next
    case three
    show ?thesis
      using decode_quad_digits [OF sextet_valid sextet_valid sextet_valid sextet_valid bin_digit bin_digit
          bin_digit bin_digit digit_ne digit_ne, of "be_val [a, b, c] div 2 ^ 18"
          "be_val [a, b, c] div 2 ^ 12" "be_val [a, b, c] div 2 ^ 6" "be_val [a, b, c]" a b c rest]
        digits_word [OF lt, of a b c] by (simp add: three Let_def digit_ne)
  qed
qed

section \<open>The streaming encoder\<close>

text \<open>The complete lines of a byte sequence, and what is left for the next one.\<close>

function b64_lines :: "bytes \<Rightarrow> bytes" where
  "b64_lines xs = (if length xs \<ge> 48 then b64 (take 48 xs) @ [10] @ b64_lines (drop 48 xs) else [])"
  by auto
termination by (relation "measure length") auto

declare b64_lines.simps [simp del]

definition b64_rest :: "bytes \<Rightarrow> bytes" where
  "b64_rest xs = drop (length xs div 48 * 48) xs"

definition b64_pem :: "bytes \<Rightarrow> bytes" where
  "b64_pem xs = b64_lines xs @ (if b64_rest xs = [] then [] else b64 (b64_rest xs) @ [10])"

definition enc_inv :: "evp_encode_ctx \<Rightarrow> bool" where
  "enc_inv ctx \<longleftrightarrow> data_used ctx < 48 \<and> length (ctx_data ctx) = 48"

definition pending :: "evp_encode_ctx \<Rightarrow> bytes" where
  "pending ctx = take (data_used ctx) (ctx_data ctx)"

lemma b64_lines_short: "length xs < 48 \<Longrightarrow> b64_lines xs = []"
  by (subst b64_lines.simps) simp

lemma b64_lines_step: "length xs = 48 \<Longrightarrow> b64_lines (xs @ ys) = b64 xs @ [10] @ b64_lines ys"
  by (subst b64_lines.simps) simp

lemma b64_rest_short: "length xs < 48 \<Longrightarrow> b64_rest xs = xs"
  by (simp add: b64_rest_def)

lemma b64_rest_step: "length xs = 48 \<Longrightarrow> b64_rest (xs @ ys) = b64_rest ys"
  by (simp add: b64_rest_def div_add_self1)

lemma length_b64_rest: "length (b64_rest xs) < 48"
  by (simp add: b64_rest_def minus_div_mult_eq_mod)

lemma b64_lines_rest_append:
  "b64_lines (xs @ ys) = b64_lines xs @ b64_lines (b64_rest xs @ ys) \<and>
   b64_rest (xs @ ys) = b64_rest (b64_rest xs @ ys)"
proof (induction xs rule: b64_lines.induct)
  case (1 xs)
  show ?case
  proof (cases "length xs \<ge> 48")
    case True
    have xs: "xs = take 48 xs @ drop 48 xs" and l: "length (take 48 xs) = 48" using True by simp_all
    have "b64_lines (xs @ ys) = b64 (take 48 xs) @ [10] @ b64_lines (drop 48 xs @ ys)"
      using b64_lines_step [OF l, of "drop 48 xs @ ys"] by (simp flip: append_assoc)
    moreover have "b64_lines xs = b64 (take 48 xs) @ [10] @ b64_lines (drop 48 xs)"
      using b64_lines_step [OF l, of "drop 48 xs"] by simp
    moreover have "b64_rest xs = b64_rest (drop 48 xs)" using b64_rest_step [OF l, of "drop 48 xs"] by simp
    moreover have "b64_rest (xs @ ys) = b64_rest (drop 48 xs @ ys)"
      using b64_rest_step [OF l, of "drop 48 xs @ ys"] by (simp flip: append_assoc)
    ultimately show ?thesis using 1 [OF True] by simp
  qed (simp add: b64_lines_short b64_rest_short)
qed

lemma EncodeUpdate_loop_spec:
  "p \<le> length out \<Longrightarrow> p + length (b64_lines inp) < SIZE_LIMIT \<Longrightarrow>
   EncodeUpdate_loop out p p inp =
     (if b64_lines inp = [] then out else take p out @ b64_lines inp @ [0],
      Some (p + length (b64_lines inp)), b64_rest inp)"
proof (induction inp arbitrary: out p rule: b64_lines.induct)
  case (1 inp)
  show ?case
  proof (cases "length inp \<ge> 48")
    case True
    have l: "length (take 48 inp) = 48" using True by simp
    have enc: "length (b64 (take 48 inp)) = 64" using l by (simp add: length_b64)
    have ls: "b64_lines inp = b64 (take 48 inp) @ [10] @ b64_lines (drop 48 inp)"
      "b64_rest inp = b64_rest (drop 48 inp)"
      using b64_lines_step [OF l, of "drop 48 inp"] b64_rest_step [OF l, of "drop 48 inp"] by simp_all
    let ?w = "take p out @ b64 (take 48 inp) @ [10]"
    have "EncodeUpdate_loop out p p inp = EncodeUpdate_loop (?w @ [0]) (p + 65) (p + 65) (drop 48 inp)"
      using True enc "1.prems" ls
      by (subst EncodeUpdate_loop.simps)
        (simp add: EVP_EncodeBlock_def EncodeBlock_loop_b64 put_def Let_def min_def add.commute)
    also have "\<dots> = (if b64_lines (drop 48 inp) = [] then ?w @ [0]
        else take (p + 65) (?w @ [0]) @ b64_lines (drop 48 inp) @ [0],
      Some (p + 65 + length (b64_lines (drop 48 inp))), b64_rest (drop 48 inp))"
      by (rule "1.IH" [OF True]) (use "1.prems" ls enc in simp_all)
    finally show ?thesis using "1.prems" ls enc by (simp add: min_def)
  next
    case False
    then show ?thesis
      by (subst EncodeUpdate_loop.simps) (simp add: b64_lines_short b64_rest_short)
  qed
qed

lemma blit_pending:
  "enc_inv ctx \<Longrightarrow> data_used ctx + length xs \<le> 48 \<Longrightarrow>
   take (data_used ctx + length xs) (blit (ctx_data ctx) (data_used ctx) xs) = pending ctx @ xs"
  by (simp add: take_blit_end enc_inv_def pending_def)

lemma EVP_EncodeUpdate_spec:
  assumes inv: "enc_inv ctx" and len: "length (b64_lines (pending ctx @ inp)) \<le> INT_MAX"
  shows "\<exists>ctx'. EVP_EncodeUpdate ctx inp =
      (int (length (b64_lines (pending ctx @ inp))),
       (if b64_lines (pending ctx @ inp) = [] then [] else b64_lines (pending ctx @ inp) @ [0]), ctx') \<and>
     enc_inv ctx' \<and> pending ctx' = b64_rest (pending ctx @ inp)"
proof -
  have lp: "length (pending ctx) = data_used ctx" using inv by (simp add: pending_def enc_inv_def)
  have lim: "n \<le> INT_MAX \<Longrightarrow> n < SIZE_LIMIT" for n by (simp add: INT_MAX_def SIZE_LIMIT_def)
  consider (empty) "inp = []" | (short) "inp \<noteq> []" "data_used ctx + length inp < 48"
    | (full) "inp \<noteq> []" "48 \<le> data_used ctx + length inp" by linarith
  then show ?thesis
  proof cases
    case empty
    with inv lp show ?thesis
      by (simp add: EVP_EncodeUpdate_def b64_lines_short b64_rest_short enc_inv_def)
  next
    case short
    let ?ctx = "ctx\<lparr>ctx_data := blit (ctx_data ctx) (data_used ctx) inp,
                    data_used := data_used ctx + length inp\<rparr>"
    have "EVP_EncodeUpdate ctx inp = (0, [], ?ctx)" using short by (simp add: EVP_EncodeUpdate_def less_diff_conv)
    moreover have "enc_inv ?ctx" using inv short by (simp add: enc_inv_def length_blit)
    moreover have "pending ?ctx = pending ctx @ inp"
      using blit_pending [OF inv] short by (simp add: pending_def)
    ultimately show ?thesis using short lp by (simp add: b64_lines_short b64_rest_short)
  next
    case full
    define xs where "xs = pending ctx @ inp"
    have nc: "\<not> (48 - data_used ctx > length inp)" using full by simp
    have fin: "enc_inv (c\<lparr>ctx_data := blit (ctx_data c) 0 (b64_rest xs), data_used := length (b64_rest xs)\<rparr>) \<and>
        pending (c\<lparr>ctx_data := blit (ctx_data c) 0 (b64_rest xs), data_used := length (b64_rest xs)\<rparr>) = b64_rest xs"
      if "length (ctx_data c) = 48" for c
      using that length_b64_rest [of xs] by (simp add: enc_inv_def pending_def blit_def)
    show ?thesis
    proof (cases "data_used ctx = 0")
      case True
      then have xs: "xs = inp" by (simp add: xs_def pending_def)
      have "EncodeUpdate_loop [] 0 0 inp =
          (if b64_lines inp = [] then [] else b64_lines inp @ [0], Some (length (b64_lines inp)), b64_rest inp)"
        using EncodeUpdate_loop_spec [of 0 "[]" inp] lim [OF len] xs by (simp add: xs_def)
      then have "EVP_EncodeUpdate ctx inp = (int (length (b64_lines xs)),
          if b64_lines xs = [] then [] else b64_lines xs @ [0],
          ctx\<lparr>ctx_data := blit (ctx_data ctx) 0 (b64_rest xs), data_used := length (b64_rest xs)\<rparr>)"
        using full(1) nc True len xs by (simp add: EVP_EncodeUpdate_def xs_def)
      then show ?thesis
        using fin [of ctx] inv unfolding xs_def [symmetric] by (simp add: enc_inv_def)
    next
      case False
      define todo where "todo = 48 - data_used ctx"
      define dat where "dat = blit (ctx_data ctx) (data_used ctx) (take todo inp)"
      have l: "length dat = 48" using inv full by (simp add: dat_def length_blit enc_inv_def todo_def)
      have t: "length (take todo inp) = todo" "data_used ctx + todo = 48"
        using full inv by (simp_all add: todo_def enc_inv_def)
      have "dat = pending ctx @ take todo inp"
        using blit_pending [OF inv, of "take todo inp"] l unfolding t dat_def [symmetric] by simp
      then have xs: "xs = dat @ drop todo inp" by (simp add: xs_def)
      have ls: "b64_lines xs = b64 dat @ [10] @ b64_lines (drop todo inp)" "b64_rest xs = b64_rest (drop todo inp)"
        unfolding xs by (rule b64_lines_step [OF l], rule b64_rest_step [OF l])
      have e: "length (b64 dat) = 64" using l by (simp add: length_b64)
      have "EncodeUpdate_loop (b64 dat @ [10, 0]) 65 65 (drop todo inp) =
          (b64_lines xs @ [0], Some (length (b64_lines xs)), b64_rest xs)"
        using EncodeUpdate_loop_spec [of 65 "b64 dat @ [10, 0]" "drop todo inp"] e lim [OF len]
        unfolding xs_def [symmetric] ls by (simp add: split: if_splits)
      then have "EVP_EncodeUpdate ctx inp = (int (length (b64_lines xs)), b64_lines xs @ [0],
          ctx\<lparr>ctx_data := blit dat 0 (b64_rest xs), data_used := length (b64_rest xs)\<rparr>)"
        using full(1) nc False len e
        by (simp add: EVP_EncodeUpdate_def EVP_EncodeBlock_def EncodeBlock_loop_b64 put_def Let_def
            flip: xs_def todo_def dat_def)
      then show ?thesis
        using fin [of "ctx\<lparr>ctx_data := dat\<rparr>"] l ls unfolding xs_def [symmetric] by simp
    qed
  qed
qed

section \<open>The streaming decoder\<close>

lemma DecodeUpdate_loop_append:
  "DecodeUpdate_loop ctx out (xs @ ys) =
     (case DecodeUpdate_loop ctx out xs of
        (True, out', ctx') \<Rightarrow> DecodeUpdate_loop ctx' out' ys
      | (False, out', ctx') \<Rightarrow> (False, out', ctx'))"
  by (induction ctx out xs rule: DecodeUpdate_loop.induct) (simp_all add: Let_def split: option.splits)

lemma DecodeUpdate_loop_filter:
  "DecodeUpdate_loop ctx out xs = DecodeUpdate_loop ctx out (filter (\<lambda>c. \<not> b64_space c) xs)"
  by (induction ctx out xs rule: DecodeUpdate_loop.induct)
    (simp_all add: Let_def b64_space_def split: option.splits)

lemma DecodeUpdate_loop_prefix:
  "DecodeUpdate_loop ctx (pre @ out) xs =
     (case DecodeUpdate_loop ctx out xs of (ok, out', ctx') \<Rightarrow> (ok, pre @ out', ctx'))"
  by (induction ctx out xs rule: DecodeUpdate_loop.induct) (simp_all add: Let_def split: option.splits)

lemmas DecodeUpdate_loop_out = DecodeUpdate_loop_prefix [where out = "[]", unfolded append_Nil2]

lemma DecodeUpdate_loop_error:
  "DecodeUpdate_loop ctx out xs = (True, out', ctx') \<Longrightarrow> error_encountered ctx' = error_encountered ctx"
  by (induction ctx out xs rule: DecodeUpdate_loop.induct)
    (auto simp: Let_def split: option.splits if_splits)

lemma DecodeUpdate_loop_quad:
  assumes "\<not> b64_space a" "\<not> b64_space b" "\<not> b64_space c" "\<not> b64_space d"
    and "data_used ctx = 0" "\<not> eof_seen ctx" "length (ctx_data ctx) = 48"
    and "base64_decode_quad (a # b # c # d # drop 4 (ctx_data ctx)) = Some bs"
  shows "DecodeUpdate_loop ctx out (a # b # c # d # xs) =
    DecodeUpdate_loop (ctx\<lparr>ctx_data := a # b # c # d # drop 4 (ctx_data ctx), data_used := 0,
                           eof_seen := (length bs < 3)\<rparr>) (out @ bs) xs"
proof -
  have "(ctx_data ctx)[0 := a, 1 := b, 2 := c, 3 := d] = a # b # c # d # drop 4 (ctx_data ctx)"
    using assms(7) by (cases "ctx_data ctx" rule: remdups_adj.cases; cases "drop 2 (ctx_data ctx)" rule: remdups_adj.cases)
      (auto simp: numeral_eq_Suc)
  then show ?thesis
    using assms by (cases ctx) (simp add: Let_def b64_space_def numeral_eq_Suc)
qed

lemma DecodeUpdate_loop_b64:
  assumes "data_used ctx = 0" "\<not> eof_seen ctx" "length (ctx_data ctx) = 48"
  shows "\<exists>ctx'. DecodeUpdate_loop ctx out (b64 xs) = (True, out @ xs, ctx') \<and> data_used ctx' = 0"
  using assms
proof (induction xs arbitrary: ctx out rule: b64.induct)
  case (2 a)
  show ?case
    using 2 DecodeUpdate_loop_quad [OF digit_nospace digit_nospace _ _ 2, of 61 61 _ _ "[a]" out "[]"]
      decode_quad_b64 [of "[a]" "drop 4 (ctx_data ctx)"]
    by (simp add: Let_def b64_space_def [of 61] del: DecodeUpdate_loop.simps(2))
next
  case (3 a b)
  show ?case
    using 3 DecodeUpdate_loop_quad [OF digit_nospace digit_nospace digit_nospace _ 3, of 61 _ _ _ "[a, b]" out "[]"]
      decode_quad_b64 [of "[a, b]" "drop 4 (ctx_data ctx)"]
    by (simp add: Let_def b64_space_def [of 61] del: DecodeUpdate_loop.simps(2))
next
  case (4 a b c bs)
  let ?v = "be_val [a, b, c]"
  let ?ctx = "ctx\<lparr>ctx_data := b64_digit (?v div 2 ^ 18) # b64_digit (?v div 2 ^ 12) # b64_digit (?v div 2 ^ 6) #
      b64_digit ?v # drop 4 (ctx_data ctx), data_used := 0, eof_seen := False\<rparr>"
  have "DecodeUpdate_loop ctx out (b64 (a # b # c # bs)) = DecodeUpdate_loop ?ctx (out @ [a, b, c]) (b64 bs)"
    using DecodeUpdate_loop_quad [OF digit_nospace digit_nospace digit_nospace digit_nospace "4.prems",
        of "?v div 2 ^ 18" "?v div 2 ^ 12" "?v div 2 ^ 6" ?v "[a, b, c]" out "b64 bs"]
      decode_quad_b64 [of "[a, b, c]" "drop 4 (ctx_data ctx)"]
    by (simp add: Let_def del: DecodeUpdate_loop.simps(2))
  moreover have "\<exists>ctx'. DecodeUpdate_loop ?ctx (out @ [a, b, c]) (b64 bs) = (True, (out @ [a, b, c]) @ bs, ctx') \<and>
      data_used ctx' = 0"
    by (rule "4.IH") (use "4.prems" in simp_all)
  ultimately show ?case by simp
qed simp

text \<open>Clients that feed the text in pieces and collect the output.\<close>

fun encode_chunks :: "evp_encode_ctx \<Rightarrow> bytes list \<Rightarrow> bytes" where
  "encode_chunks ctx [] = (case EVP_EncodeFinal ctx of (n, out, _) \<Rightarrow> take (nat n) out)"
| "encode_chunks ctx (inp # inps) =
     (case EVP_EncodeUpdate ctx inp of (n, out, ctx') \<Rightarrow> take (nat n) out @ encode_chunks ctx' inps)"

fun decode_chunks :: "evp_encode_ctx \<Rightarrow> bytes list \<Rightarrow> bytes option" where
  "decode_chunks ctx [] = (if fst (EVP_DecodeFinal ctx) = 1 then Some [] else None)"
| "decode_chunks ctx (inp # inps) =
     (case EVP_DecodeUpdate ctx inp of
        (r, n, out, ctx') \<Rightarrow>
          if r = - 1 then None else map_option (\<lambda>rest. take (nat n) out @ rest) (decode_chunks ctx' inps))"

lemma encode_chunks_spec:
  assumes "enc_inv ctx" and "length (b64_pem (pending ctx @ concat inps)) \<le> INT_MAX"
  shows "encode_chunks ctx inps = b64_pem (pending ctx @ concat inps)"
  using assms
proof (induction inps arbitrary: ctx)
  case Nil
  then have "data_used ctx = 0 \<longleftrightarrow> pending ctx = []" "length (pending ctx) < 48"
    by (auto simp: pending_def enc_inv_def)
  moreover have "nat (int n + 1) = n + 1" for n by simp
  ultimately show ?case
    by (auto simp: b64_pem_def b64_lines_short b64_rest_short EVP_EncodeFinal_def EVP_EncodeBlock_def
        EncodeBlock_loop_b64 put_def pending_def Let_def add.commute [of 1] simp del: take_eq_Nil)
next
  case (Cons inp inps)
  let ?xs = "pending ctx @ inp"
  have pem: "b64_pem (?xs @ concat inps) = b64_lines ?xs @ b64_pem (b64_rest ?xs @ concat inps)"
    using b64_lines_rest_append [of ?xs "concat inps"] by (simp add: b64_pem_def)
  then have len: "length (b64_lines ?xs) \<le> INT_MAX" "length (b64_pem (b64_rest ?xs @ concat inps)) \<le> INT_MAX"
    using Cons.prems(2) by simp_all
  obtain ctx' where run: "EVP_EncodeUpdate ctx inp = (int (length (b64_lines ?xs)),
       (if b64_lines ?xs = [] then [] else b64_lines ?xs @ [0]), ctx')"
    and ctx': "enc_inv ctx'" "pending ctx' = b64_rest ?xs"
    using EVP_EncodeUpdate_spec [OF Cons.prems(1) len(1)] by blast
  have "encode_chunks ctx' inps = b64_pem (b64_rest ?xs @ concat inps)"
    using Cons.IH [OF ctx'(1)] ctx'(2) len(2) by simp
  with run pem show ?case by simp
qed

lemma decode_chunks_spec:
  assumes "\<not> error_encountered ctx" and "DecodeUpdate_loop ctx [] (concat inps) = (True, out, ctx')"
    and "data_used ctx' = 0" and "length out \<le> INT_MAX"
  shows "decode_chunks ctx inps = Some out"
  using assms
proof (induction inps arbitrary: ctx out)
  case Nil
  then show ?case by (auto simp: EVP_DecodeFinal_def)
next
  case (Cons inp inps)
  obtain ok out1 ctx1 where one: "DecodeUpdate_loop ctx [] inp = (ok, out1, ctx1)" by (metis prod_cases3)
  obtain out2 where two: "DecodeUpdate_loop ctx1 [] (concat inps) = (True, out2, ctx')"
    and out: "ok" "out = out1 @ out2"
    using Cons.prems(2) one DecodeUpdate_loop_append [of ctx "[]" inp "concat inps"]
      DecodeUpdate_loop_out [of ctx1 out1 "concat inps"]
    by (auto split: bool.splits prod.splits)
  have err: "\<not> error_encountered ctx1" using DecodeUpdate_loop_error [of ctx "[]" inp out1 ctx1] one out(1) Cons.prems(1) by simp
  have "decode_chunks ctx1 inps = Some out2"
    using Cons.IH [OF err two Cons.prems(3)] Cons.prems(4) out(2) by simp
  moreover have "EVP_DecodeUpdate ctx inp = (if eof_seen ctx1 then 0 else 1, int (length out1), out1, ctx1)"
    using one out Cons.prems(1,4) by (simp add: EVP_DecodeUpdate_def)
  ultimately show ?case using out(2) by simp
qed

lemma filter_all: "\<forall>c\<in>set xs. P c \<Longrightarrow> filter P xs = xs"
  by (induction xs) auto

lemma filter_b64: "filter (\<lambda>c. \<not> b64_space c) (b64 xs) = b64 xs"
  using b64_nospace by (intro filter_all) blast

lemma filter_b64_pem: "filter (\<lambda>c. \<not> b64_space c) (b64_pem xs) = b64 xs"
proof -
  have nl: "b64_space 10" by (simp add: b64_space_def)
  have "filter (\<lambda>c. \<not> b64_space c) (b64_lines xs) @ b64 (b64_rest xs) = b64 xs"
  proof (induction xs rule: b64_lines.induct)
    case (1 xs)
    show ?case
    proof (cases "length xs \<ge> 48")
      case True
      have l: "length (take 48 xs) = 48" using True by simp
      have "b64 xs = b64 (take 48 xs) @ b64 (drop 48 xs)"
        using b64_append [of "take 48 xs" "drop 48 xs"] l by simp
      then show ?thesis
        using b64_lines_step [OF l, of "drop 48 xs"] b64_rest_step [OF l, of "drop 48 xs"] 1 [OF True]
        by (simp add: filter_b64 nl)
    qed (simp add: b64_lines_short b64_rest_short)
  qed
  then show ?thesis by (auto simp: b64_pem_def filter_b64 nl)
qed

section \<open>One-shot decoding\<close>

lemma DecodeBase64_loop_b64: "DecodeBase64_loop out (b64 xs) = (True, out @ xs)"
proof (induction xs arbitrary: out rule: b64.induct)
  case (2 a)
  then show ?case using decode_quad_b64 [of "[a]" "[]"]
    by (subst DecodeBase64_loop.simps, simp add: Let_def) (subst DecodeBase64_loop.simps, simp)
next
  case (3 a b)
  then show ?case using decode_quad_b64 [of "[a, b]" "[]"]
    by (subst DecodeBase64_loop.simps, simp add: Let_def) (subst DecodeBase64_loop.simps, simp)
next
  case (4 a b c bs)
  then show ?case using decode_quad_b64 [of "[a, b, c]" "b64 bs"]
    by (subst DecodeBase64_loop.simps) (simp add: Let_def)
qed (subst DecodeBase64_loop.simps, simp)

lemma decode_quad_length: "base64_decode_quad q = Some bs \<Longrightarrow> length bs \<le> 3"
  by (auto simp: base64_decode_quad_def Let_def split: if_splits)

lemma DecodeBase64_loop_bound:
  "DecodeBase64_loop out inp = (ok, out') \<Longrightarrow> length inp mod 4 = 0 \<Longrightarrow>
   length out' \<le> length out + length inp div 4 * 3 \<and> take (length out) out' = out"
proof (induction out inp rule: DecodeBase64_loop.induct)
  case (1 out inp)
  show ?case
  proof (cases "inp = [] \<or> base64_decode_quad inp = None")
    case True
    with "1.prems" show ?thesis
      by (subst (asm) DecodeBase64_loop.simps) (auto split: if_splits)
  next
    case False
    then obtain bs where bs: "inp \<noteq> []" "base64_decode_quad inp = Some bs" by auto
    have len: "length bs \<le> 3" using bs(2) by (rule decode_quad_length)
    obtain k where k: "length inp = 4 * Suc k"
      using "1.prems"(2) bs(1) by (cases "length inp div 4") (auto simp: mod_eq_0_iff_dvd elim!: dvdE)
    then have four: "length (drop 4 inp) mod 4 = 0" "length inp div 4 = length (drop 4 inp) div 4 + 1"
      by simp_all
    show ?thesis
    proof (cases "length bs \<noteq> 3 \<and> length inp \<noteq> 4")
      case True
      with "1.prems"(1) bs len four(2) show ?thesis
        by (subst (asm) DecodeBase64_loop.simps) auto
    next
      case rec: False
      have "DecodeBase64_loop (out @ bs) (drop 4 inp) = (ok, out')"
        using "1.prems"(1) bs rec by (subst (asm) DecodeBase64_loop.simps) (auto split: if_splits)
      note ih = "1.IH" [OF bs(1) bs(2) rec this four(1)]
      have b: "length out' \<le> length (out @ bs) + length (drop 4 inp) div 4 * 3"
        using ih by (rule conjunct1)
      have pre: "take (length (out @ bs)) out' = out @ bs" using ih by (rule conjunct2)
      have "take (length out) out' = take (length out) (take (length (out @ bs)) out')"
        unfolding take_take by (simp add: min_absorb1)
      with b len four(2) show ?thesis unfolding pre by simp
    qed
  qed
qed

section \<open>Properties\<close>

text \<open>C8. The constant-time block encoder computes the encoding of RFC 4648 for every input,
  returns its length, terminates it, and \<open>EVP_EncodedLength\<close> answers exactly the bytes written,
  or an error when that number does not fit a \<open>size_t\<close>.\<close>

theorem EVP_EncodeBlock_correct:
  assumes "length src < SIZE_LIMIT"
  shows "EVP_EncodeBlock src = (b64 src @ [0], length (b64 src)) \<and>
     EVP_EncodedLength (length src) =
       (if length (fst (EVP_EncodeBlock src)) < SIZE_LIMIT then Some (length (fst (EVP_EncodeBlock src)))
        else None)"
proof -
  let ?n = "length src"
  have blk: "EVP_EncodeBlock src = (b64 src @ [0], length (b64 src))"
    by (simp add: EVP_EncodeBlock_def EncodeBlock_loop_b64 Let_def)
  have lim: "SIZE_LIMIT = 18446744073709551616" by (simp add: SIZE_LIMIT_def)
  have "EVP_EncodedLength ?n =
      (if (?n + 2) div 3 * 4 + 1 < SIZE_LIMIT then Some ((?n + 2) div 3 * 4 + 1) else None)"
  proof (cases "?n + 2 < SIZE_LIMIT")
    case True
    let ?k = "(?n + 2) div 3"
    show ?thesis
    proof (cases "?k * 4 < SIZE_LIMIT")
      case fits: True
      then have "?k < 4611686018427387904" unfolding lim by linarith
      then have "?k * 4 + 1 < SIZE_LIMIT" unfolding lim by linarith
      with True fits show ?thesis by (simp add: EVP_EncodedLength_def Let_def)
    next
      case False
      have "sz (?k * 4) div 4 < ?k" using False sz_less [of "?k * 4"] by linarith
      with True False show ?thesis by (simp add: EVP_EncodedLength_def Let_def)
    qed
  next
    case False
    then obtain r where r: "?n + 2 = SIZE_LIMIT + r" by (metis le_iff_add not_less)
    then have "r < 2" using assms by linarith
    moreover have "sz (?n + 2) = r mod SIZE_LIMIT" unfolding r by (simp add: sz_def)
    ultimately have "sz (?n + 2) < ?n" using r unfolding lim by simp
    moreover have "SIZE_LIMIT div 3 \<le> (?n + 2) div 3" using False by (intro div_le_mono) simp
    then have "\<not> (?n + 2) div 3 * 4 + 1 < SIZE_LIMIT" unfolding lim by simp
    ultimately show ?thesis by (simp add: EVP_EncodedLength_def)
  qed
  with blk show ?thesis by (simp add: length_b64)
qed

text \<open>Two bytes.\<close>

theorem EVP_EncodeBlock_correct_witness:
  "EVP_EncodeBlock [77, 97] = ([84, 87, 69, 61, 0], 4) \<and> EVP_EncodedLength 2 = Some 5"
proof -
  have l: "length ([77, 97] :: u8 list) = 2" by simp
  have "b64_digit 19 = 84" "b64_digit (19 * 64 + 22) = 87" "b64_digit (19 * 4096 + 22 * 64 + 4) = 69"
    unfolding b64_digit_def by (simp_all, code_simp+)
  then have "b64 [77, 97] = [84, 87, 69, 61]" by (simp add: be_val_Cons Let_def)
  moreover have "length ([77, 97] :: u8 list) < SIZE_LIMIT" by (simp add: SIZE_LIMIT_def)
  note EVP_EncodeBlock_correct [OF this]
  ultimately show ?thesis unfolding l by (simp add: SIZE_LIMIT_def)
qed

text \<open>C7. Streaming: encoding a byte sequence in any pieces writes the same lines, and decoding
  any text whose characters other than white space are that encoding, again in any pieces,
  returns the byte sequence and ends without an error.\<close>

theorem EVP_Encode_Decode_stream:
  assumes "length (b64_pem (concat inps)) \<le> INT_MAX"
    and "filter (\<lambda>c. \<not> b64_space c) (concat texts) =
         filter (\<lambda>c. \<not> b64_space c) (encode_chunks EVP_EncodeInit inps)"
  shows "encode_chunks EVP_EncodeInit inps = b64_pem (concat inps) \<and>
     decode_chunks EVP_DecodeInit texts = Some (concat inps)"
proof -
  have enc: "encode_chunks EVP_EncodeInit inps = b64_pem (concat inps)"
    using encode_chunks_spec [of EVP_EncodeInit inps] assms(1)
    by (simp add: EVP_EncodeInit_def enc_inv_def pending_def)
  obtain ctx' where run: "DecodeUpdate_loop EVP_DecodeInit [] (b64 (concat inps)) = (True, concat inps, ctx')"
    and u: "data_used ctx' = 0"
    using DecodeUpdate_loop_b64 [of EVP_DecodeInit "[]" "concat inps"] by (auto simp: EVP_DecodeInit_def)
  have "DecodeUpdate_loop EVP_DecodeInit [] (concat texts) = (True, concat inps, ctx')"
    using run assms(2) unfolding enc filter_b64_pem
    by (subst DecodeUpdate_loop_filter) simp
  moreover have "length (concat inps) \<le> length (b64 (concat inps))" unfolding length_b64 by presburger
  moreover have "length (b64 (concat inps)) \<le> length (b64_pem (concat inps))"
    unfolding filter_b64_pem [symmetric] by (rule length_filter_le)
  moreover have "\<not> error_encountered EVP_DecodeInit" by (simp add: EVP_DecodeInit_def)
  ultimately have "decode_chunks EVP_DecodeInit texts = Some (concat inps)"
    using decode_chunks_spec [OF _ _ u] assms(1) by simp
  with enc show ?thesis by simp
qed

text \<open>The two bytes 77 and 97, encoded in two pieces, decoded with white space added.\<close>

theorem EVP_Encode_Decode_stream_witness:
  "decode_chunks EVP_DecodeInit [[9], encode_chunks EVP_EncodeInit [[77], [97]], [32, 10]] = Some [77, 97]"
proof -
  have "length (b64_pem (concat [[77], [97]])) \<le> INT_MAX"
    by (simp add: INT_MAX_def b64_pem_def b64_lines_short b64_rest_short Let_def)
  moreover have "filter (\<lambda>c. \<not> b64_space c) (concat [[9], t, [32, 10]]) =
      filter (\<lambda>c. \<not> b64_space c) t" for t by (simp add: b64_space_def)
  ultimately have "decode_chunks EVP_DecodeInit [[9], encode_chunks EVP_EncodeInit [[77], [97]], [32, 10]] =
      Some (concat [[77], [97]])"
    by (intro EVP_Encode_Decode_stream [THEN conjunct2])
  then show ?thesis by (simp del: encode_chunks.simps decode_chunks.simps)
qed

text \<open>C32. The one-shot decoder never writes more than \<open>max_out\<close> bytes, whatever the input, reports
  the number it wrote, and inverts the encoding when the buffer is large enough.\<close>

theorem EVP_DecodeBase64_safe:
  assumes "length inp < SIZE_LIMIT" and "EVP_DecodeBase64 max_out inp = (ok, n, out)"
  shows "length out \<le> max_out \<and> (if ok then n = length out else n = 0) \<and>
     (inp = b64 xs \<and> length inp div 4 * 3 \<le> max_out \<longrightarrow> ok \<and> out = xs)"
proof (cases "length inp mod 4 \<noteq> 0 \<or> max_out < length inp div 4 * 3")
  case True
  have lt: "length inp div 4 * 3 < SIZE_LIMIT" using assms(1) by linarith
  have "EVP_DecodeBase64 max_out inp = (False, 0, [])"
    using True lt by (cases "length inp mod 4 = 0") (simp_all add: EVP_DecodeBase64_def EVP_DecodedLength_def)
  moreover have "length (b64 xs) mod 4 = 0" by (simp add: length_b64)
  ultimately show ?thesis using assms(2) True by auto
next
  case False
  obtain ok' out' where loop: "DecodeBase64_loop [] inp = (ok', out')" by (metis surj_pair)
  have "length inp div 4 * 3 < SIZE_LIMIT" using assms(1) by linarith
  then have "EVP_DecodeBase64 max_out inp = (if ok' then (True, length out', out') else (False, 0, out'))"
    using False loop by (simp add: EVP_DecodeBase64_def EVP_DecodedLength_def split: bool.splits)
  then have "out = out'" "ok = ok'" "n = (if ok then length out else 0)"
    using assms(2) by (auto split: if_splits)
  moreover have "length out' \<le> length inp div 4 * 3"
    using DecodeBase64_loop_bound [OF loop] False by simp
  ultimately show ?thesis using False loop DecodeBase64_loop_b64 [of "[]" xs] by auto
qed

text \<open>A quad with padding.\<close>

theorem EVP_DecodeBase64_safe_witness: "EVP_DecodeBase64 3 (b64 [77, 97]) = (True, 2, [77, 97])"
proof -
  obtain ok n out where run: "EVP_DecodeBase64 3 (b64 [77, 97]) = (ok, n, out)" by (metis prod_cases3)
  have len: "length (b64 [77, 97 :: u8]) = 4" by (simp add: Let_def)
  have "length out \<le> 3 \<and> (if ok then n = length out else n = 0) \<and>
      (b64 [77, 97] = b64 [77, 97 :: u8] \<and> length (b64 [77, 97 :: u8]) div 4 * 3 \<le> 3 \<longrightarrow> ok \<and> out = [77, 97])"
    by (rule EVP_DecodeBase64_safe [OF _ run], unfold len) (simp add: SIZE_LIMIT_def)
  with run show ?thesis unfolding len by (auto split: if_splits)
qed

end
