(* ===== verification/Cbs.thy ===== *)
theory Cbs
  imports Mem
begin

text \<open>
  \<^verbatim>\<open>BoringSSL/crypto/bytestring/cbs.c\<close>: the bounds-checked reader and the DER parser.  A
  \<open>CBS\<close> is the list of the bytes from its pointer to its end, so \<open>cbs->len\<close> is the length of
  the list.  An operation returns its result, \<open>None\<close> for the C return value 0, with the
  \<open>CBS\<close> it leaves behind, which on an error may have advanced, as in the code.
\<close>

type_synonym 'a reader = "bytes \<Rightarrow> 'a option \<times> bytes"

text \<open>\<open>if (!p(cbs, \<dots>)) return 0; \<dots>\<close>\<close>

definition bnd :: "'a reader \<Rightarrow> ('a \<Rightarrow> 'b reader) \<Rightarrow> 'b reader" where
  "bnd p f s = (case p s of (None, s') \<Rightarrow> (None, s') | (Some a, s') \<Rightarrow> f a s')"

definition ret :: "'a \<Rightarrow> 'a reader" where
  "ret a s = (Some a, s)"

definition fail :: "'a reader" where
  "fail s = (None, s)"

section \<open>Bytes and integers\<close>

definition cbs_get :: "nat \<Rightarrow> bytes reader" where
  "cbs_get n s = (if length s < n then (None, s) else (Some (take n s), drop n s))"

definition CBS_skip :: "nat \<Rightarrow> unit reader" where
  "CBS_skip n = bnd (cbs_get n) (\<lambda>_. ret ())"

text \<open>\<open>CBS_stow\<close>: whether the copy could be allocated, the return value and the copy.\<close>

definition CBS_stow :: "bool \<Rightarrow> bytes \<Rightarrow> bool \<times> bytes option" where
  "CBS_stow ok s = (if s = [] then (True, None) else if \<not> ok then (False, None) else (True, Some s))"

definition CBS_contains_zero_byte :: "bytes \<Rightarrow> bool" where
  "CBS_contains_zero_byte s \<longleftrightarrow> List.member s 0"

definition CBS_mem_equal :: "bytes \<Rightarrow> bytes \<Rightarrow> bool" where
  "CBS_mem_equal s d = (if length d \<noteq> length s then False else CRYPTO_memcmp s d = 0)"

definition cbs_get_u :: "nat \<Rightarrow> u32 reader" where
  "cbs_get_u n = bnd (cbs_get n)
     (\<lambda>d. ret (foldl (\<lambda>result b. push_bit 8 result OR ucast b) 0 d))"

definition CBS_get_u8 :: "u8 reader" where
  "CBS_get_u8 = bnd (cbs_get 1) (\<lambda>v. ret (v ! 0))"

definition CBS_get_u16 :: "u16 reader" where
  "CBS_get_u16 = bnd (cbs_get_u 2) (\<lambda>v. ret (ucast v))"

definition CBS_get_u24 :: "u32 reader" where
  "CBS_get_u24 = cbs_get_u 3"

definition CBS_get_u32 :: "u32 reader" where
  "CBS_get_u32 = cbs_get_u 4"

definition CBS_get_last_u8 :: "u8 reader" where
  "CBS_get_last_u8 s = (if length s = 0 then (None, s)
     else (Some (s ! (length s - 1)), take (length s - 1) s))"

definition CBS_get_bytes :: "nat \<Rightarrow> bytes reader" where
  "CBS_get_bytes n = cbs_get n"

definition CBS_copy_bytes :: "nat \<Rightarrow> bytes reader" where
  "CBS_copy_bytes n = cbs_get n"

definition cbs_get_length_prefixed :: "nat \<Rightarrow> bytes reader" where
  "cbs_get_length_prefixed len_len = bnd (cbs_get_u len_len) (\<lambda>n. CBS_get_bytes (unat n))"

definition CBS_get_u8_length_prefixed :: "bytes reader" where
  "CBS_get_u8_length_prefixed = cbs_get_length_prefixed 1"

definition CBS_get_u16_length_prefixed :: "bytes reader" where
  "CBS_get_u16_length_prefixed = cbs_get_length_prefixed 2"

definition CBS_get_u24_length_prefixed :: "bytes reader" where
  "CBS_get_u24_length_prefixed = cbs_get_length_prefixed 3"

section \<open>Tags and elements\<close>

definition CBS_ASN1_TAG_SHIFT :: nat where "CBS_ASN1_TAG_SHIFT = 24"
definition CBS_ASN1_CONSTRUCTED :: u32 where "CBS_ASN1_CONSTRUCTED = 0x20000000"
definition CBS_ASN1_TAG_NUMBER_MASK :: u32 where "CBS_ASN1_TAG_NUMBER_MASK = 0x1fffffff"
definition CBS_ASN1_BOOLEAN :: u32 where "CBS_ASN1_BOOLEAN = 1"
definition CBS_ASN1_INTEGER :: u32 where "CBS_ASN1_INTEGER = 2"
definition CBS_ASN1_OCTETSTRING :: u32 where "CBS_ASN1_OCTETSTRING = 4"

fun base128_loop :: "u64 \<Rightarrow> u64 reader" where
  "base128_loop v [] = (None, [])"
| "base128_loop v (b # bs) =
     (if drop_bit (64 - 7) v \<noteq> 0 then (None, bs)
      else if v = 0 \<and> b = 0x80 then (None, bs)
      else let v = push_bit 7 v OR ucast (b AND 0x7f)
           in if b AND 0x80 \<noteq> 0 then base128_loop v bs else (Some v, bs))"

definition parse_base128_integer :: "u64 reader" where
  "parse_base128_integer = base128_loop 0"

definition parse_asn1_tag :: "u32 reader" where
  "parse_asn1_tag = bnd CBS_get_u8 (\<lambda>tag_byte.
     let tag = push_bit CBS_ASN1_TAG_SHIFT (ucast tag_byte AND 0xe0);
         tag_number = ucast tag_byte AND 0x1f :: u32
     in if tag_number = 0x1f
        then bnd parse_base128_integer (\<lambda>v.
               if v > ucast CBS_ASN1_TAG_NUMBER_MASK \<or> v < 0x1f then fail
               else ret (tag OR ucast v))
        else ret (tag OR tag_number))"

text \<open>
  The element with its header, the tag and the length of the header.  The header is parsed
  in a copy of \<open>cbs\<close>, which itself advances only when the element is complete.
\<close>

definition cbs_get_any_asn1_element :: "bool \<Rightarrow> (bytes \<times> u32 \<times> nat) reader" where
  "cbs_get_any_asn1_element ber_ok cbs =
     (case parse_asn1_tag cbs of
        (None, _) \<Rightarrow> (None, cbs)
      | (Some tag, header) \<Rightarrow>
          (case CBS_get_u8 header of
             (None, _) \<Rightarrow> (None, cbs)
           | (Some length_byte, header) \<Rightarrow>
               let header_len = length cbs - length header in
               if length_byte AND 0x80 = 0 then
                 bnd (CBS_get_bytes (unat length_byte + header_len)) (\<lambda>out. ret (out, tag, header_len)) cbs
               else
                 let num_bytes = unat (length_byte AND 0x7f) in
                 if ber_ok \<and> tag AND CBS_ASN1_CONSTRUCTED \<noteq> 0 \<and> num_bytes = 0 then
                   bnd (CBS_get_bytes header_len) (\<lambda>out. ret (out, tag, header_len)) cbs
                 else if num_bytes = 0 \<or> num_bytes > 4 then (None, cbs)
                 else (case cbs_get_u num_bytes header of
                         (None, _) \<Rightarrow> (None, cbs)
                       | (Some len32, header) \<Rightarrow>
                           if len32 < 128 then (None, cbs)
                           else if drop_bit ((num_bytes - 1) * 8) len32 = 0 then (None, cbs)
                           else
                             let len = unat len32 in
                             if sz (len + header_len + num_bytes) < len then (None, cbs)
                             else bnd (CBS_get_bytes (sz (len + header_len + num_bytes)))
                                    (\<lambda>out. ret (out, tag, header_len + num_bytes)) cbs)))"

definition CBS_get_any_asn1_element :: "(bytes \<times> u32 \<times> nat) reader" where
  "CBS_get_any_asn1_element = cbs_get_any_asn1_element False"

definition CBS_get_any_ber_asn1_element :: "(bytes \<times> u32 \<times> nat) reader" where
  "CBS_get_any_ber_asn1_element = cbs_get_any_asn1_element True"

text \<open>\<open>if (!CBS_skip(out, n)) return 0;\<close> on an output \<open>CBS\<close>.\<close>

definition skip_out :: "nat \<Rightarrow> bytes \<Rightarrow> bytes reader" where
  "skip_out n out = (case CBS_skip n out of (None, _) \<Rightarrow> fail | (Some _, out) \<Rightarrow> ret out)"

definition CBS_get_any_asn1 :: "(bytes \<times> u32) reader" where
  "CBS_get_any_asn1 = bnd CBS_get_any_asn1_element
     (\<lambda>(out, tag, header_len). bnd (skip_out header_len out) (\<lambda>out. ret (out, tag)))"

definition cbs_get_asn1 :: "u32 \<Rightarrow> bool \<Rightarrow> bytes reader" where
  "cbs_get_asn1 tag_value skip_header = bnd CBS_get_any_asn1_element
     (\<lambda>(out, tag, header_len).
        if tag \<noteq> tag_value then fail
        else if skip_header then skip_out header_len out else ret out)"

definition CBS_get_asn1 :: "u32 \<Rightarrow> bytes reader" where
  "CBS_get_asn1 tag_value = cbs_get_asn1 tag_value True"

definition CBS_get_asn1_element :: "u32 \<Rightarrow> bytes reader" where
  "CBS_get_asn1_element tag_value = cbs_get_asn1 tag_value False"

definition CBS_peek_asn1_tag :: "bytes \<Rightarrow> u32 \<Rightarrow> bool" where
  "CBS_peek_asn1_tag cbs tag_value =
     (if length cbs < 1 then False else fst (parse_asn1_tag cbs) = Some tag_value)"

section \<open>Typed elements\<close>

fun uint64_loop :: "u64 \<Rightarrow> bytes \<Rightarrow> u64 option" where
  "uint64_loop out [] = Some out"
| "uint64_loop out (d # ds) =
     (if drop_bit 56 out \<noteq> 0 then None else uint64_loop (push_bit 8 out OR ucast d) ds)"

definition uint64_contents :: "bytes \<Rightarrow> u64 option" where
  "uint64_contents dat =
     (if length dat = 0 then None
      else if dat ! 0 AND 0x80 \<noteq> 0 then None
      else if dat ! 0 = 0 \<and> length dat > 1 \<and> dat ! 1 AND 0x80 = 0 then None
      else uint64_loop 0 dat)"

definition CBS_get_asn1_uint64 :: "u64 reader" where
  "CBS_get_asn1_uint64 = bnd (CBS_get_asn1 CBS_ASN1_INTEGER)
     (\<lambda>dat. case uint64_contents dat of None \<Rightarrow> fail | Some v \<Rightarrow> ret v)"

definition CBS_get_asn1_bool :: "bool reader" where
  "CBS_get_asn1_bool = bnd (CBS_get_asn1 CBS_ASN1_BOOLEAN)
     (\<lambda>dat. if length dat \<noteq> 1 then fail
            else let v = dat ! 0 in
                 if v \<noteq> 0 \<and> v \<noteq> 0xff then fail else ret (v \<noteq> 0))"

definition CBS_get_optional_asn1 :: "u32 \<Rightarrow> bytes option reader" where
  "CBS_get_optional_asn1 tag cbs =
     (if CBS_peek_asn1_tag cbs tag then bnd (CBS_get_asn1 tag) (\<lambda>out. ret (Some out)) cbs
      else (Some None, cbs))"

text \<open>A sub-parser that must consume all of an output \<open>CBS\<close>.\<close>

definition whole :: "'a reader \<Rightarrow> bytes \<Rightarrow> 'a reader" where
  "whole p child = (case p child of (Some a, rest) \<Rightarrow> if length rest \<noteq> 0 then fail else ret a
                                  | (None, _) \<Rightarrow> fail)"

definition CBS_get_optional_asn1_octet_string :: "u32 \<Rightarrow> (bytes \<times> bool) reader" where
  "CBS_get_optional_asn1_octet_string tag = bnd (CBS_get_optional_asn1 tag)
     (\<lambda>present. case present of
        Some child \<Rightarrow> bnd (whole (CBS_get_asn1 CBS_ASN1_OCTETSTRING) child) (\<lambda>out. ret (out, True))
      | None \<Rightarrow> ret ([], False))"

definition CBS_get_optional_asn1_uint64 :: "u32 \<Rightarrow> u64 \<Rightarrow> u64 reader" where
  "CBS_get_optional_asn1_uint64 tag default_value = bnd (CBS_get_optional_asn1 tag)
     (\<lambda>present. case present of
        Some child \<Rightarrow> whole CBS_get_asn1_uint64 child
      | None \<Rightarrow> ret default_value)"

definition CBS_get_optional_asn1_bool :: "u32 \<Rightarrow> bool \<Rightarrow> bool reader" where
  "CBS_get_optional_asn1_bool tag default_value = bnd (CBS_get_optional_asn1 tag)
     (\<lambda>present. case present of
        Some child \<Rightarrow>
          (case CBS_get_asn1 CBS_ASN1_BOOLEAN child of
             (None, _) \<Rightarrow> fail
           | (Some child2, child) \<Rightarrow>
               if length child2 \<noteq> 1 \<or> length child \<noteq> 0 then fail
               else if child2 ! 0 = 0 then ret False
               else if child2 ! 0 = 0xff then ret True
               else fail)
      | None \<Rightarrow> ret default_value)"

definition CBS_is_valid_asn1_bitstring :: "bytes \<Rightarrow> bool" where
  "CBS_is_valid_asn1_bitstring cbs =
     (case CBS_get_u8 cbs of
        (None, _) \<Rightarrow> False
      | (Some num_unused_bits, inp) \<Rightarrow>
          if num_unused_bits > 7 then False
          else if num_unused_bits = 0 then True
          else (case CBS_get_last_u8 inp of
                  (None, _) \<Rightarrow> False
                | (Some lst, _) \<Rightarrow> lst AND (push_bit (unat num_unused_bits) 1 - 1) = 0))"

definition CBS_asn1_bitstring_has_bit :: "bytes \<Rightarrow> u32 \<Rightarrow> bool" where
  "CBS_asn1_bitstring_has_bit cbs i =
     (if \<not> CBS_is_valid_asn1_bitstring cbs then False
      else let byte_num = unat (drop_bit 3 i + 1); bit_num = unat (7 - (i AND 7))
           in byte_num < length cbs \<and> cbs ! byte_num AND push_bit bit_num 1 \<noteq> 0)"

section \<open>Reference encodings\<close>

text \<open>The number of digits of a number to a base, at least one.\<close>

function ndig :: "nat \<Rightarrow> nat \<Rightarrow> nat" where
  "ndig B w = (if w < B \<or> B < 2 then 1 else Suc (ndig B (w div B)))"
  by auto
termination by (relation "measure snd") auto

declare ndig.simps [simp del]

text \<open>The last \<open>k\<close> digits to the base 128, all but the last with the high bit set.\<close>

fun b128_suffix :: "nat \<Rightarrow> nat \<Rightarrow> bytes" where
  "b128_suffix w 0 = []"
| "b128_suffix w (Suc j) =
     word_of_nat (w div 128 ^ j mod 128 + (if j = 0 then 0 else 128)) # b128_suffix w j"

definition b128 :: "nat \<Rightarrow> bytes" where
  "b128 w = b128_suffix w (ndig 128 w)"

text \<open>X.690: identifier octets, definite length octets in the shortest form, and an element.\<close>

definition der_tag :: "u32 \<Rightarrow> bytes" where
  "der_tag tag =
     (let tag_bits = ucast (drop_bit 24 tag) AND 0xe0 :: u8; n = tag AND CBS_ASN1_TAG_NUMBER_MASK
      in if n < 0x1f then [tag_bits OR ucast n] else (tag_bits OR 0x1f) # b128 (unat n))"

definition der_len :: "nat \<Rightarrow> bytes" where
  "der_len n = (if n < 128 then [word_of_nat n] else word_of_nat (128 + ndig 256 n) # be_bytes (ndig 256 n) n)"

definition der :: "u32 \<Rightarrow> bytes \<Rightarrow> bytes" where
  "der tag c = der_tag tag @ der_len (length c) @ c"

text \<open>The contents of a non-negative INTEGER: the shortest two's complement form.\<close>

definition uint_bytes :: "nat \<Rightarrow> bytes" where
  "uint_bytes n =
     (let bs = be_bytes (ndig 256 n) n in if hd bs AND 0x80 \<noteq> 0 then 0 # bs else bs)"

section \<open>Digits\<close>

lemma ndig_bounds:
  "2 \<le> B \<Longrightarrow> w < B ^ ndig B w \<and> (ndig B w = 1 \<or> B ^ (ndig B w - 1) \<le> w) \<and> 0 < ndig B w"
proof (induction B w rule: ndig.induct)
  case (1 B w)
  show ?case
  proof (cases "w < B")
    case False
    let ?m = "ndig B (w div B)"
    have m: "ndig B w = Suc ?m" using False "1.prems" by (subst ndig.simps) simp
    have ih: "w div B < B ^ ?m" "?m = 1 \<or> B ^ (?m - 1) \<le> w div B" "0 < ?m"
      using 1 False by auto
    have "w < B * B ^ ?m" using ih(1) "1.prems" by (simp add: div_less_iff_less_mult mult.commute)
    moreover have "B ^ ?m \<le> w"
    proof (cases "?m = 1")
      case big: False
      with ih have "B * B ^ (?m - 1) \<le> B * (w div B)" by simp
      also have "\<dots> \<le> w" by simp
      also have "B * B ^ (?m - 1) = B ^ ?m" using ih(3) by (simp add: power_eq_if)
      finally show ?thesis .
    qed (use False in simp)
    ultimately show ?thesis unfolding m by simp
  qed (use "1.prems" in \<open>simp add: ndig.simps\<close>)
qed

lemma ndig_eqI:
  assumes B: "2 \<le> B" and k: "w < B ^ k" "k = 1 \<or> B ^ (k - 1) \<le> w" "0 < k"
  shows "ndig B w = k"
proof -
  have less: "\<not> a < b"
    if "w < B ^ a" "b = 1 \<or> B ^ (b - 1) \<le> w" "0 < a" for a b :: nat
  proof
    assume "a < b"
    with that have "B ^ (b - 1) < B ^ a" by auto
    with B have "b - 1 < a" using power_strict_increasing_iff [of B "b - 1" a] by simp
    with \<open>a < b\<close> that(2,3) show False by auto
  qed
  show ?thesis
    using less [OF k(1) _ k(3), of "ndig B w"] less [OF _ k(2), of "ndig B w"] ndig_bounds [OF B, of w]
    by (meson linorder_neqE_nat)
qed

section \<open>Base 128\<close>

lemma base128_word:
  fixes b :: u8 and v :: u64
  assumes "drop_bit 57 v = 0"
  shows "unat (push_bit 7 v OR ucast (b AND 0x7f)) = unat v * 128 + unat b mod 128"
proof -
  have "unat v div 2 ^ 57 = 0" using assms unat_drop_bit [of 57 v] by simp
  then have v: "unat v < 2 ^ 57" by (simp add: div_eq_0_iff)
  have "b AND 0x7f = take_bit 7 b" by (simp add: take_bit_eq_mask mask_eq_exp_minus_1)
  then have m: "unat (b AND 0x7f) = unat b mod 128" by (simp add: take_bit_eq_mod unat_mod)
  then have "unat (ucast (b AND 0x7f) :: u64) < 2 ^ 7" by simp
  from unat_or_push [OF this v] m show ?thesis by simp
qed

lemma base128_loop_complete:
  assumes "0 < k" "k \<le> ndig 128 w" "w < 2 ^ 64"
  shows "base128_loop (word_of_nat (w div 128 ^ k)) (b128_suffix w k @ rest) = (Some (word_of_nat w), rest)"
  using assms(1,2)
proof (induction k)
  case (Suc j)
  let ?v = "word_of_nat (w div 128 ^ Suc j) :: u64"
  let ?d = "w div 128 ^ j"
  have le: "w div 128 ^ Suc j \<le> w div 128" by (simp add: div_le_mono2)
  also have "\<dots> < 2 ^ 57" using assms(3) by (simp add: less_mult_imp_div_less)
  finally have small: "w div 128 ^ Suc j < 2 ^ 57" .
  then have uv: "unat ?v = w div 128 ^ Suc j" by (simp add: unat_of_nat)
  have top: "drop_bit 57 ?v = 0"
    by (rule word_unat_eq_iff [THEN iffD2], unfold unat_drop_bit uv) (use small in simp)
  have nx: "w div 128 ^ Suc j * 128 + ?d mod 128 = ?d"
    unfolding power_Suc2 div_mult2_eq by (rule div_mult_mod_eq)
  have word: "push_bit 7 ?v OR ucast (b AND 0x7f) = word_of_nat ?d" if "unat b mod 128 = ?d mod 128" for b :: u8
  proof -
    have "unat (push_bit 7 ?v OR ucast (b AND 0x7f)) = ?d"
      unfolding base128_word [OF top] uv that by (rule nx)
    then have "word_of_nat (unat (push_bit 7 ?v OR ucast (b AND 0x7f))) = (word_of_nat ?d :: u64)"
      by (rule arg_cong)
    then show ?thesis by simp
  qed
  show ?case
  proof (cases "j = 0")
    case True
    have "word_of_nat (w mod 128) \<noteq> (0x80 :: u8)" using b128_digit(3) [of w] by auto
    with True show ?thesis using top word [of "word_of_nat (w mod 128)"] b128_digit(3,4) [of w] by (simp add: Let_def)
  next
    case False
    have "\<not> (?v = 0 \<and> word_of_nat (?d mod 128 + 128) = (0x80 :: u8))"
    proof
      assume z: "?v = 0 \<and> word_of_nat (?d mod 128 + 128) = (0x80 :: u8)"
      then have "w div 128 ^ Suc j = 0" using uv by simp
      moreover have "?d mod 128 = 0" using b128_digit(2) [of ?d] z by simp
      ultimately have "?d = 0" using nx by simp
      moreover have "128 ^ j \<le> w"
      proof -
        have "128 ^ j \<le> (128 :: nat) ^ (ndig 128 w - 1)" using Suc.prems by (intro power_increasing) simp_all
        also have "\<dots> \<le> w" using ndig_bounds [of 128 w] Suc.prems False by simp
        finally show ?thesis .
      qed
      ultimately show False by (simp add: div_eq_0_iff)
    qed
    with top word [OF b128_digit(2)] b128_digit(1) [of ?d] False Suc show ?thesis by (simp add: Let_def)
  qed
qed simp

lemma unat_word_u64 [simp]: "v < 2 ^ 64 \<Longrightarrow> unat (word_of_nat v :: u64) = v"
  by (simp add: unat_of_nat)

lemma base128_loop_sound:
  "base128_loop v s = (Some w, rest) \<Longrightarrow>
   \<exists>k>0. s = b128_suffix (unat w) k @ rest \<and> unat v = unat w div 128 ^ k \<and>
     (v = 0 \<longrightarrow> k = ndig 128 (unat w))"
proof (induction v s rule: base128_loop.induct)
  case (2 v b bs)
  let ?v = "push_bit 7 v OR ucast (b AND 0x7f) :: u64"
  have top: "drop_bit 57 v = 0" and min: "\<not> (v = 0 \<and> b = 0x80)"
    using "2.prems" by (auto split: if_splits)
  have uv: "unat ?v = unat v * 128 + unat b mod 128" by (rule base128_word [OF top])
  then have dv: "unat ?v div 128 = unat v" "unat ?v mod 128 = unat b mod 128"
    by (simp_all add: div_mult_self3)
  show ?case
  proof (cases "b AND 0x80 = 0")
    case True
    then have w: "w = ?v" "bs = rest" using "2.prems" top min by (auto simp: Let_def)
    have b: "unat b mod 128 = unat b" using True high_bit [of b] by simp
    then have "word_of_nat (unat w mod 128) = b" unfolding w dv b by simp
    moreover have "v = 0 \<longrightarrow> ndig 128 (unat w) = 1"
      using uv b w(1) by (auto intro!: ndig_eqI)
    ultimately show ?thesis using w dv by (intro exI [of _ 1]) auto
  next
    case False
    then have rec: "base128_loop ?v bs = (Some w, rest)" using "2.prems" top min by (auto simp: Let_def)
    obtain k where k: "0 < k" "bs = b128_suffix (unat w) k @ rest" "unat ?v = unat w div 128 ^ k"
      using "2.IH" [OF _ _ refl False rec] top min by auto
    have hb: "unat b = unat b mod 128 + 128" using False high_bit [of b] mod128_high [of "unat b"] by simp
    have "word_of_nat (unat w div 128 ^ k mod 128 + 128) = b"
      unfolding k(3) [symmetric] dv hb [symmetric] by simp
    moreover have "unat v = unat w div 128 ^ Suc k"
      using dv(1) k(3) by (simp only: power_Suc2 div_mult2_eq)
    moreover have "ndig 128 (unat w) = Suc k" if "v = 0"
    proof -
      have "unat b \<noteq> 128" using min that by (auto simp: word_unat_eq_iff)
      then have "unat b mod 128 \<noteq> 0" using hb by (metis add_0)
      then have "unat w div 128 ^ k \<noteq> 0" using uv k(3) by simp
      then have "128 ^ k \<le> unat w" by (meson div_less not_less)
      moreover have "unat w < 128 ^ Suc k"
        using \<open>unat v = unat w div 128 ^ Suc k\<close> that by (simp add: div_eq_0_iff)
      ultimately show ?thesis by (intro ndig_eqI) simp_all
    qed
    ultimately show ?thesis using k by (intro exI [of _ "Suc k"]) auto
  qed
qed simp

lemma parse_base128_iff:
  "parse_base128_integer s = (Some w, rest) \<longleftrightarrow> s = b128 (unat w) @ rest"
proof
  assume "parse_base128_integer s = (Some w, rest)"
  from base128_loop_sound [OF this [unfolded parse_base128_integer_def]]
  show "s = b128 (unat w) @ rest" by (auto simp: b128_def)
next
  have "unat w div 128 ^ ndig 128 (unat w) = 0" using ndig_bounds [of 128 "unat w"] by simp
  moreover have "unat w < 2 ^ 64" using unsigned_less [of w] by simp
  moreover assume "s = b128 (unat w) @ rest"
  ultimately show "parse_base128_integer s = (Some w, rest)"
    using base128_loop_complete [of "ndig 128 (unat w)" "unat w" rest] ndig_bounds [of 128 "unat w"]
    by (simp add: parse_base128_integer_def b128_def)
qed

section \<open>Tags\<close>

lemma tag_masks: "(0xe0 :: u8) = push_bit 5 (mask 3)" "(0xe0 :: u32) = push_bit 5 (mask 3)"
  "(0x1f :: u8) = mask 5" "(0x1f :: u32) = mask 5" "CBS_ASN1_TAG_NUMBER_MASK = mask 29"
  by (simp_all add: mask_eq_exp_minus_1 push_bit_eq_mult CBS_ASN1_TAG_NUMBER_MASK_def)

lemma tag_join:
  fixes hi :: u8 and lo :: u32
  assumes "lo AND CBS_ASN1_TAG_NUMBER_MASK = lo"
  shows "(push_bit 24 (ucast hi AND 0xe0) OR lo) AND CBS_ASN1_TAG_NUMBER_MASK = lo"
    and "ucast (drop_bit 24 (push_bit 24 (ucast hi AND 0xe0) OR lo)) AND 0xe0 = hi AND 0xe0"
proof -
  have lo: "bit lo n \<Longrightarrow> n < 29" for n
    using assms unfolding tag_masks by (metis bit_and_iff bit_mask_iff)
  show "(push_bit 24 (ucast hi AND 0xe0) OR lo) AND CBS_ASN1_TAG_NUMBER_MASK = lo"
    unfolding tag_masks by (rule bit_eqI) (auto simp: bit_simps dest: lo)
  show "ucast (drop_bit 24 (push_bit 24 (ucast hi AND 0xe0) OR lo)) AND 0xe0 = hi AND 0xe0"
    unfolding tag_masks by (rule bit_eqI) (auto simp: bit_simps dest: lo)
qed

lemma tag_split:
  "push_bit 24 (ucast (ucast (drop_bit 24 tag) AND 0xe0 :: u8) AND 0xe0) OR (tag AND CBS_ASN1_TAG_NUMBER_MASK) = (tag :: u32)"
  unfolding tag_masks by (rule bit_eqI) (auto simp: bit_simps)

lemma low_tag:
  fixes t hi :: u8 and n :: u32
  shows "(t AND 0xe0) OR ucast (ucast t AND 0x1f :: u32) = t"
    "(hi AND 0xe0) AND 0xe0 = hi AND 0xe0"
    "ucast ((hi AND 0xe0) OR 0x1f) AND 0x1f = (0x1f :: u32)"
    "ucast ((hi AND 0xe0) OR 0x1f) AND 0xe0 = (ucast (hi AND 0xe0) AND 0xe0 :: u32)"
    "n AND 0x1f = n \<Longrightarrow> ucast ((hi AND 0xe0) OR ucast n) AND 0x1f = n"
    "n AND 0x1f = n \<Longrightarrow> ucast ((hi AND 0xe0) OR ucast n) AND 0xe0 = (ucast (hi AND 0xe0) AND 0xe0 :: u32)"
  unfolding tag_masks by (auto simp: bit_eq_iff bit_simps)

lemma CBS_get_u8_simps [simp]:
  "CBS_get_u8 [] = (None, [])" "CBS_get_u8 (b # bs) = (Some b, bs)"
  by (simp_all add: CBS_get_u8_def bnd_def cbs_get_def ret_def)

lemma tag_number_le: "v \<le> (ucast CBS_ASN1_TAG_NUMBER_MASK :: u64) \<longleftrightarrow> unat v < 2 ^ 29"
  by (auto simp: word_le_nat_alt CBS_ASN1_TAG_NUMBER_MASK_def)

lemma tag_number_bad:
  "(v > (ucast CBS_ASN1_TAG_NUMBER_MASK :: u64) \<or> v < 0x1f) = (\<not> (unat v < 2 ^ 29 \<and> 0x1f \<le> unat v))"
proof -
  have "v > ucast CBS_ASN1_TAG_NUMBER_MASK \<longleftrightarrow> \<not> unat v < 2 ^ 29"
    using tag_number_le [of v] by (simp only: not_le [symmetric])
  moreover have "v < 0x1f \<longleftrightarrow> \<not> 0x1f \<le> unat v" by (simp add: word_less_nat_alt not_le)
  ultimately show ?thesis by blast
qed

lemma small_and: "unat (n :: u32) < 2 ^ 5 \<Longrightarrow> n AND 0x1f = n"
  unfolding tag_masks(4) take_bit_eq_mask [symmetric]
  by (intro word_unat_eq_iff [THEN iffD2]) (simp add: unsigned_take_bit_eq take_bit_nat_eq_self)

lemma tag_number_u32:
  fixes v :: u64
  assumes "unat v < 2 ^ 29"
  shows "unat (ucast v :: u32) = unat v" and "ucast v AND CBS_ASN1_TAG_NUMBER_MASK = (ucast v :: u32)"
proof -
  show u: "unat (ucast v :: u32) = unat v"
    using assms by (simp add: unsigned_ucast_eq take_bit_nat_eq_self)
  have "take_bit 29 (ucast v :: u32) = ucast v"
    using assms u by (intro word_unat_eq_iff [THEN iffD2]) (simp add: unsigned_take_bit_eq take_bit_nat_eq_self)
  then show "ucast v AND CBS_ASN1_TAG_NUMBER_MASK = (ucast v :: u32)"
    unfolding tag_masks take_bit_eq_mask .
qed

definition join_tag :: "u8 \<Rightarrow> u32 \<Rightarrow> u32" where
  "join_tag hi lo = push_bit 24 (ucast hi AND 0xe0) OR lo"

lemmas tag_join' = tag_join [folded join_tag_def]
lemmas tag_split' = tag_split [folded join_tag_def]

lemma join_tag_low:
  fixes n :: u32
  assumes n: "n AND 0x1f = n"
  shows "join_tag ((hi AND 0xe0) OR ucast n) x = join_tag (hi AND 0xe0) x"
  unfolding join_tag_def low_tag(6) [OF n] by (rule refl)

lemma join_tag_high: "join_tag ((hi AND 0xe0) OR 0x1f) x = join_tag (hi AND 0xe0) x"
  unfolding join_tag_def low_tag(4) by (rule refl)

lemma parse_asn1_tag_Cons:
  "parse_asn1_tag (t # bs) =
     (if ucast t AND 0x1f = (0x1f :: u32) then
        (case parse_base128_integer bs of
           (None, s) \<Rightarrow> (None, s)
         | (Some v, s) \<Rightarrow>
             if unat v < 2 ^ 29 \<and> 0x1f \<le> unat v then (Some (join_tag t (ucast v)), s) else (None, s))
      else (Some (join_tag t (ucast t AND 0x1f)), bs))"
proof (cases "ucast t AND 0x1f = (0x1f :: u32)")
  case False
  then show ?thesis
    by (simp only: parse_asn1_tag_def bnd_def ret_def CBS_ASN1_TAG_SHIFT_def Let_def
        CBS_get_u8_simps option.case prod.case if_not_P join_tag_def simp_thms)
next
  case True
  obtain v s where "parse_base128_integer bs = (v, s)" by (metis surj_pair)
  with True show ?thesis
    by (cases v; cases "unat (the v) < 2 ^ 29 \<and> 0x1f \<le> unat (the v)")
      (simp_all only: parse_asn1_tag_def bnd_def ret_def fail_def CBS_ASN1_TAG_SHIFT_def Let_def
        CBS_get_u8_simps option.case prod.case if_P if_not_P join_tag_def tag_number_bad option.sel simp_thms)
qed

lemma parse_asn1_tag_sound:
  assumes "parse_asn1_tag s = (Some tag, rest)"
  shows "s = der_tag tag @ rest"
proof -
  obtain t bs where s: "s = t # bs"
    using assms by (cases s) (auto simp: parse_asn1_tag_def bnd_def)
  show ?thesis
  proof (cases "ucast t AND 0x1f = (0x1f :: u32)")
    case True
    then obtain v where v: "parse_base128_integer bs = (Some v, rest)" "unat v < 2 ^ 29" "0x1f \<le> unat v"
      and tag: "tag = join_tag t (ucast v)"
      using assms unfolding s parse_asn1_tag_Cons by (auto split: option.splits if_splits prod.splits)
    have join: "tag AND CBS_ASN1_TAG_NUMBER_MASK = ucast v" "ucast (drop_bit 24 tag) AND 0xe0 = t AND 0xe0"
      unfolding tag by (rule tag_join' [OF tag_number_u32(2) [OF v(2)]])+
    have t: "(t AND 0xe0) OR 0x1f = t"
      using low_tag(1) [of t] True by simp
    have "\<not> (ucast v :: u32) < 0x1f"
      using v(3) tag_number_u32(1) [OF v(2)] by (simp add: word_less_nat_alt)
    then show ?thesis
      using v(1) t tag_number_u32(1) [OF v(2)] by (simp add: der_tag_def Let_def join s parse_base128_iff)
  next
    case False
    let ?n = "ucast t AND 0x1f :: u32"
    have n: "?n AND CBS_ASN1_TAG_NUMBER_MASK = ?n" by (simp add: CBS_ASN1_TAG_NUMBER_MASK_def and.assoc)
    have "tag = join_tag t ?n" and r: "rest = bs"
      using assms False unfolding s parse_asn1_tag_Cons by auto
    then have join: "tag AND CBS_ASN1_TAG_NUMBER_MASK = ?n" "ucast (drop_bit 24 tag) AND 0xe0 = t AND 0xe0"
      using tag_join' [OF n] by simp_all
    have "?n \<le> 0x1f" by (rule word_and_le1)
    then have "?n < 0x1f" using False by (simp add: order_less_le)
    then show ?thesis using low_tag(1) [of t] by (simp add: der_tag_def Let_def join s r)
  qed
qed

lemma parse_asn1_tag_complete: "parse_asn1_tag (der_tag tag @ rest) = (Some tag, rest)"
proof -
  let ?hi = "ucast (drop_bit 24 tag) :: u8"
  let ?n = "tag AND CBS_ASN1_TAG_NUMBER_MASK"
  have split: "join_tag (?hi AND 0xe0) ?n = tag" by (rule tag_split')
  show ?thesis
  proof (cases "?n < 0x1f")
    case True
    then have "unat ?n < 2 ^ 5" by (simp add: word_less_nat_alt)
    then have n: "?n AND 0x1f = ?n" by (rule small_and)
    show ?thesis
      using True less_imp_neq [OF True] split unfolding der_tag_def Let_def
      by (simp add: parse_asn1_tag_Cons low_tag(5) [OF n] join_tag_low [OF n])
  next
    case False
    have n: "unat ?n < 2 ^ 29"
    proof -
      have "?n = take_bit 29 tag" by (simp add: tag_masks take_bit_eq_mask)
      then show ?thesis using take_bit_nat_less_exp [of 29 "unat tag"] by (simp add: unsigned_take_bit_eq)
    qed
    let ?v = "word_of_nat (unat ?n) :: u64"
    have u: "unat ?v = unat ?n" using n by (intro unat_word_u64) simp
    then have "(ucast ?v :: u32) = ?n"
      using tag_number_u32(1) [of ?v] n by (intro word_unat_eq_iff [THEN iffD2]) simp
    moreover have "parse_base128_integer (b128 (unat ?n) @ rest) = (Some ?v, rest)"
      unfolding parse_base128_iff u by (rule refl)
    moreover have "0x1f \<le> unat ?n" using False by (simp add: word_less_nat_alt)
    ultimately show ?thesis
      using False split n u unfolding der_tag_def Let_def
      by (simp add: parse_asn1_tag_Cons low_tag(3) join_tag_high)
  qed
qed

lemma parse_asn1_tag_iff: "parse_asn1_tag s = (Some tag, rest) \<longleftrightarrow> s = der_tag tag @ rest"
  using parse_asn1_tag_sound parse_asn1_tag_complete by blast

section \<open>Elements\<close>

lemma shift_bytes_val:
  "length d \<le> 4 \<Longrightarrow> unat (foldl (\<lambda>r b. push_bit 8 r OR ucast b) (0 :: u32) d) = be_val d"
proof (induction d rule: rev_induct)
  case (snoc b d)
  let ?r = "foldl (\<lambda>r b. push_bit 8 r OR ucast b) (0 :: u32) d"
  have "be_val d < 256 ^ length d" by (rule be_val_bound)
  also have "(256 :: nat) ^ length d \<le> 256 ^ 3" using snoc.prems by (intro power_increasing) simp_all
  finally have "unat ?r < 2 ^ 24" using snoc by simp
  then show ?case
    using unat_or_push [of "ucast b :: u32" 8 ?r 24] snoc by (simp add: be_val_snoc)
qed simp

lemma cbs_get_u_iff:
  assumes "k \<le> 4"
  shows "cbs_get_u k s = (Some v, rest) \<longleftrightarrow>
    (\<exists>d. length d = k \<and> s = d @ rest \<and> unat v = be_val d)"
proof
  assume "cbs_get_u k s = (Some v, rest)"
  then have "k \<le> length s" "v = foldl (\<lambda>r b. push_bit 8 r OR ucast b) 0 (take k s)" "rest = drop k s"
    by (auto simp: cbs_get_u_def bnd_def cbs_get_def ret_def split: if_splits)
  then show "\<exists>d. length d = k \<and> s = d @ rest \<and> unat v = be_val d"
    using assms shift_bytes_val [of "take k s"] by (intro exI [of _ "take k s"]) simp
next
  assume "\<exists>d. length d = k \<and> s = d @ rest \<and> unat v = be_val d"
  then show "cbs_get_u k s = (Some v, rest)"
    using assms shift_bytes_val
    by (auto simp: cbs_get_u_def bnd_def cbs_get_def ret_def word_unat_eq_iff)
qed

lemma ndig_256_shift:
  assumes "unat (v :: u32) = be_val d" "length d = k" "0 < k" "k \<le> 4" "drop_bit ((k - 1) * 8) v \<noteq> 0"
  shows "ndig 256 (unat v) = k"
proof (rule ndig_eqI)
  show "unat v < 256 ^ k" using be_val_bound [of d] assms(1,2) by simp
  have "unat (drop_bit ((k - 1) * 8) v) \<noteq> 0" using assms(5) by (simp add: unat_eq_0)
  then have "2 ^ ((k - 1) * 8) \<le> unat v"
    unfolding unat_drop_bit by (meson div_less not_less)
  also have "(2 :: nat) ^ ((k - 1) * 8) = 256 ^ (k - 1)"
    unfolding mult.commute [of _ 8] power_mult by simp
  finally show "k = 1 \<or> 256 ^ (k - 1) \<le> unat v" by simp
qed (use assms(3) in simp_all)

lemma der_len_short: "unat b < 128 \<Longrightarrow> der_len (unat b) = [b]"
  by (simp add: der_len_def)

lemma der_len_long:
  assumes "unat (v :: u32) = be_val d" "length d = k" "0 < k" "k \<le> 4"
    and "drop_bit ((k - 1) * 8) v \<noteq> 0" "128 \<le> unat v" "unat b = 128 + k"
  shows "der_len (unat v) = (b :: u8) # d"
proof -
  have "word_of_nat (128 + k) = b" unfolding assms(7) [symmetric] by simp
  moreover have "be_bytes k (unat v) = d" unfolding assms(1) using be_bytes_be_val [of d] assms(2) by simp
  ultimately show ?thesis using ndig_256_shift [OF assms(1-5)] assms(6) by (simp add: der_len_def)
qed

lemma length_b128_suffix [simp]: "length (b128_suffix w k) = k"
  by (induction k) auto

lemma length_der_tag: "length (der_tag tag) \<le> 6"
proof -
  let ?n = "tag AND CBS_ASN1_TAG_NUMBER_MASK"
  have "unat ?n < 2 ^ 29"
    using take_bit_nat_less_exp [of 29 "unat tag"]
    by (simp add: tag_masks unsigned_take_bit_eq flip: take_bit_eq_mask)
  moreover have "ndig 128 (unat ?n) = 1 \<or> 128 ^ (ndig 128 (unat ?n) - 1) \<le> unat ?n"
    using ndig_bounds [of 128 "unat ?n"] by simp
  ultimately have "ndig 128 (unat ?n) = 1 \<or> (128 :: nat) ^ (ndig 128 (unat ?n) - 1) < 128 ^ 5" by auto
  then have "ndig 128 (unat ?n) \<le> 5"
    using power_strict_increasing_iff [of "128 :: nat" "ndig 128 (unat ?n) - 1" 5] by auto
  then show ?thesis by (simp add: der_tag_def b128_def Let_def)
qed

text \<open>The element parser on an input that starts with a tag and a length octet.\<close>

lemma element_eval:
  "CBS_get_any_asn1_element (der_tag tag @ b # t) =
     (let hl = length (der_tag tag) + 1; s = der_tag tag @ b # t; k = unat b - 128 in
      if unat b < 128 then
        if length t < unat b then (None, s) else (Some (der_tag tag @ b # take (unat b) t, tag, hl), drop (unat b) t)
      else if k = 0 \<or> k > 4 then (None, s)
      else (case cbs_get_u k t of
              (None, _) \<Rightarrow> (None, s)
            | (Some v, t') \<Rightarrow>
                if v < 128 \<or> drop_bit ((k - 1) * 8) v = 0 \<or> sz (unat v + hl + k) < unat v \<or>
                   length s < sz (unat v + hl + k) then (None, s)
                else (Some (take (sz (unat v + hl + k)) s, tag, hl + k), drop (sz (unat v + hl + k)) s)))"
proof -
  let ?s = "der_tag tag @ b # t"
  have get: "CBS_get_bytes n ?s = (if length ?s < n then (None, ?s) else (Some (take n ?s), drop n ?s))" for n
    by (simp add: CBS_get_bytes_def cbs_get_def)
  have hl: "length ?s - length t = length (der_tag tag) + 1" by simp
  have start: "cbs_get_any_asn1_element False ?s =
     (let header_len = length (der_tag tag) + 1 in
       if b AND 0x80 = 0 then bnd (CBS_get_bytes (unat b + header_len)) (\<lambda>out. ret (out, tag, header_len)) ?s
       else let k = unat (b AND 0x7f) in
         if k = 0 \<or> k > 4 then (None, ?s)
         else (case cbs_get_u k t of
                 (None, _) \<Rightarrow> (None, ?s)
               | (Some len32, header) \<Rightarrow>
                   if len32 < 128 then (None, ?s)
                   else if drop_bit ((k - 1) * 8) len32 = 0 then (None, ?s)
                   else let len = unat len32 in
                     if sz (len + header_len + k) < len then (None, ?s)
                     else bnd (CBS_get_bytes (sz (len + header_len + k))) (\<lambda>out. ret (out, tag, header_len + k)) ?s))"
    unfolding cbs_get_any_asn1_element_def parse_asn1_tag_complete prod.case option.case CBS_get_u8_simps
      Let_def hl by (simp only: simp_thms if_False)
  show ?thesis
  proof (cases "unat b < 128")
    case True
    then have "b AND 0x80 = 0" using high_bit [of b] by auto
    with True show ?thesis
      unfolding CBS_get_any_asn1_element_def start Let_def bnd_def get by (simp add: ret_def)
  next
    case False
    then have "b AND 0x80 \<noteq> 0" "unat (b AND 0x7f) = unat b - 128"
      using high_bit [of b] high_bits [of b] by auto
    with False show ?thesis
      unfolding CBS_get_any_asn1_element_def start Let_def bnd_def get
      by (simp add: ret_def split: prod.splits option.splits)
  qed
qed

lemma element_start:
  assumes "CBS_get_any_asn1_element s = (Some (el, tag', hl), rest)"
  shows "\<exists>tag b t. s = der_tag tag @ b # t"
proof -
  obtain tag h where tag: "parse_asn1_tag s = (Some tag, h)"
    using assms unfolding CBS_get_any_asn1_element_def cbs_get_any_asn1_element_def
    by (cases "parse_asn1_tag s"; cases "fst (parse_asn1_tag s)") auto
  then have "h \<noteq> []"
    using assms unfolding CBS_get_any_asn1_element_def cbs_get_any_asn1_element_def by auto
  with tag parse_asn1_tag_iff [of s tag h] show ?thesis by (metis list.exhaust)
qed

lemma get_any_asn1_sound:
  assumes "CBS_get_any_asn1_element s = (Some (el, tag, hl), rest)" and "length s < SIZE_LIMIT"
  shows "\<exists>c. el = der tag c \<and> s = el @ rest \<and> hl = length (der tag c) - length c \<and> length c < 2 ^ 32"
proof -
  obtain tag' b t where s: "s = der_tag tag' @ b # t" using element_start [OF assms(1)] by blast
  note ev = assms(1) [unfolded s element_eval Let_def]
  show ?thesis
  proof (cases "unat b < 128")
    case True
    with ev have r: "unat b \<le> length t" "el = der_tag tag' @ b # take (unat b) t" "tag = tag'"
      "hl = length (der_tag tag') + 1" "rest = drop (unat b) t"
      by (auto split: if_splits)
    then show ?thesis
      using der_len_short [OF True] True
      by (intro exI [of _ "take (unat b) t"]) (simp add: der_def s min_def)
  next
    case False
    let ?k = "unat b - 128" and ?hl = "length (der_tag tag') + 1"
    have k: "0 < ?k" "?k \<le> 4"
      using ev False by (simp_all only: if_False split: if_splits) simp_all
    obtain x t' where x: "cbs_get_u ?k t = (x, t')" by (metis surj_pair)
    with ev False k obtain v where xv: "x = Some v" by (cases x) simp_all
    note v = x [unfolded xv]
    let ?m = "sz (unat v + ?hl + ?k)"
    have ev2: "(if v < 128 \<or> drop_bit ((?k - 1) * 8) v = 0 \<or> ?m < unat v \<or> length s < ?m then (None, s)
        else (Some (take ?m s, tag', ?hl + ?k), drop ?m s)) = (Some (el, tag, hl), rest)"
      using ev False k unfolding v prod.case option.case s by simp
    then have ok: "\<not> v < 128" "drop_bit ((?k - 1) * 8) v \<noteq> 0" "?m \<le> length s"
      and r: "el = take ?m s" "tag = tag'" "hl = ?hl + ?k" "rest = drop ?m s"
      by (auto split: if_splits)
    from ok(1) have ge: "128 \<le> unat v" by (simp add: word_less_nat_alt)
    obtain d where d: "length d = ?k" "t = d @ t'" "unat v = be_val d" using v k cbs_get_u_iff by blast
    have b: "unat b = 128 + ?k" using k by simp
    have hdr: "der_len (unat v) = b # d" by (rule der_len_long [OF d(3,1) k ok(2) ge b])
    have v32: "unat v < 2 ^ 32" using unsigned_less [of v] by simp
    then have sz: "sz (unat v + ?hl + ?k) = unat v + ?hl + ?k"
      using length_der_tag [of tag'] k(2) by (intro sz_id) (simp add: SIZE_LIMIT_def)
    have "unat v \<le> length t'" using ok(3) d(1) unfolding sz by (simp add: s d(2))
    moreover have "take (sz (unat v + ?hl + ?k)) s = der_tag tag' @ b # d @ take (unat v) t'"
      "drop (sz (unat v + ?hl + ?k)) s = drop (unat v) t'"
      using d(1) unfolding sz by (simp_all add: s d(2))
    ultimately show ?thesis
      using r v32 hdr d(1) by (intro exI [of _ "take (unat v) t'"]) (simp add: der_def min_def s d(2))
  qed
qed

lemma word_u32_val:
  assumes "n < 2 ^ 32" shows "unat (word_of_nat n :: u32) = n"
  using assms by (simp add: unat_of_nat)

lemma get_any_asn1_complete:
  assumes "length c < 2 ^ 32"
  shows "CBS_get_any_asn1_element (der tag c @ rest) =
    (Some (der tag c, tag, length (der tag c) - length c), rest)"
proof (cases "length c < 128")
  case True
  then have u: "unat (word_of_nat (length c) :: u8) = length c" by (simp add: unat_u8_of_nat)
  from True have "der tag c @ rest = der_tag tag @ word_of_nat (length c) # c @ rest"
    by (simp add: der_def der_len_def)
  with True u show ?thesis by (simp add: element_eval der_def der_len_def)
next
  case False
  let ?n = "length c" and ?k = "ndig 256 (length c)"
  let ?v = "word_of_nat ?n :: u32"
  have n: "?n < 256 ^ ?k" "?k = 1 \<or> 256 ^ (?k - 1) \<le> ?n" "0 < ?k" using ndig_bounds [of 256 ?n] by auto
  have k: "?k \<le> 4"
  proof (rule ccontr)
    assume "\<not> ?k \<le> 4"
    then have "(256 :: nat) ^ 4 \<le> 256 ^ (?k - 1)" by (intro power_increasing) simp_all
    with n(2) \<open>\<not> ?k \<le> 4\<close> assms show False by simp
  qed
  have u: "unat (word_of_nat (128 + ?k) :: u8) = 128 + ?k" "unat ?v = ?n"
    using k assms word_u32_val [of ?n] unat_u8_of_nat [of "128 + ?k"] by (simp_all del: of_nat_add)
  have s: "der tag c @ rest = der_tag tag @ word_of_nat (128 + ?k) # be_bytes ?k ?n @ c @ rest"
    using False by (simp add: der_def der_len_def)
  have get: "cbs_get_u ?k (be_bytes ?k ?n @ c @ rest) = (Some ?v, c @ rest)"
    using cbs_get_u_iff [OF k, of "be_bytes ?k ?n @ c @ rest" ?v "c @ rest"] be_val_be_bytes [OF n(1)] u(2)
    by auto
  have "drop_bit ((?k - 1) * 8) ?v \<noteq> 0"
  proof -
    have "256 ^ (?k - 1) \<le> ?n" using n(2) False by auto
    also have "(256 :: nat) ^ (?k - 1) = 2 ^ ((?k - 1) * 8)" unfolding mult.commute [of _ 8] power_mult by simp
    finally have "unat (drop_bit ((?k - 1) * 8) ?v) \<noteq> 0" unfolding unat_drop_bit u by (simp add: div_eq_0_iff)
    then show ?thesis by (metis unat_0)
  qed
  moreover have "\<not> ?v < 128" using False u by (simp add: word_less_nat_alt)
  moreover have sz: "sz (?n + (length (der_tag tag) + 1) + ?k) = ?n + (length (der_tag tag) + 1) + ?k"
    using length_der_tag [of tag] k assms by (intro sz_id) (simp add: SIZE_LIMIT_def)
  ultimately show ?thesis
    using k n(3) unfolding s element_eval Let_def u(1) add_diff_cancel_left' get
    by (simp only: prod.case option.case u(2) sz) (simp add: der_def der_len_def False)
qed

text \<open>The DER parser accepts exactly the canonical encodings.\<close>

lemma get_any_asn1_iff:
  assumes "length s < SIZE_LIMIT"
  shows "CBS_get_any_asn1_element s = (Some (el, tag, hl), rest) \<longleftrightarrow>
    (\<exists>c. el = der tag c \<and> s = el @ rest \<and> hl = length (der tag c) - length c \<and> length c < 2 ^ 32)"
  using get_any_asn1_sound [OF _ assms] get_any_asn1_complete by metis

lemma get_asn1_eval:
  "CBS_get_asn1 tag s = (case CBS_get_any_asn1_element s of
     (None, s') \<Rightarrow> (None, s')
   | (Some (el, t, hl), s') \<Rightarrow>
       if t \<noteq> tag then (None, s') else if length el < hl then (None, s') else (Some (drop hl el), s'))"
proof (cases "CBS_get_any_asn1_element s")
  case (Pair x s')
  then show ?thesis
    by (cases x) (simp_all add: CBS_get_asn1_def cbs_get_asn1_def bnd_def fail_def skip_out_def
        CBS_skip_def cbs_get_def ret_def split: prod.split)
qed

lemma get_asn1_iff:
  assumes "length s < SIZE_LIMIT"
  shows "CBS_get_asn1 tag s = (Some c, rest) \<longleftrightarrow> s = der tag c @ rest \<and> length c < 2 ^ 32"
proof
  assume get: "CBS_get_asn1 tag s = (Some c, rest)"
  obtain x s' where x: "CBS_get_any_asn1_element s = (x, s')" by (metis surj_pair)
  then obtain el tag' hl where "x = Some (el, tag', hl)"
    using get unfolding get_asn1_eval by (cases x) auto
  then have "tag' = tag \<and> s' = rest \<and> c = drop hl el"
    using get unfolding get_asn1_eval x by (simp split: if_splits)
  with x \<open>x = Some (el, tag', hl)\<close>
  have el: "CBS_get_any_asn1_element s = (Some (el, tag, hl), rest)" and c: "c = drop hl el" by simp_all
  from get_any_asn1_sound [OF el assms] c show "s = der tag c @ rest \<and> length c < 2 ^ 32"
    by (auto simp: der_def)
next
  assume "s = der tag c @ rest \<and> length c < 2 ^ 32"
  then show "CBS_get_asn1 tag s = (Some c, rest)"
    using get_any_asn1_complete [of c tag rest] unfolding get_asn1_eval
    by (simp add: der_def)
qed

section \<open>Integers\<close>

lemma uint64_loop_val:
  "uint64_loop out ds =
     (if unat out * 256 ^ length ds + be_val ds < 2 ^ 64
      then Some (word_of_nat (unat out * 256 ^ length ds + be_val ds)) else None)"
proof (induction ds arbitrary: out)
  case Nil
  then show ?case using unsigned_less [of out] by simp
next
  case (Cons d ds)
  have ge: "1 \<le> (256 :: nat) ^ length ds" by simp
  show ?case
  proof (cases "drop_bit 56 out = 0")
    case True
    then have "unat out div 2 ^ 56 = 0" using unat_drop_bit [of 56 out] by simp
    then have "unat out < 2 ^ 56" by (simp add: div_eq_0_iff)
    then have "unat (push_bit 8 out OR ucast d) = unat out * 256 + unat d"
      using unat_or_push [of "ucast d :: u64" 8 out 56] by simp
    then have "unat (push_bit 8 out OR ucast d) * 256 ^ length ds + be_val ds =
        unat out * 256 ^ length (d # ds) + be_val (d # ds)"
      by (simp add: be_val_Cons algebra_simps)
    with True Cons show ?thesis by simp
  next
    case False
    then have "unat (drop_bit 56 out) \<noteq> 0" by (simp add: unat_eq_0)
    then have "2 ^ 56 \<le> unat out" unfolding unat_drop_bit by (meson div_less not_less)
    then have "2 ^ 56 * (256 * 1) \<le> unat out * (256 * 256 ^ length ds)" using ge by (intro mult_le_mono) simp_all
    with False show ?thesis by simp
  qed
qed

lemma ndig_be_val:
  assumes "ds = [] \<or> d \<noteq> 0"
  shows "ndig 256 (be_val (d # ds)) = length (d # ds)"
proof (rule ndig_eqI)
  show "be_val (d # ds) < 256 ^ length (d # ds)" by (rule be_val_bound)
  have "256 ^ length ds \<le> be_val (d # ds)" if "d \<noteq> 0"
  proof -
    have "1 \<le> unat d" using that by (simp add: Suc_le_eq unat_gt_0)
    then have "1 * 256 ^ length ds \<le> unat d * 256 ^ length ds" by (rule mult_le_mono1)
    then show ?thesis unfolding be_val_Cons by linarith
  qed
  then show "length (d # ds) = 1 \<or> 256 ^ (length (d # ds) - 1) \<le> be_val (d # ds)"
    using assms by auto
qed simp_all

lemma be_bytes_ndig_ne: "be_bytes (ndig 256 n) n \<noteq> []"
proof -
  have "0 < length (be_bytes (ndig 256 n) n)" using ndig_bounds [of 256 n] by simp
  then show ?thesis by (rule length_greater_0_conv [THEN iffD1])
qed

lemma uint_bytes_ne: "uint_bytes n \<noteq> []"
  unfolding uint_bytes_def Let_def
  by (cases "hd (be_bytes (ndig 256 n) n) AND 0x80 \<noteq> 0")
    (simp_all only: if_True if_False be_bytes_ndig_ne list.distinct simp_thms)

lemma uint64_contents_sound:
  assumes "uint64_contents ds = Some v"
  shows "ds = uint_bytes (unat v)"
proof -
  have ne: "ds \<noteq> []" and pos: "ds ! 0 AND 0x80 = 0"
    and min: "\<not> (ds ! 0 = 0 \<and> length ds > 1 \<and> ds ! 1 AND 0x80 = 0)"
    and loop: "uint64_loop 0 ds = Some v"
    using assms by (auto simp: uint64_contents_def split: if_splits)
  then obtain d ds' where ds: "ds = d # ds'" by (cases ds) auto
  from loop have v: "unat v = be_val ds" by (auto simp: uint64_loop_val split: if_splits)
  show ?thesis
  proof (cases "ds' = [] \<or> d \<noteq> 0")
    case True
    then show ?thesis
      using be_bytes_be_val [of ds] pos by (simp add: uint_bytes_def v ds ndig_be_val Let_def)
  next
    case False
    then obtain e es where es: "ds' = e # es" by (cases ds') auto
    with False min ds have e: "e AND 0x80 \<noteq> 0" by simp
    then have "e \<noteq> 0" by auto
    then have "ndig 256 (be_val ds') = length ds'" unfolding es by (intro ndig_be_val) simp
    moreover have "be_val ds = be_val ds'" using False by (simp add: ds be_val_Cons)
    ultimately show ?thesis
      using be_bytes_be_val [of ds'] False e by (simp add: uint_bytes_def v ds es Let_def)
  qed
qed

lemma uint64_contents_complete: "uint64_contents (uint_bytes (unat v)) = Some v"
proof -
  let ?n = "unat v" let ?k = "ndig 256 ?n" let ?bs = "be_bytes ?k ?n"
  have k: "?n < 256 ^ ?k" "?k = 1 \<or> 256 ^ (?k - 1) \<le> ?n" "0 < ?k" using ndig_bounds [of 256 ?n] by auto
  have n: "?n < 2 ^ 64" using unsigned_less [of v] by simp
  have val: "be_val ?bs = ?n" using be_val_be_bytes [OF k(1)] .
  obtain b bs where bs: "?bs = b # bs" using k(3) by (metis length_be_bytes length_greater_0_conv list.exhaust)
  then have len: "length bs = ?k - 1" by (metis length_be_bytes length_tl list.sel(3))
  have lead: "b = 0 \<Longrightarrow> bs = []"
  proof -
    assume "b = 0"
    then have "?n < 256 ^ (?k - 1)" using val be_val_bound [of bs] unfolding bs len by (simp add: be_val_Cons)
    with k(2) have "?k = 1" by auto
    with len show "bs = []" by simp
  qed
  have loop: "uint64_loop 0 (b # bs) = Some v" "uint64_loop 0 (0 # b # bs) = Some v"
    using val n unfolding bs by (simp_all add: uint64_loop_val be_val_Cons)
  show ?thesis
  proof (cases "b AND 0x80 = 0")
    case True
    then show ?thesis using lead loop(1) by (auto simp: uint64_contents_def uint_bytes_def bs Let_def)
  next
    case False
    then show ?thesis using loop(2) by (simp add: uint64_contents_def uint_bytes_def bs Let_def)
  qed
qed

lemma length_uint_bytes: "n < 2 ^ 64 \<Longrightarrow> length (uint_bytes n) \<le> 9"
proof -
  assume n: "n < 2 ^ 64"
  have "ndig 256 n \<le> 8"
  proof (rule ccontr)
    assume a: "\<not> ndig 256 n \<le> 8"
    then have "(256 :: nat) ^ 8 \<le> 256 ^ (ndig 256 n - 1)" by (intro power_increasing) simp_all
    with ndig_bounds [of 256 n] a n show False by simp
  qed
  then show ?thesis by (simp add: uint_bytes_def Let_def)
qed

section \<open>Properties\<close>

text \<open>C1. The DER element parser accepts exactly the canonical encodings: it returns an element
  with its tag and header length if and only if the input starts with the encoding of a tag
  and contents of fewer than \<open>2 ^ 32\<close> bytes in which tag number and length are in their shortest
  form; nothing else of the input is consumed, and the overflow checks reject no valid element.\<close>

theorem CBS_get_any_asn1_element_canonical:
  assumes "length s < SIZE_LIMIT"
  shows "CBS_get_any_asn1_element s = (Some (el, tag, hl), rest) \<longleftrightarrow>
    (\<exists>c. el = der tag c \<and> s = el @ rest \<and> hl = length (der tag c) - length c \<and> length c < 2 ^ 32)"
  by (rule get_any_asn1_iff [OF assms])

text \<open>A SEQUENCE of one zero byte, followed by another byte.\<close>

theorem CBS_get_any_asn1_element_canonical_witness:
  "CBS_get_any_asn1_element [0x30, 1, 0, 7] = (Some ([0x30, 1, 0], 0x20000010, 2), [7])"
proof -
  have tag: "der_tag 0x20000010 = [0x30]" by (simp add: der_tag_def CBS_ASN1_TAG_NUMBER_MASK_def Let_def drop_bit_eq_div)
  then have "der 0x20000010 [0] = [0x30, 1, 0]" by (simp add: der_def der_len_def)
  then have "\<exists>c. [0x30, 1, 0] = der 0x20000010 c \<and> [0x30, 1, 0, 7] = [0x30, 1, 0] @ [7 :: u8] \<and>
      2 = length (der 0x20000010 c) - length c \<and> length c < 2 ^ 32"
    by (intro exI [of _ "[0]"]) simp
  moreover have "length [0x30, 1, 0, 7 :: u8] < SIZE_LIMIT" by (simp add: SIZE_LIMIT_def)
  ultimately show ?thesis
    using CBS_get_any_asn1_element_canonical [of "[0x30, 1, 0, 7]" "[0x30, 1, 0]" "0x20000010" 2 "[7]"]
    by blast
qed

text \<open>C33. Integers: \<open>CBS_get_asn1_uint64\<close> accepts exactly the DER encoding of its result, the
  shortest non-negative two's complement form, for every 64-bit value.\<close>

theorem CBS_get_asn1_uint64_canonical:
  assumes "length s < SIZE_LIMIT"
  shows "CBS_get_asn1_uint64 s = (Some v, rest) \<longleftrightarrow>
    s = der CBS_ASN1_INTEGER (uint_bytes (unat v)) @ rest"
proof -
  have "unat v < 2 ^ 64" using unsigned_less [of v] by simp
  then have len: "length (uint_bytes (unat v)) < 2 ^ 32" using length_uint_bytes [of "unat v"] by simp
  have "CBS_get_asn1_uint64 s = (Some v, rest) \<longleftrightarrow>
      (\<exists>c. CBS_get_asn1 CBS_ASN1_INTEGER s = (Some c, rest) \<and> uint64_contents c = Some v)"
    by (cases "CBS_get_asn1 CBS_ASN1_INTEGER s"; cases "fst (CBS_get_asn1 CBS_ASN1_INTEGER s)")
      (auto simp: CBS_get_asn1_uint64_def bnd_def fail_def ret_def split: option.splits)
  also have "\<dots> \<longleftrightarrow> s = der CBS_ASN1_INTEGER (uint_bytes (unat v)) @ rest"
    using uint64_contents_sound uint64_contents_complete len unfolding get_asn1_iff [OF assms] by blast
  finally show ?thesis .
qed

text \<open>The number 128, with its leading zero byte.\<close>

theorem CBS_get_asn1_uint64_canonical_witness: "CBS_get_asn1_uint64 [2, 2, 0, 128] = (Some 128, [])"
proof -
  have "ndig 256 128 = 1" by (rule ndig_eqI) simp_all
  then have "uint_bytes 128 = [0, 128]" by (simp add: uint_bytes_def be_bytes_def Let_def)
  moreover have "der_tag CBS_ASN1_INTEGER = [2]"
    by (simp add: der_tag_def CBS_ASN1_INTEGER_def CBS_ASN1_TAG_NUMBER_MASK_def Let_def drop_bit_eq_div)
  ultimately have "der CBS_ASN1_INTEGER (uint_bytes (unat (128 :: u64))) = [2, 2, 0, 128]"
    by (simp add: der_def der_len_def)
  then show ?thesis
    using CBS_get_asn1_uint64_canonical [of "[2, 2, 0, 128]" 128 "[]"] by (simp add: SIZE_LIMIT_def)
qed

end
