(* ===== verification/Cbb.thy ===== *)
theory Cbb
  imports Cbs "HOL-Library.Code_Target_Nat"
begin

text \<open>
  \<^verbatim>\<open>BoringSSL/crypto/bytestring/cbb.c\<close>: the growing byte builder with pending length
  prefixes.  The buffer is the list of its valid bytes (\<open>len\<close> is its length), with its
  capacity.  A top-level \<open>CBB\<close> and the children hanging from it form a chain, since each
  \<open>CBB\<close> has at most one child; the chain lists the pending children from the outermost in, and
  an operation on the \<open>CBB\<close> at depth \<open>d\<close> (0 for the top level) first flushes everything
  deeper.  A child whose depth is no longer in the chain has been flushed: its \<open>base\<close> is NULL
  and every operation on it fails.  \<open>al n\<close> says whether a reallocation to \<open>n\<close> bytes succeeds.
\<close>

record cbb_child =
  ch_offset :: nat
  ch_len_len :: nat
  ch_asn1 :: bool

record cbb =
  bb_buf :: bytes
  bb_cap :: nat
  bb_resize :: bool
  bb_error :: bool
  bb_chain :: "cbb_child list"

type_synonym cbb_result = "bool \<times> cbb"

text \<open>\<open>if (!f(cbb)) return 0; \<dots>\<close>\<close>

definition thn :: "cbb_result \<Rightarrow> (cbb \<Rightarrow> cbb_result) \<Rightarrow> cbb_result" where
  "thn r f = (case r of (False, c) \<Rightarrow> (False, c) | (True, c) \<Rightarrow> f c)"

definition cbb_init :: "bool \<Rightarrow> nat \<Rightarrow> bool \<Rightarrow> cbb option" where
  "cbb_init ok_base cap resize =
     (if \<not> ok_base then None
      else Some \<lparr>bb_buf = [], bb_cap = cap, bb_resize = resize, bb_error = False, bb_chain = []\<rparr>)"

definition CBB_init :: "bool \<Rightarrow> bool \<Rightarrow> nat \<Rightarrow> cbb option" where
  "CBB_init ok_buf ok_base initial_capacity =
     (if initial_capacity > 0 \<and> \<not> ok_buf then None else cbb_init ok_base initial_capacity True)"

definition CBB_init_fixed :: "bool \<Rightarrow> nat \<Rightarrow> cbb option" where
  "CBB_init_fixed ok_base len = cbb_init ok_base len False"

definition cbb_buffer_reserve :: "(nat \<Rightarrow> bool) \<Rightarrow> nat \<Rightarrow> cbb \<Rightarrow> cbb_result" where
  "cbb_buffer_reserve al n c =
     (let err = (False, c\<lparr>bb_error := True\<rparr>); newlen = sz (length (bb_buf c) + n) in
      if newlen < length (bb_buf c) then err
      else if newlen > bb_cap c then
        let newcap = sz (bb_cap c * 2) in
        if \<not> bb_resize c then err
        else let newcap = (if newcap < bb_cap c \<or> newcap < newlen then newlen else newcap)
             in if \<not> al newcap then err else (True, c\<lparr>bb_cap := newcap\<rparr>)
      else (True, c))"

text \<open>\<open>cbb_buffer_add\<close>, with the bytes its caller then writes at \<open>*out\<close>.\<close>

definition cbb_buffer_add :: "(nat \<Rightarrow> bool) \<Rightarrow> bytes \<Rightarrow> cbb \<Rightarrow> cbb_result" where
  "cbb_buffer_add al bs c =
     thn (cbb_buffer_reserve al (length bs) c) (\<lambda>c. (True, c\<lparr>bb_buf := bb_buf c @ bs\<rparr>))"

text \<open>The loops that write \<open>n\<close> bytes of \<open>v\<close> downwards from the last; what is left of \<open>v\<close>.\<close>

fun put_be :: "nat \<Rightarrow> nat \<Rightarrow> nat \<Rightarrow> bytes \<Rightarrow> nat \<times> bytes" where
  "put_be 0 v off buf = (v, buf)"
| "put_be (Suc i) v off buf = put_be i (v div 256) off (buf[off + i := word_of_nat v])"

definition cbb_buffer_add_u :: "(nat \<Rightarrow> bool) \<Rightarrow> u32 \<Rightarrow> nat \<Rightarrow> cbb \<Rightarrow> cbb_result" where
  "cbb_buffer_add_u al v len_len c =
     (if len_len = 0 then (True, c)
      else thn (cbb_buffer_add al (replicate len_len 0) c) (\<lambda>c.
             case put_be len_len (unat v) (length (bb_buf c) - len_len) (bb_buf c) of
               (v', buf) \<Rightarrow>
                 if v' \<noteq> 0 then (False, c\<lparr>bb_buf := buf, bb_error := True\<rparr>)
                 else (True, c\<lparr>bb_buf := buf\<rparr>)))"

text \<open>
  The part of \<open>CBB_flush\<close> that writes the length of one child whose own children are already
  flushed: an ASN.1 length may need more than the byte set aside, and then the contents move.
\<close>

definition asn1_len_len :: "nat \<Rightarrow> (nat \<times> u8 \<times> nat) option" where
  "asn1_len_len len =
     (if len > 0xfffffffe then None
      else if len > 0xffffff then Some (5, 0x80 OR 4, len)
      else if len > 0xffff then Some (4, 0x80 OR 3, len)
      else if len > 0xff then Some (3, 0x80 OR 2, len)
      else if len > 0x7f then Some (2, 0x80 OR 1, len)
      else Some (1, word_of_nat len, 0))"

definition write_prefix :: "(nat \<Rightarrow> bool) \<Rightarrow> cbb_child \<Rightarrow> cbb \<Rightarrow> cbb_result" where
  "write_prefix al ch c =
     (let err = (\<lambda>c. (False, c\<lparr>bb_error := True\<rparr>));
          child_start = sz (ch_offset ch + ch_len_len ch) in
      if child_start < ch_offset ch \<or> length (bb_buf c) < child_start then err c
      else
        let len = length (bb_buf c) - child_start;
            finish = (\<lambda>off n len c.
              case put_be n len off (bb_buf c) of
                (len', buf) \<Rightarrow> if len' \<noteq> 0 then err (c\<lparr>bb_buf := buf\<rparr>) else (True, c\<lparr>bb_buf := buf\<rparr>))
        in
        if ch_asn1 ch then
          (case asn1_len_len len of
             None \<Rightarrow> err c
           | Some (len_len, initial_length_byte, len') \<Rightarrow>
               (case (if len_len \<noteq> 1 then
                        let extra_bytes = len_len - 1 in
                        thn (cbb_buffer_add al (replicate extra_bytes 0) c) (\<lambda>c.
                          (True, c\<lparr>bb_buf := memmove (bb_buf c) (child_start + extra_bytes) child_start len\<rparr>))
                      else (True, c)) of
                  (False, c) \<Rightarrow> err c
                | (True, c) \<Rightarrow>
                    finish (ch_offset ch + 1) (len_len - 1) len'
                      (c\<lparr>bb_buf := (bb_buf c)[ch_offset ch := initial_length_byte]\<rparr>)))
        else finish (ch_offset ch) (ch_len_len ch) len c)"

fun flush_children :: "(nat \<Rightarrow> bool) \<Rightarrow> cbb_child list \<Rightarrow> cbb \<Rightarrow> cbb_result" where
  "flush_children al [] c = (True, c)"
| "flush_children al (ch # chs) c =
     (case flush_children al chs c of
        (False, c) \<Rightarrow> (False, c\<lparr>bb_error := True\<rparr>)
      | (True, c) \<Rightarrow> write_prefix al ch c)"

definition CBB_flush :: "(nat \<Rightarrow> bool) \<Rightarrow> nat \<Rightarrow> cbb \<Rightarrow> cbb_result" where
  "CBB_flush al d c =
     (if length (bb_chain c) < d \<or> bb_error c then (False, c)
      else thn (flush_children al (drop d (bb_chain c)) c)
             (\<lambda>c. (True, c\<lparr>bb_chain := take d (bb_chain c)\<rparr>)))"

text \<open>\<open>CBB_finish\<close>: the return value and the bytes handed to the caller.\<close>

definition CBB_finish :: "(nat \<Rightarrow> bool) \<Rightarrow> nat \<Rightarrow> bool \<Rightarrow> cbb \<Rightarrow> bytes option" where
  "CBB_finish al d out_null c =
     (if d \<noteq> 0 then None
      else (case CBB_flush al d c of
              (False, _) \<Rightarrow> None
            | (True, c) \<Rightarrow> if bb_resize c \<and> out_null then None else Some (bb_buf c)))"

definition child_pos :: "nat \<Rightarrow> cbb \<Rightarrow> nat" where
  "child_pos d c = (if d = 0 then 0
     else ch_offset (bb_chain c ! (d - 1)) + ch_len_len (bb_chain c ! (d - 1)))"

definition CBB_data :: "nat \<Rightarrow> cbb \<Rightarrow> bytes" where
  "CBB_data d c = drop (child_pos d c) (bb_buf c)"

definition CBB_len :: "nat \<Rightarrow> cbb \<Rightarrow> nat" where
  "CBB_len d c = length (bb_buf c) - child_pos d c"

definition cbb_add_length_prefixed :: "(nat \<Rightarrow> bool) \<Rightarrow> nat \<Rightarrow> nat \<Rightarrow> cbb \<Rightarrow> cbb_result" where
  "cbb_add_length_prefixed al len_len d c =
     thn (CBB_flush al d c) (\<lambda>c.
       let offset = length (bb_buf c) in
       thn (cbb_buffer_add al (replicate len_len 0) c) (\<lambda>c.
         (True, c\<lparr>bb_chain := bb_chain c @
            [\<lparr>ch_offset = offset, ch_len_len = len_len, ch_asn1 = False\<rparr>]\<rparr>)))"

definition CBB_add_u8_length_prefixed :: "(nat \<Rightarrow> bool) \<Rightarrow> nat \<Rightarrow> cbb \<Rightarrow> cbb_result" where
  "CBB_add_u8_length_prefixed al = cbb_add_length_prefixed al 1"

definition CBB_add_u16_length_prefixed :: "(nat \<Rightarrow> bool) \<Rightarrow> nat \<Rightarrow> cbb \<Rightarrow> cbb_result" where
  "CBB_add_u16_length_prefixed al = cbb_add_length_prefixed al 2"

definition CBB_add_u24_length_prefixed :: "(nat \<Rightarrow> bool) \<Rightarrow> nat \<Rightarrow> cbb \<Rightarrow> cbb_result" where
  "CBB_add_u24_length_prefixed al = cbb_add_length_prefixed al 3"

definition CBB_add_bytes :: "(nat \<Rightarrow> bool) \<Rightarrow> nat \<Rightarrow> bytes \<Rightarrow> cbb \<Rightarrow> cbb_result" where
  "CBB_add_bytes al d bs c = thn (CBB_flush al d c) (cbb_buffer_add al bs)"

text \<open>\<open>CBB_add_space\<close>, with the bytes the caller fills the space with.\<close>

definition CBB_add_space :: "(nat \<Rightarrow> bool) \<Rightarrow> nat \<Rightarrow> bytes \<Rightarrow> cbb \<Rightarrow> cbb_result" where
  "CBB_add_space al d bs c = thn (CBB_flush al d c) (cbb_buffer_add al bs)"

definition CBB_reserve :: "(nat \<Rightarrow> bool) \<Rightarrow> nat \<Rightarrow> nat \<Rightarrow> cbb \<Rightarrow> cbb_result" where
  "CBB_reserve al d n c = thn (CBB_flush al d c) (cbb_buffer_reserve al n)"

text \<open>\<open>CBB_did_write\<close>, with the bytes the caller wrote into the reserved space.\<close>

definition CBB_did_write :: "nat \<Rightarrow> bytes \<Rightarrow> cbb \<Rightarrow> cbb_result" where
  "CBB_did_write d bs c =
     (let newlen = sz (length (bb_buf c) + length bs) in
      if d < length (bb_chain c) \<or> newlen < length (bb_buf c) \<or> newlen > bb_cap c then (False, c)
      else (True, c\<lparr>bb_buf := bb_buf c @ bs\<rparr>))"

definition CBB_add_u8 :: "(nat \<Rightarrow> bool) \<Rightarrow> nat \<Rightarrow> u8 \<Rightarrow> cbb \<Rightarrow> cbb_result" where
  "CBB_add_u8 al d v c = thn (CBB_flush al d c) (cbb_buffer_add_u al (ucast v) 1)"

definition CBB_add_u16 :: "(nat \<Rightarrow> bool) \<Rightarrow> nat \<Rightarrow> u16 \<Rightarrow> cbb \<Rightarrow> cbb_result" where
  "CBB_add_u16 al d v c = thn (CBB_flush al d c) (cbb_buffer_add_u al (ucast v) 2)"

definition CBB_add_u24 :: "(nat \<Rightarrow> bool) \<Rightarrow> nat \<Rightarrow> u32 \<Rightarrow> cbb \<Rightarrow> cbb_result" where
  "CBB_add_u24 al d v c = thn (CBB_flush al d c) (cbb_buffer_add_u al v 3)"

definition CBB_add_u32 :: "(nat \<Rightarrow> bool) \<Rightarrow> nat \<Rightarrow> u32 \<Rightarrow> cbb \<Rightarrow> cbb_result" where
  "CBB_add_u32 al d v c = thn (CBB_flush al d c) (cbb_buffer_add_u al v 4)"

definition CBB_discard_child :: "nat \<Rightarrow> cbb \<Rightarrow> cbb" where
  "CBB_discard_child d c =
     (if length (bb_chain c) \<le> d then c
      else c\<lparr>bb_buf := take (ch_offset (bb_chain c ! d)) (bb_buf c), bb_chain := take d (bb_chain c)\<rparr>)"

section \<open>ASN.1\<close>

function len7 :: "u64 \<Rightarrow> nat" where
  "len7 copy = (if copy > 0 then Suc (len7 (drop_bit 7 copy)) else 0)"
  by auto
termination
proof (relation "measure unat")
  fix copy :: u64
  assume "copy > 0"
  then show "(drop_bit 7 copy, copy) \<in> measure unat"
    by (simp add: word_less_nat_alt unat_drop_bit)
qed simp

declare len7.simps [simp del]

fun add_base128_loop :: "(nat \<Rightarrow> bool) \<Rightarrow> nat \<Rightarrow> u64 \<Rightarrow> nat \<Rightarrow> cbb \<Rightarrow> cbb_result" where
  "add_base128_loop al d v 0 c = (True, c)"
| "add_base128_loop al d v (Suc i) c =
     (let byte = ucast (drop_bit (7 * i) v AND 0x7f) :: u8;
          byte = (if i \<noteq> 0 then byte OR 0x80 else byte)
      in thn (CBB_add_u8 al d byte c) (add_base128_loop al d v i))"

definition add_base128_integer :: "(nat \<Rightarrow> bool) \<Rightarrow> nat \<Rightarrow> u64 \<Rightarrow> cbb \<Rightarrow> cbb_result" where
  "add_base128_integer al d v c =
     (let len_len = len7 v; len_len = (if len_len = 0 then 1 else len_len)
      in add_base128_loop al d v len_len c)"

definition CBB_add_asn1 :: "(nat \<Rightarrow> bool) \<Rightarrow> nat \<Rightarrow> u32 \<Rightarrow> cbb \<Rightarrow> cbb_result" where
  "CBB_add_asn1 al d tag c =
     thn (CBB_flush al d c) (\<lambda>c.
       let tag_bits = ucast (drop_bit CBS_ASN1_TAG_SHIFT tag) AND 0xe0 :: u8;
           tag_number = tag AND CBS_ASN1_TAG_NUMBER_MASK
       in thn (if tag_number \<ge> 0x1f
               then thn (CBB_add_u8 al d (tag_bits OR 0x1f) c)
                      (add_base128_integer al d (ucast tag_number))
               else CBB_add_u8 al d (tag_bits OR ucast tag_number) c) (\<lambda>c.
            let offset = length (bb_buf c) in
            thn (CBB_add_u8 al d 0 c) (\<lambda>c.
              (True, c\<lparr>bb_chain := bb_chain c @
                 [\<lparr>ch_offset = offset, ch_len_len = 1, ch_asn1 = True\<rparr>]\<rparr>))))"

fun uint64_bytes_loop :: "(nat \<Rightarrow> bool) \<Rightarrow> nat \<Rightarrow> bool \<Rightarrow> bytes \<Rightarrow> cbb \<Rightarrow> bool \<times> cbb_result" where
  "uint64_bytes_loop al d started [] c = (started, (True, c))"
| "uint64_bytes_loop al d started (byte # bs) c =
     (if \<not> started \<and> byte = 0 then uint64_bytes_loop al d started bs c
      else
        (case (if \<not> started \<and> byte AND 0x80 \<noteq> 0 then CBB_add_u8 al d 0 c else (True, c)) of
           (False, c) \<Rightarrow> (started, (False, c))
         | (True, c) \<Rightarrow>
             (case CBB_add_u8 al d byte c of
                (False, c) \<Rightarrow> (True, (False, c))
              | (True, c) \<Rightarrow> uint64_bytes_loop al d True bs c)))"

definition CBB_add_asn1_uint64 :: "(nat \<Rightarrow> bool) \<Rightarrow> nat \<Rightarrow> u64 \<Rightarrow> cbb \<Rightarrow> cbb_result" where
  "CBB_add_asn1_uint64 al d v c =
     thn (CBB_add_asn1 al d CBS_ASN1_INTEGER c) (\<lambda>c.
       case uint64_bytes_loop al (d + 1) False
              (map (\<lambda>i. ucast (drop_bit (8 * (7 - i)) v AND 0xff)) [0..<8]) c of
         (started, r) \<Rightarrow>
           thn r (\<lambda>c. thn (if started then (True, c) else CBB_add_u8 al (d + 1) 0 c)
                        (CBB_flush al d)))"

definition CBB_add_asn1_octet_string :: "(nat \<Rightarrow> bool) \<Rightarrow> nat \<Rightarrow> bytes \<Rightarrow> cbb \<Rightarrow> cbb_result" where
  "CBB_add_asn1_octet_string al d bs c =
     thn (CBB_add_asn1 al d CBS_ASN1_OCTETSTRING c) (\<lambda>c.
       thn (CBB_add_bytes al (d + 1) bs c) (CBB_flush al d))"

definition CBB_add_asn1_bool :: "(nat \<Rightarrow> bool) \<Rightarrow> nat \<Rightarrow> bool \<Rightarrow> cbb \<Rightarrow> cbb_result" where
  "CBB_add_asn1_bool al d v c =
     thn (CBB_add_asn1 al d CBS_ASN1_BOOLEAN c) (\<lambda>c.
       thn (CBB_add_u8 al (d + 1) (if v then 0xff else 0) c) (CBB_flush al d))"

section \<open>Abstract builder\<close>

text \<open>
  The contract: a builder is a stack of open elements, each with what precedes its contents and
  the kind of its pending prefix (an ASN.1 length, or \<open>k\<close> big-endian bytes), and the contents
  of the innermost.  Closing an element puts the length of its contents in front of them.
\<close>

type_synonym frame = "bytes \<times> nat option"

definition len_prefix :: "nat option \<Rightarrow> nat \<Rightarrow> bytes option" where
  "len_prefix kind n =
     (case kind of
        None \<Rightarrow> if n \<le> 0xfffffffe then Some (der_len n) else None
      | Some k \<Rightarrow> if n < 256 ^ k then Some (be_bytes k n) else None)"

fun close :: "frame list \<Rightarrow> bytes \<Rightarrow> bytes option" where
  "close [] lst = Some lst"
| "close ((p, kind) # fs) lst =
     (case close fs lst of
        None \<Rightarrow> None
      | Some body \<Rightarrow>
          (case len_prefix kind (length body) of None \<Rightarrow> None | Some pre \<Rightarrow> Some (p @ pre @ body)))"

definition kind_of :: "cbb_child \<Rightarrow> nat option" where
  "kind_of ch = (if ch_asn1 ch then None else Some (ch_len_len ch))"

text \<open>The part of the buffer from position \<open>s\<close> on, for the children still open there.\<close>

fun laid_out :: "frame list \<Rightarrow> bytes \<Rightarrow> nat \<Rightarrow> cbb_child list \<Rightarrow> bytes \<Rightarrow> bool" where
  "laid_out [] lst s [] buf \<longleftrightarrow> buf = lst"
| "laid_out ((p, kind) # fs) lst s (ch # chs) buf \<longleftrightarrow>
     kind = kind_of ch \<and> (ch_asn1 ch \<longrightarrow> ch_len_len ch = 1) \<and> ch_offset ch = s + length p \<and>
     take (length p) buf = p \<and> length p + ch_len_len ch \<le> length buf \<and>
     laid_out fs lst (s + length p + ch_len_len ch) chs (drop (length p + ch_len_len ch) buf)"
| "laid_out _ _ _ _ _ \<longleftrightarrow> False"

definition cbb_rep :: "cbb \<Rightarrow> frame list \<Rightarrow> bytes \<Rightarrow> bool" where
  "cbb_rep c fs lst \<longleftrightarrow>
     laid_out fs lst 0 (bb_chain c) (bb_buf c) \<and> \<not> bb_error c \<and>
     length (bb_buf c) \<le> bb_cap c \<and> bb_cap c < SIZE_LIMIT"

section \<open>Primitives\<close>

lemma put_be_val:
  "off + n \<le> length buf \<Longrightarrow>
   put_be n v off buf = (v div 256 ^ n, take off buf @ be_bytes n v @ drop (off + n) buf)"
proof (induction n arbitrary: v buf)
  case (Suc i)
  have "be_bytes (Suc i) v = be_bytes i (v div 256) @ [word_of_nat v]" by (simp add: be_bytes_def)
  moreover have "drop (off + i) (buf[off + i := x]) = x # drop (off + Suc i) buf" for x
    using Suc.prems Cons_nth_drop_Suc [of "off + i" "buf[off + i := x]"] by (simp add: drop_update_cancel)
  ultimately show ?case
    using Suc by (simp add: div_mult2_eq)
qed (simp add: be_bytes_def)

text \<open>What a buffer operation leaves alone, and the size invariant.\<close>

definition same_frame :: "cbb \<Rightarrow> cbb \<Rightarrow> bool" where
  "same_frame c c' \<longleftrightarrow> bb_chain c' = bb_chain c \<and> bb_resize c' = bb_resize c \<and> bb_error c' = bb_error c \<and>
     length (bb_buf c') \<le> bb_cap c' \<and> bb_cap c' < SIZE_LIMIT"

definition ample :: "(nat \<Rightarrow> bool) \<Rightarrow> cbb \<Rightarrow> nat \<Rightarrow> bool" where
  "ample al c n \<longleftrightarrow> bb_resize c \<and> (\<forall>k. al k) \<and> length (bb_buf c) + n < SIZE_LIMIT"

lemma cbb_buffer_add_spec:
  assumes "length (bb_buf c) \<le> bb_cap c" "bb_cap c < SIZE_LIMIT" "length bs < SIZE_LIMIT"
  shows "case cbb_buffer_add al bs c of
     (True, c') \<Rightarrow> bb_buf c' = bb_buf c @ bs \<and> same_frame c c'
   | (False, c') \<Rightarrow> bb_error c' \<and> \<not> ample al c (length bs)"
proof -
  let ?n = "length (bb_buf c) + length bs"
  have wrap: "sz ?n < length (bb_buf c) \<longleftrightarrow> \<not> ?n < SIZE_LIMIT"
  proof (cases "?n < SIZE_LIMIT")
    case False
    then have "sz ?n = ?n - SIZE_LIMIT"
      using assms by (simp add: sz_def mod_if)
    with assms False show ?thesis by simp
  qed simp
  show ?thesis
  proof (cases "?n < SIZE_LIMIT")
    case True
    with wrap assms show ?thesis
      by (auto simp: cbb_buffer_add_def cbb_buffer_reserve_def thn_def Let_def same_frame_def ample_def
          split: bool.splits)
  next
    case False
    with wrap show ?thesis
      by (simp add: cbb_buffer_add_def cbb_buffer_reserve_def thn_def Let_def ample_def)
  qed
qed

lemma asn1_len_len_spec:
  "asn1_len_len n = (if n \<le> 0xfffffffe then
     (if n < 128 then Some (1, word_of_nat n, 0) else Some (ndig 256 n + 1, word_of_nat (128 + ndig 256 n), n))
   else None)"
proof -
  have "n \<le> 0xfffffffe \<Longrightarrow> n > 0xffffff \<Longrightarrow> ndig 256 n = 4" by (rule ndig_eqI) simp_all
  moreover have "n \<le> 0xffffff \<Longrightarrow> n > 0xffff \<Longrightarrow> ndig 256 n = 3" by (rule ndig_eqI) simp_all
  moreover have "n \<le> 0xffff \<Longrightarrow> n > 0xff \<Longrightarrow> ndig 256 n = 2" by (rule ndig_eqI) simp_all
  moreover have "n \<le> 0xff \<Longrightarrow> ndig 256 n = 1" by (rule ndig_eqI) simp_all
  ultimately show ?thesis by (simp add: asn1_len_len_def)
qed

lemma memmove_gap:
  assumes "length z = 1" "length e = n"
  shows "memmove (A @ z @ body @ e) (length A + 1 + n) (length A + 1) (length body) =
    A @ z @ take n (body @ e) @ body"
  using assms by (simp add: memmove_def blit_def)

lemma prefix_asn1_layout:
  assumes "length z = 1" "length w = n"
  shows "put_be n v (length A + 1) ((A @ z @ w @ body)[length A := b]) =
    (v div 256 ^ n, A @ [b] @ be_bytes n v @ body)"
proof -
  have "(A @ z @ w @ body)[length A := b] = A @ [b] @ w @ body"
    using assms(1) by (cases z) simp_all
  then show ?thesis using assms(2) by (simp add: put_be_val)
qed

lemma write_prefix_spec:
  assumes buf: "bb_buf c = A @ z @ body" and z: "length z = ch_len_len ch" "length A = ch_offset ch"
    and one: "ch_asn1 ch \<longrightarrow> ch_len_len ch = 1"
    and inv: "length (bb_buf c) \<le> bb_cap c" "bb_cap c < SIZE_LIMIT"
  shows "case write_prefix al ch c of
     (True, c') \<Rightarrow> (\<exists>pre. len_prefix (kind_of ch) (length body) = Some pre \<and> bb_buf c' = A @ pre @ body) \<and>
        same_frame c c' \<and> length (bb_buf c') \<le> length (bb_buf c) + 4
   | (False, c') \<Rightarrow> bb_error c' \<and> (ample al c 4 \<longrightarrow> len_prefix (kind_of ch) (length body) = None)"
proof -
  have start: "sz (ch_offset ch + ch_len_len ch) = ch_offset ch + ch_len_len ch"
    using inv buf z by (intro sz_id) simp
  have len: "length (bb_buf c) - (ch_offset ch + ch_len_len ch) = length body" using buf z by simp
  show ?thesis
  proof (cases "ch_asn1 ch")
    case False
    have "put_be (ch_len_len ch) (length body) (ch_offset ch) (bb_buf c) =
        (length body div 256 ^ ch_len_len ch, A @ be_bytes (ch_len_len ch) (length body) @ body)"
      using buf z by (simp add: put_be_val)
    moreover have "length body div 256 ^ ch_len_len ch = 0 \<longleftrightarrow> length body < 256 ^ ch_len_len ch"
      by (simp add: div_eq_0_iff)
    ultimately show ?thesis
      using False inv buf z
      by (simp add: write_prefix_def start len Let_def len_prefix_def kind_of_def same_frame_def)
  next
    case True
    with one z have z1: "length z = 1" by simp
    show ?thesis
    proof (cases "length body \<le> 0xfffffffe")
      case big: False
      then show ?thesis
        using True buf z by (simp add: write_prefix_def start len Let_def len_prefix_def kind_of_def asn1_len_len_spec)
    next
      case small: True
      show ?thesis
      proof (cases "length body < 128")
        case short: True
        have "put_be 0 0 (ch_offset ch + 1) ((bb_buf c)[ch_offset ch := word_of_nat (length body)]) =
            (0, A @ der_len (length body) @ body)"
          using prefix_asn1_layout [OF z1, of "[]" 0 0 A body] short z(2) unfolding buf
          by (simp add: der_len_def be_bytes_def)
        then show ?thesis
          using True small short inv buf z z1
          by (simp add: write_prefix_def start len Let_def len_prefix_def kind_of_def asn1_len_len_spec
              same_frame_def der_len_def)
      next
        case long: False
        let ?n = "ndig 256 (length body)"
        let ?e = "replicate ?n (0 :: u8)"
        have n: "length body < 256 ^ ?n" "0 < ?n" using ndig_bounds [of 256 "length body"] by auto
        have n4: "?n \<le> 4"
        proof (rule ccontr)
          assume a: "\<not> ?n \<le> 4"
          then have "(256 :: nat) ^ 4 \<le> 256 ^ (?n - 1)" by (intro power_increasing) simp_all
          with ndig_bounds [of 256 "length body"] a small show False by simp
        qed
        obtain ok c1 where add: "cbb_buffer_add al ?e c = (ok, c1)" by (metis surj_pair)
        have spec: "case cbb_buffer_add al ?e c of
            (True, c') \<Rightarrow> bb_buf c' = bb_buf c @ ?e \<and> same_frame c c'
          | (False, c') \<Rightarrow> bb_error c' \<and> \<not> ample al c (length ?e)"
          using n4 by (intro cbb_buffer_add_spec [OF inv]) (simp add: SIZE_LIMIT_def)
        show ?thesis
        proof (cases ok)
          case False
          then have "\<not> ample al c 4" using spec add n4 by (auto simp: ample_def)
          with False add True small long buf z show ?thesis
            by (simp add: write_prefix_def start len Let_def asn1_len_len_spec n(2) thn_def)
        next
          case ok: True
          then have c1: "bb_buf c1 = A @ z @ body @ ?e" "same_frame c c1" using spec add buf by simp_all
          define w where "w = take ?n (body @ ?e)"
          have lw: "length w = ?n" by (simp add: w_def)
          have mv: "memmove (bb_buf c1) (ch_offset ch + ch_len_len ch + ?n) (ch_offset ch + ch_len_len ch) (length body) =
              A @ z @ w @ body"
            unfolding c1 one [rule_format, OF True] z(2) [symmetric] w_def by (rule memmove_gap [OF z1]) simp
          have put: "put_be ?n (length body) (Suc (ch_offset ch))
              ((A @ z @ w @ body)[ch_offset ch := word_of_nat (128 + ?n)]) =
              (0, A @ der_len (length body) @ body)"
            using prefix_asn1_layout [OF z1 lw, of "length body" A body "word_of_nat (128 + ?n)"] n(1) z(2) long
            by (simp add: der_len_def)
          have "length (der_len (length body)) = ?n + 1" using long by (simp add: der_len_def)
          moreover have "write_prefix al ch c = (True, c1\<lparr>bb_buf := A @ der_len (length body) @ body\<rparr>)"
          proof -
            have lens: "asn1_len_len (length body) = Some (?n + 1, word_of_nat (128 + ?n), length body)"
              using small long by (simp add: asn1_len_len_spec del: of_nat_add)
            have ne: "?n + 1 \<noteq> 1" "?n + 1 - 1 = ?n" using n(2) by simp_all
            have nostart: "\<not> (ch_offset ch + ch_len_len ch < ch_offset ch \<or>
                length (bb_buf c) < ch_offset ch + ch_len_len ch)" using buf z by simp
            show ?thesis
              unfolding write_prefix_def start len Let_def lens option.case prod.case if_not_P [OF nostart]
                if_P [OF True] if_P [OF ne(1)] ne(2) add [unfolded ok [THEN eqTrueI]] thn_def bool.case
              by (simp add: mv put del: of_nat_add)
          qed
          ultimately show ?thesis
            using buf z1 z c1 small n4 by (simp add: len_prefix_def kind_of_def True same_frame_def)
        qed
      qed
    qed
  qed
qed

section \<open>Flushing\<close>

lemma len_prefix_shape:
  "len_prefix kind n = Some pre \<Longrightarrow> kind = Some k \<Longrightarrow> length pre = k"
  by (auto simp: len_prefix_def split: if_splits)

lemma ample_mono: "ample al c n \<Longrightarrow> m \<le> n \<Longrightarrow> ample al c m"
  by (auto simp: ample_def)

lemma flush_children_spec:
  assumes "laid_out fs lst s chs buf" and "bb_buf c = A @ buf" and "length A = s"
    and "\<not> bb_error c" "length (bb_buf c) \<le> bb_cap c" "bb_cap c < SIZE_LIMIT"
  shows "case flush_children al chs c of
     (True, c') \<Rightarrow> (\<exists>b. close fs lst = Some b \<and> bb_buf c' = A @ b) \<and> same_frame c c' \<and>
        length (bb_buf c') \<le> length (bb_buf c) + 4 * length chs
   | (False, c') \<Rightarrow> bb_error c' \<and> (ample al c (4 * length chs) \<longrightarrow> close fs lst = None)"
  using assms
proof (induction fs lst s chs buf arbitrary: A c rule: laid_out.induct)
  case (1 lst s buf)
  then show ?case by (simp add: same_frame_def)
next
  case (2 p kind fs lst s ch chs buf)
  let ?n = "length p + ch_len_len ch"
  let ?z = "take (ch_len_len ch) (drop (length p) buf)"
  have lay: "kind = kind_of ch" "ch_asn1 ch \<longrightarrow> ch_len_len ch = 1" "ch_offset ch = s + length p"
    "take (length p) buf = p" "?n \<le> length buf" and sub: "laid_out fs lst (s + ?n) chs (drop ?n buf)"
    using "2.prems"(1) by (simp_all add: add.assoc)
  have buf: "buf = p @ ?z @ drop ?n buf"
    using append_take_drop_id [of "length p" buf] append_take_drop_id [of "ch_len_len ch" "drop (length p) buf"]
    unfolding lay(4) by (simp add: add.commute)
  have lz: "length ?z = ch_len_len ch" using lay(5) by simp
  have cbuf: "bb_buf c = (A @ p @ ?z) @ drop ?n buf" using "2.prems"(2) buf by simp
  have lA: "length (A @ p @ ?z) = s + length p + ch_len_len ch" using "2.prems"(3) lz by simp
  obtain ok c1 where run: "flush_children al chs c = (ok, c1)" by (metis surj_pair)
  note ih = "2.IH" [of c "A @ p @ ?z", unfolded run prod.case, OF _ cbuf lA "2.prems"(4-6)]
  have sub': "laid_out fs lst (s + length p + ch_len_len ch) chs (drop ?n buf)" using sub by (simp add: add.assoc)
  show ?case
  proof (cases ok)
    case False
    with ih [OF sub'] run ample_mono [of al c "4 * length (ch # chs)" "4 * length chs"] show ?thesis by auto
  next
    case True
    then obtain b where b: "close fs lst = Some b" "bb_buf c1 = (A @ p) @ ?z @ b" and sf: "same_frame c c1"
      and len: "length (bb_buf c1) \<le> length (bb_buf c) + 4 * length chs"
      using ih [OF sub'] by auto
    have inv1: "length (bb_buf c1) \<le> bb_cap c1" "bb_cap c1 < SIZE_LIMIT" using sf by (simp_all add: same_frame_def)
    have off: "length (A @ p) = ch_offset ch" using "2.prems"(3) lay(3) by simp
    note wp = write_prefix_spec [OF b(2) lz off lay(2) inv1, of al]
    have am: "ample al c (4 * length (ch # chs)) \<Longrightarrow> ample al c1 4"
      using sf len by (auto simp: ample_def same_frame_def)
    obtain ok2 c2 where run2: "write_prefix al ch c1 = (ok2, c2)" by (metis surj_pair)
    show ?thesis
    proof (cases ok2)
      case True
      with wp run2 lay(1) sf len \<open>ok\<close> run b(1) show ?thesis
        by (auto simp: same_frame_def)
    next
      case False
      with wp run2 lay(1) am \<open>ok\<close> run b(1) show ?thesis by auto
    qed
  qed
qed simp_all

lemma laid_out_length: "laid_out fs lst s chs buf \<Longrightarrow> length fs = length chs"
  by (induction fs lst s chs buf rule: laid_out.induct) simp_all

lemma cbb_rep_depth: "cbb_rep c fs lst \<Longrightarrow> length (bb_chain c) = length fs"
  using laid_out_length by (auto simp: cbb_rep_def)

lemma laid_out_drop:
  "laid_out fs lst s chs buf \<Longrightarrow> d \<le> length fs \<Longrightarrow>
   \<exists>pos. pos \<le> length buf \<and> laid_out (drop d fs) lst (s + pos) (drop d chs) (drop pos buf) \<and>
     (\<forall>b. laid_out (take d fs) b s (take d chs) (take pos buf @ b))"
proof (induction fs lst s chs buf arbitrary: d rule: laid_out.induct)
  case (1 lst s buf)
  then show ?case by (intro exI [of _ 0]) simp
next
  case (2 p kind fs lst s ch chs buf)
  let ?n = "length p + ch_len_len ch"
  show ?case
  proof (cases d)
    case 0
    with "2.prems" show ?thesis by (intro exI [of _ 0]) simp
  next
    case (Suc d')
    from "2.IH" [of d'] "2.prems" Suc obtain pos where pos: "pos \<le> length (drop ?n buf)"
      "laid_out (drop d' fs) lst (s + length p + ch_len_len ch + pos) (drop d' chs) (drop pos (drop ?n buf))"
      "laid_out (take d' fs) b (s + length p + ch_len_len ch) (take d' chs) (take pos (drop ?n buf) @ b)" for b
      by auto
    have "drop ?n (take (?n + pos) buf @ b) = take pos (drop ?n buf) @ b" for b
      using pos(1) "2.prems"(1) by (simp add: drop_take)
    moreover have "take (length p) (take (?n + pos) buf @ b) = p" for b
      using "2.prems"(1) pos(1) by (simp add: min_def)
    moreover have "?n \<le> length buf" using "2.prems"(1) by simp
    then have "?n + pos \<le> length buf" using pos(1) unfolding length_drop by linarith
    moreover have "drop (?n + pos) buf = drop pos (drop ?n buf)" by (simp add: add.commute)
    ultimately show ?thesis
      using pos(2,3) "2.prems"(1) Suc by (intro exI [of _ "?n + pos"]) (simp add: add.assoc min_def del: drop_drop)
  qed
qed simp_all

lemma CBB_flush_spec:
  assumes rep: "cbb_rep c fs lst" and d: "d \<le> length fs"
  shows "case CBB_flush al d c of
     (True, c') \<Rightarrow> (\<exists>b. close (drop d fs) lst = Some b \<and> cbb_rep c' (take d fs) b) \<and> bb_resize c' = bb_resize c
   | (False, c') \<Rightarrow> bb_error c' \<and> (ample al c (4 * length fs) \<longrightarrow> close (drop d fs) lst = None)"
proof -
  have inv: "\<not> bb_error c" "length (bb_buf c) \<le> bb_cap c" "bb_cap c < SIZE_LIMIT"
    and lay: "laid_out fs lst 0 (bb_chain c) (bb_buf c)" using rep by (simp_all add: cbb_rep_def)
  obtain pos where pos: "pos \<le> length (bb_buf c)"
    "laid_out (drop d fs) lst pos (drop d (bb_chain c)) (drop pos (bb_buf c))"
    "\<And>b. laid_out (take d fs) b 0 (take d (bb_chain c)) (take pos (bb_buf c) @ b)"
    using laid_out_drop [OF lay d] by auto
  have pb: "bb_buf c = take pos (bb_buf c) @ drop pos (bb_buf c)" "length (take pos (bb_buf c)) = pos"
    using pos(1) by simp_all
  note sp = flush_children_spec [OF pos(2) pb inv, of al]
  obtain ok c1 where run: "flush_children al (drop d (bb_chain c)) c = (ok, c1)" by (metis surj_pair)
  have dep: "\<not> length (bb_chain c) < d" using cbb_rep_depth [OF rep] d by simp
  show ?thesis
  proof (cases ok)
    case True
    with sp run dep inv pos(3) show ?thesis
      by (auto simp: CBB_flush_def thn_def cbb_rep_def same_frame_def)
  next
    case False
    have "ample al c (4 * length fs) \<Longrightarrow> ample al c (4 * length (drop d (bb_chain c)))"
      using cbb_rep_depth [OF rep] by (elim ample_mono) simp
    with False sp run dep inv show ?thesis by (auto simp: CBB_flush_def thn_def)
  qed
qed

section \<open>Operations of the abstract builder, and the simulation\<close>

type_synonym builder = "frame list \<times> bytes"

definition a_flush :: "nat \<Rightarrow> builder \<Rightarrow> builder option" where
  "a_flush d st = (case st of (fs, l) \<Rightarrow>
     if d \<le> length fs then map_option (\<lambda>b. (take d fs, b)) (close (drop d fs) l) else None)"

definition a_write :: "nat \<Rightarrow> bytes \<Rightarrow> builder \<Rightarrow> builder option" where
  "a_write d bs st = map_option (\<lambda>(fs, l). (fs, l @ bs)) (a_flush d st)"

definition a_open :: "nat \<Rightarrow> bytes \<Rightarrow> nat option \<Rightarrow> builder \<Rightarrow> builder option" where
  "a_open d hdr kind st = map_option (\<lambda>(fs, l). (fs @ [(l @ hdr, kind)], [])) (a_flush d st)"

text \<open>A successful concrete step has an abstract counterpart.\<close>

definition sim :: "cbb_result \<Rightarrow> builder option \<Rightarrow> bool" where
  "sim r st \<longleftrightarrow> (case r of (True, c) \<Rightarrow> \<exists>fs l. st = Some (fs, l) \<and> cbb_rep c fs l | (False, _) \<Rightarrow> True)"

lemma sim_thn:
  assumes "sim r st" and "\<And>c fs l. cbb_rep c fs l \<Longrightarrow> st = Some (fs, l) \<Longrightarrow> sim (f c) (g (fs, l))"
  shows "sim (thn r f) (Option.bind st g)"
  using assms by (cases r) (fastforce simp: sim_def thn_def split: bool.splits)

lemma sim_flush:
  assumes "cbb_rep c fs l"
  shows "sim (CBB_flush al d c) (a_flush d (fs, l))"
proof (cases "d \<le> length fs")
  case True
  from CBB_flush_spec [OF assms this, of al] True show ?thesis
    by (auto simp: sim_def a_flush_def split: bool.splits prod.splits)
next
  case False
  with cbb_rep_depth [OF assms] show ?thesis by (simp add: sim_def CBB_flush_def)
qed

lemma a_flush_same: "length fs = d \<Longrightarrow> a_flush d (fs, l) = Some (fs, l)"
  by (simp add: a_flush_def)

lemma a_flush_depth: "a_flush d st = Some (fs, l) \<Longrightarrow> length fs = d"
  by (auto simp: a_flush_def split: if_splits prod.splits)

lemma laid_out_append: "laid_out fs l s chs buf \<Longrightarrow> laid_out fs (l @ bs) s chs (buf @ bs)"
  by (induction fs l s chs buf rule: laid_out.induct) simp_all

lemma laid_out_snoc:
  "laid_out fs l s chs buf \<Longrightarrow> length z = ch_len_len ch \<Longrightarrow> (ch_asn1 ch \<longrightarrow> ch_len_len ch = 1) \<Longrightarrow>
   ch_offset ch = s + length buf \<Longrightarrow> laid_out (fs @ [(l, kind_of ch)]) [] s (chs @ [ch]) (buf @ z)"
proof (induction fs l s chs buf rule: laid_out.induct)
  case (2 p kind fs lst s ch' chs buf)
  then show ?case by simp
qed simp_all

lemma sim_add:
  assumes "cbb_rep c fs l" and "length bs < SIZE_LIMIT"
  shows "sim (cbb_buffer_add al bs c) (Some (fs, l @ bs))"
proof -
  have inv: "length (bb_buf c) \<le> bb_cap c" "bb_cap c < SIZE_LIMIT"
    using assms by (simp_all add: cbb_rep_def)
  from cbb_buffer_add_spec [OF inv assms(2), of al] assms(1) show ?thesis
    by (auto simp: sim_def cbb_rep_def same_frame_def laid_out_append split: bool.splits prod.splits)
qed

lemma sim_open:
  assumes "cbb_rep c fs l" and "cbb_rep c' fs (l @ z)" and "length z = ch_len_len ch"
    and "ch_asn1 ch \<longrightarrow> ch_len_len ch = 1" "ch_offset ch = length (bb_buf c)"
    and "bb_chain c' = bb_chain c" "bb_buf c' = bb_buf c @ z"
  shows "cbb_rep (c'\<lparr>bb_chain := bb_chain c' @ [ch]\<rparr>) (fs @ [(l, kind_of ch)]) []"
  using assms laid_out_snoc [of fs l 0 "bb_chain c" "bb_buf c" z ch] by (simp add: cbb_rep_def)

lemma sim_add_u:
  assumes rep: "cbb_rep c fs l" and n: "0 < n" "n < SIZE_LIMIT"
  shows "sim (cbb_buffer_add_u al v n c) (if unat v < 256 ^ n then Some (fs, l @ be_bytes n (unat v)) else None)"
proof -
  have inv: "length (bb_buf c) \<le> bb_cap c" "bb_cap c < SIZE_LIMIT"
    using rep by (simp_all add: cbb_rep_def)
  obtain ok c1 where run: "cbb_buffer_add al (replicate n 0) c = (ok, c1)" by (metis surj_pair)
  show ?thesis
  proof (cases ok)
    case True
    with cbb_buffer_add_spec [OF inv, of "replicate n 0" al] run n(2)
    have c1: "bb_buf c1 = bb_buf c @ replicate n 0" "same_frame c c1" by simp_all
    have "put_be n (unat v) (length (bb_buf c1) - n) (bb_buf c1) =
        (unat v div 256 ^ n, bb_buf c @ be_bytes n (unat v))" unfolding c1 by (simp add: put_be_val)
    moreover have "unat v div 256 ^ n = 0 \<longleftrightarrow> unat v < 256 ^ n" by (simp add: div_eq_0_iff)
    ultimately show ?thesis
      using run True n(1) rep c1
      by (auto simp: cbb_buffer_add_u_def thn_def sim_def cbb_rep_def same_frame_def laid_out_append)
  next
    case False
    with run n(1) show ?thesis by (simp add: cbb_buffer_add_u_def thn_def sim_def)
  qed
qed

lemma be_bytes_1: "be_bytes 1 (unat (b :: u8)) = [b]"
  by (simp add: be_bytes_def)

lemma sim_add_u8:
  assumes "cbb_rep c fs l" and "length fs = d"
  shows "sim (CBB_add_u8 al d v c) (Some (fs, l @ [v]))"
proof -
  have "sim (CBB_flush al d c) (Some (fs, l))" using sim_flush [OF assms(1), of al d] a_flush_same [OF assms(2)] by simp
  then have "sim (thn (CBB_flush al d c) (cbb_buffer_add_u al (ucast v) 1)) (Option.bind (Some (fs, l))
      (\<lambda>(fs, l). Some (fs, l @ [v])))"
    by (rule sim_thn) (use sim_add_u [of _ _ _ 1 al "ucast v"] be_bytes_1 [of v] in \<open>simp add: SIZE_LIMIT_def\<close>)
  then show ?thesis by (simp add: CBB_add_u8_def)
qed

lemma be_bytes_div: "be_bytes (Suc n) v = be_bytes n (v div 256) @ [word_of_nat v]"
  by (simp add: be_bytes_def)

lemma len7_ndig: "(if len7 v = 0 then 1 else len7 v) = ndig 128 (unat v)"
proof (induction v rule: len7.induct)
  case (1 v)
  have d: "unat (drop_bit 7 v) = unat v div 128" by (simp add: unat_drop_bit)
  show ?case
  proof (cases "drop_bit 7 v = 0")
    case True
    then have "unat v < 128" using d by (simp add: div_eq_0_iff)
    then show ?thesis using True by (simp add: len7.simps [of v] len7.simps [of 0] ndig.simps [of 128 "unat v"])
  next
    case False
    then have "v > 0" by (metis drop_bit_of_0 word_neq_0_conv)
    have "unat v div 128 \<noteq> 0" using False d by (metis unat_eq_0)
    then have "\<not> unat v < 128" by (simp add: div_eq_0_iff)
    then have n: "ndig 128 (unat v) = Suc (ndig 128 (unat v div 128))" by (simp add: ndig.simps [of 128 "unat v"])
    have "len7 (drop_bit 7 v) \<noteq> 0" using False by (subst len7.simps) (simp add: word_neq_0_conv)
    then show ?thesis using 1 [OF \<open>v > 0\<close>] \<open>v > 0\<close> n d by (simp add: len7.simps [of v])
  qed
qed

lemma base128_byte:
  "(if i \<noteq> 0 then ucast (drop_bit (7 * i) (v :: u64) AND 0x7f) OR 0x80 else ucast (drop_bit (7 * i) v AND 0x7f)) =
   (word_of_nat (unat v div 128 ^ i mod 128 + (if i = 0 then 0 else 128)) :: u8)"
proof -
  let ?d = "unat v div 128 ^ i mod 128"
  have "(drop_bit (7 * i) v AND 0x7f :: u64) = take_bit 7 (drop_bit (7 * i) v)"
    by (simp add: take_bit_eq_mask mask_eq_exp_minus_1)
  then have "unat (drop_bit (7 * i) v AND 0x7f :: u64) = unat v div 2 ^ (7 * i) mod 128"
    by (simp add: take_bit_eq_mod unat_mod unat_drop_bit)
  also have "(2 :: nat) ^ (7 * i) = 128 ^ i" unfolding power_mult by simp
  finally have u: "unat (ucast (drop_bit (7 * i) v AND 0x7f) :: u8) = ?d" by simp
  have lt: "?d < 128" by simp
  have "unat (push_bit 7 (1 :: u8) OR ucast (drop_bit (7 * i) v AND 0x7f)) = 128 + ?d"
    using unat_or_push [of "ucast (drop_bit (7 * i) v AND 0x7f) :: u8" 7 1 1] unfolding u by simp
  then have or: "unat (ucast (drop_bit (7 * i) v AND 0x7f) OR 0x80 :: u8) = ?d + 128"
    by (simp add: or.commute add.commute)
  have w: "unat (word_of_nat (?d + (if i = 0 then 0 else 128)) :: u8) = ?d + (if i = 0 then 0 else 128)"
  proof -
    have "(if i = 0 then 0 else 128) \<le> (128 :: nat)" by simp
    with lt have "?d + (if i = 0 then 0 else 128) < 256" by linarith
    then show ?thesis by (intro trans [OF unat_u8_of_nat] mod_less)
  qed
  show ?thesis
    by (rule word_unat_eq_iff [THEN iffD2], unfold w) (use u or in auto)
qed

lemma sim_base128_loop:
  assumes "cbb_rep c fs l" and "length fs = d"
  shows "sim (add_base128_loop al d v i c) (Some (fs, l @ b128_suffix (unat v) i))"
  using assms(1)
proof (induction i arbitrary: c l)
  case (Suc i)
  let ?b = "word_of_nat (unat v div 128 ^ i mod 128 + (if i = 0 then 0 else 128)) :: u8"
  have "sim (thn (CBB_add_u8 al d ?b c) (add_base128_loop al d v i))
      (Option.bind (Some (fs, l @ [?b])) (\<lambda>(fs', l'). Some (fs', l' @ b128_suffix (unat v) i)))"
    by (rule sim_thn [OF sim_add_u8 [OF Suc.prems assms(2)]]) (use Suc.IH in simp)
  then show ?case
    by (simp only: add_base128_loop.simps Let_def base128_byte b128_suffix.simps Option.bind.bind_lunit
        prod.case append.simps append_assoc)
qed (simp add: sim_def)

lemma sim_base128:
  "cbb_rep c fs l \<Longrightarrow> length fs = d \<Longrightarrow> sim (add_base128_integer al d v c) (Some (fs, l @ b128 (unat v)))"
  using sim_base128_loop [of c fs l d al v "ndig 128 (unat v)"]
  by (simp add: add_base128_integer_def b128_def Let_def len7_ndig)

lemma unat_ucast_u32_u64 [simp]: "unat (ucast (w :: u32) :: u64) = unat w"
proof -
  have "unat w < 4294967296" using unsigned_less [of w] by simp
  then have "unat w < 18446744073709551616" by linarith
  then show ?thesis by (simp add: unsigned_ucast_eq take_bit_nat_eq_self)
qed

lemma flush_here:
  assumes "cbb_rep c fs l" and "length fs = d"
  shows "CBB_flush al d c = (True, c)"
  using assms cbb_rep_depth [OF assms(1)] by (simp add: CBB_flush_def thn_def cbb_rep_def)

lemma sim_child:
  assumes rep: "cbb_rep c fs l" and k: "k < SIZE_LIMIT"
    and asn1: "asn1 \<longrightarrow> k = 1" and kind: "kind = (if asn1 then None else Some k)"
  shows "sim (thn (cbb_buffer_add al (replicate k 0) c) (\<lambda>c'. (True, c'\<lparr>bb_chain := bb_chain c' @
      [\<lparr>ch_offset = length (bb_buf c), ch_len_len = k, ch_asn1 = asn1\<rparr>]\<rparr>))) (Some (fs @ [(l, kind)], []))"
proof -
  obtain ok c1 where run: "cbb_buffer_add al (replicate k 0) c = (ok, c1)" by (metis surj_pair)
  let ?ch = "\<lparr>ch_offset = length (bb_buf c), ch_len_len = k, ch_asn1 = asn1\<rparr>"
  show ?thesis
  proof (cases ok)
    case True
    have inv: "length (bb_buf c) \<le> bb_cap c" "bb_cap c < SIZE_LIMIT" using rep by (simp_all add: cbb_rep_def)
    with cbb_buffer_add_spec [OF inv, of "replicate k 0" al] run True k
    have c1: "bb_buf c1 = bb_buf c @ replicate k 0" "same_frame c c1" by simp_all
    have "cbb_rep c1 fs (l @ replicate k 0)"
      using sim_add [OF rep, of "replicate k 0" al] run True k by (simp add: sim_def)
    from sim_open [OF rep this, of ?ch] c1 asn1 have "cbb_rep (c1\<lparr>bb_chain := bb_chain c1 @ [?ch]\<rparr>)
        (fs @ [(l, kind_of ?ch)]) []" by (simp add: same_frame_def)
    with run True kind show ?thesis by (cases asn1) (simp_all add: thn_def sim_def kind_of_def)
  qed (simp add: run thn_def sim_def)
qed

lemma put_zero: "length buf = Suc n \<Longrightarrow> put_be 1 0 n buf = (0, take n buf @ [0])"
  using put_be_val [of n 1 buf 0] by (simp add: be_bytes_def del: put_be.simps)

lemma add_u8_zero:
  assumes "cbb_rep c fs l" and "length fs = d"
  shows "CBB_add_u8 al d 0 c = cbb_buffer_add al (replicate 1 0) c"
proof -
  obtain ok c1 where run: "cbb_buffer_add al (replicate 1 0) c = (ok, c1)" by (metis surj_pair)
  have inv: "length (bb_buf c) \<le> bb_cap c" "bb_cap c < SIZE_LIMIT" using assms(1) by (simp_all add: cbb_rep_def)
  show ?thesis
  proof (cases ok)
    case True
    with cbb_buffer_add_spec [OF inv, of "replicate 1 0" al] run
    have c1: "bb_buf c1 = bb_buf c @ [0]" by (simp add: SIZE_LIMIT_def)
    with run True put_zero [of "bb_buf c1" "length (bb_buf c)"] show ?thesis
      by (simp add: CBB_add_u8_def flush_here [OF assms] thn_def cbb_buffer_add_u_def)
  next
    case False
    with run show ?thesis by (simp add: CBB_add_u8_def flush_here [OF assms] thn_def cbb_buffer_add_u_def)
  qed
qed

lemma sim_tag:
  fixes tag :: u32
  assumes rep: "cbb_rep c fs l" and len: "length fs = d"
  defines "bits \<equiv> ucast (drop_bit CBS_ASN1_TAG_SHIFT tag) AND 0xe0 :: u8"
    and "n \<equiv> tag AND CBS_ASN1_TAG_NUMBER_MASK"
  shows "sim (if n \<ge> 0x1f then thn (CBB_add_u8 al d (bits OR 0x1f) c) (add_base128_integer al d (ucast n))
      else CBB_add_u8 al d (bits OR ucast n) c) (Some (fs, l @ der_tag tag))"
proof (cases "n \<ge> 0x1f")
  case True
  have "sim (thn (CBB_add_u8 al d (bits OR 0x1f) c) (add_base128_integer al d (ucast n)))
      (Option.bind (Some (fs, l @ [bits OR 0x1f])) (\<lambda>(f, m). Some (f, m @ b128 (unat n))))"
    by (rule sim_thn [OF sim_add_u8 [OF rep len]]) (use sim_base128 [of _ _ _ d al "ucast n"] len in simp)
  moreover have "\<not> n < 0x1f" using True by (rule leD)
  ultimately show ?thesis
    using True by (simp add: der_tag_def Let_def CBS_ASN1_TAG_SHIFT_def bits_def n_def)
next
  case False
  moreover from False have "n < 0x1f" by simp
  ultimately show ?thesis
    using sim_add_u8 [OF rep len, of al "bits OR ucast n"] unfolding if_not_P [OF False]
    by (simp add: der_tag_def Let_def CBS_ASN1_TAG_SHIFT_def bits_def n_def)
qed

lemma sim_asn1:
  assumes "cbb_rep c fs l"
  shows "sim (CBB_add_asn1 al d tag c) (a_open d (der_tag tag) None (fs, l))"
proof -
  have opn: "sim (let offset = length (bb_buf c') in thn (CBB_add_u8 al d 0 c') (\<lambda>c.
        (True, c\<lparr>bb_chain := bb_chain c @ [\<lparr>ch_offset = offset, ch_len_len = 1, ch_asn1 = True\<rparr>]\<rparr>)))
      (Some (fs' @ [(l', None)], []))"
    if rep: "cbb_rep c' fs' l'" and len: "length fs' = d" for c' fs' l'
    unfolding Let_def add_u8_zero [OF rep len] by (rule sim_child [OF rep]) (simp_all add: SIZE_LIMIT_def)
  have "sim (CBB_add_asn1 al d tag c) (Option.bind (a_flush d (fs, l))
      (\<lambda>(f, m). Option.bind (Some (f, m @ der_tag tag)) (\<lambda>(f, m). Some (f @ [(m, None)], []))))"
    unfolding CBB_add_asn1_def Let_def
    by (rule sim_thn [OF sim_flush [OF assms]], unfold prod.case, rule sim_thn [OF sim_tag], assumption,
        erule a_flush_depth, use opn a_flush_depth in \<open>fastforce simp: Let_def\<close>)
  also have "Option.bind (a_flush d (fs, l))
      (\<lambda>(f, m). Option.bind (Some (f, m @ der_tag tag)) (\<lambda>(f, m). Some (f @ [(m, None)], []))) =
      a_open d (der_tag tag) None (fs, l)"
    by (cases "a_flush d (fs, l)") (auto simp: a_open_def)
  finally show ?thesis .
qed

lemma sim_bytes:
  assumes "cbb_rep c fs l" and "length bs < SIZE_LIMIT"
  shows "sim (CBB_add_bytes al d bs c) (a_write d bs (fs, l))"
proof -
  have "sim (CBB_add_bytes al d bs c) (Option.bind (a_flush d (fs, l)) (\<lambda>(f, m). Some (f, m @ bs)))"
    unfolding CBB_add_bytes_def
    by (rule sim_thn [OF sim_flush [OF assms(1)]]) (use sim_add assms(2) in auto)
  also have "Option.bind (a_flush d (fs, l)) (\<lambda>(f, m). Some (f, m @ bs)) = a_write d bs (fs, l)"
    by (cases "a_flush d (fs, l)") (auto simp: a_write_def)
  finally show ?thesis .
qed

lemma sim_length_prefixed:
  assumes "cbb_rep c fs l" and "k < SIZE_LIMIT"
  shows "sim (cbb_add_length_prefixed al k d c) (a_open d [] (Some k) (fs, l))"
proof -
  have "sim (cbb_add_length_prefixed al k d c) (Option.bind (a_flush d (fs, l)) (\<lambda>(f, m). Some (f @ [(m, Some k)], [])))"
    unfolding cbb_add_length_prefixed_def Let_def
    by (rule sim_thn [OF sim_flush [OF assms(1)]]) (use sim_child [of _ _ _ k False "Some k" al] assms(2) in simp)
  also have "Option.bind (a_flush d (fs, l)) (\<lambda>(f, m). Some (f @ [(m, Some k)], [])) = a_open d [] (Some k) (fs, l)"
    by (cases "a_flush d (fs, l)") (auto simp: a_open_def)
  finally show ?thesis .
qed

text \<open>The contents of an integer: the leading zero bytes are skipped.\<close>

definition trimmed :: "bytes \<Rightarrow> bytes" where
  "trimmed bs = (let ds = dropWhile (\<lambda>b. b = 0) bs
     in if ds \<noteq> [] \<and> hd ds AND 0x80 \<noteq> 0 then 0 # ds else ds)"

lemma sim_uint64_started:
  assumes "cbb_rep c fs l" and "length fs = d"
  shows "fst (uint64_bytes_loop al d True bs c) = True \<and>
    sim (snd (uint64_bytes_loop al d True bs c)) (Some (fs, l @ bs))"
  using assms(1)
proof (induction bs arbitrary: c l)
  case (Cons b bs)
  obtain ok c1 where run: "CBB_add_u8 al d b c = (ok, c1)" by (metis surj_pair)
  show ?case
  proof (cases ok)
    case True
    with sim_add_u8 [OF Cons.prems assms(2), of al b] run have "cbb_rep c1 fs (l @ [b])" by (simp add: sim_def)
    from Cons.IH [OF this] run True show ?thesis by simp
  qed (simp add: run sim_def)
qed (simp add: sim_def)

lemma sim_uint64_bytes:
  assumes "cbb_rep c fs l" and "length fs = d"
  shows "sim (snd (uint64_bytes_loop al d False bs c)) (Some (fs, l @ trimmed bs)) \<and>
    (fst (snd (uint64_bytes_loop al d False bs c)) \<longrightarrow>
       (fst (uint64_bytes_loop al d False bs c) \<longleftrightarrow> trimmed bs \<noteq> []))"
  using assms(1)
proof (induction bs arbitrary: c l)
  case Nil
  then show ?case by (simp add: sim_def trimmed_def)
next
  case (Cons b bs)
  show ?case
  proof (cases "b = 0")
    case True
    with Cons show ?thesis by (simp add: trimmed_def)
  next
    case False
    let ?pad = "if b AND 0x80 \<noteq> 0 then [0] else []"
    let ?r = "if b AND 0x80 \<noteq> 0 then CBB_add_u8 al d 0 c else (True, c)"
    have tr: "trimmed (b # bs) = ?pad @ b # bs" using False by (simp add: trimmed_def Let_def)
    have pad: "sim ?r (Some (fs, l @ ?pad))"
      using sim_add_u8 [OF Cons.prems assms(2)] Cons.prems by (simp add: sim_def)
    obtain ok c1 where r: "?r = (ok, c1)" by (metis surj_pair)
    obtain ok2 c2 where r2: "CBB_add_u8 al d b c1 = (ok2, c2)" by (metis surj_pair)
    have unf: "uint64_bytes_loop al d False (b # bs) c =
      (case (ok, c1) of (False, c) \<Rightarrow> (False, (False, c))
       | (True, c) \<Rightarrow> (case CBB_add_u8 al d b c of (False, c) \<Rightarrow> (True, (False, c))
           | (True, c) \<Rightarrow> uint64_bytes_loop al d True bs c))"
      using False unfolding r [symmetric] by simp
    show ?thesis
    proof (cases "ok \<and> ok2")
      case True
      with pad r have rep1: "cbb_rep c1 fs (l @ ?pad)" by (simp add: sim_def)
      with sim_add_u8 [OF rep1 assms(2), of al b] r2 True
      have "cbb_rep c2 fs ((l @ ?pad) @ [b])" by (simp add: sim_def)
      from sim_uint64_started [OF this assms(2), of al bs] True r2
      show ?thesis unfolding unf tr by simp
    next
      case False
      then show ?thesis unfolding unf by (cases ok) (simp_all add: r2 sim_def tr)
    qed
  qed
qed

lemma dropWhile_be_bytes:
  assumes "n < 256 ^ k" and "0 < n"
  shows "dropWhile (\<lambda>b. b = 0) (be_bytes k n) = be_bytes (ndig 256 n) n"
  using assms(1)
proof (induction k)
  case (Suc k)
  note split = be_bytes_Cons [of k n]
  show ?case
  proof (cases "n < 256 ^ k")
    case True
    then show ?thesis using Suc.IH split by simp
  next
    case False
    then have k: "ndig 256 n = Suc k" using Suc.prems by (intro ndig_eqI) simp_all
    have "n div 256 ^ k < 256" using Suc.prems by (simp add: less_mult_imp_div_less)
    moreover have "n div 256 ^ k \<noteq> 0" using False by (simp add: div_eq_0_iff)
    ultimately have "(word_of_nat (n div 256 ^ k) :: u8) \<noteq> 0"
      by (metis mod_less unat_0 unat_u8_of_nat)
    then show ?thesis unfolding k split by simp
  qed
qed (use assms(2) in simp)

lemma u64_byte: "(ucast (drop_bit (8 * j) (v :: u64) AND 0xff) :: u8) = word_of_nat (unat v div 256 ^ j)"
proof -
  have "(drop_bit (8 * j) v AND 0xff :: u64) = take_bit 8 (drop_bit (8 * j) v)"
    by (simp add: take_bit_eq_mask mask_eq_exp_minus_1)
  then have "unat (drop_bit (8 * j) v AND 0xff :: u64) = unat v div 2 ^ (8 * j) mod 256"
    by (simp add: take_bit_eq_mod unat_mod unat_drop_bit)
  also have "(2 :: nat) ^ (8 * j) = 256 ^ j" unfolding power_mult by simp
  finally have "unat (ucast (drop_bit (8 * j) v AND 0xff) :: u8) = unat v div 256 ^ j mod 256" by simp
  then show ?thesis by (intro word_unat_eq_iff [THEN iffD2]) (simp add: unat_u8_of_nat)
qed

lemma u64_bytes:
  "map (\<lambda>i. ucast (drop_bit (8 * (7 - i)) (v :: u64) AND 0xff)) [0..<8] = be_bytes 8 (unat v)"
  unfolding u64_byte be_bytes_map by (rule map_cong [OF refl]) simp

lemma trimmed_u64:
  "trimmed (be_bytes 8 (unat (v :: u64))) = (if v = 0 then [] else uint_bytes (unat v))"
proof (cases "v = 0")
  case True
  have "dropWhile (\<lambda>b. b = 0) (be_bytes 8 0) = []" by (simp add: be_bytes_zero)
  with True show ?thesis by (simp add: trimmed_def)
next
  case False
  then have n: "0 < unat v" by (simp add: unat_gt_0)
  have "unat v < 256 ^ 8" using unsigned_less [of v] by simp
  then have "dropWhile (\<lambda>b. b = 0) (be_bytes 8 (unat v)) = be_bytes (ndig 256 (unat v)) (unat v)"
    by (rule dropWhile_be_bytes [OF _ n])
  moreover note be_bytes_ndig_ne [of "unat v"]
  ultimately show ?thesis using False by (simp add: trimmed_def uint_bytes_def Let_def)
qed

text \<open>An element whose contents are written by \<open>f\<close> at the next depth.\<close>

lemma sim_element:
  assumes rep: "cbb_rep c fs l"
    and body: "\<And>c' fs'. cbb_rep c' fs' [] \<Longrightarrow> length fs' = d + 1 \<Longrightarrow> sim (f c') (Some (fs', bs))"
    and small: "length bs \<le> 0xfffffffe"
  shows "sim (thn (CBB_add_asn1 al d tag c) (\<lambda>c. thn (f c) (CBB_flush al d))) (a_write d (der tag bs) (fs, l))"
proof -
  have fl: "a_flush d (f' @ [(m, None)], bs) = Some (f', m @ der_len (length bs) @ bs)" if "length f' = d" for f' m
    using that small by (simp add: a_flush_def len_prefix_def)
  have "sim (thn (CBB_add_asn1 al d tag c) (\<lambda>c. thn (f c) (CBB_flush al d)))
      (Option.bind (a_open d (der_tag tag) None (fs, l)) (\<lambda>(f', _). Option.bind (Some (f', bs)) (a_flush d)))"
  proof (rule sim_thn [OF sim_asn1 [OF rep]])
    fix c' fs' l'
    assume r: "cbb_rep c' fs' l'" and o: "a_open d (der_tag tag) None (fs, l) = Some (fs', l')"
    then have "l' = []" "length fs' = d + 1" by (auto simp: a_open_def dest: a_flush_depth)
    with r have "sim (f c') (Some (fs', bs))" using body by simp
    then show "sim (thn (f c') (CBB_flush al d)) (case (fs', l') of (f', _) \<Rightarrow> Option.bind (Some (f', bs)) (a_flush d))"
      unfolding prod.case by (rule sim_thn) (use sim_flush in simp)
  qed
  also have "Option.bind (a_open d (der_tag tag) None (fs, l)) (\<lambda>(f', _). Option.bind (Some (f', bs)) (a_flush d)) =
      a_write d (der tag bs) (fs, l)"
    using fl a_flush_depth by (cases "a_flush d (fs, l)") (auto simp: a_open_def a_write_def der_def)
  finally show ?thesis .
qed

lemma sim_uint64:
  assumes "cbb_rep c fs l"
  shows "sim (CBB_add_asn1_uint64 al d v c) (a_write d (der CBS_ASN1_INTEGER (uint_bytes (unat v))) (fs, l))"
proof -
  let ?bs = "be_bytes 8 (unat v)"
  let ?f = "\<lambda>c. case uint64_bytes_loop al (d + 1) False ?bs c of
      (started, r) \<Rightarrow> thn r (\<lambda>c. if started then (True, c) else CBB_add_u8 al (d + 1) 0 c)"
  note ne = uint_bytes_ne [of "unat v"]
  have u0: "uint_bytes 0 = [0]" by (simp add: uint_bytes_def ndig.simps be_bytes_def Let_def)
  have body: "sim (?f c') (Some (fs', uint_bytes (unat v)))"
    if rep: "cbb_rep c' fs' []" and len: "length fs' = d + 1" for c' fs'
  proof -
    obtain started r where run: "uint64_bytes_loop al (d + 1) False ?bs c' = (started, r)" by (metis surj_pair)
    obtain ok c1 where r: "r = (ok, c1)" by (metis surj_pair)
    note sp = sim_uint64_bytes [OF rep len, of al ?bs, unfolded run r trimmed_u64]
    show ?thesis
    proof (cases ok)
      case True
      with sp have rep1: "cbb_rep c1 fs' (if v = 0 then [] else uint_bytes (unat v))"
        and st: "started \<longleftrightarrow> \<not> (v = 0)"
        using ne by (auto simp: sim_def split: if_splits)
      show ?thesis
        using True rep1 st sim_add_u8 [OF _ len, of c1 "[]" al 0] run r u0
        by (cases "v = 0") (simp_all add: thn_def sim_def)
    qed (use run r in \<open>simp add: thn_def sim_def\<close>)
  qed
  have assoc: "thn (thn r f) g = thn r (\<lambda>c. thn (f c) g)" for r f g
    by (cases r) (simp add: thn_def split: bool.split)
  have "unat v < 2 ^ 64" using unsigned_less [of v] by simp
  then have "length (uint_bytes (unat v)) \<le> 0xfffffffe" using length_uint_bytes [of "unat v"] by simp
  from sim_element [OF assms body this] show ?thesis
    by (simp add: CBB_add_asn1_uint64_def u64_bytes assoc split_def)
qed

lemma sim_octet_string:
  assumes "cbb_rep c fs l" and "length bs \<le> 0xfffffffe"
  shows "sim (CBB_add_asn1_octet_string al d bs c) (a_write d (der CBS_ASN1_OCTETSTRING bs) (fs, l))"
proof -
  have "length bs < SIZE_LIMIT" using assms(2) by (simp add: SIZE_LIMIT_def)
  then have body: "sim (CBB_add_bytes al (d + 1) bs c') (Some (fs', bs))" if "cbb_rep c' fs' []" "length fs' = d + 1" for c' fs'
    using sim_bytes [OF that(1), of bs al "d + 1"] a_flush_same [OF that(2), of "[]"] by (simp add: a_write_def)
  from sim_element [OF assms(1) body assms(2)] show ?thesis by (simp add: CBB_add_asn1_octet_string_def)
qed

lemma sim_bool:
  assumes "cbb_rep c fs l"
  shows "sim (CBB_add_asn1_bool al d v c) (a_write d (der CBS_ASN1_BOOLEAN [if v then 0xff else 0]) (fs, l))"
proof -
  have body: "sim (CBB_add_u8 al (d + 1) (if v then 0xff else 0) c') (Some (fs', [if v then 0xff else 0]))"
    if "cbb_rep c' fs' []" "length fs' = d + 1" for c' fs'
    using sim_add_u8 [OF that, of al "if v then 0xff else 0"] by simp
  from sim_element [OF assms body] show ?thesis by (simp add: CBB_add_asn1_bool_def)
qed

section \<open>Sequences of operations\<close>

datatype cbb_op =
  Op_flush nat
| Op_u8 nat u8
| Op_u16 nat u16
| Op_u24 nat u32
| Op_u32 nat u32
| Op_bytes nat bytes
| Op_prefixed nat nat
| Op_asn1 nat u32
| Op_uint64 nat u64
| Op_octets nat bytes
| Op_bool nat bool

fun run_op :: "(nat \<Rightarrow> bool) \<Rightarrow> cbb_op \<Rightarrow> cbb \<Rightarrow> cbb_result" where
  "run_op al (Op_flush d) = CBB_flush al d"
| "run_op al (Op_u8 d v) = CBB_add_u8 al d v"
| "run_op al (Op_u16 d v) = CBB_add_u16 al d v"
| "run_op al (Op_u24 d v) = CBB_add_u24 al d v"
| "run_op al (Op_u32 d v) = CBB_add_u32 al d v"
| "run_op al (Op_bytes d bs) = CBB_add_bytes al d bs"
| "run_op al (Op_prefixed d k) = cbb_add_length_prefixed al k d"
| "run_op al (Op_asn1 d tag) = CBB_add_asn1 al d tag"
| "run_op al (Op_uint64 d v) = CBB_add_asn1_uint64 al d v"
| "run_op al (Op_octets d bs) = CBB_add_asn1_octet_string al d bs"
| "run_op al (Op_bool d v) = CBB_add_asn1_bool al d v"

text \<open>What each operation means: raw bytes and elements are appended, prefixes are opened.\<close>

fun spec_op :: "cbb_op \<Rightarrow> builder \<Rightarrow> builder option" where
  "spec_op (Op_flush d) = a_flush d"
| "spec_op (Op_u8 d v) = a_write d [v]"
| "spec_op (Op_u16 d v) = a_write d (be_bytes 2 (unat v))"
| "spec_op (Op_u24 d v) = (if unat v < 2 ^ 24 then a_write d (be_bytes 3 (unat v)) else (\<lambda>_. None))"
| "spec_op (Op_u32 d v) = a_write d (be_bytes 4 (unat v))"
| "spec_op (Op_bytes d bs) = a_write d bs"
| "spec_op (Op_prefixed d k) = a_open d [] (Some k)"
| "spec_op (Op_asn1 d tag) = a_open d (der_tag tag) None"
| "spec_op (Op_uint64 d v) = a_write d (der CBS_ASN1_INTEGER (uint_bytes (unat v)))"
| "spec_op (Op_octets d bs) = a_write d (der CBS_ASN1_OCTETSTRING bs)"
| "spec_op (Op_bool d v) = a_write d (der CBS_ASN1_BOOLEAN [if v then 0xff else 0])"

fun op_ok :: "cbb_op \<Rightarrow> bool" where
  "op_ok (Op_bytes d bs) \<longleftrightarrow> length bs < SIZE_LIMIT"
| "op_ok (Op_prefixed d k) \<longleftrightarrow> k \<in> {1, 2, 3}"
| "op_ok (Op_octets d bs) \<longleftrightarrow> length bs \<le> 0xfffffffe"
| "op_ok _ \<longleftrightarrow> True"

fun run_ops :: "(nat \<Rightarrow> bool) \<Rightarrow> cbb_op list \<Rightarrow> cbb \<Rightarrow> cbb_result" where
  "run_ops al [] c = (True, c)"
| "run_ops al (x # xs) c = thn (run_op al x c) (run_ops al xs)"

fun spec_ops :: "cbb_op list \<Rightarrow> builder \<Rightarrow> builder option" where
  "spec_ops [] st = Some st"
| "spec_ops (x # xs) st = Option.bind (spec_op x st) (spec_ops xs)"

lemma sim_u:
  assumes rep: "cbb_rep c fs l" and n: "0 < n" "n < SIZE_LIMIT"
  shows "sim (thn (CBB_flush al d c) (cbb_buffer_add_u al v n))
    (if unat v < 256 ^ n then a_write d (be_bytes n (unat v)) (fs, l) else None)"
proof -
  have "sim (thn (CBB_flush al d c) (cbb_buffer_add_u al v n)) (Option.bind (a_flush d (fs, l))
      (\<lambda>(f, m). if unat v < 256 ^ n then Some (f, m @ be_bytes n (unat v)) else None))"
    by (rule sim_thn [OF sim_flush [OF rep]]) (use sim_add_u n in auto)
  also have "Option.bind (a_flush d (fs, l)) (\<lambda>(f, m). if unat v < 256 ^ n then Some (f, m @ be_bytes n (unat v)) else None) =
      (if unat v < 256 ^ n then a_write d (be_bytes n (unat v)) (fs, l) else None)"
    by (cases "a_flush d (fs, l)") (auto simp: a_write_def)
  finally show ?thesis .
qed

lemma sim_op:
  assumes rep: "cbb_rep c fs l" and "op_ok x"
  shows "sim (run_op al x c) (spec_op x (fs, l))"
proof -
  have lim: "0 < n \<Longrightarrow> n \<le> 4 \<Longrightarrow> n < SIZE_LIMIT" for n by (simp add: SIZE_LIMIT_def)
  have u16: "unat (ucast (w :: u16) :: u32) = unat w" "unat (ucast (w :: u16) :: u32) < 256 ^ 2" for w
  proof -
    have "unat w < 65536" using unsigned_less [of w] by simp
    moreover from this have "unat w < 4294967296" by linarith
    then show "unat (ucast w :: u32) = unat w" by (simp add: unsigned_ucast_eq take_bit_nat_eq_self)
    ultimately show "unat (ucast w :: u32) < 256 ^ 2" by simp
  qed
  have u32: "unat (w :: u32) < 256 ^ 4" for w using unsigned_less [of w] by simp
  have u8: "unat (ucast (w :: u8) :: u32) < 256 ^ 1" for w by simp
  show ?thesis
  proof (cases x)
    case (Op_u8 d w)
    with sim_u [OF rep _ lim, of 1 al d "ucast w"] u8 [of w] be_bytes_1 [of w] show ?thesis
      by (simp add: CBB_add_u8_def)
  next
    case (Op_u16 d w)
    with sim_u [OF rep _ lim, of 2 al d "ucast w"] u16 [of w] show ?thesis by (simp add: CBB_add_u16_def)
  next
    case (Op_u24 d w)
    with sim_u [OF rep _ lim, of 3 al d w] show ?thesis by (simp add: CBB_add_u24_def split: if_splits)
  next
    case (Op_u32 d w)
    with sim_u [OF rep _ lim, of 4 al d w] u32 [of w] show ?thesis by (simp add: CBB_add_u32_def)
  qed (use assms sim_flush sim_bytes sim_asn1 sim_uint64 sim_octet_string sim_bool sim_length_prefixed lim in auto)
qed

lemma sim_ops:
  "cbb_rep c fs l \<Longrightarrow> \<forall>x\<in>set xs. op_ok x \<Longrightarrow> sim (run_ops al xs c) (spec_ops xs (fs, l))"
proof (induction xs arbitrary: c fs l)
  case (Cons x xs)
  show ?case unfolding run_ops.simps spec_ops.simps
    by (rule sim_thn [OF sim_op [OF Cons.prems(1)]]) (use Cons in auto)
qed (simp add: sim_def)

lemma cbb_init_rep: "cbb_init ok cap resize = Some c \<Longrightarrow> cap < SIZE_LIMIT \<Longrightarrow> cbb_rep c [] []"
  by (auto simp: cbb_init_def cbb_rep_def split: if_splits)

lemma CBB_finish_spec:
  assumes "cbb_rep c fs l" and "CBB_finish al 0 out_null c = Some out"
  shows "close fs l = Some out"
proof -
  from CBB_flush_spec [OF assms(1), of 0 al] assms(2) show ?thesis
    by (auto simp: CBB_finish_def cbb_rep_def split: bool.splits prod.splits if_splits elim: laid_out.elims)
qed

section \<open>Properties\<close>

text \<open>C2. The builder refines its specification: after any sequence of successful operations on
  \<open>CBB\<close>s at any depths, from a growing or a fixed buffer and with any pattern of
  reallocations, \<open>CBB_finish\<close> hands out the nested encoding in which every element and every
  length-prefixed block carries the exact length of its contents.\<close>

theorem CBB_refines_builder:
  assumes "cbb_init ok cap resize = Some c0" and "cap < SIZE_LIMIT" and "\<forall>x\<in>set xs. op_ok x"
    and "run_ops al xs c0 = (True, c)" and "CBB_finish al 0 out_null c = Some out"
  shows "Option.bind (spec_ops xs ([], [])) (\<lambda>(fs, l). close fs l) = Some out"
proof -
  have "sim (run_ops al xs c0) (spec_ops xs ([], []))"
    by (rule sim_ops [OF cbb_init_rep [OF assms(1,2)] assms(3)])
  then obtain fs l where "spec_ops xs ([], []) = Some (fs, l)" "cbb_rep c fs l"
    using assms(4) by (auto simp: sim_def)
  with CBB_finish_spec [OF this(2) assms(5)] show ?thesis by simp
qed

text \<open>A SEQUENCE with an INTEGER and a length-prefixed block, built in a buffer of one byte.\<close>

theorem CBB_refines_builder_witness:
  "\<exists>c0 c. CBB_init True True 1 = Some c0 \<and>
     run_ops (\<lambda>_. True) [Op_asn1 0 0x20000010, Op_uint64 1 5, Op_prefixed 1 2, Op_u8 2 7] c0 = (True, c) \<and>
     CBB_finish (\<lambda>_. True) 0 False c = Some [0x30, 6, 2, 1, 5, 0, 1, 7] \<and>
     Option.bind (spec_ops [Op_asn1 0 0x20000010, Op_uint64 1 5, Op_prefixed 1 2, Op_u8 2 7] ([], []))
       (\<lambda>(fs, l). close fs l) = Some [0x30, 6, 2, 1, 5, 0, 1, 7]"
proof -
  let ?xs = "[Op_asn1 0 0x20000010, Op_uint64 1 5, Op_prefixed 1 2, Op_u8 2 7]"
  define c0 where "c0 = the (CBB_init True True 1)"
  define c where "c = snd (run_ops (\<lambda>_. True) ?xs c0)"
  have init: "CBB_init True True 1 = Some c0" "cbb_init True 1 True = Some c0"
    by (simp_all add: c0_def CBB_init_def cbb_init_def)
  have "fst (run_ops (\<lambda>_. True) ?xs c0)" unfolding c0_def by code_simp
  then have run: "run_ops (\<lambda>_. True) ?xs c0 = (True, c)" by (simp add: c_def prod_eq_iff)
  have fin: "CBB_finish (\<lambda>_. True) 0 False c = Some [0x30, 6, 2, 1, 5, 0, 1, 7]"
    unfolding c_def c0_def by code_simp
  have ok: "\<forall>x\<in>set ?xs. op_ok x" by simp
  have "1 < SIZE_LIMIT" by (simp add: SIZE_LIMIT_def)
  from CBB_refines_builder [OF init(2) this ok run fin] init(1) run fin show ?thesis by blast
qed



text \<open>C3. Round trip between builder and parser: what \<open>CBB_add_asn1_uint64\<close> writes into a fresh
  \<open>CBB\<close>, \<open>CBS_get_asn1_uint64\<close> reads back, for every 64-bit value and with nothing left over.\<close>

theorem CBB_CBS_uint64_roundtrip:
  assumes "cbb_init ok cap resize = Some c0" and "cap < SIZE_LIMIT"
    and "CBB_add_asn1_uint64 al 0 v c0 = (True, c)" and "CBB_finish al 0 out_null c = Some out"
  shows "CBS_get_asn1_uint64 out = (Some v, [])"
proof -
  have "sim (CBB_add_asn1_uint64 al 0 v c0) (a_write 0 (der CBS_ASN1_INTEGER (uint_bytes (unat v))) ([], []))"
    by (rule sim_uint64 [OF cbb_init_rep [OF assms(1,2)]])
  then have rep: "cbb_rep c [] (der CBS_ASN1_INTEGER (uint_bytes (unat v)))"
    using assms(3) by (simp add: sim_def a_write_def a_flush_def)
  from CBB_finish_spec [OF this assms(4)] have out: "out = der CBS_ASN1_INTEGER (uint_bytes (unat v))" by simp
  have "unat v < 2 ^ 64" using unsigned_less [of v] by simp
  then have len: "length (uint_bytes (unat v)) < 2 ^ 32" using length_uint_bytes [of "unat v"] by simp
  have "length out < SIZE_LIMIT" using rep unfolding out by (auto simp: cbb_rep_def elim: laid_out.elims)
  from get_asn1_iff [OF this, of CBS_ASN1_INTEGER "uint_bytes (unat v)" "[]"] len out
  have "CBS_get_asn1 CBS_ASN1_INTEGER out = (Some (uint_bytes (unat v)), [])" by simp
  then show ?thesis
    by (simp add: CBS_get_asn1_uint64_def bnd_def ret_def uint64_contents_complete)
qed

text \<open>The value 128 in a fixed buffer of exactly its four bytes.\<close>

theorem CBB_CBS_uint64_roundtrip_witness:
  "\<exists>c0 c. CBB_init_fixed True 4 = Some c0 \<and> CBB_add_asn1_uint64 (\<lambda>_. False) 0 128 c0 = (True, c) \<and>
     CBB_finish (\<lambda>_. False) 0 True c = Some [2, 2, 0, 128] \<and> CBS_get_asn1_uint64 [2, 2, 0, 128] = (Some 128, [])"
proof -
  define c0 where "c0 = the (CBB_init_fixed True 4)"
  define c where "c = snd (CBB_add_asn1_uint64 (\<lambda>_. False) 0 128 c0)"
  have init: "CBB_init_fixed True 4 = Some c0" "cbb_init True 4 False = Some c0"
    by (simp_all add: c0_def CBB_init_fixed_def cbb_init_def)
  have "fst (CBB_add_asn1_uint64 (\<lambda>_. False) 0 128 c0)" unfolding c0_def by code_simp
  then have run: "CBB_add_asn1_uint64 (\<lambda>_. False) 0 128 c0 = (True, c)" by (simp add: c_def prod_eq_iff)
  have fin: "CBB_finish (\<lambda>_. False) 0 True c = Some [2, 2, 0, 128]" unfolding c_def c0_def by code_simp
  have "4 < SIZE_LIMIT" by (simp add: SIZE_LIMIT_def)
  from CBB_CBS_uint64_roundtrip [OF init(2) this run fin] init(1) run fin show ?thesis by blast
qed

end
