(* ===== verification/Md32.thy ===== *)
theory Md32
  imports Prelude
begin

text \<open>
  \<^verbatim>\<open>BoringSSL/crypto/fipsmodule/digest/md32_common.h\<close>: the generic collector that MD4, MD5,
  SHA-1, SHA-224 and SHA-256 instantiate.  A macro parameter of the C template is an argument
  here: \<open>bdo\<close> for \<open>HASH_BLOCK_DATA_ORDER\<close>, \<open>big\<close> for \<open>DATA_ORDER_IS_BIG_ENDIAN\<close> and \<open>mks\<close>
  for \<open>HASH_MAKE_STRING\<close>.  The contract a block function owes the collector is the locale
  \<open>block_function\<close>; inside it the collector is proved to hash the concatenation of what it was
  given, padded as the standards prescribe, whatever the pieces.
\<close>

section \<open>Byte order\<close>

text \<open>\<open>HOST_c2l\<close> reads the word at the head of \<open>data\<close>; \<open>HOST_l2c\<close> is the list of bytes it writes.\<close>

definition HOST_c2l :: "bool \<Rightarrow> bytes \<Rightarrow> u32" where
  "HOST_c2l big c =
     (if big
      then push_bit 24 (ucast (c ! 0)) OR push_bit 16 (ucast (c ! 1)) OR push_bit 8 (ucast (c ! 2)) OR ucast (c ! 3)
      else ucast (c ! 0) OR push_bit 8 (ucast (c ! 1)) OR push_bit 16 (ucast (c ! 2)) OR push_bit 24 (ucast (c ! 3)))"

definition HOST_l2c :: "bool \<Rightarrow> u32 \<Rightarrow> bytes" where
  "HOST_l2c big l =
     (if big
      then [ucast (drop_bit 24 l AND 0xff), ucast (drop_bit 16 l AND 0xff), ucast (drop_bit 8 l AND 0xff),
            ucast (l AND 0xff)]
      else [ucast (l AND 0xff), ucast (drop_bit 8 l AND 0xff), ucast (drop_bit 16 l AND 0xff),
            ucast (drop_bit 24 l AND 0xff)])"

section \<open>The collector\<close>

record md32_ctx =
  hs :: "u32 list"
  Nl :: u32
  Nh :: u32
  cdata :: bytes
  num :: nat

text \<open>The second half of \<open>HASH_UPDATE\<close>: whole blocks straight from the input, the rest is kept.\<close>

definition HASH_UPDATE_blocks ::
    "(u32 list \<Rightarrow> bytes \<Rightarrow> nat \<Rightarrow> u32 list) \<Rightarrow> 'a md32_ctx_scheme \<Rightarrow> bytes \<Rightarrow> 'a md32_ctx_scheme" where
  "HASH_UPDATE_blocks bdo c data =
     (let n = length data div 64;
          (c, data) = (if 0 < n then (c\<lparr>hs := bdo (hs c) data n\<rparr>, drop (n * 64) data) else (c, data))
      in if length data \<noteq> 0 then c\<lparr>num := length data, cdata := blit (cdata c) 0 data\<rparr> else c)"

definition HASH_UPDATE ::
    "(u32 list \<Rightarrow> bytes \<Rightarrow> nat \<Rightarrow> u32 list) \<Rightarrow> 'a md32_ctx_scheme \<Rightarrow> bytes \<Rightarrow> 'a md32_ctx_scheme" where
  "HASH_UPDATE bdo c data =
     (let len = length data in
      if len = 0 then c
      else
        let l = Nl c + push_bit 3 (word_of_nat len);
            c = (if l < Nl c then c\<lparr>Nh := Nh c + 1\<rparr> else c);
            c = c\<lparr>Nh := Nh c + word_of_nat (len div 2 ^ 29)\<rparr>;
            c = c\<lparr>Nl := l\<rparr>;
            n = num c
        in if n \<noteq> 0
           then if 64 \<le> len \<or> 64 \<le> len + n
                then
                  let c = c\<lparr>cdata := blit (cdata c) n (take (64 - n) data)\<rparr>;
                      c = c\<lparr>hs := bdo (hs c) (cdata c) 1\<rparr>;
                      c = c\<lparr>num := 0, cdata := replicate 64 0\<rparr>
                  in HASH_UPDATE_blocks bdo c (drop (64 - n) data)
                else c\<lparr>cdata := blit (cdata c) n data, num := n + len\<rparr>
           else HASH_UPDATE_blocks bdo c data)"

definition HASH_TRANSFORM ::
    "(u32 list \<Rightarrow> bytes \<Rightarrow> nat \<Rightarrow> u32 list) \<Rightarrow> 'a md32_ctx_scheme \<Rightarrow> bytes \<Rightarrow> 'a md32_ctx_scheme" where
  "HASH_TRANSFORM bdo c data = c\<lparr>hs := bdo (hs c) data 1\<rparr>"

text \<open>The result is the context left behind and what \<open>HASH_MAKE_STRING\<close> wrote, or \<open>None\<close> where
  it makes the function return 0.\<close>

definition HASH_FINAL ::
    "(u32 list \<Rightarrow> bytes \<Rightarrow> nat \<Rightarrow> u32 list) \<Rightarrow> bool \<Rightarrow> ('a md32_ctx_scheme \<Rightarrow> bytes option) \<Rightarrow>
     'a md32_ctx_scheme \<Rightarrow> 'a md32_ctx_scheme \<times> bytes option" where
  "HASH_FINAL bdo big mks c =
     (let n = num c;
          d = (cdata c)[n := 0x80];
          n = n + 1;
          (n, d, s) = (if 64 - 8 < n
                       then let d = blit d n (replicate (64 - n) 0) in (0, d, bdo (hs c) d 1)
                       else (n, d, hs c));
          d = blit d n (replicate (64 - 8 - n) 0);
          d = blit d (64 - 8)
                (if big then HOST_l2c big (Nh c) @ HOST_l2c big (Nl c)
                 else HOST_l2c big (Nl c) @ HOST_l2c big (Nh c));
          c = c\<lparr>hs := bdo s d 1\<rparr>;
          c = c\<lparr>num := 0, cdata := replicate 64 0\<rparr>
      in (c, mks c))"

text \<open>\<open>HASH_MAKE_STRING\<close> of the digests that output the first \<open>k\<close> words of the state.\<close>

definition words_out :: "bool \<Rightarrow> nat \<Rightarrow> u32 list \<Rightarrow> bytes" where
  "words_out big k s = concat (map (HOST_l2c big) (take k s))"

section \<open>What the standards prescribe\<close>

text \<open>Merkle--Damgaard iteration of a compression function over the whole blocks of a message.\<close>

function fold_blocks :: "('s \<Rightarrow> bytes \<Rightarrow> 's) \<Rightarrow> nat \<Rightarrow> 's \<Rightarrow> bytes \<Rightarrow> 's" where
  "fold_blocks f B s data =
     (if B = 0 \<or> length data < B then s else fold_blocks f B (f s (take B data)) (drop B data))"
  by pat_completeness auto
termination by (relation "measure (\<lambda>(f, B, s, data). length data)") auto

declare fold_blocks.simps [simp del]

lemma fold_blocks_cong:
  assumes "\<And>s b. length b = B \<Longrightarrow> f s b = g s b"
  shows "fold_blocks f B s x = fold_blocks g B s x"
  using assms
proof (induction f B s x rule: fold_blocks.induct)
  case (1 f B s x)
  then show ?case by (auto simp: fold_blocks.simps [of f B s x] fold_blocks.simps [of g B s x])
qed

lemma fold_blocks_inv:
  "P s \<Longrightarrow> (\<And>s b. P s \<Longrightarrow> P (f s b)) \<Longrightarrow> P (fold_blocks f B s x)"
proof (induction f B s x rule: fold_blocks.induct)
  case (1 f B s x)
  then show ?case by (auto simp: fold_blocks.simps [of f B s x])
qed

text \<open>Padding: a one bit, zeros up to a block boundary less \<open>L\<close> bytes, the length field.\<close>

definition md_pad :: "nat \<Rightarrow> nat \<Rightarrow> bytes \<Rightarrow> bytes \<Rightarrow> bytes" where
  "md_pad B L lenfield msg =
     msg @ 0x80 # replicate ((2 * B - 1 - L - length msg mod B) mod B) 0 @ lenfield"

definition md_length_be :: "nat \<Rightarrow> bytes \<Rightarrow> bytes" where
  "md_length_be L msg = be_bytes L (8 * length msg mod 256 ^ L)"

definition md_length_le :: "nat \<Rightarrow> bytes \<Rightarrow> bytes" where
  "md_length_le L msg = le_bytes L (8 * length msg mod 256 ^ L)"

lemma md_pad_blocks:
  assumes "L < B" and "length lenfield = L"
  shows "B dvd length (md_pad B L lenfield msg)"
proof -
  let ?r = "length msg mod B"
  have r: "?r < B" using assms(1) by simp
  have "length msg = B * (length msg div B) + ?r" by simp
  then have len: "length (md_pad B L lenfield msg) =
      B * (length msg div B) + (?r + 1 + L + (2 * B - 1 - L - ?r) mod B)"
    using assms(2) by (simp add: md_pad_def)
  have blk: "B dvd ?r + 1 + L + (2 * B - 1 - L - ?r) mod B"
  proof -
    have "(?r + 1 + L + (2 * B - 1 - L - ?r) mod B) mod B = (?r + 1 + L + (2 * B - 1 - L - ?r)) mod B"
      by (rule mod_add_right_eq)
    also have "?r + 1 + L + (2 * B - 1 - L - ?r) = 2 * B" using assms(1) r by linarith
    finally show ?thesis by (simp add: mod_eq_0_iff_dvd)
  qed
  show ?thesis unfolding len by (rule dvd_add [OF dvd_triv_left blk])
qed

section \<open>The byte order macros\<close>

lemma four_bytes:
  assumes "4 \<le> length (c :: bytes)"
  obtains a b d e where "c ! 0 = a" "c ! 1 = b" "c ! 2 = d" "c ! 3 = e" "take 4 c = [a, b, d, e]"
proof -
  obtain a b d e ys where "c = a # b # d # e # ys"
    using assms by (auto simp: numeral_eq_Suc Suc_le_length_iff)
  then show ?thesis using that by simp
qed

lemma HOST_c2l_be: "4 \<le> length c \<Longrightarrow> unat (HOST_c2l True c) = be_val (take 4 c)"
  by (rule four_bytes [of c]) (simp_all only: HOST_c2l_def if_True be32_word)

lemma HOST_c2l_le: "4 \<le> length c \<Longrightarrow> unat (HOST_c2l False c) = le_val (take 4 c)"
proof (rule four_bytes [of c])
  fix a b d e
  assume c: "c ! 0 = a" "c ! 1 = b" "c ! 2 = d" "c ! 3 = e" "take 4 c = [a, b, d, e]"
  have "HOST_c2l False c = push_bit 24 (ucast e) OR push_bit 16 (ucast d) OR push_bit 8 (ucast b) OR ucast a"
    unfolding HOST_c2l_def c if_False by (simp only: or.assoc or.commute or.left_commute)
  then show "unat (HOST_c2l False c) = le_val (take 4 c)"
    unfolding c by (simp only: be32_word) (simp add: be_val_def)
qed simp_all

lemma low_byte: "ucast (drop_bit k l AND 0xff :: u32) = (word_of_nat (unat l div 2 ^ k) :: u8)"
proof -
  have "x AND 0xff = take_bit 8 x" for x :: u32
    by (simp add: take_bit_eq_mask mask_eq_exp_minus_1)
  then have "unat (drop_bit k l AND 0xff) = unat l div 2 ^ k mod 256"
    by (simp only: unsigned_take_bit_eq unat_drop_bit) (simp add: take_bit_eq_mod)
  then show ?thesis
    by (intro word_unat_eq_iff [THEN iffD2]) (simp only: unat_ucast_to_u8 unat_u8_of_nat mod_mod_trivial)
qed

lemma le_bytes_4:
  "le_bytes 4 n = [word_of_nat n, word_of_nat (n div 2 ^ 8), word_of_nat (n div 2 ^ 16), word_of_nat (n div 2 ^ 24)]"
proof -
  have "(4 :: nat) = Suc (Suc (Suc (Suc 0)))" by simp
  moreover have "n div 256 div 256 = n div 65536" "n div 65536 div 256 = n div 16777216"
    by (simp_all flip: div_mult2_eq)
  ultimately show ?thesis by (simp only: le_bytes.simps) simp
qed

lemma HOST_l2c_le: "HOST_l2c False l = le_bytes 4 (unat l)"
  using low_byte [of 0 l] unfolding HOST_l2c_def le_bytes_4 if_False
  by (simp only: low_byte drop_bit_0 id_apply power_0 div_by_1)

lemma HOST_l2c_rev: "HOST_l2c True l = rev (HOST_l2c False l)"
  by (simp add: HOST_l2c_def)

lemma HOST_l2c_be: "HOST_l2c True l = be_bytes 4 (unat l)"
  by (simp add: HOST_l2c_rev HOST_l2c_le be_bytes_def)

section \<open>The contract of a block function\<close>

text \<open>
  \<open>bdo s data n\<close> absorbs the first \<open>n\<close> blocks of \<open>B\<close> bytes of \<open>data\<close>: it depends on
  those bytes only, and absorbing \<open>m + n\<close> blocks at once is absorbing \<open>m\<close> and then \<open>n\<close>.
  Nothing is promised for \<open>n = 0\<close>, where the C code of some digests would not stop.
\<close>

locale block_function =
  fixes bdo :: "'s \<Rightarrow> bytes \<Rightarrow> nat \<Rightarrow> 's" and B :: nat
  assumes B_pos: "0 < B"
    and bdo_take: "0 < n \<Longrightarrow> n * B \<le> length data \<Longrightarrow> bdo s (take (n * B) data) n = bdo s data n"
    and bdo_Suc: "0 < n \<Longrightarrow> Suc n * B \<le> length data \<Longrightarrow>
      bdo s data (Suc n) = bdo (bdo s (take B data) 1) (drop B data) n"
begin

abbreviation "one s b \<equiv> bdo s b 1"

lemma fold_short: "length data < B \<Longrightarrow> fold_blocks f B s data = s"
  by (simp add: fold_blocks.simps [of f B s data])

lemma fold_step: "B \<le> length data \<Longrightarrow> fold_blocks f B s data = fold_blocks f B (f s (take B data)) (drop B data)"
  using B_pos by (simp add: fold_blocks.simps [of f B s data])

lemma fold_one: "length b = B \<Longrightarrow> fold_blocks f B s (b @ data) = fold_blocks f B (f s b) data"
  by (simp add: fold_step)

lemma fold_last: "length b = B \<Longrightarrow> fold_blocks f B s b = f s b"
  using fold_one [of b f s "[]"] B_pos by (simp add: fold_short)

lemma fold_append: "B dvd length x \<Longrightarrow> fold_blocks f B s (x @ y) = fold_blocks f B (fold_blocks f B s x) y"
proof (induction f B s x rule: fold_blocks.induct)
  case (1 f B s x)
  show ?case
  proof (cases "B = 0 \<or> length x < B")
    case True
    with 1(2) have "x = []" by (auto dest: nat_dvd_not_less)
    moreover have "fold_blocks f B s [] = s" by (subst fold_blocks.simps) auto
    ultimately show ?thesis by simp
  next
    case False
    with 1(2) have "B dvd length (drop B x)" by (simp add: dvd_minus_self)
    with 1(1) [OF False] False show ?thesis
      by (simp add: fold_blocks.simps [of f B s x] fold_blocks.simps [of f B s "x @ y"])
  qed
qed

lemma bdo_fold:
  "0 < n \<Longrightarrow> n * B \<le> length data \<Longrightarrow> bdo s data n = fold_blocks one B s (take (n * B) data)"
proof (induction n arbitrary: s data)
  case (Suc n)
  have one: "fold_blocks one B s (take (Suc n * B) data) =
      fold_blocks one B (one s (take B data)) (take (n * B) (drop B data))"
    using Suc.prems by (subst fold_step) (auto simp: take_drop min_def add.commute)
  show ?case
  proof (cases "n = 0")
    case True
    with one Suc.prems show ?thesis using B_pos bdo_take [of 1 data s] by (simp add: fold_short)
  next
    case False
    with Suc.prems show ?thesis unfolding one
      by (subst bdo_Suc) (auto simp: Suc.IH)
  qed
qed simp

text \<open>Absorbing the whole blocks of an input, as the collectors do.\<close>

lemma bdo_whole:
  "B \<le> length data \<Longrightarrow> bdo s data (length data div B) = fold_blocks one B s data"
proof -
  assume "B \<le> length data"
  then have pos: "0 < length data div B" using B_pos by (simp add: div_greater_zero_iff)
  have le: "length data div B * B \<le> length data" by simp
  have "fold_blocks one B s data =
      fold_blocks one B s (take (length data div B * B) data @ drop (length data div B * B) data)" by simp
  also have "\<dots> = fold_blocks one B s (take (length data div B * B) data)"
    using B_pos by (subst fold_append) (simp_all add: fold_short minus_div_mult_eq_mod)
  finally show ?thesis using bdo_fold [OF pos le] by simp
qed

text \<open>The padded message is one or two blocks beyond the whole blocks of the message.\<close>

lemma fold_md_pad:
  assumes L: "L < B" "length lf = L" and t: "t = drop (length msg div B * B) msg"
  shows "fold_blocks f B s (md_pad B L lf msg) =
    (if B - L < length t + 1
     then f (f (fold_blocks f B s msg) (t @ 0x80 # replicate (B - 1 - length t) 0)) (replicate (B - L) 0 @ lf)
     else f (fold_blocks f B s msg) (t @ 0x80 # replicate (B - L - 1 - length t) 0 @ lf))"
proof -
  define w where "w = take (length msg div B * B) msg"
  have msg: "msg = w @ t" by (simp add: w_def t)
  have w: "B dvd length w" by (simp add: w_def)
  have r: "length t = length msg mod B" using B_pos by (simp add: t minus_div_mult_eq_mod)
  then have tB: "length t < B" using B_pos by simp
  have fm: "fold_blocks f B s msg = fold_blocks f B s w"
    unfolding msg by (simp add: fold_append [OF w] fold_short [OF tB])
  have z: "(2 * B - 1 - L - length t) mod B =
      (if B - L < length t + 1 then (B - 1 - length t) + (B - L) else B - L - 1 - length t)"
  proof (cases "B - L < length t + 1")
    case True
    then have "2 * B - 1 - L - length t < B" using L(1) tB by linarith
    moreover have "2 * B - 1 - L - length t = (B - 1 - length t) + (B - L)" using L(1) tB by linarith
    ultimately show ?thesis using True by simp
  next
    case False
    then have eq: "2 * B - 1 - L - length t = (B - L - 1 - length t) + B" using L(1) tB by linarith
    have "B - L - 1 - length t < B" using B_pos by linarith
    then have "(2 * B - 1 - L - length t) mod B = B - L - 1 - length t"
      unfolding eq by (simp only: mod_add_self2 mod_less)
    then show ?thesis using False by (simp only: if_False)
  qed
  have pad: "md_pad B L lf msg = w @ (t @ 0x80 # replicate ((2 * B - 1 - L - length t) mod B) 0 @ lf)"
    unfolding md_pad_def r [symmetric] by (subst (1) msg) simp
  show ?thesis
  proof (cases "B - L < length t + 1")
    case True
    have "md_pad B L lf msg =
        w @ (t @ 0x80 # replicate (B - 1 - length t) 0) @ (replicate (B - L) 0 @ lf)"
      unfolding pad z using True by (simp add: replicate_add)
    then show ?thesis using True L tB by (simp add: fold_append [OF w] fold_one fold_last fm del: append_assoc)
  next
    case False
    have "md_pad B L lf msg = w @ (t @ 0x80 # replicate (B - L - 1 - length t) 0 @ lf)"
      unfolding pad z using False by simp
    then show ?thesis using False L tB by (simp add: fold_append [OF w] fold_one fold_last fm del: append_assoc)
  qed
qed

end

section \<open>The collector hashes the padded message\<close>

definition bit_count :: "'a md32_ctx_scheme \<Rightarrow> nat" where
  "bit_count c = unat (Nh c) * 2 ^ 32 + unat (Nl c)"

text \<open>The 64-bit counter kept in two halves counts bits modulo \<open>2 ^ 64\<close>.\<close>

lemma count_halves_add:
  fixes nl nh :: "'a::len word" and len :: nat
  assumes L: "3 \<le> LENGTH('a)"
  defines "l \<equiv> nl + push_bit 3 (word_of_nat len)"
  defines "h \<equiv> (if l < nl then nh + 1 else nh) + word_of_nat (len div 2 ^ (LENGTH('a) - 3))"
  shows "unat h * 2 ^ LENGTH('a) + unat l =
    (unat nh * 2 ^ LENGTH('a) + unat nl + 8 * len) mod (2 ^ LENGTH('a) * 2 ^ LENGTH('a))"
proof -
  define M :: nat where "M = 2 ^ LENGTH('a)"
  define p where "p = 8 * len mod M"
  define q where "q = len div 2 ^ (LENGTH('a) - 3)"
  define k :: nat where "k = (if unat nl + p < M then 0 else 1)"
  have len: "8 * len = p + M * q"
  proof -
    have "8 * 2 ^ (LENGTH('a) - 3) = (2 :: nat) ^ (3 + (LENGTH('a) - 3))" by (simp add: power_add)
    then have M: "8 * 2 ^ (LENGTH('a) - 3) = M" using L by (simp add: M_def)
    have "q = 8 * len div (8 * 2 ^ (LENGTH('a) - 3))" by (simp add: q_def)
    then show ?thesis unfolding M p_def by (simp only: mod_mult_div_eq)
  qed
  have nl: "unat nl < M" using unsigned_less [of nl] by (simp add: M_def)
  have of_nat: "unat (word_of_nat n :: 'a word) = n mod M" for n by (simp add: M_def unat_of_nat)
  have "(push_bit 3 (word_of_nat len) :: 'a word) = word_of_nat (8 * len)" by (simp add: push_bit_eq_mult)
  then have "l = word_of_nat (unat nl + 8 * len)" unfolding l_def by simp
  then have l: "unat l = (unat nl + p) mod M" by (simp only: of_nat p_def mod_add_right_eq)
  have p: "p < M" by (simp add: p_def M_def)
  have lk: "unat l + M * k = unat nl + p"
    using nl p unfolding l k_def by (auto simp: mod_if)
  have carry: "l < nl \<longleftrightarrow> k = 1"
    using lk nl p unfolding word_less_nat_alt k_def by auto
  have h: "unat h = (unat nh + k + q) mod M"
  proof (cases "k = 1")
    case True
    then have "h = nh + 1 + word_of_nat q" using carry by (simp add: h_def q_def)
    then have "h = word_of_nat (unat nh + k + q)" using True by simp
    then show ?thesis by (simp only: of_nat)
  next
    case False
    then have "k = 0" by (simp add: k_def split: if_splits)
    moreover have "h = nh + word_of_nat q" using carry False by (simp add: h_def q_def)
    ultimately have "h = word_of_nat (unat nh + k + q)" by simp
    then show ?thesis by (simp only: of_nat)
  qed
  have sum: "unat nh * M + unat nl + 8 * len = (unat nh + k + q) * M + unat l"
    using len lk by (simp add: algebra_simps)
  have split: "(a * M + b) mod (M * M) = (a mod M) * M + b" if "b < M" for a b
  proof -
    have "(a * M + b) mod (M * M) = M * ((a * M + b) div M mod M) + (a * M + b) mod M"
      by (rule mod_mult2_eq)
    also have "(a * M + b) div M = a" using that by simp
    also have "(a * M + b) mod M = b" using that by simp
    finally show ?thesis by (simp add: mult.commute)
  qed
  have "unat l < M" using unsigned_less [of l] by (simp add: M_def)
  from split [OF this] show ?thesis unfolding M_def [symmetric] by (simp only: h sum)
qed

lemma bit_count_add:
  fixes nl nh :: u32 and len :: nat
  defines "l \<equiv> nl + push_bit 3 (word_of_nat len)"
  defines "h \<equiv> (if l < nl then nh + 1 else nh) + word_of_nat (len div 2 ^ 29)"
  shows "unat h * 2 ^ 32 + unat l = (unat nh * 2 ^ 32 + unat nl + 8 * len) mod 2 ^ 64"
  using count_halves_add [of nl len nh] unfolding l_def h_def by simp

lemma HOST_length_be: "HOST_l2c True h @ HOST_l2c True l = be_bytes 8 (unat h * 2 ^ 32 + unat l)"
proof -
  have "unat l < 256 ^ 4" using unsigned_less [of l] by simp
  then have "le_bytes (4 + 4) (unat l + 256 ^ 4 * unat h) = le_bytes 4 (unat l) @ le_bytes 4 (unat h)"
    by (rule le_bytes_split)
  then show ?thesis by (simp add: HOST_l2c_be be_bytes_def ac_simps)
qed

lemma HOST_length_le: "HOST_l2c False l @ HOST_l2c False h = le_bytes 8 (unat h * 2 ^ 32 + unat l)"
  using arg_cong [OF HOST_length_be [of h l], of rev] by (simp add: HOST_l2c_rev be_bytes_def)

text \<open>What a context holds after absorbing \<open>msg\<close> from the initial state \<open>h0\<close>.\<close>

definition md32_holds ::
    "(u32 list \<Rightarrow> bytes \<Rightarrow> nat \<Rightarrow> u32 list) \<Rightarrow> u32 list \<Rightarrow> bytes \<Rightarrow> 'a md32_ctx_scheme \<Rightarrow> bool" where
  "md32_holds bdo h0 msg c \<longleftrightarrow>
     hs c = fold_blocks (\<lambda>s b. bdo s b 1) 64 h0 msg \<and>
     num c = length msg mod 64 \<and> length (cdata c) = 64 \<and>
     take (num c) (cdata c) = drop (length msg div 64 * 64) msg \<and>
     bit_count c = 8 * length msg mod 2 ^ 64"

locale md32_digest = block_function bdo 64
  for bdo :: "u32 list \<Rightarrow> bytes \<Rightarrow> nat \<Rightarrow> u32 list"
begin

lemma md32_start:
  "num c = 0 \<Longrightarrow> length (cdata c) = 64 \<Longrightarrow> Nl c = 0 \<Longrightarrow> Nh c = 0 \<Longrightarrow> md32_holds bdo (hs c) [] c"
  by (simp add: md32_holds_def fold_short bit_count_def)

lemma UPDATE_blocks_hs:
  "hs (HASH_UPDATE_blocks bdo c data) = fold_blocks one 64 (hs c) data"
  using bdo_whole [of data "hs c"]
  by (cases "64 \<le> length data")
    (auto simp: HASH_UPDATE_blocks_def Let_def fold_short div_greater_zero_iff)

lemma UPDATE_blocks_rest:
  assumes "num c = 0" and "length (cdata c) = 64"
  shows "num (HASH_UPDATE_blocks bdo c data) = length data mod 64 \<and>
    length (cdata (HASH_UPDATE_blocks bdo c data)) = 64 \<and>
    take (length data mod 64) (cdata (HASH_UPDATE_blocks bdo c data)) = drop (length data div 64 * 64) data \<and>
    bit_count (HASH_UPDATE_blocks bdo c data) = bit_count c"
proof -
  define r where "r = drop (length data div 64 * 64) data"
  have lr: "length r = length data mod 64" by (simp add: r_def minus_div_mult_eq_mod)
  have data: "(if 0 < length data div 64 then drop (length data div 64 * 64) data else data) = r"
    by (simp add: r_def)
  have "length (blit (cdata c) 0 r) = 64" using assms(2) lr by (simp add: length_blit)
  moreover have "take (length r) (blit (cdata c) 0 r) = r" by (simp add: blit_def)
  ultimately show ?thesis using assms lr
    unfolding r_def [symmetric] HASH_UPDATE_blocks_def Let_def bit_count_def
    by (cases "0 < length data div 64") (auto simp: r_def)
qed

lemma drop_blocks:
  assumes "64 dvd length u"
  shows "drop (length (u @ d) div 64 * 64) (u @ d) = drop (length d div 64 * 64) d"
proof -
  obtain k where "length u = 64 * k" using assms by (elim dvdE)
  then have "length (u @ d) div 64 * 64 = length u + length d div 64 * 64" by simp
  then show ?thesis by simp
qed

lemma md32_holdsI:
  assumes u: "64 dvd length u"
    and "hs c = fold_blocks one 64 (fold_blocks one 64 h0 u) d" "num c = length d mod 64" "length (cdata c) = 64"
      "take (length d mod 64) (cdata c) = drop (length d div 64 * 64) d"
      "bit_count c = 8 * length (u @ d) mod 2 ^ 64"
  shows "md32_holds bdo h0 (u @ d) c"
proof -
  have "length (u @ d) mod 64 = length d mod 64" using u by (auto elim!: dvdE)
  with assms show ?thesis
    unfolding md32_holds_def drop_blocks [OF u] by (simp add: fold_append)
qed

lemma HASH_UPDATE_holds:
  assumes "md32_holds bdo h0 msg c"
  shows "md32_holds bdo h0 (msg @ data) (HASH_UPDATE bdo c data)"
proof (cases "data = []")
  case False
  define w where "w = take (length msg div 64 * 64) msg"
  define t where "t = drop (length msg div 64 * 64) msg"
  have msg: "msg = w @ t" by (simp add: w_def t_def)
  have w: "64 dvd length w" by (simp add: w_def)
  have lt: "length t = length msg mod 64" by (simp add: t_def minus_div_mult_eq_mod)
  define c1 where "c1 = c\<lparr>Nh := (if Nl c + push_bit 3 (word_of_nat (length data)) < Nl c then Nh c + 1 else Nh c) +
      word_of_nat (length data div 2 ^ 29), Nl := Nl c + push_bit 3 (word_of_nat (length data))\<rparr>"
  have t64: "length t < 64" unfolding lt by simp
  have h: "hs c = fold_blocks one 64 h0 msg" and n: "num c = length t"
    and rest: "length (cdata c) = 64" "take (length t) (cdata c) = t" "bit_count c = 8 * length msg mod 2 ^ 64"
    using assms unfolding md32_holds_def t_def [symmetric] lt by auto
  have "hs c = fold_blocks one 64 h0 w"
    unfolding h by (subst msg) (simp only: fold_append [OF w] fold_short [OF t64])
  note c = this n rest
  have "bit_count c1 = (bit_count c + 8 * length data) mod 2 ^ 64"
    using bit_count_add [where nh = "Nh c" and nl = "Nl c" and len = "length data"] by (simp add: bit_count_def c1_def)
  then have count: "bit_count c1 = 8 * length (msg @ data) mod 2 ^ 64"
    unfolding c(5) by (simp add: mod_add_left_eq)
  have upd: "HASH_UPDATE bdo c data =
      (if num c \<noteq> 0 then
         if 64 \<le> length data + num c
         then HASH_UPDATE_blocks bdo
           (c1\<lparr>hs := bdo (hs c) (blit (cdata c) (num c) (take (64 - num c) data)) 1, num := 0, cdata := replicate 64 0\<rparr>)
           (drop (64 - num c) data)
         else c1\<lparr>cdata := blit (cdata c) (num c) data, num := num c + length data\<rparr>
       else HASH_UPDATE_blocks bdo c1 data)"
    using False by (simp add: HASH_UPDATE_def Let_def c1_def)
  show ?thesis
  proof (cases "length t = 0")
    case True
    then have "64 dvd length msg" "t = []" using lt by (simp_all add: mod_eq_0_iff_dvd)
    then show ?thesis
      using UPDATE_blocks_rest [of c1 data] c count True
      by (intro md32_holdsI) (simp_all add: upd UPDATE_blocks_hs c1_def msg)
  next
    case n: False
    show ?thesis
    proof (cases "64 \<le> length data + length t")
      case True
      define d where "d = drop (64 - length t) data"
      define b where "b = t @ take (64 - length t) data"
      have b: "length b = 64" "blit (cdata c) (length t) (take (64 - length t) data) = b"
        using True t64 c(3,4) by (simp_all add: b_def blit_def)
      have all: "msg @ data = (w @ b) @ d" by (simp add: msg b_def d_def)
      define c2 where "c2 = c1\<lparr>hs := bdo (hs c) b 1, num := 0, cdata := replicate 64 0\<rparr>"
      have "bit_count c2 = bit_count c1" by (simp add: bit_count_def c2_def)
      moreover have "HASH_UPDATE bdo c data = HASH_UPDATE_blocks bdo c2 d"
        using upd n True c(2) b(2) by (simp add: c2_def d_def)
      ultimately show ?thesis
        using UPDATE_blocks_rest [of c2 d] count c(1) b(1) w unfolding all
        by (intro md32_holdsI) (simp_all add: UPDATE_blocks_hs c2_def fold_append fold_last)
    next
      case False
      have all: "msg @ data = w @ (t @ data)" by (simp add: msg)
      have "HASH_UPDATE bdo c data = c1\<lparr>cdata := blit (cdata c) (length t) data, num := length t + length data\<rparr>"
        using upd n False c(2) by simp
      moreover have "take (length t + length data) (blit (cdata c) (length t) data) = t @ data"
        using c(3,4) t64 by (simp add: take_blit_end)
      ultimately show ?thesis
        using False c w count t64 unfolding all
        by (intro md32_holdsI) (simp_all add: fold_short length_blit bit_count_def c1_def)
    qed
  qed
qed (use assms in \<open>simp add: HASH_UPDATE_def\<close>)

lemma UPDATE_all_holds:
  "md32_holds bdo h0 msg c \<Longrightarrow>
     md32_holds bdo h0 (msg @ concat inps) (foldl (HASH_UPDATE bdo) c inps)"
proof (induction inps arbitrary: c msg)
  case (Cons a inps)
  from Cons.IH [OF HASH_UPDATE_holds [OF Cons.prems, of a]] show ?case by simp
qed simp

lemma UPDATE_more: "md32_ctx.more (foldl (HASH_UPDATE bdo) c inps) = md32_ctx.more c"
proof (induction inps arbitrary: c)
  case (Cons a inps)
  have "md32_ctx.more (HASH_UPDATE bdo c a) = md32_ctx.more c"
    by (simp add: HASH_UPDATE_def HASH_UPDATE_blocks_def Let_def split: prod.split)
  then show ?case using Cons.IH by simp
qed simp

lemma HASH_FINAL_pads:
  fixes big :: bool
  assumes "md32_holds bdo h0 msg c"
  defines "lf \<equiv> (if big then md_length_be 8 msg else md_length_le 8 msg)"
  defines "c' \<equiv> c\<lparr>hs := fold_blocks one 64 h0 (md_pad 64 8 lf msg), num := 0, cdata := replicate 64 0\<rparr>"
  shows "HASH_FINAL bdo big mks c = (c', mks c')"
proof -
  define t where "t = drop (length msg div 64 * 64) msg"
  have lt: "length t = length msg mod 64" by (simp add: t_def minus_div_mult_eq_mod)
  have t64: "length t < 64" unfolding lt by simp
  have hsc: "hs c = fold_blocks one 64 h0 msg" and n: "num c = length t" and len: "length (cdata c) = 64"
    and buf: "take (length t) (cdata c) = t" and cnt: "bit_count c = 8 * length msg mod 2 ^ 64"
    using assms(1) unfolding md32_holds_def t_def [symmetric] lt by auto
  have lf: "(if big then HOST_l2c big (Nh c) @ HOST_l2c big (Nl c)
      else HOST_l2c big (Nl c) @ HOST_l2c big (Nh c)) = lf"
    using cnt unfolding lf_def md_length_be_def md_length_le_def bit_count_def
    by (simp add: HOST_length_be HOST_length_le)
  have llf: "length lf = 8" by (simp add: lf_def md_length_be_def md_length_le_def)
  have d: "(cdata c)[length t := 0x80] = t @ 0x80 # drop (length t + 1) (cdata c)"
    using buf len t64 by (simp add: upd_conv_take_nth_drop)
  have pad: "fold_blocks one 64 h0 (md_pad 64 8 lf msg) =
     (if 64 - 8 < length t + 1
      then one (one (hs c) (t @ 0x80 # replicate (64 - 1 - length t) 0)) (replicate (64 - 8) 0 @ lf)
      else one (hs c) (t @ 0x80 # replicate (64 - 8 - 1 - length t) 0 @ lf))"
    unfolding hsc by (rule fold_md_pad [OF _ llf t_def]) simp
  show ?thesis
  proof (cases "64 - 8 < length t + 1")
    case True
    let ?b = "t @ 0x80 # replicate (64 - 1 - length t) 0"
    have b: "blit ((cdata c)[length t := 0x80]) (length t + 1) (replicate (64 - (length t + 1)) 0) = ?b"
      unfolding d using len t64 by (simp add: blit_def)
    have z: "blit (blit ?b 0 (replicate (64 - 8) 0)) (64 - 8) lf = replicate (64 - 8) 0 @ lf"
      using llf t64 by (simp add: blit_def)
    show ?thesis
      unfolding HASH_FINAL_def Let_def n b lf if_P [OF True] prod.case diff_zero z c'_def pad ..
  next
    case False
    have z: "blit (blit ((cdata c)[length t := 0x80]) (length t + 1) (replicate (64 - 8 - (length t + 1)) 0)) (64 - 8) lf =
        t @ 0x80 # replicate (64 - 8 - 1 - length t) 0 @ lf"
    proof -
      have "56 - length t = Suc (55 - length t)" using False by linarith
      then show ?thesis unfolding d using len t64 llf False by (simp add: blit_def)
    qed
    show ?thesis
      unfolding HASH_FINAL_def Let_def n lf if_not_P [OF False] prod.case z c'_def pad ..
  qed
qed

text \<open>The digest of a message fed in any pieces.\<close>

lemma stream_digest:
  assumes c0: "num c0 = 0" "length (cdata c0) = 64" "Nl c0 = 0" "Nh c0 = 0"
    and f: "\<And>s b. length b = 64 \<Longrightarrow> bdo s b 1 = f s b"
    and mks: "\<And>c. md32_ctx.more c = md32_ctx.more c0 \<Longrightarrow> mks c = out (hs c)"
  shows "snd (HASH_FINAL bdo big mks (foldl (HASH_UPDATE bdo) c0 inps)) =
    out (fold_blocks f 64 (hs c0)
      (md_pad 64 8 (if big then md_length_be 8 (concat inps) else md_length_le 8 (concat inps)) (concat inps)))"
proof -
  have "md32_holds bdo (hs c0) (concat inps) (foldl (HASH_UPDATE bdo) c0 inps)"
    using UPDATE_all_holds [OF md32_start [OF c0], of inps] by simp
  note final = HASH_FINAL_pads [OF this, of big mks]
  have "mks (foldl (HASH_UPDATE bdo) c0 inps\<lparr>hs := h, num := 0, cdata := d\<rparr>) = out h" for h d
    by (subst mks) (simp_all add: UPDATE_more)
  with final show ?thesis by (simp only: snd_conv fold_blocks_cong [OF f])
qed

end

section \<open>Rotations and rotating registers\<close>

text \<open>\<open>ROTATE\<close> of the digests, and the rotation it computes.\<close>

definition ROTATE :: "u32 \<Rightarrow> nat \<Rightarrow> u32" where
  "ROTATE a n = push_bit n a OR drop_bit (32 - n) a"

lemma rotate_word:
  fixes a :: "'a::len word"
  assumes "0 < n" "n < LENGTH('a)"
  shows "push_bit n a OR drop_bit (LENGTH('a) - n) a = word_rotl n a"
proof (rule bit_word_eqI)
  fix k assume k: "k < LENGTH('a)"
  show "bit (push_bit n a OR drop_bit (LENGTH('a) - n) a) k \<longleftrightarrow> bit (word_rotl n a) k"
  proof (cases "n \<le> k")
    case True
    have "(k + (LENGTH('a) - n mod LENGTH('a))) mod LENGTH('a) = k - n"
    proof -
      have "k + (LENGTH('a) - n) = k - n + LENGTH('a)" using True assms by linarith
      moreover have "n mod LENGTH('a) = n" using assms by simp
      ultimately show ?thesis using k by (simp only: mod_add_self2) simp
    qed
    moreover have "\<not> bit a (LENGTH('a) - n + k)" using True assms by (auto dest: bit_imp_le_length)
    ultimately show ?thesis using True k
      by (simp add: bit_or_iff bit_push_bit_iff bit_drop_bit_eq bit_word_rotl_iff)
  next
    case False
    have "(k + (LENGTH('a) - n mod LENGTH('a))) mod LENGTH('a) = LENGTH('a) - n + k"
      using False assms by simp
    then show ?thesis using False k
      by (simp add: bit_or_iff bit_push_bit_iff bit_drop_bit_eq bit_word_rotl_iff)
  qed
qed

lemma ROTATE_rotl: "0 < n \<Longrightarrow> n < 32 \<Longrightarrow> ROTATE a n = word_rotl n a"
  unfolding ROTATE_def using rotate_word [of n a] by simp

text \<open>
  The unrolled rounds rename \<open>N\<close> registers at each step instead of moving values: in round
  \<open>i\<close> the register \<open>role N i k\<close> plays the part \<open>k\<close>.
\<close>

definition role :: "nat \<Rightarrow> nat \<Rightarrow> nat \<Rightarrow> nat" where
  "role N i k = (k + (N - 1) * i) mod N"

lemma role_less [simp]: "0 < N \<Longrightarrow> role N i k < N"
  by (simp add: role_def)

lemma role_Suc_0: "1 < N \<Longrightarrow> role N (Suc i) 0 = role N i (N - 1)"
  by (simp add: role_def)

lemma role_Suc_Suc: "1 < N \<Longrightarrow> role N (Suc i) (Suc k) = role N i k"
proof -
  assume "1 < N"
  then have "Suc k + (N - 1) * Suc i = k + (N - 1) * i + N" by simp
  then show ?thesis unfolding role_def by (simp only: mod_add_self2)
qed

lemma role_inj:
  assumes "k \<le> l" "l < N" "role N i k = role N i l"
  shows "k = l"
proof -
  have "N dvd l + (N - 1) * i - (k + (N - 1) * i)"
    using assms(1,3) by (intro mod_eq_dvd_iff_nat [THEN iffD1]) (simp_all add: role_def)
  then have "N dvd l - k" by simp
  with assms(1,2) show ?thesis by (auto dest: dvd_imp_le)
qed

lemma role_eq: "k < N \<Longrightarrow> l < N \<Longrightarrow> role N i k = role N i l \<longleftrightarrow> k = l"
  using role_inj [of k l N i] role_inj [of l k N i] by (cases "k \<le> l") auto

lemma role_dvd: "N dvd i \<Longrightarrow> k < N \<Longrightarrow> role N i k = k"
proof -
  assume "N dvd i" "k < N"
  then obtain q where "k + (N - 1) * i = k + N * ((N - 1) * q)" by (auto elim!: dvdE)
  with \<open>k < N\<close> show ?thesis unfolding role_def by (simp only: mod_mult_self2 mod_less)
qed

text \<open>The word \<open>i\<close> of a block.\<close>

definition block_word :: "bool \<Rightarrow> bytes \<Rightarrow> nat \<Rightarrow> u32" where
  "block_word big b i = word_of_nat ((if big then be_val else le_val) (take 4 (drop (4 * i) b)))"

lemma HOST_c2l_word:
  assumes "4 * i + 4 \<le> length b"
  shows "HOST_c2l big (drop (4 * i) b) = block_word big b i"
proof -
  have "4 \<le> length (drop (4 * i) b)" using assms by simp
  then have "unat (HOST_c2l big (drop (4 * i) b)) = (if big then be_val else le_val) (take 4 (drop (4 * i) b))"
    by (cases big) (simp_all add: HOST_c2l_be HOST_c2l_le)
  from arg_cong [OF this, of "word_of_nat :: nat \<Rightarrow> u32"] show ?thesis by (simp add: block_word_def)
qed

lemma block_word_take: "4 * i + 4 \<le> n \<Longrightarrow> block_word big (take n M) i = block_word big M i"
proof -
  assume "4 * i + 4 \<le> n"
  then have "min 4 (n - 4 * i) = 4" by linarith
  then have "take 4 (drop (4 * i) (take n M)) = take 4 (drop (4 * i) M)" by (simp add: drop_take)
  then show ?thesis by (simp add: block_word_def)
qed

text \<open>A loop over the blocks, whose body reads one block, honours the contract.\<close>

lemma block_function_loop:
  assumes B: "0 < B"
    and blk: "\<And>s data. B \<le> length data \<Longrightarrow> blk s (take B data) = blk s data"
    and one: "\<And>s data. bdo s data (Suc 0) = blk s data"
    and step: "\<And>s data n. 0 < n \<Longrightarrow> bdo s data (Suc n) = bdo (blk s data) (drop B data) n"
  shows "block_function bdo B"
proof
  show "bdo s (take (n * B) data) n = bdo s data n" if "0 < n" "n * B \<le> length data" for n s data
    using that
  proof (induction n arbitrary: s data)
    case (Suc n)
    have "B \<le> length (take (Suc n * B) data)" using Suc.prems by simp
    then have "blk s (take (Suc n * B) data) = blk s (take B (take (Suc n * B) data))" by (rule blk [symmetric])
    also have "\<dots> = blk s data" using Suc.prems by (simp add: blk)
    finally have b: "blk s (take (Suc n * B) data) = blk s data" .
    show ?case
    proof (cases "n = 0")
      case False
      with Suc.IH [of "drop B data" "blk s data"] Suc.prems show ?thesis
        by (simp add: step b [simplified] drop_take)
    qed (use b in \<open>simp add: one\<close>)
  qed simp
  show "bdo s data (Suc n) = bdo (bdo s (take B data) 1) (drop B data) n"
    if "0 < n" "Suc n * B \<le> length data" for n s data
    using that by (simp add: step one blk)
qed (rule B)

text \<open>A ring of 16 words that holds the last 16 of a sequence.\<close>

definition ring :: "(nat \<Rightarrow> 'w) \<Rightarrow> nat \<Rightarrow> 'w list \<Rightarrow> bool" where
  "ring W j X \<longleftrightarrow> length X = 16 \<and> (\<forall>k<j. j \<le> k + 16 \<longrightarrow> X ! (k mod 16) = W k)"

lemma ring_start: "length X = 16 \<Longrightarrow> ring W 0 X"
  by (simp add: ring_def)

lemma ring_push:
  assumes "ring W j X"
  shows "ring W (Suc j) (X[j mod 16 := W j])"
proof -
  have "X[j mod 16 := W j] ! (k mod 16) = W k" if "k < Suc j" "Suc j \<le> k + 16" for k
  proof (cases "k = j")
    case False
    with that have "0 < j - k" "j - k < 16" by linarith+
    then have "\<not> 16 dvd j - k" by (auto dest: dvd_imp_le)
    then have "k mod 16 \<noteq> j mod 16" using that mod_eq_dvd_iff_nat [of k j 16] by (metis less_Suc_eq_le)
    with assms that False show ?thesis by (simp add: ring_def)
  qed (use assms in \<open>simp add: ring_def\<close>)
  then show ?thesis using assms by (simp add: ring_def)
qed

lemma ring_get:
  assumes "ring W j X" "16 \<le> j" "d < 16"
  shows "X ! ((j + d) mod 16) = W (j - 16 + d)"
proof -
  have "j + d = j - 16 + d + 16" using assms(2) by simp
  then have "(j + d) mod 16 = (j - 16 + d) mod 16" by (metis mod_add_self2)
  with assms show ?thesis by (simp add: ring_def)
qed

lemma ring_get_first: "ring W j X \<Longrightarrow> j \<le> 16 \<Longrightarrow> k < j \<Longrightarrow> X ! k = W k"
  by (auto simp: ring_def)

lemma fold_from: "i < n \<Longrightarrow> fold f [i..<n] s = fold f [Suc i..<n] (f i s)"
  by (subst upt_conv_Cons) simp_all

lemma length_words_out: "k \<le> length s \<Longrightarrow> length (words_out big k s) = 4 * k"
proof -
  assume k: "k \<le> length s"
  have "length (concat (map (HOST_l2c big) ws)) = 4 * length ws" for ws
    by (induction ws) (simp_all add: HOST_l2c_def)
  then show ?thesis using k by (simp add: words_out_def)
qed

end
