(* ===== verification/Md5.thy ===== *)
theory Md5
  imports Md32 "HOL-Library.Code_Target_Nat"
begin

text \<open>
  \<^verbatim>\<open>BoringSSL/crypto/fipsmodule/md4/md4.c\<close> and \<^verbatim>\<open>md5/md5.c\<close>.  The unrolled block functions
  are the lists of their macro invocations in the order of the source, with the registers
  \<open>A, B, C, D\<close> numbered 0 to 3 and \<open>X(i)\<close> by its index; executing an invocation is the macro's
  body.  They are proved equal to the algorithms of RFC 1320 and RFC 1321, and the streaming
  interface to the hash of the concatenated input.
\<close>

section \<open>The macros\<close>

text \<open>\<open>HOST_C2L i\<close> is the pair \<open>HOST_c2l(data, l); X(i) = l;\<close>, \<open>R0 a b c d k s t\<close> to
  \<open>R3 a b c d k s t\<close> are the macros of the four rounds with \<open>X(k)\<close> as their fifth argument.\<close>

datatype md_call =
    HOST_C2L nat
  | R0 nat nat nat nat nat nat u32
  | R1 nat nat nat nat nat nat u32
  | R2 nat nat nat nat nat nat u32
  | R3 nat nat nat nat nat nat u32

definition md5_F :: "u32 \<Rightarrow> u32 \<Rightarrow> u32 \<Rightarrow> u32" where "md5_F b c d = ((c XOR d) AND b) XOR d"
definition md5_G :: "u32 \<Rightarrow> u32 \<Rightarrow> u32 \<Rightarrow> u32" where "md5_G b c d = ((b XOR c) AND d) XOR c"
definition md5_H :: "u32 \<Rightarrow> u32 \<Rightarrow> u32 \<Rightarrow> u32" where "md5_H b c d = b XOR c XOR d"
definition md5_I :: "u32 \<Rightarrow> u32 \<Rightarrow> u32 \<Rightarrow> u32" where "md5_I b c d = (NOT d OR b) XOR c"
definition md4_G :: "u32 \<Rightarrow> u32 \<Rightarrow> u32 \<Rightarrow> u32" where
  "md4_G b c d = (b AND c) OR (b AND d) OR (c AND d)"

definition md4_R :: "(u32 \<Rightarrow> u32 \<Rightarrow> u32 \<Rightarrow> u32) \<Rightarrow> nat \<Rightarrow> nat \<Rightarrow> nat \<Rightarrow> nat \<Rightarrow> u32 \<Rightarrow> nat \<Rightarrow> u32 \<Rightarrow> u32 list \<Rightarrow> u32 list" where
  "md4_R f a b c d k s t r =
     (let r = r[a := r ! a + (k + t + f (r ! b) (r ! c) (r ! d))]
      in r[a := ROTATE (r ! a) s])"

definition md5_R :: "(u32 \<Rightarrow> u32 \<Rightarrow> u32 \<Rightarrow> u32) \<Rightarrow> nat \<Rightarrow> nat \<Rightarrow> nat \<Rightarrow> nat \<Rightarrow> u32 \<Rightarrow> nat \<Rightarrow> u32 \<Rightarrow> u32 list \<Rightarrow> u32 list" where
  "md5_R f a b c d k s t r =
     (let r = r[a := r ! a + (k + t + f (r ! b) (r ! c) (r ! d))];
          r = r[a := ROTATE (r ! a) s]
      in r[a := r ! a + r ! b])"

text \<open>One invocation on the registers, for the words \<open>X\<close>; the third round macro of MD4 is \<open>R2\<close>.\<close>

fun md4_macro :: "md_call \<Rightarrow> u32 list \<Rightarrow> u32 list \<Rightarrow> u32 list" where
  "md4_macro (R0 a b c d k s t) X = md4_R md5_F a b c d (X ! k) s t"
| "md4_macro (R1 a b c d k s t) X = md4_R md4_G a b c d (X ! k) s t"
| "md4_macro (R2 a b c d k s t) X = md4_R md5_H a b c d (X ! k) s t"
| "md4_macro _ X = id"

fun md5_macro :: "md_call \<Rightarrow> u32 list \<Rightarrow> u32 list \<Rightarrow> u32 list" where
  "md5_macro (R0 a b c d k s t) X = md5_R md5_F a b c d (X ! k) s t"
| "md5_macro (R1 a b c d k s t) X = md5_R md5_G a b c d (X ! k) s t"
| "md5_macro (R2 a b c d k s t) X = md5_R md5_H a b c d (X ! k) s t"
| "md5_macro (R3 a b c d k s t) X = md5_R md5_I a b c d (X ! k) s t"
| "md5_macro _ X = id"

text \<open>A call on the registers, the words and the input pointer.\<close>

fun md_exec :: "(md_call \<Rightarrow> u32 list \<Rightarrow> u32 list \<Rightarrow> u32 list) \<Rightarrow> md_call \<Rightarrow>
    u32 list \<times> u32 list \<times> bytes \<Rightarrow> u32 list \<times> u32 list \<times> bytes" where
  "md_exec m (HOST_C2L i) (r, X, data) = (r, X[i := HOST_c2l False data], drop 4 data)"
| "md_exec m cl (r, X, data) = (m cl X r, X, data)"

section \<open>The block functions\<close>

definition md4_calls :: "md_call list" where
  "md4_calls = [
      HOST_C2L 0, HOST_C2L 1, R0 0 1 2 3 0 3 0, HOST_C2L 2, R0 3 0 1 2 1 7 0, HOST_C2L 3,
    R0 2 3 0 1 2 11 0, HOST_C2L 4, R0 1 2 3 0 3 19 0, HOST_C2L 5, R0 0 1 2 3 4 3 0, HOST_C2L 6,
    R0 3 0 1 2 5 7 0, HOST_C2L 7, R0 2 3 0 1 6 11 0, HOST_C2L 8, R0 1 2 3 0 7 19 0, HOST_C2L 9,
    R0 0 1 2 3 8 3 0, HOST_C2L 10, R0 3 0 1 2 9 7 0, HOST_C2L 11, R0 2 3 0 1 10 11 0,
    HOST_C2L 12, R0 1 2 3 0 11 19 0, HOST_C2L 13, R0 0 1 2 3 12 3 0, HOST_C2L 14,
    R0 3 0 1 2 13 7 0, HOST_C2L 15, R0 2 3 0 1 14 11 0, R0 1 2 3 0 15 19 0,
    R1 0 1 2 3 0 3 0x5a827999, R1 3 0 1 2 4 5 0x5a827999, R1 2 3 0 1 8 9 0x5a827999,
    R1 1 2 3 0 12 13 0x5a827999, R1 0 1 2 3 1 3 0x5a827999, R1 3 0 1 2 5 5 0x5a827999,
    R1 2 3 0 1 9 9 0x5a827999, R1 1 2 3 0 13 13 0x5a827999, R1 0 1 2 3 2 3 0x5a827999,
    R1 3 0 1 2 6 5 0x5a827999, R1 2 3 0 1 10 9 0x5a827999, R1 1 2 3 0 14 13 0x5a827999,
    R1 0 1 2 3 3 3 0x5a827999, R1 3 0 1 2 7 5 0x5a827999, R1 2 3 0 1 11 9 0x5a827999,
    R1 1 2 3 0 15 13 0x5a827999, R2 0 1 2 3 0 3 0x6ed9eba1, R2 3 0 1 2 8 9 0x6ed9eba1,
    R2 2 3 0 1 4 11 0x6ed9eba1, R2 1 2 3 0 12 15 0x6ed9eba1, R2 0 1 2 3 2 3 0x6ed9eba1,
    R2 3 0 1 2 10 9 0x6ed9eba1, R2 2 3 0 1 6 11 0x6ed9eba1, R2 1 2 3 0 14 15 0x6ed9eba1,
    R2 0 1 2 3 1 3 0x6ed9eba1, R2 3 0 1 2 9 9 0x6ed9eba1, R2 2 3 0 1 5 11 0x6ed9eba1,
    R2 1 2 3 0 13 15 0x6ed9eba1, R2 0 1 2 3 3 3 0x6ed9eba1, R2 3 0 1 2 11 9 0x6ed9eba1,
    R2 2 3 0 1 7 11 0x6ed9eba1, R2 1 2 3 0 15 15 0x6ed9eba1]"

definition md5_calls :: "md_call list" where
  "md5_calls = [
      HOST_C2L 0, HOST_C2L 1, R0 0 1 2 3 0 7 0xd76aa478, HOST_C2L 2, R0 3 0 1 2 1 12 0xe8c7b756,
    HOST_C2L 3, R0 2 3 0 1 2 17 0x242070db, HOST_C2L 4, R0 1 2 3 0 3 22 0xc1bdceee, HOST_C2L 5,
    R0 0 1 2 3 4 7 0xf57c0faf, HOST_C2L 6, R0 3 0 1 2 5 12 0x4787c62a, HOST_C2L 7,
    R0 2 3 0 1 6 17 0xa8304613, HOST_C2L 8, R0 1 2 3 0 7 22 0xfd469501, HOST_C2L 9,
    R0 0 1 2 3 8 7 0x698098d8, HOST_C2L 10, R0 3 0 1 2 9 12 0x8b44f7af, HOST_C2L 11,
    R0 2 3 0 1 10 17 0xffff5bb1, HOST_C2L 12, R0 1 2 3 0 11 22 0x895cd7be, HOST_C2L 13,
    R0 0 1 2 3 12 7 0x6b901122, HOST_C2L 14, R0 3 0 1 2 13 12 0xfd987193, HOST_C2L 15,
    R0 2 3 0 1 14 17 0xa679438e, R0 1 2 3 0 15 22 0x49b40821, R1 0 1 2 3 1 5 0xf61e2562,
    R1 3 0 1 2 6 9 0xc040b340, R1 2 3 0 1 11 14 0x265e5a51, R1 1 2 3 0 0 20 0xe9b6c7aa,
    R1 0 1 2 3 5 5 0xd62f105d, R1 3 0 1 2 10 9 0x02441453, R1 2 3 0 1 15 14 0xd8a1e681,
    R1 1 2 3 0 4 20 0xe7d3fbc8, R1 0 1 2 3 9 5 0x21e1cde6, R1 3 0 1 2 14 9 0xc33707d6,
    R1 2 3 0 1 3 14 0xf4d50d87, R1 1 2 3 0 8 20 0x455a14ed, R1 0 1 2 3 13 5 0xa9e3e905,
    R1 3 0 1 2 2 9 0xfcefa3f8, R1 2 3 0 1 7 14 0x676f02d9, R1 1 2 3 0 12 20 0x8d2a4c8a,
    R2 0 1 2 3 5 4 0xfffa3942, R2 3 0 1 2 8 11 0x8771f681, R2 2 3 0 1 11 16 0x6d9d6122,
    R2 1 2 3 0 14 23 0xfde5380c, R2 0 1 2 3 1 4 0xa4beea44, R2 3 0 1 2 4 11 0x4bdecfa9,
    R2 2 3 0 1 7 16 0xf6bb4b60, R2 1 2 3 0 10 23 0xbebfbc70, R2 0 1 2 3 13 4 0x289b7ec6,
    R2 3 0 1 2 0 11 0xeaa127fa, R2 2 3 0 1 3 16 0xd4ef3085, R2 1 2 3 0 6 23 0x04881d05,
    R2 0 1 2 3 9 4 0xd9d4d039, R2 3 0 1 2 12 11 0xe6db99e5, R2 2 3 0 1 15 16 0x1fa27cf8,
    R2 1 2 3 0 2 23 0xc4ac5665, R3 0 1 2 3 0 6 0xf4292244, R3 3 0 1 2 7 10 0x432aff97,
    R3 2 3 0 1 14 15 0xab9423a7, R3 1 2 3 0 5 21 0xfc93a039, R3 0 1 2 3 12 6 0x655b59c3,
    R3 3 0 1 2 3 10 0x8f0ccc92, R3 2 3 0 1 10 15 0xffeff47d, R3 1 2 3 0 1 21 0x85845dd1,
    R3 0 1 2 3 8 6 0x6fa87e4f, R3 3 0 1 2 15 10 0xfe2ce6e0, R3 2 3 0 1 6 15 0xa3014314,
    R3 1 2 3 0 13 21 0x4e0811a1, R3 0 1 2 3 4 6 0xf7537e82, R3 3 0 1 2 11 10 0xbd3af235,
    R3 2 3 0 1 2 15 0x2ad7d2bb, R3 1 2 3 0 9 21 0xeb86d391]"

text \<open>The body of the loop over the blocks, for one block, and the loop.  The local \<open>XX0\<close> to
  \<open>XX15\<close> start uninitialised; they are written before they are read.\<close>

definition md_block :: "(md_call \<Rightarrow> u32 list \<Rightarrow> u32 list \<Rightarrow> u32 list) \<Rightarrow> md_call list \<Rightarrow> u32 list \<Rightarrow> bytes \<Rightarrow> u32 list" where
  "md_block m calls state data =
     (let (r, X, rest) = fold (md_exec m) calls ([state ! 0, state ! 1, state ! 2, state ! 3], replicate 16 0, data)
      in [state ! 0 + r ! 0, state ! 1 + r ! 1, state ! 2 + r ! 2, state ! 3 + r ! 3])"

fun md4_block_data_order :: "u32 list \<Rightarrow> bytes \<Rightarrow> nat \<Rightarrow> u32 list" where
  "md4_block_data_order state data 0 = state"
| "md4_block_data_order state data (Suc n) =
     md4_block_data_order (md_block md4_macro md4_calls state data) (drop 64 data) n"

fun md5_block_data_order :: "u32 list \<Rightarrow> bytes \<Rightarrow> nat \<Rightarrow> u32 list" where
  "md5_block_data_order state data 0 = state"
| "md5_block_data_order state data (Suc n) =
     md5_block_data_order (md_block md5_macro md5_calls state data) (drop 64 data) n"

section \<open>The interface\<close>

definition MD4_Init :: md32_ctx where
  "MD4_Init = \<lparr>hs = [0x67452301, 0xefcdab89, 0x98badcfe, 0x10325476], Nl = 0, Nh = 0,
     cdata = replicate 64 0, num = 0\<rparr>"

definition MD4_Update :: "md32_ctx \<Rightarrow> bytes \<Rightarrow> md32_ctx" where
  "MD4_Update = HASH_UPDATE md4_block_data_order"

definition MD4_Final :: "md32_ctx \<Rightarrow> md32_ctx \<times> bytes option" where
  "MD4_Final = HASH_FINAL md4_block_data_order False (\<lambda>c. Some (words_out False 4 (hs c)))"

definition MD4 :: "bytes \<Rightarrow> bytes option" where
  "MD4 data = snd (MD4_Final (MD4_Update MD4_Init data))"

definition MD5_Init :: md32_ctx where
  "MD5_Init = \<lparr>hs = [0x67452301, 0xefcdab89, 0x98badcfe, 0x10325476], Nl = 0, Nh = 0,
     cdata = replicate 64 0, num = 0\<rparr>"

definition MD5_Update :: "md32_ctx \<Rightarrow> bytes \<Rightarrow> md32_ctx" where
  "MD5_Update = HASH_UPDATE md5_block_data_order"

definition MD5_Final :: "md32_ctx \<Rightarrow> md32_ctx \<times> bytes option" where
  "MD5_Final = HASH_FINAL md5_block_data_order False (\<lambda>c. Some (words_out False 4 (hs c)))"

definition MD5 :: "bytes \<Rightarrow> bytes option" where
  "MD5 data = snd (MD5_Final (MD5_Update MD5_Init data))"

section \<open>RFC 1320 and RFC 1321\<close>

text \<open>The auxiliary functions as the RFCs state them; the operation of round \<open>i div 16\<close>.\<close>

definition rfc_F :: "u32 \<Rightarrow> u32 \<Rightarrow> u32 \<Rightarrow> u32" where "rfc_F x y z = (x AND y) OR (NOT x AND z)"

definition rfc1320_fun :: "nat \<Rightarrow> u32 \<Rightarrow> u32 \<Rightarrow> u32 \<Rightarrow> u32" where
  "rfc1320_fun i x y z =
     (if i < 16 then rfc_F x y z
      else if i < 32 then (x AND y) OR (x AND z) OR (y AND z)
      else x XOR y XOR z)"

definition rfc1321_fun :: "nat \<Rightarrow> u32 \<Rightarrow> u32 \<Rightarrow> u32 \<Rightarrow> u32" where
  "rfc1321_fun i x y z =
     (if i < 16 then rfc_F x y z
      else if i < 32 then (x AND z) OR (y AND NOT z)
      else if i < 48 then x XOR y XOR z
      else y XOR (x OR NOT z))"

definition rfc1320_k :: "nat \<Rightarrow> nat" where
  "rfc1320_k i = (if i < 16 then i else if i < 32 then i mod 4 * 4 + (i - 16) div 4
     else [0, 8, 4, 12, 2, 10, 6, 14, 1, 9, 5, 13, 3, 11, 7, 15] ! (i - 32))"

definition rfc1321_k :: "nat \<Rightarrow> nat" where
  "rfc1321_k i = (if i < 16 then i else if i < 32 then 5 * i + 1 else if i < 48 then 3 * i + 5 else 7 * i) mod 16"

definition rfc1320_s :: "nat \<Rightarrow> nat" where
  "rfc1320_s i = [[3, 7, 11, 19], [3, 5, 9, 13], [3, 9, 11, 15]] ! (i div 16) ! (i mod 4)"

definition rfc1321_s :: "nat \<Rightarrow> nat" where
  "rfc1321_s i = [[7, 12, 17, 22], [5, 9, 14, 20], [4, 11, 16, 23], [6, 10, 15, 21]] ! (i div 16) ! (i mod 4)"

definition rfc1320_T :: "nat \<Rightarrow> u32" where
  "rfc1320_T i = (if i < 16 then 0 else if i < 32 then 0x5a827999 else 0x6ed9eba1)"

text \<open>\<open>T[i + 1]\<close> of RFC 1321, the integer part of \<open>2 ^ 32 * abs (sin (i + 1))\<close>.\<close>

definition rfc1321_T :: "nat \<Rightarrow> u32" where
  "rfc1321_T i = [
      0xd76aa478, 0xe8c7b756, 0x242070db, 0xc1bdceee, 0xf57c0faf, 0x4787c62a, 0xa8304613,
    0xfd469501, 0x698098d8, 0x8b44f7af, 0xffff5bb1, 0x895cd7be, 0x6b901122, 0xfd987193,
    0xa679438e, 0x49b40821, 0xf61e2562, 0xc040b340, 0x265e5a51, 0xe9b6c7aa, 0xd62f105d,
    0x02441453, 0xd8a1e681, 0xe7d3fbc8, 0x21e1cde6, 0xc33707d6, 0xf4d50d87, 0x455a14ed,
    0xa9e3e905, 0xfcefa3f8, 0x676f02d9, 0x8d2a4c8a, 0xfffa3942, 0x8771f681, 0x6d9d6122,
    0xfde5380c, 0xa4beea44, 0x4bdecfa9, 0xf6bb4b60, 0xbebfbc70, 0x289b7ec6, 0xeaa127fa,
    0xd4ef3085, 0x04881d05, 0xd9d4d039, 0xe6db99e5, 0x1fa27cf8, 0xc4ac5665, 0xf4292244,
    0x432aff97, 0xab9423a7, 0xfc93a039, 0x655b59c3, 0x8f0ccc92, 0xffeff47d, 0x85845dd1,
    0x6fa87e4f, 0xfe2ce6e0, 0xa3014314, 0x4e0811a1, 0xf7537e82, 0xbd3af235, 0x2ad7d2bb,
    0xeb86d391] ! i"

fun rfc1320_step :: "bytes \<Rightarrow> nat \<Rightarrow> u32 \<times> u32 \<times> u32 \<times> u32 \<Rightarrow> u32 \<times> u32 \<times> u32 \<times> u32" where
  "rfc1320_step M i (a, b, c, d) =
     (d, word_rotl (rfc1320_s i) (a + rfc1320_fun i b c d + block_word False M (rfc1320_k i) + rfc1320_T i), b, c)"

fun rfc1321_step :: "bytes \<Rightarrow> nat \<Rightarrow> u32 \<times> u32 \<times> u32 \<times> u32 \<Rightarrow> u32 \<times> u32 \<times> u32 \<times> u32" where
  "rfc1321_step M i (a, b, c, d) =
     (d, b + word_rotl (rfc1321_s i) (a + rfc1321_fun i b c d + block_word False M (rfc1321_k i) + rfc1321_T i), b, c)"

definition rfc_compress :: "(bytes \<Rightarrow> nat \<Rightarrow> u32 \<times> u32 \<times> u32 \<times> u32 \<Rightarrow> u32 \<times> u32 \<times> u32 \<times> u32) \<Rightarrow> nat \<Rightarrow>
    u32 list \<Rightarrow> bytes \<Rightarrow> u32 list" where
  "rfc_compress step n s M =
     (case fold (step M) [0..<n] (s ! 0, s ! 1, s ! 2, s ! 3) of
        (a, b, c, d) \<Rightarrow> [s ! 0 + a, s ! 1 + b, s ! 2 + c, s ! 3 + d])"

definition rfc_digest :: "(u32 list \<Rightarrow> bytes \<Rightarrow> u32 list) \<Rightarrow> bytes \<Rightarrow> bytes" where
  "rfc_digest f msg =
     words_out False 4 (fold_blocks f 64 [0x67452301, 0xefcdab89, 0x98badcfe, 0x10325476]
       (md_pad 64 8 (md_length_le 8 msg) msg))"

definition rfc1320_md4 :: "bytes \<Rightarrow> bytes" where
  "rfc1320_md4 = rfc_digest (rfc_compress rfc1320_step 48)"

definition rfc1321_md5 :: "bytes \<Rightarrow> bytes" where
  "rfc1321_md5 = rfc_digest (rfc_compress rfc1321_step 64)"

section \<open>The unrolled rounds\<close>

text \<open>The index of the word a call reads, and the calls that read no word.\<close>

fun call_k :: "md_call \<Rightarrow> nat" where
  "call_k (HOST_C2L i) = i"
| "call_k (R0 a b c d k s t) = k"
| "call_k (R1 a b c d k s t) = k"
| "call_k (R2 a b c d k s t) = k"
| "call_k (R3 a b c d k s t) = k"

fun is_load :: "md_call \<Rightarrow> bool" where
  "is_load (HOST_C2L i) = True"
| "is_load _ = False"

text \<open>Words are loaded in order and read after they are loaded.\<close>

fun loads_ok :: "nat \<Rightarrow> md_call list \<Rightarrow> bool" where
  "loads_ok j [] = True"
| "loads_ok j (cl # cls) =
     (if is_load cl then call_k cl = j \<and> j < 16 \<and> loads_ok (Suc j) cls else call_k cl < j \<and> loads_ok j cls)"

text \<open>A call reads the word of its index only.\<close>

definition call_local :: "(md_call \<Rightarrow> u32 list \<Rightarrow> u32 list \<Rightarrow> u32 list) \<Rightarrow> bool" where
  "call_local m \<longleftrightarrow> (\<forall>cl X Y. X ! call_k cl = Y ! call_k cl \<longrightarrow> m cl X = m cl Y)"

lemma call_localD: "call_local m \<Longrightarrow> X ! call_k cl = Y ! call_k cl \<Longrightarrow> m cl X = m cl Y"
  unfolding call_local_def by blast

definition block_words :: "bytes \<Rightarrow> u32 list" where
  "block_words M = map (block_word False M) [0..<16]"

lemma md_loads:
  assumes m: "call_local m"
    and M: "64 \<le> length M"
  shows "loads_ok j cls \<Longrightarrow> length X = 16 \<Longrightarrow> j \<le> 16 \<Longrightarrow> (\<forall>i<j. X ! i = block_words M ! i) \<Longrightarrow>
    fst (fold (md_exec m) cls (r, X, drop (4 * j) M)) =
      fold (\<lambda>cl. m cl (block_words M)) (filter (\<lambda>cl. \<not> is_load cl) cls) r"
proof (induction cls arbitrary: j r X)
  case (Cons cl cls)
  show ?case
  proof (cases "is_load cl")
    case True
    then obtain i where cl: "cl = HOST_C2L i" by (cases cl) auto
    have j: "i = j" "j < 16" "loads_ok (Suc j) cls" using Cons.prems(1) True by (simp_all add: cl)
    have w: "HOST_c2l False (drop (4 * j) M) = block_words M ! j"
      using j M by (simp add: HOST_c2l_word block_words_def)
    have "\<forall>k<Suc j. X[j := HOST_c2l False (drop (4 * j) M)] ! k = block_words M ! k"
      using Cons.prems(2,4) j w by (auto simp: less_Suc_eq nth_list_update)
    moreover have "drop 4 (drop (4 * j) M) = drop (4 * Suc j) M" by simp
    ultimately show ?thesis
      using Cons.IH [of "Suc j" "X[j := HOST_c2l False (drop (4 * j) M)]" r] Cons.prems(2) j True
      by (simp add: cl)
  next
    case False
    then have k: "call_k cl < j" "loads_ok j cls" using Cons.prems(1) by simp_all
    then have "m cl X = m cl (block_words M)" using Cons.prems(4) by (intro call_localD [OF m]) simp
    moreover have "md_exec m cl (r, X, drop (4 * j) M) = (m cl X r, X, drop (4 * j) M)"
      using False by (cases cl) simp_all
    ultimately show ?thesis using Cons.IH [OF k(2)] Cons.prems False by simp
  qed
qed simp

text \<open>What the parts played by the four registers hold.\<close>

definition view :: "nat \<Rightarrow> u32 list \<Rightarrow> u32 \<times> u32 \<times> u32 \<times> u32" where
  "view i r = (r ! role 4 i 0, r ! role 4 i 1, r ! role 4 i 2, r ! role 4 i 3)"

lemma view_update:
  assumes "length r = 4"
  shows "view (Suc i) (r[role 4 i 0 := x]) = (r ! role 4 i 3, x, r ! role 4 i 1, r ! role 4 i 2)"
proof -
  have "role 4 (Suc i) 0 = role 4 i 3" using role_Suc_0 [of 4 i] by simp
  moreover have "role 4 (Suc i) 1 = role 4 i 0" "role 4 (Suc i) 2 = role 4 i 1" "role 4 (Suc i) 3 = role 4 i 2"
    using role_Suc_Suc [of 4 i 0] role_Suc_Suc [of 4 i 1] role_Suc_Suc [of 4 i 2] by (simp_all add: numeral_eq_Suc)
  ultimately show ?thesis
    using assms by (simp add: view_def role_eq nth_list_update)
qed

text \<open>If the \<open>i\<close>-th call is a step of the reference, so is the whole sequence.\<close>

lemma rounds_fold:
  assumes "\<And>i r. i < n \<Longrightarrow> length r = 4 \<Longrightarrow>
      length (f i r) = 4 \<and> view (Suc i) (f i r) = step i (view i r)"
  shows "length r = 4 \<Longrightarrow> length (fold f [0..<n] r) = 4 \<and> view n (fold f [0..<n] r) = fold step [0..<n] (view 0 r)"
  using assms
proof (induction n)
  case (Suc n)
  then have "length (fold f [0..<n] r) = 4 \<and> view n (fold f [0..<n] r) = fold step [0..<n] (view 0 r)" by simp
  with Suc.prems(2) [of n "fold f [0..<n] r"] show ?case by simp
qed simp

lemma F_rfc: "md5_F b c d = rfc_F b c d"
  by (rule bit_word_eqI) (auto simp: md5_F_def rfc_F_def bit_simps)

lemma G_rfc: "md5_G b c d = (b AND d) OR (c AND NOT d)"
  by (rule bit_word_eqI) (auto simp: md5_G_def bit_simps)

lemma I_rfc: "md5_I b c d = c XOR (b OR NOT d)"
  by (rule bit_word_eqI) (auto simp: md5_I_def bit_simps)

definition md5_call :: "nat \<Rightarrow> md_call" where
  "md5_call i =
     (if i < 16 then R0 else if i < 32 then R1 else if i < 48 then R2 else R3)
       (role 4 i 0) (role 4 i 1) (role 4 i 2) (role 4 i 3) (rfc1321_k i) (rfc1321_s i) (rfc1321_T i)"

definition md4_call :: "nat \<Rightarrow> md_call" where
  "md4_call i =
     (if i < 16 then R0 else if i < 32 then R1 else R2)
       (role 4 i 0) (role 4 i 1) (role 4 i 2) (role 4 i 3) (rfc1320_k i) (rfc1320_s i) (rfc1320_T i)"

lemma md5_calls_table: "filter (\<lambda>cl. \<not> is_load cl) md5_calls = map md5_call [0..<64] \<and> loads_ok 0 md5_calls"
  by code_simp

lemma md4_calls_table: "filter (\<lambda>cl. \<not> is_load cl) md4_calls = map md4_call [0..<48] \<and> loads_ok 0 md4_calls"
  by code_simp

lemma md5_tables: "i < 64 \<Longrightarrow> 0 < rfc1321_s i \<and> rfc1321_s i < 32 \<and> rfc1321_k i < 16"
proof -
  have "list_all (\<lambda>i. 0 < rfc1321_s i \<and> rfc1321_s i < 32 \<and> rfc1321_k i < 16) [0..<64]" by code_simp
  then show "i < 64 \<Longrightarrow> 0 < rfc1321_s i \<and> rfc1321_s i < 32 \<and> rfc1321_k i < 16" by (simp add: list_all_iff)
qed

lemma md4_tables: "i < 48 \<Longrightarrow> 0 < rfc1320_s i \<and> rfc1320_s i < 32 \<and> rfc1320_k i < 16"
proof -
  have "list_all (\<lambda>i. 0 < rfc1320_s i \<and> rfc1320_s i < 32 \<and> rfc1320_k i < 16) [0..<48]" by code_simp
  then show "i < 48 \<Longrightarrow> 0 < rfc1320_s i \<and> rfc1320_s i < 32 \<and> rfc1320_k i < 16" by (simp add: list_all_iff)
qed

lemma md5_R_update:
  assumes "a < length r" "a \<noteq> b"
  shows "md5_R f a b c d k s t r = r[a := r ! b + ROTATE (r ! a + f (r ! b) (r ! c) (r ! d) + k + t) s]"
proof -
  have "r ! a + (k + t + f (r ! b) (r ! c) (r ! d)) = r ! a + f (r ! b) (r ! c) (r ! d) + k + t" by simp
  with assms show ?thesis by (simp only: md5_R_def Let_def list_update_overwrite nth_list_update_eq
      nth_list_update_neq length_list_update add.commute [of "r ! b"] not_False_eq_True)
qed

lemma md4_R_update:
  assumes "a < length r"
  shows "md4_R f a b c d k s t r = r[a := ROTATE (r ! a + f (r ! b) (r ! c) (r ! d) + k + t) s]"
proof -
  have "r ! a + (k + t + f (r ! b) (r ! c) (r ! d)) = r ! a + f (r ! b) (r ! c) (r ! d) + k + t" by simp
  with assms show ?thesis by (simp only: md4_R_def Let_def list_update_overwrite nth_list_update_eq length_list_update)
qed

lemma md5_round:
  assumes "i < 64" "length r = 4"
  shows "length (md5_macro (md5_call i) (block_words M) r) = 4 \<and>
    view (Suc i) (md5_macro (md5_call i) (block_words M) r) = rfc1321_step M i (view i r)"
proof -
  define f where "f = (if i < 16 then md5_F else if i < 32 then md5_G else if i < 48 then md5_H else md5_I)"
  have macro: "md5_macro (md5_call i) X = md5_R f (role 4 i 0) (role 4 i 1) (role 4 i 2) (role 4 i 3)
      (X ! rfc1321_k i) (rfc1321_s i) (rfc1321_T i)" for X
    by (simp add: md5_call_def f_def)
  have f: "f x y z = rfc1321_fun i x y z" for x y z
    by (simp add: f_def rfc1321_fun_def F_rfc G_rfc I_rfc md5_H_def)
  have "block_words M ! rfc1321_k i = block_word False M (rfc1321_k i)"
    using md5_tables [OF assms(1)] by (simp add: block_words_def)
  with assms md5_tables [OF assms(1)] show ?thesis
    by (simp add: macro f md5_R_update view_update role_eq ROTATE_rotl) (simp add: view_def)
qed

lemma md4_round:
  assumes "i < 48" "length r = 4"
  shows "length (md4_macro (md4_call i) (block_words M) r) = 4 \<and>
    view (Suc i) (md4_macro (md4_call i) (block_words M) r) = rfc1320_step M i (view i r)"
proof -
  define f where "f = (if i < 16 then md5_F else if i < 32 then md4_G else md5_H)"
  have macro: "md4_macro (md4_call i) X = md4_R f (role 4 i 0) (role 4 i 1) (role 4 i 2) (role 4 i 3)
      (X ! rfc1320_k i) (rfc1320_s i) (rfc1320_T i)" for X
    by (simp add: md4_call_def f_def)
  have f: "f x y z = rfc1320_fun i x y z" for x y z
    by (simp add: f_def rfc1320_fun_def F_rfc md4_G_def md5_H_def)
  have "block_words M ! rfc1320_k i = block_word False M (rfc1320_k i)"
    using md4_tables [OF assms(1)] by (simp add: block_words_def)
  with assms md4_tables [OF assms(1)] show ?thesis
    by (simp add: macro f md4_R_update view_update role_eq ROTATE_rotl) (simp add: view_def)
qed

text \<open>A block function depends on the words of its block only; one whose calls are the reference
  steps is the reference compression.\<close>

lemma md_block_words:
  assumes m: "call_local m"
    and calls: "filter (\<lambda>cl. \<not> is_load cl) calls = map f [0..<n] \<and> loads_ok 0 calls"
    and data: "64 \<le> length data"
  shows "md_block m calls s data =
    (let r = fold (\<lambda>i. m (f i) (block_words data)) [0..<n] [s ! 0, s ! 1, s ! 2, s ! 3]
     in [s ! 0 + r ! 0, s ! 1 + r ! 1, s ! 2 + r ! 2, s ! 3 + r ! 3])"
proof -
  let ?r = "[s ! 0, s ! 1, s ! 2, s ! 3]"
  let ?v = "fold (\<lambda>i. m (f i) (block_words data)) [0..<n] ?r"
  obtain r X rest where e: "fold (md_exec m) calls (?r, replicate 16 0, data) = (r, X, rest)"
    by (rule prod_cases3)
  have "r = ?v"
    using md_loads [where j = 0, OF m data, of calls "replicate 16 0" ?r] calls e
    by (simp add: fold_map comp_def)
  with e show ?thesis unfolding md_block_def Let_def by (simp only: prod.case)
qed

lemma md_block_take:
  assumes m: "call_local m"
    and calls: "filter (\<lambda>cl. \<not> is_load cl) calls = map f [0..<n] \<and> loads_ok 0 calls"
    and data: "64 \<le> length data"
  shows "md_block m calls s (take 64 data) = md_block m calls s data"
proof -
  have "block_words (take 64 data) = block_words data" by (simp add: block_words_def block_word_take)
  moreover have "64 \<le> length (take 64 data)" using data by simp
  ultimately show ?thesis by (simp only: md_block_words [OF m calls data] md_block_words [OF m calls])
qed

lemma md_block_compress:
  assumes m: "call_local m"
    and calls: "filter (\<lambda>cl. \<not> is_load cl) calls = map f [0..<n] \<and> loads_ok 0 calls"
    and rounds: "\<And>i r. i < n \<Longrightarrow> length r = 4 \<Longrightarrow>
      length (m (f i) (block_words data) r) = 4 \<and>
      view (Suc i) (m (f i) (block_words data) r) = step data i (view i r)"
    and n: "n mod 4 = 0" and data: "64 \<le> length data"
  shows "md_block m calls s data = rfc_compress step n s data"
proof -
  let ?r = "[s ! 0, s ! 1, s ! 2, s ! 3]"
  let ?v = "fold (\<lambda>i. m (f i) (block_words data)) [0..<n] ?r"
  have role: "role 4 n k = k" "role 4 0 k = k" if "k < 4" for k
    using n that by (simp_all add: role_dvd mod_eq_0_iff_dvd)
  have "view n ?v = fold (step data) [0..<n] (view 0 ?r)"
    using rounds_fold [of n "\<lambda>i. m (f i) (block_words data)" "step data" ?r] rounds by simp
  then have "fold (step data) [0..<n] (s ! 0, s ! 1, s ! 2, s ! 3) = (?v ! 0, ?v ! 1, ?v ! 2, ?v ! 3)"
    by (simp add: view_def role)
  then show ?thesis
    unfolding md_block_words [OF m calls data] rfc_compress_def by (simp add: Let_def)
qed

lemma md5_macro_local: "call_local md5_macro"
proof (unfold call_local_def, intro allI impI)
  show "md5_macro cl X = md5_macro cl Y" if "X ! call_k cl = Y ! call_k cl" for cl X Y
    using that by (cases cl) simp_all
qed

lemma md4_macro_local: "call_local md4_macro"
proof (unfold call_local_def, intro allI impI)
  show "md4_macro cl X = md4_macro cl Y" if "X ! call_k cl = Y ! call_k cl" for cl X Y
    using that by (cases cl) simp_all
qed

lemma md5_block_rfc: "64 \<le> length data \<Longrightarrow> md_block md5_macro md5_calls s data = rfc_compress rfc1321_step 64 s data"
  by (rule md_block_compress [where f = md5_call, OF md5_macro_local md5_calls_table]) (simp_all add: md5_round)

lemma md4_block_rfc: "64 \<le> length data \<Longrightarrow> md_block md4_macro md4_calls s data = rfc_compress rfc1320_step 48 s data"
  by (rule md_block_compress [where f = md4_call, OF md4_macro_local md4_calls_table]) (simp_all add: md4_round)

section \<open>The block functions honour the contract\<close>

interpretation md4: md32_digest md4_block_data_order
  unfolding md32_digest_def
  by (rule block_function_loop [where blk = "md_block md4_macro md4_calls"])
    (simp_all add: md_block_take [OF md4_macro_local md4_calls_table])

interpretation md5: md32_digest md5_block_data_order
  unfolding md32_digest_def
  by (rule block_function_loop [where blk = "md_block md5_macro md5_calls"])
    (simp_all add: md_block_take [OF md5_macro_local md5_calls_table])

section \<open>Correctness\<close>

text \<open>The two functions agree with the RFCs on whole blocks, hence on padded messages.\<close>

lemma md4_one: "length b = 64 \<Longrightarrow> md4_block_data_order s b 1 = rfc_compress rfc1320_step 48 s b"
  by (simp add: md4_block_rfc)

lemma md5_one: "length b = 64 \<Longrightarrow> md5_block_data_order s b 1 = rfc_compress rfc1321_step 64 s b"
  by (simp add: md5_block_rfc)

lemma MD4_stream:
  "snd (MD4_Final (foldl MD4_Update MD4_Init inps)) = Some (rfc1320_md4 (concat inps))"
  unfolding MD4_Final_def MD4_Update_def rfc1320_md4_def rfc_digest_def
  by (subst md4.stream_digest [OF _ _ _ _ md4_one]) (simp_all add: MD4_Init_def)

text \<open>C35. MD4, fed a message in any pieces, returns the digest that RFC 1320 defines for the
  message (with its length taken modulo 2 to the 64 bits), and so does the one-shot function.\<close>

theorem MD4_correct:
  "snd (MD4_Final (foldl MD4_Update MD4_Init inps)) = Some (rfc1320_md4 (concat inps)) \<and>
   MD4 (concat inps) = Some (rfc1320_md4 (concat inps))"
  using MD4_stream [of inps] MD4_stream [of "[concat inps]"] by (simp add: MD4_def)

lemma MD5_stream:
  "snd (MD5_Final (foldl MD5_Update MD5_Init inps)) = Some (rfc1321_md5 (concat inps))"
  unfolding MD5_Final_def MD5_Update_def rfc1321_md5_def rfc_digest_def
  by (subst md5.stream_digest [OF _ _ _ _ md5_one]) (simp_all add: MD5_Init_def)

text \<open>C17. MD5, fed a message in any pieces, returns the digest that RFC 1321 defines for the
  message (with its length taken modulo 2 to the 64 bits), and so does the one-shot function.\<close>

theorem MD5_correct:
  "snd (MD5_Final (foldl MD5_Update MD5_Init inps)) = Some (rfc1321_md5 (concat inps)) \<and>
   MD5 (concat inps) = Some (rfc1321_md5 (concat inps))"
  using MD5_stream [of inps] MD5_stream [of "[concat inps]"] by (simp add: MD5_def)

end
