(* ===== verification/Sha1.thy ===== *)
theory Sha1
  imports Md32 "HOL-Library.Code_Target_Nat"
begin

text \<open>
  \<^verbatim>\<open>BoringSSL/crypto/fipsmodule/sha/sha1.c\<close>.  The 80 unrolled rounds are the list of their
  macro invocations in the order of the source: the registers \<open>A, B, C, D, E, T\<close> are numbered 0
  to 5, \<open>X(i)\<close> is given by its index, and the words of the message schedule live in a ring of 16.
  They are proved equal to SHA-1 of FIPS 180-4, whose schedule has 80 words and whose working
  variables are moved in every round.
\<close>

section \<open>The macros\<close>

text \<open>\<open>HOST_C2L i\<close> is the pair \<open>HOST_c2l(data, l); X(i) = l;\<close>, the other constructors are the
  macros of the source with their arguments \<open>i, a, b, c, d, e, f\<close> and the indices of the words.\<close>

datatype sha1_call =
    HOST_C2L nat
  | BODY_00_15 nat nat nat nat nat nat nat nat
  | BODY_16_19 nat nat nat nat nat nat nat nat nat nat nat nat
  | BODY_20_31 nat nat nat nat nat nat nat nat nat nat nat nat
  | BODY_32_39 nat nat nat nat nat nat nat nat nat nat nat
  | BODY_40_59 nat nat nat nat nat nat nat nat nat nat nat
  | BODY_60_79 nat nat nat nat nat nat nat nat nat nat nat

definition K_00_19 :: u32 where "K_00_19 = 0x5a827999"
definition K_20_39 :: u32 where "K_20_39 = 0x6ed9eba1"
definition K_40_59 :: u32 where "K_40_59 = 0x8f1bbcdc"
definition K_60_79 :: u32 where "K_60_79 = 0xca62c1d6"

definition F_00_19 :: "u32 \<Rightarrow> u32 \<Rightarrow> u32 \<Rightarrow> u32" where "F_00_19 b c d = ((c XOR d) AND b) XOR d"
definition F_20_39 :: "u32 \<Rightarrow> u32 \<Rightarrow> u32 \<Rightarrow> u32" where "F_20_39 b c d = b XOR c XOR d"
definition F_40_59 :: "u32 \<Rightarrow> u32 \<Rightarrow> u32 \<Rightarrow> u32" where "F_40_59 b c d = (b AND c) OR ((b OR c) AND d)"
definition F_60_79 :: "u32 \<Rightarrow> u32 \<Rightarrow> u32 \<Rightarrow> u32" where "F_60_79 b c d = F_20_39 b c d"

text \<open>\<open>Xupdate\<close> computes into the register \<open>f\<close> and stores in the word \<open>ix\<close>.\<close>

definition Xupdate :: "nat \<Rightarrow> nat \<Rightarrow> nat \<Rightarrow> nat \<Rightarrow> nat \<Rightarrow> nat \<Rightarrow> u32 list \<times> u32 list \<Rightarrow> u32 list \<times> u32 list" where
  "Xupdate f ix ia ib ic ie rX =
     (let (r, X) = rX;
          r = r[f := X ! ia XOR X ! ib XOR X ! ic XOR X ! ie];
          r = r[f := ROTATE (r ! f) 1]
      in (r, X[ix := r ! f]))"

text \<open>\<open>f += ...; b = ROTATE(b, 30)\<close> and \<open>f = x + ...; b = ROTATE(b, 30)\<close>.\<close>

definition body_add :: "(u32 \<Rightarrow> u32 \<Rightarrow> u32 \<Rightarrow> u32) \<Rightarrow> u32 \<Rightarrow> nat \<Rightarrow> nat \<Rightarrow> nat \<Rightarrow> nat \<Rightarrow> nat \<Rightarrow> nat \<Rightarrow> u32 list \<Rightarrow> u32 list" where
  "body_add F K a b c d e f r =
     (let r = r[f := r ! f + (r ! e + K + ROTATE (r ! a) 5 + F (r ! b) (r ! c) (r ! d))]
      in r[b := ROTATE (r ! b) 30])"

definition body_set :: "(u32 \<Rightarrow> u32 \<Rightarrow> u32 \<Rightarrow> u32) \<Rightarrow> u32 \<Rightarrow> u32 \<Rightarrow> nat \<Rightarrow> nat \<Rightarrow> nat \<Rightarrow> nat \<Rightarrow> nat \<Rightarrow> nat \<Rightarrow> u32 list \<Rightarrow> u32 list" where
  "body_set F K x a b c d e f r =
     (let r = r[f := x + r ! e + K + ROTATE (r ! a) 5 + F (r ! b) (r ! c) (r ! d)]
      in r[b := ROTATE (r ! b) 30])"

text \<open>An invocation on the registers, the words and the input pointer.\<close>

fun sha1_exec :: "sha1_call \<Rightarrow> u32 list \<times> u32 list \<times> bytes \<Rightarrow> u32 list \<times> u32 list \<times> bytes" where
  "sha1_exec (HOST_C2L i) (r, X, data) = (r, X[i := HOST_c2l True data], drop 4 data)"
| "sha1_exec (BODY_00_15 i a b c d e f xi) (r, X, data) =
     (body_set F_00_19 K_00_19 (X ! xi) a b c d e f r, X, data)"
| "sha1_exec (BODY_16_19 i a b c d e f xi xa xb xc xd) (r, X, data) =
     (let (r, X) = Xupdate f xi xa xb xc xd (r, X) in (body_add F_00_19 K_00_19 a b c d e f r, X, data))"
| "sha1_exec (BODY_20_31 i a b c d e f xi xa xb xc xd) (r, X, data) =
     (let (r, X) = Xupdate f xi xa xb xc xd (r, X) in (body_add F_20_39 K_20_39 a b c d e f r, X, data))"
| "sha1_exec (BODY_32_39 i a b c d e f xa xb xc xd) (r, X, data) =
     (let (r, X) = Xupdate f xa xa xb xc xd (r, X) in (body_add F_20_39 K_20_39 a b c d e f r, X, data))"
| "sha1_exec (BODY_40_59 i a b c d e f xa xb xc xd) (r, X, data) =
     (let (r, X) = Xupdate f xa xa xb xc xd (r, X) in (body_add F_40_59 K_40_59 a b c d e f r, X, data))"
| "sha1_exec (BODY_60_79 i a b c d e f xa xb xc xd) (r, X, data) =
     (let (r, X) = Xupdate f xa xa xb xc xd (r, X)
      in (body_set F_60_79 K_60_79 (X ! xa) a b c d e f r, X, data))"

section \<open>The block function\<close>

definition sha1_calls :: "sha1_call list" where
  "sha1_calls = [
   HOST_C2L 0, HOST_C2L 1, BODY_00_15 0 0 1 2 3 4 5 0, HOST_C2L 2, BODY_00_15 1 5 0 1 2 3 4 1,
    HOST_C2L 3, BODY_00_15 2 4 5 0 1 2 3 2, HOST_C2L 4, BODY_00_15 3 3 4 5 0 1 2 3, HOST_C2L 5,
    BODY_00_15 4 2 3 4 5 0 1 4, HOST_C2L 6, BODY_00_15 5 1 2 3 4 5 0 5, HOST_C2L 7,
    BODY_00_15 6 0 1 2 3 4 5 6, HOST_C2L 8, BODY_00_15 7 5 0 1 2 3 4 7, HOST_C2L 9,
    BODY_00_15 8 4 5 0 1 2 3 8, HOST_C2L 10, BODY_00_15 9 3 4 5 0 1 2 9, HOST_C2L 11,
    BODY_00_15 10 2 3 4 5 0 1 10, HOST_C2L 12, BODY_00_15 11 1 2 3 4 5 0 11, HOST_C2L 13,
    BODY_00_15 12 0 1 2 3 4 5 12, HOST_C2L 14, BODY_00_15 13 5 0 1 2 3 4 13, HOST_C2L 15,
    BODY_00_15 14 4 5 0 1 2 3 14, BODY_00_15 15 3 4 5 0 1 2 15,
    BODY_16_19 16 2 3 4 5 0 1 0 0 2 8 13, BODY_16_19 17 1 2 3 4 5 0 1 1 3 9 14,
    BODY_16_19 18 0 1 2 3 4 5 2 2 4 10 15, BODY_16_19 19 5 0 1 2 3 4 3 3 5 11 0,
    BODY_20_31 20 4 5 0 1 2 3 4 4 6 12 1, BODY_20_31 21 3 4 5 0 1 2 5 5 7 13 2,
    BODY_20_31 22 2 3 4 5 0 1 6 6 8 14 3, BODY_20_31 23 1 2 3 4 5 0 7 7 9 15 4,
    BODY_20_31 24 0 1 2 3 4 5 8 8 10 0 5, BODY_20_31 25 5 0 1 2 3 4 9 9 11 1 6,
    BODY_20_31 26 4 5 0 1 2 3 10 10 12 2 7, BODY_20_31 27 3 4 5 0 1 2 11 11 13 3 8,
    BODY_20_31 28 2 3 4 5 0 1 12 12 14 4 9, BODY_20_31 29 1 2 3 4 5 0 13 13 15 5 10,
    BODY_20_31 30 0 1 2 3 4 5 14 14 0 6 11, BODY_20_31 31 5 0 1 2 3 4 15 15 1 7 12,
    BODY_32_39 32 4 5 0 1 2 3 0 2 8 13, BODY_32_39 33 3 4 5 0 1 2 1 3 9 14,
    BODY_32_39 34 2 3 4 5 0 1 2 4 10 15, BODY_32_39 35 1 2 3 4 5 0 3 5 11 0,
    BODY_32_39 36 0 1 2 3 4 5 4 6 12 1, BODY_32_39 37 5 0 1 2 3 4 5 7 13 2,
    BODY_32_39 38 4 5 0 1 2 3 6 8 14 3, BODY_32_39 39 3 4 5 0 1 2 7 9 15 4,
    BODY_40_59 40 2 3 4 5 0 1 8 10 0 5, BODY_40_59 41 1 2 3 4 5 0 9 11 1 6,
    BODY_40_59 42 0 1 2 3 4 5 10 12 2 7, BODY_40_59 43 5 0 1 2 3 4 11 13 3 8,
    BODY_40_59 44 4 5 0 1 2 3 12 14 4 9, BODY_40_59 45 3 4 5 0 1 2 13 15 5 10,
    BODY_40_59 46 2 3 4 5 0 1 14 0 6 11, BODY_40_59 47 1 2 3 4 5 0 15 1 7 12,
    BODY_40_59 48 0 1 2 3 4 5 0 2 8 13, BODY_40_59 49 5 0 1 2 3 4 1 3 9 14,
    BODY_40_59 50 4 5 0 1 2 3 2 4 10 15, BODY_40_59 51 3 4 5 0 1 2 3 5 11 0,
    BODY_40_59 52 2 3 4 5 0 1 4 6 12 1, BODY_40_59 53 1 2 3 4 5 0 5 7 13 2,
    BODY_40_59 54 0 1 2 3 4 5 6 8 14 3, BODY_40_59 55 5 0 1 2 3 4 7 9 15 4,
    BODY_40_59 56 4 5 0 1 2 3 8 10 0 5, BODY_40_59 57 3 4 5 0 1 2 9 11 1 6,
    BODY_40_59 58 2 3 4 5 0 1 10 12 2 7, BODY_40_59 59 1 2 3 4 5 0 11 13 3 8,
    BODY_60_79 60 0 1 2 3 4 5 12 14 4 9, BODY_60_79 61 5 0 1 2 3 4 13 15 5 10,
    BODY_60_79 62 4 5 0 1 2 3 14 0 6 11, BODY_60_79 63 3 4 5 0 1 2 15 1 7 12,
    BODY_60_79 64 2 3 4 5 0 1 0 2 8 13, BODY_60_79 65 1 2 3 4 5 0 1 3 9 14,
    BODY_60_79 66 0 1 2 3 4 5 2 4 10 15, BODY_60_79 67 5 0 1 2 3 4 3 5 11 0,
    BODY_60_79 68 4 5 0 1 2 3 4 6 12 1, BODY_60_79 69 3 4 5 0 1 2 5 7 13 2,
    BODY_60_79 70 2 3 4 5 0 1 6 8 14 3, BODY_60_79 71 1 2 3 4 5 0 7 9 15 4,
    BODY_60_79 72 0 1 2 3 4 5 8 10 0 5, BODY_60_79 73 5 0 1 2 3 4 9 11 1 6,
    BODY_60_79 74 4 5 0 1 2 3 10 12 2 7, BODY_60_79 75 3 4 5 0 1 2 11 13 3 8,
    BODY_60_79 76 2 3 4 5 0 1 12 14 4 9, BODY_60_79 77 1 2 3 4 5 0 13 15 5 10,
    BODY_60_79 78 0 1 2 3 4 5 14 0 6 11, BODY_60_79 79 5 0 1 2 3 4 15 1 7 12]"

text \<open>One pass of the loop: the registers \<open>T\<close> and \<open>XX0\<close> to \<open>XX15\<close> start uninitialised and are
  written before they are read; the working variables end in the registers \<open>E, T, A, B, C\<close>.\<close>

definition sha1_block :: "u32 list \<Rightarrow> bytes \<Rightarrow> u32 list" where
  "sha1_block state data =
     (let (r, X, rest) = fold sha1_exec sha1_calls
            ([state ! 0, state ! 1, state ! 2, state ! 3, state ! 4, 0], replicate 16 0, data)
      in [state ! 0 + r ! 4, state ! 1 + r ! 5, state ! 2 + r ! 0, state ! 3 + r ! 1, state ! 4 + r ! 2])"

text \<open>The loop tests \<open>--num == 0\<close> after its body; it is not called with no blocks, where it
  would run away, and nothing is said of that case.\<close>

fun sha1_block_data_order :: "u32 list \<Rightarrow> bytes \<Rightarrow> nat \<Rightarrow> u32 list" where
  "sha1_block_data_order state data 0 = undefined"
| "sha1_block_data_order state data (Suc n) =
     (let state = sha1_block state data
      in if n = 0 then state else sha1_block_data_order state (drop 64 data) n)"

section \<open>The interface\<close>

definition SHA1_Init :: md32_ctx where
  "SHA1_Init = \<lparr>hs = [0x67452301, 0xefcdab89, 0x98badcfe, 0x10325476, 0xc3d2e1f0], Nl = 0, Nh = 0,
     cdata = replicate 64 0, num = 0\<rparr>"

definition SHA1_Update :: "md32_ctx \<Rightarrow> bytes \<Rightarrow> md32_ctx" where
  "SHA1_Update = HASH_UPDATE sha1_block_data_order"

definition SHA1_Final :: "md32_ctx \<Rightarrow> md32_ctx \<times> bytes option" where
  "SHA1_Final = HASH_FINAL sha1_block_data_order True (\<lambda>c. Some (words_out True 5 (hs c)))"

definition SHA1 :: "bytes \<Rightarrow> bytes option" where
  "SHA1 data = snd (SHA1_Final (SHA1_Update SHA1_Init data))"

section \<open>FIPS 180-4\<close>

fun fips_W1 :: "bytes \<Rightarrow> nat \<Rightarrow> u32" where
  "fips_W1 M t =
     (if t < 16 then block_word True M t
      else word_rotl 1 (fips_W1 M (t - 3) XOR fips_W1 M (t - 8) XOR fips_W1 M (t - 14) XOR fips_W1 M (t - 16)))"

declare fips_W1.simps [simp del]

definition fips_f1 :: "nat \<Rightarrow> u32 \<Rightarrow> u32 \<Rightarrow> u32 \<Rightarrow> u32" where
  "fips_f1 t x y z =
     (if t < 20 then (x AND y) XOR (NOT x AND z)
      else if t < 40 then x XOR y XOR z
      else if t < 60 then (x AND y) XOR (x AND z) XOR (y AND z)
      else x XOR y XOR z)"

definition fips_K1 :: "nat \<Rightarrow> u32" where
  "fips_K1 t = (if t < 20 then 0x5a827999 else if t < 40 then 0x6ed9eba1
     else if t < 60 then 0x8f1bbcdc else 0xca62c1d6)"

fun fips_step1 :: "bytes \<Rightarrow> nat \<Rightarrow> u32 \<times> u32 \<times> u32 \<times> u32 \<times> u32 \<Rightarrow> u32 \<times> u32 \<times> u32 \<times> u32 \<times> u32" where
  "fips_step1 M t (a, b, c, d, e) =
     (word_rotl 5 a + fips_f1 t b c d + e + fips_K1 t + fips_W1 M t, a, word_rotl 30 b, c, d)"

definition fips_compress1 :: "u32 list \<Rightarrow> bytes \<Rightarrow> u32 list" where
  "fips_compress1 s M =
     (case fold (fips_step1 M) [0..<80] (s ! 0, s ! 1, s ! 2, s ! 3, s ! 4) of
        (a, b, c, d, e) \<Rightarrow> [s ! 0 + a, s ! 1 + b, s ! 2 + c, s ! 3 + d, s ! 4 + e])"

definition fips_sha1 :: "bytes \<Rightarrow> bytes" where
  "fips_sha1 msg =
     words_out True 5 (fold_blocks fips_compress1 64
       [0x67452301, 0xefcdab89, 0x98badcfe, 0x10325476, 0xc3d2e1f0]
       (md_pad 64 8 (md_length_be 8 msg) msg))"

section \<open>The unrolled rounds\<close>

definition view6 :: "nat \<Rightarrow> u32 list \<Rightarrow> u32 \<times> u32 \<times> u32 \<times> u32 \<times> u32" where
  "view6 i r = (r ! role 6 i 0, r ! role 6 i 1, r ! role 6 i 2, r ! role 6 i 3, r ! role 6 i 4)"

lemma view6_update:
  assumes "length r = 6"
  shows "view6 (Suc i) (r[role 6 i 5 := x, role 6 i (Suc 0) := y]) =
    (x, r ! role 6 i 0, y, r ! role 6 i 2, r ! role 6 i 3)"
proof -
  have "role 6 (Suc i) 0 = role 6 i 5" using role_Suc_0 [of 6 i] by simp
  moreover have "role 6 (Suc i) 1 = role 6 i 0" "role 6 (Suc i) 2 = role 6 i 1" "role 6 (Suc i) 3 = role 6 i 2"
      "role 6 (Suc i) 4 = role 6 i 3"
    using role_Suc_Suc [of 6 i 0] role_Suc_Suc [of 6 i 1] role_Suc_Suc [of 6 i 2] role_Suc_Suc [of 6 i 3]
    by (simp_all add: numeral_eq_Suc)
  ultimately show ?thesis using assms by (simp add: view6_def role_eq nth_list_update)
qed

text \<open>The calls that may follow \<open>j\<close> loaded or computed words and \<open>i\<close> rounds.\<close>

definition roles :: "nat \<Rightarrow> nat list \<Rightarrow> bool" where
  "roles i rs \<longleftrightarrow> rs = map (role 6 i) [0..<6]"

definition ring_words :: "nat \<Rightarrow> nat list \<Rightarrow> bool" where
  "ring_words t xs \<longleftrightarrow> xs = map (\<lambda>d. (t + d) mod 16) [0, 2, 8, 13]"

fun sha1_ok :: "nat \<Rightarrow> nat \<Rightarrow> sha1_call list \<Rightarrow> bool" where
  "sha1_ok j i [] \<longleftrightarrow> i = 80"
| "sha1_ok j i (HOST_C2L k # cs) \<longleftrightarrow> k = j \<and> j < 16 \<and> sha1_ok (Suc j) i cs"
| "sha1_ok j i (BODY_00_15 t a b c d e f xi # cs) \<longleftrightarrow>
     i < 16 \<and> i < j \<and> j \<le> 16 \<and> roles i [a, b, c, d, e, f] \<and> xi = i \<and> sha1_ok j (Suc i) cs"
| "sha1_ok j i (BODY_16_19 t a b c d e f xi xa xb xc xd # cs) \<longleftrightarrow>
     j = i \<and> 16 \<le> i \<and> i < 20 \<and> roles i [a, b, c, d, e, f] \<and> xi = xa \<and> ring_words i [xa, xb, xc, xd] \<and>
     sha1_ok (Suc j) (Suc i) cs"
| "sha1_ok j i (BODY_20_31 t a b c d e f xi xa xb xc xd # cs) \<longleftrightarrow>
     j = i \<and> 20 \<le> i \<and> i < 40 \<and> roles i [a, b, c, d, e, f] \<and> xi = xa \<and> ring_words i [xa, xb, xc, xd] \<and>
     sha1_ok (Suc j) (Suc i) cs"
| "sha1_ok j i (BODY_32_39 t a b c d e f xa xb xc xd # cs) \<longleftrightarrow>
     j = i \<and> 20 \<le> i \<and> i < 40 \<and> roles i [a, b, c, d, e, f] \<and> ring_words i [xa, xb, xc, xd] \<and>
     sha1_ok (Suc j) (Suc i) cs"
| "sha1_ok j i (BODY_40_59 t a b c d e f xa xb xc xd # cs) \<longleftrightarrow>
     j = i \<and> 40 \<le> i \<and> i < 60 \<and> roles i [a, b, c, d, e, f] \<and> ring_words i [xa, xb, xc, xd] \<and>
     sha1_ok (Suc j) (Suc i) cs"
| "sha1_ok j i (BODY_60_79 t a b c d e f xa xb xc xd # cs) \<longleftrightarrow>
     j = i \<and> 60 \<le> i \<and> i < 80 \<and> roles i [a, b, c, d, e, f] \<and> ring_words i [xa, xb, xc, xd] \<and>
     sha1_ok (Suc j) (Suc i) cs"

lemma sha1_calls_ok: "sha1_ok 0 0 sha1_calls"
  by code_simp

lemma F_Ch: "F_00_19 x y z = (x AND y) XOR (NOT x AND z)"
  by (rule bit_word_eqI) (auto simp: F_00_19_def bit_simps)

lemma F_Maj: "F_40_59 x y z = (x AND y) XOR (x AND z) XOR (y AND z)"
  by (rule bit_word_eqI) (auto simp: F_40_59_def bit_simps)

lemmas round_funs = fips_f1_def fips_K1_def F_Ch F_Maj F_20_39_def F_60_79_def
  K_00_19_def K_20_39_def K_40_59_def K_60_79_def

lemma rolesD:
  assumes "roles i [a, b, c, d, e, f]"
  shows "a = role 6 i 0" "b = role 6 i 1" "c = role 6 i 2" "d = role 6 i 3" "e = role 6 i 4" "f = role 6 i 5"
proof -
  have "[0..<6] = [0, 1, 2, 3, 4, 5]" by code_simp
  then show "a = role 6 i 0" "b = role 6 i 1" "c = role 6 i 2" "d = role 6 i 3" "e = role 6 i 4" "f = role 6 i 5"
    using assms by (simp_all add: roles_def)
qed

lemma sha1_round:
  assumes r: "length r = 6" and rs: "roles i [a, b, c, d, e, f]"
    and F: "\<And>x y z. F x y z = fips_f1 i x y z" and K: "K = fips_K1 i"
  shows "length (body_set F K (fips_W1 M i) a b c d e f r) = 6 \<and>
    view6 (Suc i) (body_set F K (fips_W1 M i) a b c d e f r) = fips_step1 M i (view6 i r)"
proof -
  note rs = rolesD [OF rs]
  have "body_set F K (fips_W1 M i) a b c d e f r =
      r[role 6 i 5 := fips_W1 M i + r ! e + K + ROTATE (r ! a) 5 + F (r ! b) (r ! c) (r ! d),
        role 6 i 1 := ROTATE (r ! b) 30]"
    using r by (simp add: body_set_def Let_def rs role_eq)
  then show ?thesis using r
    by (simp add: view6_update F K ROTATE_rotl) (simp add: view6_def rs)
qed

lemma body_add_set:
  assumes "length r = 6" and rs: "roles i [a, b, c, d, e, f]"
  shows "body_add F K a b c d e f (r[f := w]) = body_set F K w a b c d e f r"
  using assms(1) unfolding rolesD [OF rs]
  by (simp add: body_add_def body_set_def Let_def role_eq add.assoc)

lemma body_set_forget:
  assumes "length r = 6" and rs: "roles i [a, b, c, d, e, f]"
  shows "body_set F K w a b c d e f (r[f := v]) = body_set F K w a b c d e f r"
  using assms(1) unfolding rolesD [OF rs] by (simp add: body_set_def Let_def role_eq)

lemma Xupdate_schedule:
  assumes ring: "ring (fips_W1 M) i X" and i: "16 \<le> i" and ws: "ring_words i [xa, xb, xc, xd]"
    and r: "length r = 6" "f < 6"
  shows "Xupdate f xa xa xb xc xd (r, X) = (r[f := fips_W1 M i], X[i mod 16 := fips_W1 M i])"
proof -
  have xs: "xa = (i + 0) mod 16" "xb = (i + 2) mod 16" "xc = (i + 8) mod 16" "xd = (i + 13) mod 16"
    using ws by (simp_all add: ring_words_def)
  have "X ! xa = fips_W1 M (i - 16)" "X ! xb = fips_W1 M (i - 14)" "X ! xc = fips_W1 M (i - 8)"
      "X ! xd = fips_W1 M (i - 3)"
  proof -
    have "i - 16 + 2 = i - 14" "i - 16 + 8 = i - 8" "i - 16 + 13 = i - 3" using i by linarith+
    then show "X ! xa = fips_W1 M (i - 16)" "X ! xb = fips_W1 M (i - 14)" "X ! xc = fips_W1 M (i - 8)"
        "X ! xd = fips_W1 M (i - 3)"
      using ring_get [OF ring i, of 0] ring_get [OF ring i, of 2] ring_get [OF ring i, of 8]
        ring_get [OF ring i, of 13] unfolding xs by simp_all
  qed
  moreover have "fips_W1 M i =
      ROTATE (fips_W1 M (i - 16) XOR fips_W1 M (i - 14) XOR fips_W1 M (i - 8) XOR fips_W1 M (i - 3)) 1"
    using i by (subst fips_W1.simps) (simp add: ROTATE_rotl ac_simps)
  ultimately show ?thesis using r by (simp add: Xupdate_def xs(1))
qed

text \<open>One call advances the words and the rounds; the whole list does the 80 rounds.\<close>

definition sha1_inv :: "bytes \<Rightarrow> nat \<Rightarrow> nat \<Rightarrow> u32 list \<times> u32 list \<times> bytes \<Rightarrow> bool" where
  "sha1_inv M j i st \<longleftrightarrow> length (fst st) = 6 \<and> ring (fips_W1 M) j (fst (snd st)) \<and>
     (j \<le> 16 \<longrightarrow> snd (snd st) = drop (4 * j) M)"

lemma sha1_load:
  assumes inv: "sha1_inv M j i (r, X, data)" and j: "j < 16" and M: "64 \<le> length M"
  shows "sha1_inv M (Suc j) i (r, X[j := HOST_c2l True data], drop 4 data)"
proof -
  have "HOST_c2l True data = block_word True M j"
    using inv j M by (simp add: sha1_inv_def HOST_c2l_word)
  also have "\<dots> = fips_W1 M j" using j by (subst fips_W1.simps) simp
  finally have w: "HOST_c2l True data = fips_W1 M j" .
  show ?thesis
    using inv j ring_push [of "fips_W1 M" j X] unfolding w by (simp add: sha1_inv_def)
qed

lemma sha1_late:
  assumes inv: "sha1_inv M i i (r, X, data)" and i: "16 \<le> i" and rs: "roles i [a, b, c, d, e, f]"
    and ws: "ring_words i [xa, xb, xc, xd]"
    and F: "\<And>x y z. F x y z = fips_f1 i x y z" and K: "K = fips_K1 i"
  shows "Xupdate f xa xa xb xc xd (r, X) = (r[f := fips_W1 M i], X[i mod 16 := fips_W1 M i]) \<and>
     X[i mod 16 := fips_W1 M i] ! xa = fips_W1 M i \<and>
     body_add F K a b c d e f (r[f := fips_W1 M i]) = body_set F K (fips_W1 M i) a b c d e f r \<and>
     body_set F K (fips_W1 M i) a b c d e f (r[f := fips_W1 M i]) = body_set F K (fips_W1 M i) a b c d e f r \<and>
     sha1_inv M (Suc i) (Suc i) (body_set F K (fips_W1 M i) a b c d e f r, X[i mod 16 := fips_W1 M i], data) \<and>
     view6 (Suc i) (body_set F K (fips_W1 M i) a b c d e f r) = fips_step1 M i (view6 i r)"
proof -
  have len: "length r = 6" and ring: "ring (fips_W1 M) i X" using inv by (simp_all add: sha1_inv_def)
  have f: "f < 6" using rolesD [OF rs] by simp
  have xa: "xa = i mod 16" using ws by (simp add: ring_words_def)
  have "length X = 16" using ring by (simp add: ring_def)
  then have "X[i mod 16 := fips_W1 M i] ! xa = fips_W1 M i" by (simp add: xa)
  then show ?thesis
    using Xupdate_schedule [OF ring i ws len f] body_add_set [OF len rs] body_set_forget [OF len rs]
      sha1_round [OF len rs F K] ring_push [OF ring] i
    by (simp add: sha1_inv_def)
qed

lemma sha1_early:
  assumes inv: "sha1_inv M j i (r, X, data)" and i: "i < 16" "i < j" "j \<le> 16" and rs: "roles i [a, b, c, d, e, f]"
  shows "X ! i = fips_W1 M i \<and>
     sha1_inv M j (Suc i) (body_set F_00_19 K_00_19 (fips_W1 M i) a b c d e f r, X, data) \<and>
     view6 (Suc i) (body_set F_00_19 K_00_19 (fips_W1 M i) a b c d e f r) = fips_step1 M i (view6 i r)"
proof -
  have len: "length r = 6" and ring: "ring (fips_W1 M) j X" using inv by (simp_all add: sha1_inv_def)
  have F: "F_00_19 x y z = fips_f1 i x y z" for x y z using i by (simp add: round_funs)
  have K: "K_00_19 = fips_K1 i" using i by (simp add: round_funs)
  show ?thesis
    using ring_get_first [OF ring i(3,2)] sha1_round [OF len rs F K] inv by (simp add: sha1_inv_def)
qed

lemma sha1_rounds:
  assumes M: "64 \<le> length M"
  shows "sha1_ok j i cs \<Longrightarrow> i \<le> 80 \<Longrightarrow> sha1_inv M j i (r, X, data) \<Longrightarrow>
    view6 80 (fst (fold sha1_exec cs (r, X, data))) = fold (fips_step1 M) [i..<80] (view6 i r)"
proof (induction j i cs arbitrary: r X data rule: sha1_ok.induct)
  case (1 j i)
  then show ?case by simp
next
  case (2 j i k cs)
  then show ?case using sha1_load [OF 2(4) _ M] by simp
next
  case (3 j i t a b c d e f xi cs)
  then have i: "i < 16" "i < j" "j \<le> 16" "i < 80" and rs: "roles i [a, b, c, d, e, f]" by simp_all
  from 3 sha1_early [OF 3(4) i(1-3) rs] show ?case by (simp add: fold_from [OF i(4)])
next
  case (4 j i t a b c d e f xi xa xb xc xd cs)
  then have j: "j = i" and i: "16 \<le> i" "i < 80" and rs: "roles i [a, b, c, d, e, f]" and ws: "ring_words i [xa, xb, xc, xd]"
    and ok: "sha1_ok (Suc i) (Suc i) cs" by auto
  have F: "F_00_19 x y z = fips_f1 i x y z" and K: "K_00_19 = fips_K1 i" for x y z using 4(2) by (simp_all add: round_funs)
  note late = sha1_late [OF 4(4) [unfolded j] i(1) rs ws F K]
  have "sha1_exec (BODY_16_19 t a b c d e f xi xa xb xc xd) (r, X, data) =
      (body_set F_00_19 K_00_19 (fips_W1 M i) a b c d e f r, X[i mod 16 := fips_W1 M i], data)"
    using late 4 by simp
  then show ?case using late 4(1) i ok by (simp add: j fold_from [OF i(2)])
next
  case (5 j i t a b c d e f xi xa xb xc xd cs)
  then have j: "j = i" and i: "16 \<le> i" "i < 80" and rs: "roles i [a, b, c, d, e, f]" and ws: "ring_words i [xa, xb, xc, xd]"
    and ok: "sha1_ok (Suc i) (Suc i) cs" by auto
  have F: "F_20_39 x y z = fips_f1 i x y z" and K: "K_20_39 = fips_K1 i" for x y z using 5(2) by (simp_all add: round_funs)
  note late = sha1_late [OF 5(4) [unfolded j] i(1) rs ws F K]
  have "sha1_exec (BODY_20_31 t a b c d e f xi xa xb xc xd) (r, X, data) =
      (body_set F_20_39 K_20_39 (fips_W1 M i) a b c d e f r, X[i mod 16 := fips_W1 M i], data)"
    using late 5 by simp
  then show ?case using late 5(1) i ok by (simp add: j fold_from [OF i(2)])
next
  case (6 j i t a b c d e f xa xb xc xd cs)
  then have j: "j = i" and i: "16 \<le> i" "i < 80" and rs: "roles i [a, b, c, d, e, f]" and ws: "ring_words i [xa, xb, xc, xd]"
    and ok: "sha1_ok (Suc i) (Suc i) cs" by auto
  have F: "F_20_39 x y z = fips_f1 i x y z" and K: "K_20_39 = fips_K1 i" for x y z using 6(2) by (simp_all add: round_funs)
  note late = sha1_late [OF 6(4) [unfolded j] i(1) rs ws F K]
  have "sha1_exec (BODY_32_39 t a b c d e f xa xb xc xd) (r, X, data) =
      (body_set F_20_39 K_20_39 (fips_W1 M i) a b c d e f r, X[i mod 16 := fips_W1 M i], data)"
    using late 6 by simp
  then show ?case using late 6(1) i ok by (simp add: j fold_from [OF i(2)])
next
  case (7 j i t a b c d e f xa xb xc xd cs)
  then have j: "j = i" and i: "16 \<le> i" "i < 80" and rs: "roles i [a, b, c, d, e, f]" and ws: "ring_words i [xa, xb, xc, xd]"
    and ok: "sha1_ok (Suc i) (Suc i) cs" by auto
  have F: "F_40_59 x y z = fips_f1 i x y z" and K: "K_40_59 = fips_K1 i" for x y z using 7(2) by (simp_all add: round_funs)
  note late = sha1_late [OF 7(4) [unfolded j] i(1) rs ws F K]
  have "sha1_exec (BODY_40_59 t a b c d e f xa xb xc xd) (r, X, data) =
      (body_set F_40_59 K_40_59 (fips_W1 M i) a b c d e f r, X[i mod 16 := fips_W1 M i], data)"
    using late 7 by simp
  then show ?case using late 7(1) i ok by (simp add: j fold_from [OF i(2)])
next
  case (8 j i t a b c d e f xa xb xc xd cs)
  then have j: "j = i" and i: "16 \<le> i" "i < 80" and rs: "roles i [a, b, c, d, e, f]" and ws: "ring_words i [xa, xb, xc, xd]"
    and ok: "sha1_ok (Suc i) (Suc i) cs" by auto
  have F: "F_60_79 x y z = fips_f1 i x y z" and K: "K_60_79 = fips_K1 i" for x y z using 8(2) by (simp_all add: round_funs)
  note late = sha1_late [OF 8(4) [unfolded j] i(1) rs ws F K]
  have "sha1_exec (BODY_60_79 t a b c d e f xa xb xc xd) (r, X, data) =
      (body_set F_60_79 K_60_79 (fips_W1 M i) a b c d e f r, X[i mod 16 := fips_W1 M i], data)"
    using late 8 by simp
  then show ?case using late 8(1) i ok by (simp add: j fold_from [OF i(2)])
qed

section \<open>Correctness\<close>

lemma sha1_block_fips:
  assumes "64 \<le> length data"
  shows "sha1_block s data = fips_compress1 s data"
proof -
  let ?r = "[s ! 0, s ! 1, s ! 2, s ! 3, s ! 4, 0]"
  obtain r X rest where e: "fold sha1_exec sha1_calls (?r, replicate 16 0, data) = (r, X, rest)"
    by (rule prod_cases3)
  have "sha1_inv data 0 0 (?r, replicate 16 0, data)" by (simp add: sha1_inv_def ring_start)
  from sha1_rounds [OF assms sha1_calls_ok le0 this]
  have v: "view6 80 r = fold (fips_step1 data) [0..<80] (view6 0 ?r)" by (simp only: e fst_conv)
  have "role 6 0 k = k" if "k < 6" for k using that by (simp add: role_def)
  moreover have "role 6 80 k = (k + 4) mod 6" for k by (simp add: role_def) presburger
  ultimately have "fold (fips_step1 data) [0..<80] (s ! 0, s ! 1, s ! 2, s ! 3, s ! 4) = (r ! 4, r ! 5, r ! 0, r ! 1, r ! 2)"
    using v by (simp add: view6_def del: upt_rec_numeral)
  then show ?thesis unfolding sha1_block_def e fips_compress1_def by simp
qed

lemma fips_W1_take: "t < 80 \<Longrightarrow> fips_W1 (take 64 M) t = fips_W1 M t"
proof (induction M t rule: fips_W1.induct)
  case (1 M t)
  then show ?case
    by (cases "t < 16") (simp_all add: fips_W1.simps [of _ t] block_word_take)
qed

lemma fips_compress1_take: "fips_compress1 s (take 64 M) = fips_compress1 s M"
proof -
  have "fold (fips_step1 (take 64 M)) [0..<80] st = fold (fips_step1 M) [0..<80] st" for st
    by (rule fold_cong) (auto simp: fips_W1_take)
  then show ?thesis by (simp add: fips_compress1_def)
qed

interpretation sha1: md32_digest sha1_block_data_order
  unfolding md32_digest_def
  by (rule block_function_loop [where blk = sha1_block])
    (simp_all add: Let_def sha1_block_fips fips_compress1_take)

lemma sha1_one: "length b = 64 \<Longrightarrow> sha1_block_data_order s b 1 = fips_compress1 s b"
  by (simp add: sha1_block_fips)

lemma SHA1_stream:
  "snd (SHA1_Final (foldl SHA1_Update SHA1_Init inps)) = Some (fips_sha1 (concat inps))"
  unfolding SHA1_Final_def SHA1_Update_def fips_sha1_def
  by (subst sha1.stream_digest [OF _ _ _ _ sha1_one]) (simp_all add: SHA1_Init_def)

text \<open>C16. SHA-1, fed a message in any pieces, returns the digest that FIPS 180-4 defines for the
  message (with its length taken modulo 2 to the 64 bits), and so does the one-shot function.\<close>

theorem SHA1_correct:
  "snd (SHA1_Final (foldl SHA1_Update SHA1_Init inps)) = Some (fips_sha1 (concat inps)) \<and>
   SHA1 (concat inps) = Some (fips_sha1 (concat inps))"
  using SHA1_stream [of inps] SHA1_stream [of "[concat inps]"] by (simp add: SHA1_def)

end
