(* ===== verification/Sha2.thy ===== *)
theory Sha2
  imports Md32
begin

text \<open>
  The round macros that \<^verbatim>\<open>sha256.c\<close> and \<^verbatim>\<open>sha512.c\<close> define over their own word type, for
  any word type: \<open>Sigma0\<close>, \<open>Sigma1\<close>, \<open>sigma0\<close>, \<open>sigma1\<close>, the table \<open>K256\<close> or \<open>K512\<close> and the
  big-endian load are the fields of a record.  A sequence of invocations that renames the eight
  registers and addresses the ring of 16 words as the sources do is proved to perform the rounds
  of FIPS 180-4, with its explicit schedule.
\<close>

section \<open>The macros\<close>

record 'w sha2 =
  Sigma0 :: "'w \<Rightarrow> 'w"
  Sigma1 :: "'w \<Rightarrow> 'w"
  sigma0 :: "'w \<Rightarrow> 'w"
  sigma1 :: "'w \<Rightarrow> 'w"
  Ktab :: "'w list"
  pull :: "bytes \<Rightarrow> 'w"
  wbytes :: nat

definition Ch :: "'a::len word \<Rightarrow> 'a word \<Rightarrow> 'a word \<Rightarrow> 'a word" where
  "Ch x y z = (x AND y) XOR (NOT x AND z)"

definition Maj :: "'a::len word \<Rightarrow> 'a word \<Rightarrow> 'a word \<Rightarrow> 'a word" where
  "Maj x y z = (x AND y) XOR (x AND z) XOR (y AND z)"

text \<open>
  \<open>HOST_C2L i\<close> is \<open>HOST_c2l(data, l); T1 = X[i] = l;\<close> and \<open>PULL64 i\<close> is
  \<open>T1 = X[i] = PULL64(W[i]);\<close>.  The other constructors are the macros of the same name, with the
  registers \<open>a\<close> to \<open>h\<close> numbered 0 to 7.
\<close>

datatype sha2_call =
    HOST_C2L nat
  | PULL64 nat
  | ROUND_00_15 nat nat nat nat nat nat nat nat nat
  | ROUND_16_63 nat nat nat nat nat nat nat nat nat
  | ROUND_16_80 nat nat nat nat nat nat nat nat nat nat

definition round_00_15 :: "'a::len word sha2 \<Rightarrow> nat \<Rightarrow> nat \<Rightarrow> nat \<Rightarrow> nat \<Rightarrow> nat \<Rightarrow> nat \<Rightarrow> nat \<Rightarrow> nat \<Rightarrow> nat \<Rightarrow>
    'a word list \<times> 'a word \<Rightarrow> 'a word list \<times> 'a word" where
  "round_00_15 p i a b c d e f g h rT =
     (let (r, T1) = rT;
          T1 = T1 + (r ! h + Sigma1 p (r ! e) + Ch (r ! e) (r ! f) (r ! g) + Ktab p ! i);
          r = r[h := Sigma0 p (r ! a) + Maj (r ! a) (r ! b) (r ! c)];
          r = r[d := r ! d + T1];
          r = r[h := r ! h + T1]
      in (r, T1))"

text \<open>The schedule part of \<open>ROUND_16_63\<close> and \<open>ROUND_16_80\<close>: \<open>j & 0x0f\<close> is \<open>j mod 16\<close>.\<close>

definition extend_X :: "'a::len word sha2 \<Rightarrow> nat \<Rightarrow> 'a word list \<Rightarrow> 'a word list" where
  "extend_X p j X =
     (let s0 = X ! ((j + 1) mod 16);
          s0 = sigma0 p s0;
          s1 = X ! ((j + 14) mod 16);
          s1 = sigma1 p s1
      in X[j mod 16 := X ! (j mod 16) + (s0 + s1 + X ! ((j + 9) mod 16))])"

fun sha2_exec :: "'a::len word sha2 \<Rightarrow> sha2_call \<Rightarrow> 'a word list \<times> 'a word list \<times> 'a word \<times> bytes \<Rightarrow>
    'a word list \<times> 'a word list \<times> 'a word \<times> bytes" where
  "sha2_exec p (HOST_C2L i) (r, X, T1, data) =
     (let X = X[i := pull p data] in (r, X, X ! i, drop (wbytes p) data))"
| "sha2_exec p (PULL64 i) (r, X, T1, data) =
     (let X = X[i := pull p (drop (wbytes p * i) data)] in (r, X, X ! i, data))"
| "sha2_exec p (ROUND_00_15 i a b c d e f g h) (r, X, T1, data) =
     (let (r, T1) = round_00_15 p i a b c d e f g h (r, T1) in (r, X, T1, data))"
| "sha2_exec p (ROUND_16_63 i a b c d e f g h) (r, X, T1, data) =
     (let X = extend_X p i X;
          (r, T1) = round_00_15 p i a b c d e f g h (r, X ! (i mod 16))
      in (r, X, T1, data))"
| "sha2_exec p (ROUND_16_80 i j a b c d e f g h) (r, X, T1, data) =
     (let X = extend_X p j X;
          (r, T1) = round_00_15 p (i + j) a b c d e f g h (r, X ! (j mod 16))
      in (r, X, T1, data))"

text \<open>One pass of the loop over the blocks; \<open>X\<close> starts uninitialised.\<close>

definition sha2_block :: "'a::len word sha2 \<Rightarrow> sha2_call list \<Rightarrow> 'a word list \<Rightarrow> bytes \<Rightarrow> 'a word list" where
  "sha2_block p calls state data =
     (let (r, X, T1, rest) = fold (sha2_exec p) calls
            ([state ! 0, state ! 1, state ! 2, state ! 3, state ! 4, state ! 5, state ! 6, state ! 7],
             replicate 16 0, 0, data)
      in [state ! 0 + r ! 0, state ! 1 + r ! 1, state ! 2 + r ! 2, state ! 3 + r ! 3,
          state ! 4 + r ! 4, state ! 5 + r ! 5, state ! 6 + r ! 6, state ! 7 + r ! 7])"

section \<open>FIPS 180-4\<close>

fun fips_W2 :: "'a::len word sha2 \<Rightarrow> bytes \<Rightarrow> nat \<Rightarrow> 'a word" where
  "fips_W2 q M t =
     (if t < 16 then pull q (take (wbytes q) (drop (wbytes q * t) M))
      else sigma1 q (fips_W2 q M (t - 2)) + fips_W2 q M (t - 7) + sigma0 q (fips_W2 q M (t - 15)) +
           fips_W2 q M (t - 16))"

declare fips_W2.simps [simp del]

type_synonym 'w regs8 = "'w \<times> 'w \<times> 'w \<times> 'w \<times> 'w \<times> 'w \<times> 'w \<times> 'w"

fun fips_step2 :: "'a::len word sha2 \<Rightarrow> bytes \<Rightarrow> nat \<Rightarrow> 'a word regs8 \<Rightarrow> 'a word regs8" where
  "fips_step2 q M t (a, b, c, d, e, f, g, h) =
     (let T1 = h + Sigma1 q e + Ch e f g + Ktab q ! t + fips_W2 q M t;
          T2 = Sigma0 q a + Maj a b c
      in (T1 + T2, a, b, c, d + T1, e, f, g))"

declare fips_step2.simps [simp del]

definition fips_compress2 :: "'a::len word sha2 \<Rightarrow> nat \<Rightarrow> 'a word list \<Rightarrow> bytes \<Rightarrow> 'a word list" where
  "fips_compress2 q n s M =
     (case fold (fips_step2 q M) [0..<n] (s ! 0, s ! 1, s ! 2, s ! 3, s ! 4, s ! 5, s ! 6, s ! 7) of
        (a, b, c, d, e, f, g, h) \<Rightarrow>
          [s ! 0 + a, s ! 1 + b, s ! 2 + c, s ! 3 + d, s ! 4 + e, s ! 5 + f, s ! 6 + g, s ! 7 + h])"

section \<open>The unrolled rounds\<close>

definition view8 :: "nat \<Rightarrow> 'w list \<Rightarrow> 'w regs8" where
  "view8 i r = (r ! role 8 i 0, r ! role 8 i 1, r ! role 8 i 2, r ! role 8 i 3,
     r ! role 8 i 4, r ! role 8 i 5, r ! role 8 i 6, r ! role 8 i 7)"

lemma view8_update:
  assumes "length r = 8"
  shows "view8 (Suc i) (r[role 8 i 3 := x, role 8 i 7 := y]) =
    (y, r ! role 8 i 0, r ! role 8 i 1, r ! role 8 i 2, x, r ! role 8 i 4, r ! role 8 i 5, r ! role 8 i 6)"
proof -
  have "role 8 (Suc i) 0 = role 8 i 7" using role_Suc_0 [of 8 i] by simp
  moreover have "role 8 (Suc i) 1 = role 8 i 0" "role 8 (Suc i) 2 = role 8 i 1" "role 8 (Suc i) 3 = role 8 i 2"
      "role 8 (Suc i) 4 = role 8 i 3" "role 8 (Suc i) 5 = role 8 i 4" "role 8 (Suc i) 6 = role 8 i 5"
      "role 8 (Suc i) 7 = role 8 i 6"
    using role_Suc_Suc [of 8 i 0] role_Suc_Suc [of 8 i 1] role_Suc_Suc [of 8 i 2] role_Suc_Suc [of 8 i 3]
      role_Suc_Suc [of 8 i 4] role_Suc_Suc [of 8 i 5] role_Suc_Suc [of 8 i 6]
    by (simp_all add: numeral_eq_Suc)
  ultimately show ?thesis using assms by (simp add: view8_def role_eq nth_list_update)
qed

definition roles8 :: "nat \<Rightarrow> nat list \<Rightarrow> bool" where
  "roles8 i rs \<longleftrightarrow> rs = map (role 8 i) [0, 1, 2, 3, 4, 5, 6, 7]"

text \<open>The calls that may follow \<open>k\<close> words read off the input, \<open>j\<close> words of the schedule and \<open>i\<close> rounds.\<close>

fun sha2_ok :: "nat \<Rightarrow> nat \<Rightarrow> nat \<Rightarrow> nat \<Rightarrow> sha2_call list \<Rightarrow> bool" where
  "sha2_ok n k j i [] \<longleftrightarrow> i = n"
| "sha2_ok n k j i (HOST_C2L m # cs) \<longleftrightarrow> m = j \<and> k = j \<and> i = j \<and> j < 16 \<and> sha2_ok n (Suc k) (Suc j) i cs"
| "sha2_ok n k j i (PULL64 m # cs) \<longleftrightarrow> m = j \<and> k = 0 \<and> i = j \<and> j < 16 \<and> sha2_ok n k (Suc j) i cs"
| "sha2_ok n k j i (ROUND_00_15 t a b c d e f g h # cs) \<longleftrightarrow>
     t = i \<and> j = Suc i \<and> i < n \<and> roles8 i [a, b, c, d, e, f, g, h] \<and> sha2_ok n k j (Suc i) cs"
| "sha2_ok n k j i (ROUND_16_63 t a b c d e f g h # cs) \<longleftrightarrow>
     t = i \<and> j = i \<and> 16 \<le> i \<and> i < n \<and> roles8 i [a, b, c, d, e, f, g, h] \<and> sha2_ok n k (Suc j) (Suc i) cs"
| "sha2_ok n k j i (ROUND_16_80 t u a b c d e f g h # cs) \<longleftrightarrow>
     t + u = i \<and> t mod 16 = 0 \<and> j = i \<and> 16 \<le> i \<and> i < n \<and> roles8 i [a, b, c, d, e, f, g, h] \<and>
     sha2_ok n k (Suc j) (Suc i) cs"

text \<open>The macros compute what the standard defines.\<close>

definition sha2_agree :: "'a::len word sha2 \<Rightarrow> 'a word sha2 \<Rightarrow> bool" where
  "sha2_agree p q \<longleftrightarrow>
     Sigma0 p = Sigma0 q \<and> Sigma1 p = Sigma1 q \<and> sigma0 p = sigma0 q \<and> sigma1 p = sigma1 q \<and>
     Ktab p = Ktab q \<and> wbytes p = wbytes q \<and>
     (\<forall>d. wbytes q \<le> length d \<longrightarrow> pull p d = pull q (take (wbytes q) d))"

lemma sha2_round:
  assumes r: "length r = 8" and rs: "roles8 i [a, b, c, d, e, f, g, h]" and pq: "sha2_agree p q"
    and T1: "T1 = fips_W2 q M i"
  shows "length (fst (round_00_15 p i a b c d e f g h (r, T1))) = 8 \<and>
    view8 (Suc i) (fst (round_00_15 p i a b c d e f g h (r, T1))) = fips_step2 q M i (view8 i r)"
proof -
  have rs: "a = role 8 i 0" "b = role 8 i 1" "c = role 8 i 2" "d = role 8 i 3" "e = role 8 i 4" "f = role 8 i 5"
      "g = role 8 i 6" "h = role 8 i 7"
    using rs by (simp_all add: roles8_def)
  let ?T = "r ! h + Sigma1 q (r ! e) + Ch (r ! e) (r ! f) (r ! g) + Ktab q ! i + fips_W2 q M i"
  have "fst (round_00_15 p i a b c d e f g h (r, T1)) =
      r[role 8 i 3 := r ! d + ?T, role 8 i 7 := ?T + (Sigma0 q (r ! a) + Maj (r ! a) (r ! b) (r ! c))]"
    using r pq
    by (simp add: round_00_15_def Let_def rs role_eq sha2_agree_def T1 ac_simps list_update_swap [of "role 8 i 7"])
  then show ?thesis using r by (simp add: view8_update) (simp add: view8_def fips_step2.simps Let_def rs)
qed

definition sha2_inv :: "'a::len word sha2 \<Rightarrow> bytes \<Rightarrow> nat \<Rightarrow> nat \<Rightarrow> nat \<Rightarrow>
    'a word list \<times> 'a word list \<times> 'a word \<times> bytes \<Rightarrow> bool" where
  "sha2_inv q M k j i st \<longleftrightarrow> length (fst st) = 8 \<and> ring (fips_W2 q M) j (fst (snd st)) \<and>
     (j = Suc i \<longrightarrow> fst (snd (snd st)) = fips_W2 q M i) \<and>
     snd (snd (snd st)) = drop (wbytes q * k) M"

lemma sha2_load:
  assumes inv: "sha2_inv q M k j j (r, X, T1, data)" and j: "j < 16" and M: "16 * wbytes q \<le> length M"
    and pq: "sha2_agree p q"
    and src: "src = drop (wbytes q * j) M" and rest: "rest = drop (wbytes q * k') M"
  shows "sha2_inv q M k' (Suc j) j (r, X[j := pull p src], X[j := pull p src] ! j, rest)"
proof -
  have "wbytes q * j + wbytes q \<le> 16 * wbytes q" using j mult_le_mono2 [of "Suc j" 16 "wbytes q"] by simp
  then have "wbytes q \<le> length src" using M unfolding src length_drop by linarith
  then have "pull p src = fips_W2 q M j"
    using pq j unfolding src by (subst fips_W2.simps) (simp add: sha2_agree_def)
  then show ?thesis
    using inv j ring_push [of "fips_W2 q M" j X] rest by (simp add: sha2_inv_def ring_def)
qed

lemma extend_schedule:
  assumes ring: "ring (fips_W2 q M) i X" and i: "16 \<le> i" and j: "j mod 16 = i mod 16" and pq: "sha2_agree p q"
  shows "extend_X p j X = X[i mod 16 := fips_W2 q M i]"
proof -
  have eq: "(j + d) mod 16 = (i + d) mod 16" for d using j by (metis mod_add_left_eq)
  have "i - 16 + 1 = i - 15" "i - 16 + 14 = i - 2" "i - 16 + 9 = i - 7" using i by linarith+
  then have "X ! (i mod 16) = fips_W2 q M (i - 16)" "X ! ((j + 1) mod 16) = fips_W2 q M (i - 15)"
      "X ! ((j + 14) mod 16) = fips_W2 q M (i - 2)" "X ! ((j + 9) mod 16) = fips_W2 q M (i - 7)"
    using ring_get [OF ring i, of 0] ring_get [OF ring i, of 1] ring_get [OF ring i, of 14]
      ring_get [OF ring i, of 9] unfolding eq by simp_all
  moreover have "fips_W2 q M i = sigma1 q (fips_W2 q M (i - 2)) + fips_W2 q M (i - 7) +
      sigma0 q (fips_W2 q M (i - 15)) + fips_W2 q M (i - 16)"
    using i by (subst fips_W2.simps) simp
  ultimately show ?thesis using pq
    by (simp only: extend_X_def Let_def j) (simp add: sha2_agree_def ac_simps)
qed

text \<open>A late round, in either of the two forms.\<close>

lemma sha2_late:
  assumes inv: "sha2_inv q M k i i (r, X, T1, data)" and i: "16 \<le> i" and j: "j mod 16 = i mod 16"
    and rs: "roles8 i [a, b, c, d, e, f, g, h]" and pq: "sha2_agree p q"
  defines "X' \<equiv> extend_X p j X"
  defines "rT \<equiv> round_00_15 p i a b c d e f g h (r, X' ! (j mod 16))"
  shows "sha2_inv q M k (Suc i) (Suc i) (fst rT, X', snd rT, data) \<and>
     view8 (Suc i) (fst rT) = fips_step2 q M i (view8 i r)"
proof -
  have len: "length r = 8" and ring: "ring (fips_W2 q M) i X" using inv by (simp_all add: sha2_inv_def)
  have X: "X' = X[i mod 16 := fips_W2 q M i]" unfolding X'_def by (rule extend_schedule [OF ring i j pq])
  have "X' ! (j mod 16) = fips_W2 q M i" using ring by (simp add: X j ring_def)
  with sha2_round [OF len rs pq] have "length (fst rT) = 8 \<and> view8 (Suc i) (fst rT) = fips_step2 q M i (view8 i r)"
    by (simp add: rT_def)
  then show ?thesis using inv ring_push [OF ring] by (simp add: sha2_inv_def X)
qed

lemma sha2_rounds:
  assumes M: "16 * wbytes q \<le> length M" and pq: "sha2_agree p q"
  shows "sha2_ok n k j i cs \<Longrightarrow> i \<le> n \<Longrightarrow> sha2_inv q M k j i (r, X, T1, data) \<Longrightarrow>
    view8 n (fst (fold (sha2_exec p) cs (r, X, T1, data))) = fold (fips_step2 q M) [i..<n] (view8 i r)"
proof (induction n k j i cs arbitrary: r X T1 data rule: sha2_ok.induct)
  case (1 n k j i)
  then show ?case by simp
next
  case (2 n k j i m cs)
  then have k: "m = j" "k = j" "i = j" "j < 16" and ok: "sha2_ok n (Suc k) (Suc j) i cs" by auto
  have d: "data = drop (wbytes q * j) M" using 2(4) k by (simp add: sha2_inv_def)
  have w: "wbytes p = wbytes q" using pq by (simp add: sha2_agree_def)
  have "drop (wbytes p) data = drop (wbytes q * Suc j) M" by (simp add: d w add.commute)
  from sha2_load [OF 2(4) [unfolded k] k(4) M pq d this] 2(1) [OF ok 2(3)] k show ?case
    by (simp add: Let_def)
next
  case (3 n k j i m cs)
  then have k: "m = j" "k = 0" "i = j" "j < 16" and ok: "sha2_ok n k (Suc j) i cs" by auto
  have d: "data = drop (wbytes q * 0) M" using 3(4) k by (simp add: sha2_inv_def)
  have w: "wbytes p = wbytes q" using pq by (simp add: sha2_agree_def)
  have "drop (wbytes p * j) data = drop (wbytes q * j) M" by (simp add: d w)
  from sha2_load [OF 3(4) [unfolded k] k(4) M pq this d] 3(1) [OF ok 3(3)] k show ?case
    by (simp add: Let_def)
next
  case (4 n k j i t a b c d e f g h cs)
  then have k: "t = i" "j = Suc i" "i < n" and rs: "roles8 i [a, b, c, d, e, f, g, h]"
    and ok: "sha2_ok n k j (Suc i) cs" by auto
  obtain r' T' where rT: "round_00_15 p i a b c d e f g h (r, T1) = (r', T')" by (rule prod.exhaust)
  have "length r = 8" "T1 = fips_W2 q M i" using 4(4) k by (simp_all add: sha2_inv_def)
  from sha2_round [OF this(1) rs pq this(2)] have "length r' = 8 \<and> view8 (Suc i) r' = fips_step2 q M i (view8 i r)"
    by (simp add: rT)
  moreover from this have "sha2_inv q M k j (Suc i) (r', X, T', data)" using 4(4) k by (simp add: sha2_inv_def)
  ultimately show ?case using 4(1) [OF ok] k rT by (simp add: fold_from [OF k(3)])
next
  case (5 n k j i t a b c d e f g h cs)
  then have k: "t = i" "j = i" "16 \<le> i" "i < n" and rs: "roles8 i [a, b, c, d, e, f, g, h]"
    and ok: "sha2_ok n k (Suc j) (Suc i) cs" by auto
  obtain r' T' where rT: "round_00_15 p i a b c d e f g h (r, extend_X p i X ! (i mod 16)) = (r', T')"
    by (rule prod.exhaust)
  from sha2_late [OF 5(4) [unfolded k] k(3) refl rs pq] 5(1) [OF ok Suc_leI [OF k(4)]] show ?case
    by (simp add: Let_def rT k fold_from [OF k(4)])
next
  case (6 n k j i t u a b c d e f g h cs)
  then have k: "t + u = i" "t mod 16 = 0" "j = i" "16 \<le> i" "i < n" and rs: "roles8 i [a, b, c, d, e, f, g, h]"
    and ok: "sha2_ok n k (Suc j) (Suc i) cs" by auto
  obtain r' T' where rT: "round_00_15 p i a b c d e f g h (r, extend_X p u X ! (u mod 16)) = (r', T')"
    by (rule prod.exhaust)
  have "u mod 16 = (t mod 16 + u) mod 16" unfolding k(2) by simp
  then have "u mod 16 = i mod 16" using k(1) by (simp only: mod_add_left_eq)
  from sha2_late [OF 6(4) [unfolded k(3)] k(4) this rs pq] 6(1) [OF ok Suc_leI [OF k(5)]] show ?case
    by (simp add: Let_def rT k(1,3) fold_from [OF k(5)])
qed

lemma sha2_block_fips:
  assumes ok: "sha2_ok n 0 0 0 calls" and n: "8 dvd n" and pq: "sha2_agree p q"
    and data: "16 * wbytes q \<le> length data"
  shows "sha2_block p calls s data = fips_compress2 q n s data"
proof -
  let ?r = "[s ! 0, s ! 1, s ! 2, s ! 3, s ! 4, s ! 5, s ! 6, s ! 7]"
  obtain r X T1 rest where e: "fold (sha2_exec p) calls (?r, replicate 16 0, 0, data) = (r, X, T1, rest)"
    by (rule prod_cases4)
  have "sha2_inv q data 0 0 0 (?r, replicate 16 0, 0, data)" by (simp add: sha2_inv_def ring_start)
  from sha2_rounds [OF data pq ok le0 this]
  have v: "view8 n r = fold (fips_step2 q data) [0..<n] (view8 0 ?r)" by (simp only: e fst_conv)
  have "role 8 0 k = k" "role 8 n k = k" if "k < 8" for k using that n by (simp_all add: role_dvd)
  then have "fold (fips_step2 q data) [0..<n] (s ! 0, s ! 1, s ! 2, s ! 3, s ! 4, s ! 5, s ! 6, s ! 7) =
      (r ! 0, r ! 1, r ! 2, r ! 3, r ! 4, r ! 5, r ! 6, r ! 7)"
    using v by (simp add: view8_def)
  then show ?thesis unfolding sha2_block_def e fips_compress2_def by simp
qed

text \<open>The compression depends on its block only.\<close>

lemma fips_W2_take: "fips_W2 q (take (16 * wbytes q) M) t = fips_W2 q M t"
proof (induction q M t rule: fips_W2.induct)
  case (1 q M t)
  show ?case
  proof (cases "t < 16")
    case True
    then have "wbytes q * t + wbytes q \<le> 16 * wbytes q" using mult_le_mono2 [of "Suc t" 16 "wbytes q"] by simp
    then have "min (wbytes q) (16 * wbytes q - wbytes q * t) = wbytes q" by linarith
    then show ?thesis using True by (simp add: fips_W2.simps [of q _ t] drop_take)
  next
    case False
    with 1 show ?thesis by (simp add: fips_W2.simps [of q _ t])
  qed
qed

lemma fips_compress2_take: "fips_compress2 q n s (take (16 * wbytes q) M) = fips_compress2 q n s M"
proof -
  have step: "fips_step2 q (take (16 * wbytes q) M) t st = fips_step2 q M t st" for t st
    by (cases "(q, M, t, st)" rule: fips_step2.cases) (simp add: fips_step2.simps fips_W2_take)
  have "fold (fips_step2 q (take (16 * wbytes q) M)) [0..<n] st = fold (fips_step2 q M) [0..<n] st" for st
    by (rule fold_cong) (simp_all add: step fun_eq_iff)
  then show ?thesis by (simp add: fips_compress2_def)
qed

end
