(* ===== verification/Sha256.thy ===== *)
theory Sha256
  imports Sha2 "HOL-Library.Code_Target_Nat"
begin

text \<open>
  \<^verbatim>\<open>BoringSSL/crypto/fipsmodule/sha/sha256.c\<close>: SHA-224 and SHA-256 over the collector of
  \<^verbatim>\<open>md32_common.h\<close>, proved equal to FIPS 180-4.  The context adds \<open>md_len\<close>, which selects how
  many words \<open>HASH_MAKE_STRING\<close> writes.
\<close>

section \<open>The block function\<close>

text \<open>The table, line by line as in the source.\<close>

definition K256 :: "u32 list" where
  "K256 = concat [
    [0x428a2f98, 0x71374491, 0xb5c0fbcf, 0xe9b5dba5, 0x3956c25b],
    [0x59f111f1, 0x923f82a4, 0xab1c5ed5, 0xd807aa98, 0x12835b01],
    [0x243185be, 0x550c7dc3, 0x72be5d74, 0x80deb1fe, 0x9bdc06a7],
    [0xc19bf174, 0xe49b69c1, 0xefbe4786, 0x0fc19dc6, 0x240ca1cc],
    [0x2de92c6f, 0x4a7484aa, 0x5cb0a9dc, 0x76f988da, 0x983e5152],
    [0xa831c66d, 0xb00327c8, 0xbf597fc7, 0xc6e00bf3, 0xd5a79147],
    [0x06ca6351, 0x14292967, 0x27b70a85, 0x2e1b2138, 0x4d2c6dfc],
    [0x53380d13, 0x650a7354, 0x766a0abb, 0x81c2c92e, 0x92722c85],
    [0xa2bfe8a1, 0xa81a664b, 0xc24b8b70, 0xc76c51a3, 0xd192e819],
    [0xd6990624, 0xf40e3585, 0x106aa070, 0x19a4c116, 0x1e376c08],
    [0x2748774c, 0x34b0bcb5, 0x391c0cb3, 0x4ed8aa4a, 0x5b9cca4f],
    [0x682e6ff3, 0x748f82ee, 0x78a5636f, 0x84c87814, 0x8cc70208],
    [0x90befffa, 0xa4506ceb, 0xbef9a3f7, 0xc67178f2]]"

definition SHA256_Sigma0 :: "u32 \<Rightarrow> u32" where
  "SHA256_Sigma0 x = ROTATE x 30 XOR ROTATE x 19 XOR ROTATE x 10"

definition SHA256_Sigma1 :: "u32 \<Rightarrow> u32" where
  "SHA256_Sigma1 x = ROTATE x 26 XOR ROTATE x 21 XOR ROTATE x 7"

definition SHA256_sigma0 :: "u32 \<Rightarrow> u32" where
  "SHA256_sigma0 x = ROTATE x 25 XOR ROTATE x 14 XOR drop_bit 3 x"

definition SHA256_sigma1 :: "u32 \<Rightarrow> u32" where
  "SHA256_sigma1 x = ROTATE x 15 XOR ROTATE x 13 XOR drop_bit 10 x"

definition sha256_macros :: "u32 sha2" where
  "sha256_macros = \<lparr>Sigma0 = SHA256_Sigma0, Sigma1 = SHA256_Sigma1, sigma0 = SHA256_sigma0,
     sigma1 = SHA256_sigma1, Ktab = K256, pull = HOST_c2l True, wbytes = 4\<rparr>"

text \<open>The first 16 rounds and the body of the loop \<open>for (i = 16; i < 64; i += 8)\<close>.\<close>

definition sha256_calls :: "sha2_call list" where
  "sha256_calls = [
   HOST_C2L 0, ROUND_00_15 0 0 1 2 3 4 5 6 7, HOST_C2L 1, ROUND_00_15 1 7 0 1 2 3 4 5 6,
    HOST_C2L 2, ROUND_00_15 2 6 7 0 1 2 3 4 5, HOST_C2L 3, ROUND_00_15 3 5 6 7 0 1 2 3 4,
    HOST_C2L 4, ROUND_00_15 4 4 5 6 7 0 1 2 3, HOST_C2L 5, ROUND_00_15 5 3 4 5 6 7 0 1 2,
    HOST_C2L 6, ROUND_00_15 6 2 3 4 5 6 7 0 1, HOST_C2L 7, ROUND_00_15 7 1 2 3 4 5 6 7 0,
    HOST_C2L 8, ROUND_00_15 8 0 1 2 3 4 5 6 7, HOST_C2L 9, ROUND_00_15 9 7 0 1 2 3 4 5 6,
    HOST_C2L 10, ROUND_00_15 10 6 7 0 1 2 3 4 5, HOST_C2L 11, ROUND_00_15 11 5 6 7 0 1 2 3 4,
    HOST_C2L 12, ROUND_00_15 12 4 5 6 7 0 1 2 3, HOST_C2L 13, ROUND_00_15 13 3 4 5 6 7 0 1 2,
    HOST_C2L 14, ROUND_00_15 14 2 3 4 5 6 7 0 1, HOST_C2L 15, ROUND_00_15 15 1 2 3 4 5 6 7 0] @
    concat (map (\<lambda>i. [
   ROUND_16_63 (i + 0) 0 1 2 3 4 5 6 7, ROUND_16_63 (i + 1) 7 0 1 2 3 4 5 6,
    ROUND_16_63 (i + 2) 6 7 0 1 2 3 4 5, ROUND_16_63 (i + 3) 5 6 7 0 1 2 3 4,
    ROUND_16_63 (i + 4) 4 5 6 7 0 1 2 3, ROUND_16_63 (i + 5) 3 4 5 6 7 0 1 2,
    ROUND_16_63 (i + 6) 2 3 4 5 6 7 0 1, ROUND_16_63 (i + 7) 1 2 3 4 5 6 7 0]) [16, 24, 32, 40, 48, 56])"

fun sha256_block_data_order :: "u32 list \<Rightarrow> bytes \<Rightarrow> nat \<Rightarrow> u32 list" where
  "sha256_block_data_order state data 0 = state"
| "sha256_block_data_order state data (Suc n) =
     sha256_block_data_order (sha2_block sha256_macros sha256_calls state data) (drop 64 data) n"

section \<open>The interface\<close>

record sha256_ctx = md32_ctx +
  md_len :: nat

definition SHA224_DIGEST_LENGTH :: nat where "SHA224_DIGEST_LENGTH = 28"
definition SHA256_DIGEST_LENGTH :: nat where "SHA256_DIGEST_LENGTH = 32"

definition SHA224_Init :: sha256_ctx where
  "SHA224_Init = \<lparr>hs = [0xc1059ed8, 0x367cd507, 0x3070dd17, 0xf70e5939,
     0xffc00b31, 0x68581511, 0x64f98fa7, 0xbefa4fa4], Nl = 0, Nh = 0,
     cdata = replicate 64 0, num = 0, md_len = SHA224_DIGEST_LENGTH\<rparr>"

definition SHA256_Init :: sha256_ctx where
  "SHA256_Init = \<lparr>hs = [0x6a09e667, 0xbb67ae85, 0x3c6ef372, 0xa54ff53a,
     0x510e527f, 0x9b05688c, 0x1f83d9ab, 0x5be0cd19], Nl = 0, Nh = 0,
     cdata = replicate 64 0, num = 0, md_len = SHA256_DIGEST_LENGTH\<rparr>"

text \<open>\<open>HASH_MAKE_STRING\<close>: it makes \<open>HASH_FINAL\<close> return 0 when \<open>md_len\<close> is out of range.\<close>

definition sha256_make_string :: "sha256_ctx \<Rightarrow> bytes option" where
  "sha256_make_string c =
     (if md_len c = SHA224_DIGEST_LENGTH then Some (words_out True (SHA224_DIGEST_LENGTH div 4) (hs c))
      else if md_len c = SHA256_DIGEST_LENGTH then Some (words_out True (SHA256_DIGEST_LENGTH div 4) (hs c))
      else if SHA256_DIGEST_LENGTH < md_len c then None
      else Some (words_out True (md_len c div 4) (hs c)))"

definition SHA256_Update :: "sha256_ctx \<Rightarrow> bytes \<Rightarrow> sha256_ctx" where
  "SHA256_Update = HASH_UPDATE sha256_block_data_order"

definition SHA256_Final :: "sha256_ctx \<Rightarrow> sha256_ctx \<times> bytes option" where
  "SHA256_Final = HASH_FINAL sha256_block_data_order True sha256_make_string"

definition SHA256_Transform :: "sha256_ctx \<Rightarrow> bytes \<Rightarrow> sha256_ctx" where
  "SHA256_Transform = HASH_TRANSFORM sha256_block_data_order"

definition SHA224_Update :: "sha256_ctx \<Rightarrow> bytes \<Rightarrow> sha256_ctx" where
  "SHA224_Update ctx data = SHA256_Update ctx data"

definition SHA224_Final :: "sha256_ctx \<Rightarrow> sha256_ctx \<times> bytes option" where
  "SHA224_Final ctx = SHA256_Final ctx"

definition SHA224 :: "bytes \<Rightarrow> bytes option" where
  "SHA224 data = snd (SHA224_Final (SHA224_Update SHA224_Init data))"

definition SHA256 :: "bytes \<Rightarrow> bytes option" where
  "SHA256 data = snd (SHA256_Final (SHA256_Update SHA256_Init data))"

section \<open>FIPS 180-4\<close>

text \<open>The functions of section 4.1.2, with right rotations; the constants are those of the table
  above.\<close>

definition fips_256 :: "u32 sha2" where
  "fips_256 =
     \<lparr>Sigma0 = (\<lambda>x. word_rotr 2 x XOR word_rotr 13 x XOR word_rotr 22 x),
      Sigma1 = (\<lambda>x. word_rotr 6 x XOR word_rotr 11 x XOR word_rotr 25 x),
      sigma0 = (\<lambda>x. word_rotr 7 x XOR word_rotr 18 x XOR drop_bit 3 x),
      sigma1 = (\<lambda>x. word_rotr 17 x XOR word_rotr 19 x XOR drop_bit 10 x),
      Ktab = K256, pull = (\<lambda>b. word_of_nat (be_val b)), wbytes = 4\<rparr>"

definition fips_sha2_32 :: "u32 list \<Rightarrow> nat \<Rightarrow> bytes \<Rightarrow> bytes" where
  "fips_sha2_32 h0 k msg =
     words_out True k (fold_blocks (fips_compress2 fips_256 64) 64 h0 (md_pad 64 8 (md_length_be 8 msg) msg))"

definition fips_sha224 :: "bytes \<Rightarrow> bytes" where
  "fips_sha224 = fips_sha2_32 [0xc1059ed8, 0x367cd507, 0x3070dd17, 0xf70e5939,
     0xffc00b31, 0x68581511, 0x64f98fa7, 0xbefa4fa4] 7"

definition fips_sha256 :: "bytes \<Rightarrow> bytes" where
  "fips_sha256 = fips_sha2_32 [0x6a09e667, 0xbb67ae85, 0x3c6ef372, 0xa54ff53a,
     0x510e527f, 0x9b05688c, 0x1f83d9ab, 0x5be0cd19] 8"

section \<open>Correctness\<close>

lemma sha256_calls_ok: "sha2_ok 64 0 0 0 sha256_calls"
  by code_simp

lemma ROTATE_rotr: "0 < n \<Longrightarrow> n < 32 \<Longrightarrow> ROTATE x n = word_rotr (32 - n) x"
  by (simp add: ROTATE_rotl word_rotl_eq_word_rotr)

lemma sha256_agree: "sha2_agree sha256_macros fips_256"
proof -
  have "HOST_c2l True d = word_of_nat (be_val (take 4 d))" if "4 \<le> length d" for d
    using arg_cong [OF HOST_c2l_be [OF that], of "word_of_nat :: nat \<Rightarrow> u32"] by simp
  then show ?thesis
    by (auto simp: sha2_agree_def sha256_macros_def fips_256_def SHA256_Sigma0_def SHA256_Sigma1_def
        SHA256_sigma0_def SHA256_sigma1_def ROTATE_rotr)
qed

lemma sha256_block_fips:
  assumes "64 \<le> length data"
  shows "sha2_block sha256_macros sha256_calls s data = fips_compress2 fips_256 64 s data"
proof -
  have "16 * wbytes fips_256 \<le> length data" using assms by (simp add: fips_256_def)
  then show ?thesis by (intro sha2_block_fips [OF sha256_calls_ok _ sha256_agree]) simp_all
qed

lemma sha256_block_take:
  assumes "64 \<le> length data"
  shows "sha2_block sha256_macros sha256_calls s (take 64 data) = sha2_block sha256_macros sha256_calls s data"
proof -
  have "16 * wbytes fips_256 = 64" by (simp add: fips_256_def)
  then show ?thesis
    using assms fips_compress2_take [of fips_256 64 s data] by (simp add: sha256_block_fips)
qed

interpretation sha256: md32_digest sha256_block_data_order
  unfolding md32_digest_def
  by (rule block_function_loop [where blk = "sha2_block sha256_macros sha256_calls"])
    (simp_all add: sha256_block_take)

lemma sha256_one: "length b = 64 \<Longrightarrow> sha256_block_data_order s b 1 = fips_compress2 fips_256 64 s b"
  by (simp add: sha256_block_fips)

lemma sha256_more: "md32_ctx.more c = md32_ctx.more d \<Longrightarrow> md_len (c :: sha256_ctx) = md_len d"
  by (cases c; cases d) simp

lemma sha256_make_string_out:
  "md32_ctx.more c = md32_ctx.more SHA224_Init \<Longrightarrow> sha256_make_string c = Some (words_out True 7 (hs c))"
  "md32_ctx.more c = md32_ctx.more SHA256_Init \<Longrightarrow> sha256_make_string c = Some (words_out True 8 (hs c))"
  using sha256_more [of c SHA224_Init] sha256_more [of c SHA256_Init]
  by (simp_all add: sha256_make_string_def SHA224_Init_def SHA256_Init_def
      SHA224_DIGEST_LENGTH_def SHA256_DIGEST_LENGTH_def)

lemma SHA224_stream:
  "snd (SHA224_Final (foldl SHA224_Update SHA224_Init inps)) = Some (fips_sha224 (concat inps))"
proof -
  have upd: "SHA224_Update = HASH_UPDATE sha256_block_data_order"
    by (simp add: fun_eq_iff SHA224_Update_def SHA256_Update_def)
  show ?thesis
    unfolding SHA224_Final_def SHA256_Final_def fips_sha224_def fips_sha2_32_def upd
    by (subst sha256.stream_digest [where out = "\<lambda>s. Some (words_out True 7 s)",
        OF _ _ _ _ sha256_one sha256_make_string_out(1)])
      (simp_all add: SHA224_Init_def)
qed

lemma SHA256_stream:
  "snd (SHA256_Final (foldl SHA256_Update SHA256_Init inps)) = Some (fips_sha256 (concat inps))"
  unfolding SHA256_Final_def SHA256_Update_def fips_sha256_def fips_sha2_32_def
  by (subst sha256.stream_digest [where out = "\<lambda>s. Some (words_out True 8 s)",
      OF _ _ _ _ sha256_one sha256_make_string_out(2)])
    (simp_all add: SHA256_Init_def)

text \<open>C14. SHA-224 and SHA-256, fed a message in any pieces, return the digests that FIPS 180-4
  defines for the message (with its length taken modulo 2 to the 64 bits), and so do the one-shot
  functions.\<close>

theorem SHA256_correct:
  "snd (SHA256_Final (foldl SHA256_Update SHA256_Init inps)) = Some (fips_sha256 (concat inps)) \<and>
   SHA256 (concat inps) = Some (fips_sha256 (concat inps)) \<and>
   snd (SHA224_Final (foldl SHA224_Update SHA224_Init inps)) = Some (fips_sha224 (concat inps)) \<and>
   SHA224 (concat inps) = Some (fips_sha224 (concat inps))"
  using SHA256_stream [of inps] SHA256_stream [of "[concat inps]"]
    SHA224_stream [of inps] SHA224_stream [of "[concat inps]"]
  by (simp add: SHA256_def SHA224_def)

end
