(* ===== verification/Sha512.thy ===== *)
theory Sha512
  imports Sha2 "HOL-Library.Code_Target_Nat"
begin

text \<open>
  \<^verbatim>\<open>BoringSSL/crypto/fipsmodule/sha/sha512.c\<close>: SHA-384 and SHA-512, with their own collector
  over 128-byte blocks and a 128-bit length, proved equal to FIPS 180-4.  The block function is
  the one for 64-bit words (the \<open>#else\<close> branch of the 32-bit x86 variant).  Where the target
  cannot read unaligned words, \<open>SHA512_Update\<close> copies the blocks of a misaligned input through
  the buffer; \<open>unal\<close> says that a call does so.
\<close>

section \<open>The block function\<close>

text \<open>The table, line by line as in the source.\<close>

definition K512 :: "u64 list" where
  "K512 = concat [
    [0x428a2f98d728ae22, 0x7137449123ef65cd],
    [0xb5c0fbcfec4d3b2f, 0xe9b5dba58189dbbc],
    [0x3956c25bf348b538, 0x59f111f1b605d019],
    [0x923f82a4af194f9b, 0xab1c5ed5da6d8118],
    [0xd807aa98a3030242, 0x12835b0145706fbe],
    [0x243185be4ee4b28c, 0x550c7dc3d5ffb4e2],
    [0x72be5d74f27b896f, 0x80deb1fe3b1696b1],
    [0x9bdc06a725c71235, 0xc19bf174cf692694],
    [0xe49b69c19ef14ad2, 0xefbe4786384f25e3],
    [0x0fc19dc68b8cd5b5, 0x240ca1cc77ac9c65],
    [0x2de92c6f592b0275, 0x4a7484aa6ea6e483],
    [0x5cb0a9dcbd41fbd4, 0x76f988da831153b5],
    [0x983e5152ee66dfab, 0xa831c66d2db43210],
    [0xb00327c898fb213f, 0xbf597fc7beef0ee4],
    [0xc6e00bf33da88fc2, 0xd5a79147930aa725],
    [0x06ca6351e003826f, 0x142929670a0e6e70],
    [0x27b70a8546d22ffc, 0x2e1b21385c26c926],
    [0x4d2c6dfc5ac42aed, 0x53380d139d95b3df],
    [0x650a73548baf63de, 0x766a0abb3c77b2a8],
    [0x81c2c92e47edaee6, 0x92722c851482353b],
    [0xa2bfe8a14cf10364, 0xa81a664bbc423001],
    [0xc24b8b70d0f89791, 0xc76c51a30654be30],
    [0xd192e819d6ef5218, 0xd69906245565a910],
    [0xf40e35855771202a, 0x106aa07032bbd1b8],
    [0x19a4c116b8d2d0c8, 0x1e376c085141ab53],
    [0x2748774cdf8eeb99, 0x34b0bcb5e19b48a8],
    [0x391c0cb3c5c95a63, 0x4ed8aa4ae3418acb],
    [0x5b9cca4f7763e373, 0x682e6ff3d6b2b8a3],
    [0x748f82ee5defb2fc, 0x78a5636f43172f60],
    [0x84c87814a1f0ab72, 0x8cc702081a6439ec],
    [0x90befffa23631e28, 0xa4506cebde82bde9],
    [0xbef9a3f7b2c67915, 0xc67178f2e372532b],
    [0xca273eceea26619c, 0xd186b8c721c0c207],
    [0xeada7dd6cde0eb1e, 0xf57d4f7fee6ed178],
    [0x06f067aa72176fba, 0x0a637dc5a2c898a6],
    [0x113f9804bef90dae, 0x1b710b35131c471b],
    [0x28db77f523047d84, 0x32caab7b40c72493],
    [0x3c9ebe0a15c9bebc, 0x431d67c49c100d4c],
    [0x4cc5d4becb3e42b6, 0x597f299cfc657e2a],
    [0x5fcb6fab3ad6faec, 0x6c44198c4a475817]]"

definition ROTR :: "u64 \<Rightarrow> nat \<Rightarrow> u64" where
  "ROTR x s = drop_bit s x OR push_bit (64 - s) x"

definition read_PULL64 :: "bytes \<Rightarrow> u64" where
  "read_PULL64 x =
     push_bit 56 (ucast (x ! 0)) OR push_bit 48 (ucast (x ! 1)) OR push_bit 40 (ucast (x ! 2)) OR
     push_bit 32 (ucast (x ! 3)) OR push_bit 24 (ucast (x ! 4)) OR push_bit 16 (ucast (x ! 5)) OR
     push_bit 8 (ucast (x ! 6)) OR ucast (x ! 7)"

definition SHA512_Sigma0 :: "u64 \<Rightarrow> u64" where "SHA512_Sigma0 x = ROTR x 28 XOR ROTR x 34 XOR ROTR x 39"
definition SHA512_Sigma1 :: "u64 \<Rightarrow> u64" where "SHA512_Sigma1 x = ROTR x 14 XOR ROTR x 18 XOR ROTR x 41"
definition SHA512_sigma0 :: "u64 \<Rightarrow> u64" where "SHA512_sigma0 x = ROTR x 1 XOR ROTR x 8 XOR drop_bit 7 x"
definition SHA512_sigma1 :: "u64 \<Rightarrow> u64" where "SHA512_sigma1 x = ROTR x 19 XOR ROTR x 61 XOR drop_bit 6 x"

definition sha512_macros :: "u64 sha2" where
  "sha512_macros = \<lparr>Sigma0 = SHA512_Sigma0, Sigma1 = SHA512_Sigma1, sigma0 = SHA512_sigma0,
     sigma1 = SHA512_sigma1, Ktab = K512, pull = read_PULL64, wbytes = 8\<rparr>"

text \<open>The first 16 rounds and the body of the loop \<open>for (i = 16; i < 80; i += 16)\<close>.\<close>

definition sha512_calls :: "sha2_call list" where
  "sha512_calls = [
   PULL64 0, ROUND_00_15 0 0 1 2 3 4 5 6 7, PULL64 1, ROUND_00_15 1 7 0 1 2 3 4 5 6, PULL64 2,
    ROUND_00_15 2 6 7 0 1 2 3 4 5, PULL64 3, ROUND_00_15 3 5 6 7 0 1 2 3 4, PULL64 4,
    ROUND_00_15 4 4 5 6 7 0 1 2 3, PULL64 5, ROUND_00_15 5 3 4 5 6 7 0 1 2, PULL64 6,
    ROUND_00_15 6 2 3 4 5 6 7 0 1, PULL64 7, ROUND_00_15 7 1 2 3 4 5 6 7 0, PULL64 8,
    ROUND_00_15 8 0 1 2 3 4 5 6 7, PULL64 9, ROUND_00_15 9 7 0 1 2 3 4 5 6, PULL64 10,
    ROUND_00_15 10 6 7 0 1 2 3 4 5, PULL64 11, ROUND_00_15 11 5 6 7 0 1 2 3 4, PULL64 12,
    ROUND_00_15 12 4 5 6 7 0 1 2 3, PULL64 13, ROUND_00_15 13 3 4 5 6 7 0 1 2, PULL64 14,
    ROUND_00_15 14 2 3 4 5 6 7 0 1, PULL64 15, ROUND_00_15 15 1 2 3 4 5 6 7 0] @
    concat (map (\<lambda>i. [
   ROUND_16_80 i 0 0 1 2 3 4 5 6 7, ROUND_16_80 i 1 7 0 1 2 3 4 5 6,
    ROUND_16_80 i 2 6 7 0 1 2 3 4 5, ROUND_16_80 i 3 5 6 7 0 1 2 3 4,
    ROUND_16_80 i 4 4 5 6 7 0 1 2 3, ROUND_16_80 i 5 3 4 5 6 7 0 1 2,
    ROUND_16_80 i 6 2 3 4 5 6 7 0 1, ROUND_16_80 i 7 1 2 3 4 5 6 7 0,
    ROUND_16_80 i 8 0 1 2 3 4 5 6 7, ROUND_16_80 i 9 7 0 1 2 3 4 5 6,
    ROUND_16_80 i 10 6 7 0 1 2 3 4 5, ROUND_16_80 i 11 5 6 7 0 1 2 3 4,
    ROUND_16_80 i 12 4 5 6 7 0 1 2 3, ROUND_16_80 i 13 3 4 5 6 7 0 1 2,
    ROUND_16_80 i 14 2 3 4 5 6 7 0 1, ROUND_16_80 i 15 1 2 3 4 5 6 7 0]) [16, 32, 48, 64])"

fun sha512_block_data_order :: "u64 list \<Rightarrow> bytes \<Rightarrow> nat \<Rightarrow> u64 list" where
  "sha512_block_data_order state W 0 = state"
| "sha512_block_data_order state W (Suc n) =
     sha512_block_data_order (sha2_block sha512_macros sha512_calls state W) (drop 128 W) n"

section \<open>The interface\<close>

text \<open>\<open>sha_p\<close> is the byte view of the union \<open>u\<close>.\<close>

record sha512_ctx =
  sha_h :: "u64 list"
  sha_Nl :: u64
  sha_Nh :: u64
  sha_p :: bytes
  sha_num :: nat
  sha_md_len :: nat

definition SHA384_DIGEST_LENGTH :: nat where "SHA384_DIGEST_LENGTH = 48"
definition SHA512_DIGEST_LENGTH :: nat where "SHA512_DIGEST_LENGTH = 64"

text \<open>The initialisers leave the buffer as it was.\<close>

definition SHA384_Init :: "sha512_ctx \<Rightarrow> sha512_ctx" where
  "SHA384_Init sha = sha\<lparr>sha_h := [0xcbbb9d5dc1059ed8, 0x629a292a367cd507, 0x9159015a3070dd17, 0x152fecd8f70e5939,
     0x67332667ffc00b31, 0x8eb44a8768581511, 0xdb0c2e0d64f98fa7, 0x47b5481dbefa4fa4],
     sha_Nl := 0, sha_Nh := 0, sha_num := 0, sha_md_len := SHA384_DIGEST_LENGTH\<rparr>"

definition SHA512_Init :: "sha512_ctx \<Rightarrow> sha512_ctx" where
  "SHA512_Init sha = sha\<lparr>sha_h := [0x6a09e667f3bcc908, 0xbb67ae8584caa73b, 0x3c6ef372fe94f82b, 0xa54ff53a5f1d36f1,
     0x510e527fade682d1, 0x9b05688c2b3e6c1f, 0x1f83d9abfb41bd6b, 0x5be0cd19137e2179],
     sha_Nl := 0, sha_Nh := 0, sha_num := 0, sha_md_len := SHA512_DIGEST_LENGTH\<rparr>"

definition SHA512_Transform :: "sha512_ctx \<Rightarrow> bytes \<Rightarrow> sha512_ctx" where
  "SHA512_Transform c block = c\<lparr>sha_h := sha512_block_data_order (sha_h c) block 1\<rparr>"

text \<open>The loop over the blocks of a misaligned input.\<close>

function SHA512_unaligned :: "sha512_ctx \<Rightarrow> bytes \<Rightarrow> sha512_ctx \<times> bytes" where
  "SHA512_unaligned c data =
     (if 128 \<le> length data
      then
        let c = c\<lparr>sha_p := blit (sha_p c) 0 (take 128 data)\<rparr>;
            c = c\<lparr>sha_h := sha512_block_data_order (sha_h c) (sha_p c) 1\<rparr>
        in SHA512_unaligned c (drop 128 data)
      else (c, data))"
  by pat_completeness auto
termination by (relation "measure (\<lambda>(c, data). length data)") auto

declare SHA512_unaligned.simps [simp del]

definition SHA512_Update_rest :: "bool \<Rightarrow> sha512_ctx \<Rightarrow> bytes \<Rightarrow> sha512_ctx" where
  "SHA512_Update_rest unal c data =
     (let len = length data;
          (c, data) =
            (if 128 \<le> len
             then if unal then SHA512_unaligned c data
                  else (c\<lparr>sha_h := sha512_block_data_order (sha_h c) data (len div 128)\<rparr>,
                        drop (len - len mod 128) data)
             else (c, data))
      in if length data \<noteq> 0
         then c\<lparr>sha_p := blit (sha_p c) 0 data, sha_num := length data\<rparr>
         else c)"

definition SHA512_Update :: "bool \<Rightarrow> sha512_ctx \<Rightarrow> bytes \<Rightarrow> sha512_ctx" where
  "SHA512_Update unal c data =
     (let len = length data in
      if len = 0 then c
      else
        let l = sha_Nl c + push_bit 3 (word_of_nat len);
            c = (if l < sha_Nl c then c\<lparr>sha_Nh := sha_Nh c + 1\<rparr> else c);
            c = c\<lparr>sha_Nh := sha_Nh c + word_of_nat (len div 2 ^ 61)\<rparr>;
            c = c\<lparr>sha_Nl := l\<rparr>
        in if sha_num c \<noteq> 0
           then
             let n = 128 - sha_num c in
             if len < n
             then c\<lparr>sha_p := blit (sha_p c) (sha_num c) data, sha_num := sha_num c + len\<rparr>
             else
               let c = c\<lparr>sha_p := blit (sha_p c) (sha_num c) (take n data), sha_num := 0\<rparr>;
                   c = c\<lparr>sha_h := sha512_block_data_order (sha_h c) (sha_p c) 1\<rparr>
               in SHA512_Update_rest unal c (drop n data)
           else SHA512_Update_rest unal c data)"

text \<open>The eight bytes of a word, most significant first: the stores at the end of the padding and
  in the output loops.\<close>

definition store_be64 :: "u64 \<Rightarrow> bytes" where
  "store_be64 t =
     [ucast (drop_bit 56 t), ucast (drop_bit 48 t), ucast (drop_bit 40 t), ucast (drop_bit 32 t),
      ucast (drop_bit 24 t), ucast (drop_bit 16 t), ucast (drop_bit 8 t), ucast t]"

definition words_out64 :: "nat \<Rightarrow> u64 list \<Rightarrow> bytes" where
  "words_out64 k s = concat (map store_be64 (take k s))"

text \<open>\<open>md\<close> says that the output pointer is not NULL.\<close>

definition SHA512_Final :: "bool \<Rightarrow> sha512_ctx \<Rightarrow> sha512_ctx \<times> bytes option" where
  "SHA512_Final md sha =
     (let p = sha_p sha;
          n = sha_num sha;
          p = p[n := 0x80];
          n = n + 1;
          (n, p, s) = (if 128 - 16 < n
                       then let p = blit p n (replicate (128 - n) 0)
                            in (0, p, sha512_block_data_order (sha_h sha) p 1)
                       else (n, p, sha_h sha));
          p = blit p n (replicate (128 - 16 - n) 0);
          p = blit p (128 - 16) (store_be64 (sha_Nh sha) @ store_be64 (sha_Nl sha));
          sha = sha\<lparr>sha_h := sha512_block_data_order s p 1, sha_p := p\<rparr>
      in (sha,
          if \<not> md then None
          else if sha_md_len sha = SHA384_DIGEST_LENGTH
          then Some (words_out64 (SHA384_DIGEST_LENGTH div 8) (sha_h sha))
          else if sha_md_len sha = SHA512_DIGEST_LENGTH
          then Some (words_out64 (SHA512_DIGEST_LENGTH div 8) (sha_h sha))
          else None))"

definition SHA384_Update :: "bool \<Rightarrow> sha512_ctx \<Rightarrow> bytes \<Rightarrow> sha512_ctx" where
  "SHA384_Update unal sha data = SHA512_Update unal sha data"

definition SHA384_Final :: "bool \<Rightarrow> sha512_ctx \<Rightarrow> sha512_ctx \<times> bytes option" where
  "SHA384_Final md sha = SHA512_Final md sha"

text \<open>The one-shot functions work on a local context \<open>ctx\<close>, uninitialised at first.\<close>

definition SHA384 :: "sha512_ctx \<Rightarrow> bool \<Rightarrow> bytes \<Rightarrow> bytes option" where
  "SHA384 ctx unal data = snd (SHA384_Final True (SHA384_Update unal (SHA384_Init ctx) data))"

definition SHA512 :: "sha512_ctx \<Rightarrow> bool \<Rightarrow> bytes \<Rightarrow> bytes option" where
  "SHA512 ctx unal data = snd (SHA512_Final True (SHA512_Update unal (SHA512_Init ctx) data))"

section \<open>FIPS 180-4\<close>

definition fips_512 :: "u64 sha2" where
  "fips_512 =
     \<lparr>Sigma0 = (\<lambda>x. word_rotr 28 x XOR word_rotr 34 x XOR word_rotr 39 x),
      Sigma1 = (\<lambda>x. word_rotr 14 x XOR word_rotr 18 x XOR word_rotr 41 x),
      sigma0 = (\<lambda>x. word_rotr 1 x XOR word_rotr 8 x XOR drop_bit 7 x),
      sigma1 = (\<lambda>x. word_rotr 19 x XOR word_rotr 61 x XOR drop_bit 6 x),
      Ktab = K512, pull = (\<lambda>b. word_of_nat (be_val b)), wbytes = 8\<rparr>"

definition fips_sha2_64 :: "u64 list \<Rightarrow> nat \<Rightarrow> bytes \<Rightarrow> bytes" where
  "fips_sha2_64 h0 k msg =
     concat (map (\<lambda>w. be_bytes 8 (unat w)) (take k
       (fold_blocks (fips_compress2 fips_512 80) 128 h0 (md_pad 128 16 (md_length_be 16 msg) msg))))"

definition fips_sha384 :: "bytes \<Rightarrow> bytes" where
  "fips_sha384 = fips_sha2_64 [0xcbbb9d5dc1059ed8, 0x629a292a367cd507, 0x9159015a3070dd17, 0x152fecd8f70e5939,
     0x67332667ffc00b31, 0x8eb44a8768581511, 0xdb0c2e0d64f98fa7, 0x47b5481dbefa4fa4] 6"

definition fips_sha512 :: "bytes \<Rightarrow> bytes" where
  "fips_sha512 = fips_sha2_64 [0x6a09e667f3bcc908, 0xbb67ae8584caa73b, 0x3c6ef372fe94f82b, 0xa54ff53a5f1d36f1,
     0x510e527fade682d1, 0x9b05688c2b3e6c1f, 0x1f83d9abfb41bd6b, 0x5be0cd19137e2179] 8"

section \<open>The block function is the compression function\<close>

lemma sha512_calls_ok: "sha2_ok 80 0 0 0 sha512_calls"
  by code_simp

lemma ROTR_rotr: "0 < n \<Longrightarrow> n < 64 \<Longrightarrow> ROTR x n = word_rotr n x"
  unfolding ROTR_def using rotate_word [of "64 - n" x]
  by (simp add: or.commute [of "drop_bit n x"] word_rotl_eq_word_rotr)

lemma eight_bytes:
  assumes "8 \<le> length (c :: bytes)"
  shows "take 8 c = [c ! 0, c ! 1, c ! 2, c ! 3, c ! 4, c ! 5, c ! 6, c ! 7]"
proof -
  have "[0..<8] = [0, 1, 2, 3, 4, 5, 6, 7]" by code_simp
  moreover have "take 8 c = map (nth c) [0..<8]" by (rule nth_equalityI) (use assms in simp_all)
  ultimately show ?thesis by simp
qed

text \<open>A shifted byte on top of the bytes below it.\<close>

lemma byte_above:
  fixes w :: u64 and a :: u8
  assumes "unat w = be_val bs" "k = 8 * length bs" "length bs \<le> 7"
  shows "unat (push_bit k (ucast a) OR w) = be_val (a # bs)"
proof -
  have "be_val bs < 2 ^ k" using be_val_bound [of bs] assms(2) by (simp add: power_mult)
  then have "unat (push_bit k (ucast a) OR w) = unat a * 2 ^ k + be_val bs"
    using unat_or_push [of w k "ucast a" 8] assms by simp
  then show ?thesis using assms(2) by (simp add: be_val_Cons power_mult)
qed

lemma read_PULL64_be:
  assumes "8 \<le> length c"
  shows "unat (read_PULL64 c) = be_val (take 8 c)"
proof -
  have "unat (ucast a :: u64) = be_val [a]" for a :: u8 by (simp add: be_val_Cons)
  then show ?thesis
    unfolding read_PULL64_def eight_bytes [OF assms]
    by (intro byte_above) (simp_all only: or.assoc list.size, simp_all)
qed

lemma sha512_agree: "sha2_agree sha512_macros fips_512"
proof -
  have "read_PULL64 d = word_of_nat (be_val (take 8 d))" if "8 \<le> length d" for d
    using arg_cong [OF read_PULL64_be [OF that], of "word_of_nat :: nat \<Rightarrow> u64"] by simp
  then show ?thesis
    by (auto simp: sha2_agree_def sha512_macros_def fips_512_def SHA512_Sigma0_def SHA512_Sigma1_def
        SHA512_sigma0_def SHA512_sigma1_def ROTR_rotr)
qed

lemma sha512_block_fips:
  assumes "128 \<le> length data"
  shows "sha2_block sha512_macros sha512_calls s data = fips_compress2 fips_512 80 s data"
proof -
  have "16 * wbytes fips_512 \<le> length data" using assms by (simp add: fips_512_def)
  then show ?thesis by (intro sha2_block_fips [OF sha512_calls_ok _ sha512_agree]) simp_all
qed

lemma sha512_block_take:
  assumes "128 \<le> length data"
  shows "sha2_block sha512_macros sha512_calls s (take 128 data) = sha2_block sha512_macros sha512_calls s data"
proof -
  have "16 * wbytes fips_512 = 128" by (simp add: fips_512_def)
  then show ?thesis
    using assms fips_compress2_take [of fips_512 80 s data] by (simp add: sha512_block_fips)
qed

interpretation sha512: block_function sha512_block_data_order 128
  by (rule block_function_loop [where blk = "sha2_block sha512_macros sha512_calls"])
    (simp_all add: sha512_block_take)

lemma sha512_one: "length b = 128 \<Longrightarrow> sha512_block_data_order s b 1 = fips_compress2 fips_512 80 s b"
  by (simp add: sha512_block_fips)

lemma store_be64_bytes: "store_be64 t = be_bytes 8 (unat t)"
proof -
  have b: "(ucast (drop_bit k t) :: u8) = word_of_nat (unat t div 2 ^ k)" for k
    by (rule word_unat_eq_iff [THEN iffD2]) (simp only: unat_ucast_to_u8 unat_u8_of_nat unat_drop_bit)
  have "[0..<8] = [0, 1, 2, 3, 4, 5, 6, 7]" by code_simp
  then show ?thesis using b [of 0] by (simp add: store_be64_def be_bytes_map b)
qed

lemma store_length: "store_be64 h @ store_be64 l = be_bytes 16 (unat h * 2 ^ 64 + unat l)"
proof -
  have "unat l < 256 ^ 8" using unsigned_less [of l] by simp
  then have "le_bytes (8 + 8) (unat l + 256 ^ 8 * unat h) = le_bytes 8 (unat l) @ le_bytes 8 (unat h)"
    by (rule le_bytes_split)
  then show ?thesis by (simp add: store_be64_bytes be_bytes_def ac_simps)
qed

section \<open>The collector\<close>

definition sha512_holds :: "u64 list \<Rightarrow> bytes \<Rightarrow> sha512_ctx \<Rightarrow> bool" where
  "sha512_holds h0 msg c \<longleftrightarrow>
     sha_h c = fold_blocks sha512.one 128 h0 msg \<and>
     sha_num c = length msg mod 128 \<and> length (sha_p c) = 128 \<and>
     take (sha_num c) (sha_p c) = drop (length msg div 128 * 128) msg \<and>
     unat (sha_Nh c) * 2 ^ 64 + unat (sha_Nl c) = 8 * length msg mod 2 ^ 128"

lemma drop_blocks128:
  assumes "128 dvd length u"
  shows "drop (length (u @ d) div 128 * 128) (u @ d) = drop (length d div 128 * 128) d"
proof -
  obtain k where "length u = 128 * k" using assms by (elim dvdE)
  then have "length (u @ d) div 128 * 128 = length u + length d div 128 * 128" by simp
  then show ?thesis by simp
qed

lemma sha512_holdsI:
  assumes u: "128 dvd length u"
    and "sha_h c = fold_blocks sha512.one 128 (fold_blocks sha512.one 128 h0 u) d"
      "sha_num c = length d mod 128" "length (sha_p c) = 128"
      "take (length d mod 128) (sha_p c) = drop (length d div 128 * 128) d"
      "unat (sha_Nh c) * 2 ^ 64 + unat (sha_Nl c) = 8 * length (u @ d) mod 2 ^ 128"
  shows "sha512_holds h0 (u @ d) c"
proof -
  have "length (u @ d) mod 128 = length d mod 128" using u by (auto elim!: dvdE)
  with assms show ?thesis
    unfolding sha512_holds_def drop_blocks128 [OF u] by (simp add: sha512.fold_append)
qed

text \<open>The loop for a misaligned input absorbs the blocks that the block function absorbs at once.\<close>

lemma SHA512_unaligned_spec:
  "length (sha_p c) = 128 \<Longrightarrow>
     \<exists>p. length p = 128 \<and>
       SHA512_unaligned c data = (c\<lparr>sha_p := p, sha_h := fold_blocks sha512.one 128 (sha_h c) data\<rparr>,
         drop (length data div 128 * 128) data)"
proof (induction c data rule: SHA512_unaligned.induct)
  case (1 c data)
  show ?case
  proof (cases "128 \<le> length data")
    case True
    have b: "blit (sha_p c) 0 (take 128 data) = take 128 data"
      using True 1(2) by (intro blit_all) simp
    have d: "drop (length (drop 128 data) div 128 * 128) (drop 128 data) = drop (length data div 128 * 128) data"
    proof -
      have "data = take 128 data @ drop 128 data" "128 dvd length (take 128 data)" using True by simp_all
      then show ?thesis using drop_blocks128 [of "take 128 data" "drop 128 data"] by simp
    qed
    define c' where "c' = c\<lparr>sha_p := take 128 data, sha_h := sha512.one (sha_h c) (take 128 data)\<rparr>"
    have "SHA512_unaligned c data = SHA512_unaligned c' (drop 128 data)"
      using True by (subst SHA512_unaligned.simps) (simp add: b Let_def c'_def)
    moreover have "\<exists>p. length p = 128 \<and> SHA512_unaligned c' (drop 128 data) =
        (c'\<lparr>sha_p := p, sha_h := fold_blocks sha512.one 128 (sha_h c') (drop 128 data)\<rparr>,
         drop (length (drop 128 data) div 128 * 128) (drop 128 data))"
      using 1(1) [OF True refl, of c'] True by (simp add: b c'_def)
    ultimately show ?thesis using True unfolding d by (auto simp: c'_def sha512.fold_step [of data])
  next
    case False
    then show ?thesis using 1(2)
      by (intro exI [of _ "sha_p c"]) (simp add: SHA512_unaligned.simps [of c] sha512.fold_short)
  qed
qed

lemma Update_rest_spec:
  assumes len: "length (sha_p c) = 128" and num: "sha_num c = 0"
  shows "\<exists>p. length p = 128 \<and> take (length data mod 128) p = drop (length data div 128 * 128) data \<and>
    SHA512_Update_rest unal c data = c\<lparr>sha_p := p, sha_h := fold_blocks sha512.one 128 (sha_h c) data,
      sha_num := length data mod 128\<rparr>"
proof -
  define r where "r = drop (length data div 128 * 128) data"
  have lr: "length r = length data mod 128" by (simp add: r_def minus_div_mult_eq_mod)
  then have r128: "length r < 128" by simp
  have dr: "drop (length data - length data mod 128) data = r"
    by (simp add: r_def minus_mod_eq_div_mult)
  obtain p where p: "length p = 128"
    and blocks: "(if 128 \<le> length data
             then if unal then SHA512_unaligned c data
                  else (c\<lparr>sha_h := sha512_block_data_order (sha_h c) data (length data div 128)\<rparr>,
                        drop (length data - length data mod 128) data)
             else (c, data)) = (c\<lparr>sha_p := p, sha_h := fold_blocks sha512.one 128 (sha_h c) data\<rparr>, r)"
  proof (cases "128 \<le> length data \<and> unal")
    case True
    then show ?thesis using SHA512_unaligned_spec [OF len, of data] that by (auto simp: r_def)
  next
    case False
    show ?thesis
    proof (rule that [of "sha_p c"])
      show "(if 128 \<le> length data
             then if unal then SHA512_unaligned c data
                  else (c\<lparr>sha_h := sha512_block_data_order (sha_h c) data (length data div 128)\<rparr>,
                        drop (length data - length data mod 128) data)
             else (c, data)) = (c\<lparr>sha_p := sha_p c, sha_h := fold_blocks sha512.one 128 (sha_h c) data\<rparr>, r)"
        using False sha512.bdo_whole [of data "sha_h c"] dr
        by (cases "128 \<le> length data") (simp_all add: sha512.fold_short r_def)
    qed (rule len)
  qed
  let ?p = "if r = [] then p else blit p 0 r"
  have "length ?p = 128" "take (length r) ?p = r"
    using p r128 by (simp_all add: length_blit) (simp add: blit_def)
  moreover have "SHA512_Update_rest unal c data =
      c\<lparr>sha_p := ?p, sha_h := fold_blocks sha512.one 128 (sha_h c) data, sha_num := length r\<rparr>"
    unfolding SHA512_Update_rest_def Let_def blocks using num by simp
  ultimately show ?thesis unfolding lr r_def [symmetric] by blast
qed

lemma SHA512_Update_holds:
  assumes "sha512_holds h0 msg c"
  shows "sha512_holds h0 (msg @ data) (SHA512_Update unal c data) \<and>
    sha_md_len (SHA512_Update unal c data) = sha_md_len c"
proof (cases "data = []")
  case False
  define w where "w = take (length msg div 128 * 128) msg"
  define t where "t = drop (length msg div 128 * 128) msg"
  have msg: "msg = w @ t" by (simp add: w_def t_def)
  have w: "128 dvd length w" by (simp add: w_def)
  have lt: "length t = length msg mod 128" by (simp add: t_def minus_div_mult_eq_mod)
  define c1 where "c1 = c\<lparr>sha_Nh :=
      (if sha_Nl c + push_bit 3 (word_of_nat (length data)) < sha_Nl c then sha_Nh c + 1 else sha_Nh c) +
      word_of_nat (length data div 2 ^ 61), sha_Nl := sha_Nl c + push_bit 3 (word_of_nat (length data))\<rparr>"
  have t128: "length t < 128" unfolding lt by simp
  have h: "sha_h c = fold_blocks sha512.one 128 h0 msg" and n: "sha_num c = length t"
    and rest: "length (sha_p c) = 128" "take (length t) (sha_p c) = t"
      "unat (sha_Nh c) * 2 ^ 64 + unat (sha_Nl c) = 8 * length msg mod 2 ^ 128"
    using assms unfolding sha512_holds_def t_def [symmetric] lt by auto
  have "sha_h c = fold_blocks sha512.one 128 h0 w"
    unfolding h by (subst msg) (simp only: sha512.fold_append [OF w] sha512.fold_short [OF t128])
  note c = this n rest
  have "unat (sha_Nh c1) * 2 ^ 64 + unat (sha_Nl c1) =
      (unat (sha_Nh c) * 2 ^ 64 + unat (sha_Nl c) + 8 * length data) mod 2 ^ 128"
    using count_halves_add [where nh = "sha_Nh c" and nl = "sha_Nl c" and len = "length data"] by (simp add: c1_def)
  then have count: "unat (sha_Nh c1) * 2 ^ 64 + unat (sha_Nl c1) = 8 * length (msg @ data) mod 2 ^ 128"
    unfolding rest(3) by (simp add: mod_add_left_eq)
  have upd: "SHA512_Update unal c data =
      (if sha_num c \<noteq> 0 then
         if length data < 128 - sha_num c
         then c1\<lparr>sha_p := blit (sha_p c) (sha_num c) data, sha_num := sha_num c + length data\<rparr>
         else SHA512_Update_rest unal
           (c1\<lparr>sha_p := blit (sha_p c) (sha_num c) (take (128 - sha_num c) data), sha_num := 0,
               sha_h := sha512.one (sha_h c) (blit (sha_p c) (sha_num c) (take (128 - sha_num c) data))\<rparr>)
           (drop (128 - sha_num c) data)
       else SHA512_Update_rest unal c1 data)"
    using False by (simp add: SHA512_Update_def Let_def c1_def)
  show ?thesis
  proof (cases "length t = 0")
    case True
    then have d: "128 dvd length msg" "t = []" using lt by (simp_all add: mod_eq_0_iff_dvd)
    have "length (sha_p c1) = 128" "sha_num c1 = 0" using c True by (simp_all add: c1_def)
    from Update_rest_spec [OF this, of data unal] obtain p where p: "length p = 128"
        "take (length data mod 128) p = drop (length data div 128 * 128) data"
        "SHA512_Update_rest unal c1 data = c1\<lparr>sha_p := p, sha_h := fold_blocks sha512.one 128 (sha_h c1) data,
          sha_num := length data mod 128\<rparr>" by auto
    have "SHA512_Update unal c data = SHA512_Update_rest unal c1 data" using upd c(2) True by simp
    then show ?thesis
      using d p c(1) count msg by (auto intro!: sha512_holdsI simp: c1_def)
  next
    case n: False
    show ?thesis
    proof (cases "length data < 128 - length t")
      case False
      define d where "d = drop (128 - length t) data"
      define b where "b = t @ take (128 - length t) data"
      have b: "length b = 128" "blit (sha_p c) (length t) (take (128 - length t) data) = b"
        using False t128 c(3,4) by (simp_all add: b_def blit_def)
      have all: "msg @ data = (w @ b) @ d" by (simp add: msg b_def d_def)
      define c2 where "c2 = c1\<lparr>sha_p := b, sha_num := 0, sha_h := sha512.one (sha_h c) b\<rparr>"
      have u: "SHA512_Update unal c data = SHA512_Update_rest unal c2 d"
        using upd n False c(2) b(2) by (simp add: c2_def d_def)
      have "length (sha_p c2) = 128" "sha_num c2 = 0" using b by (simp_all add: c2_def)
      from Update_rest_spec [OF this, of d unal] obtain p where p: "length p = 128"
          "take (length d mod 128) p = drop (length d div 128 * 128) d"
          "SHA512_Update_rest unal c2 d = c2\<lparr>sha_p := p, sha_h := fold_blocks sha512.one 128 (sha_h c2) d,
            sha_num := length d mod 128\<rparr>" by auto
      have "sha_h c2 = fold_blocks sha512.one 128 h0 (w @ b)"
        using c(1) b(1) w by (simp add: c2_def sha512.fold_append sha512.fold_last)
      moreover have "128 dvd length (w @ b)" using w b(1) by simp
      ultimately have "sha512_holds h0 ((w @ b) @ d) (SHA512_Update_rest unal c2 d)"
        using p count unfolding all by (intro sha512_holdsI) (simp_all add: c2_def)
      then show ?thesis unfolding all [symmetric] u p(3) by (simp add: c2_def c1_def)
    next
      case True
      have all: "msg @ data = w @ (t @ data)" by (simp add: msg)
      have u: "SHA512_Update unal c data =
          c1\<lparr>sha_p := blit (sha_p c) (length t) data, sha_num := length t + length data\<rparr>"
        using upd n True c(2) by simp
      have "take (length t + length data) (blit (sha_p c) (length t) data) = t @ data"
        using c(3,4) t128 by (simp add: take_blit_end)
      then have "sha512_holds h0 (w @ (t @ data)) (SHA512_Update unal c data)"
        using True c(1,3) w count unfolding all u
        by (intro sha512_holdsI) (simp_all add: sha512.fold_short length_blit c1_def)
      then show ?thesis unfolding all u by (simp add: c1_def)
    qed
  qed
qed (use assms in \<open>simp add: SHA512_Update_def\<close>)

lemma SHA512_stream_holds:
  "sha512_holds h0 msg c \<Longrightarrow>
     sha512_holds h0 (msg @ concat (map snd inps)) (foldl (\<lambda>c (unal, data). SHA512_Update unal c data) c inps) \<and>
     sha_md_len (foldl (\<lambda>c (unal, data). SHA512_Update unal c data) c inps) = sha_md_len c"
proof (induction inps arbitrary: c msg)
  case (Cons i inps)
  obtain unal data where i: "i = (unal, data)" by (rule prod.exhaust)
  from SHA512_Update_holds [OF Cons.prems, of data unal] Cons.IH show ?case by (fastforce simp: i)
qed simp

lemma SHA512_Final_pads:
  assumes "sha512_holds h0 msg c"
  shows "sha_h (fst (SHA512_Final md c)) =
      fold_blocks sha512.one 128 h0 (md_pad 128 16 (md_length_be 16 msg) msg) \<and>
    snd (SHA512_Final md c) =
      (if \<not> md then None
       else if sha_md_len c = SHA384_DIGEST_LENGTH
       then Some (words_out64 6 (sha_h (fst (SHA512_Final md c))))
       else if sha_md_len c = SHA512_DIGEST_LENGTH
       then Some (words_out64 8 (sha_h (fst (SHA512_Final md c)))) else None)"
proof -
  define lf where "lf = md_length_be 16 msg"
  define t where "t = drop (length msg div 128 * 128) msg"
  have lt: "length t = length msg mod 128" by (simp add: t_def minus_div_mult_eq_mod)
  have t128: "length t < 128" unfolding lt by simp
  have hsc: "sha_h c = fold_blocks sha512.one 128 h0 msg" and n: "sha_num c = length t"
    and len: "length (sha_p c) = 128" and buf: "take (length t) (sha_p c) = t"
    and cnt: "unat (sha_Nh c) * 2 ^ 64 + unat (sha_Nl c) = 8 * length msg mod 2 ^ 128"
    using assms unfolding sha512_holds_def t_def [symmetric] lt by auto
  have lf: "store_be64 (sha_Nh c) @ store_be64 (sha_Nl c) = lf"
    using cnt unfolding lf_def md_length_be_def by (simp add: store_length)
  have llf: "length lf = 16" by (simp add: lf_def md_length_be_def)
  have d: "(sha_p c)[length t := 0x80] = t @ 0x80 # drop (length t + 1) (sha_p c)"
    using buf len t128 by (simp add: upd_conv_take_nth_drop)
  have pad: "fold_blocks sha512.one 128 h0 (md_pad 128 16 lf msg) =
     (if 128 - 16 < length t + 1
      then sha512.one (sha512.one (sha_h c) (t @ 0x80 # replicate (128 - 1 - length t) 0))
        (replicate (128 - 16) 0 @ lf)
      else sha512.one (sha_h c) (t @ 0x80 # replicate (128 - 16 - 1 - length t) 0 @ lf))"
    unfolding hsc by (rule sha512.fold_md_pad [OF _ llf t_def]) simp
  have "sha_h (fst (SHA512_Final md c)) = fold_blocks sha512.one 128 h0 (md_pad 128 16 lf msg)"
  proof (cases "128 - 16 < length t + 1")
    case True
    let ?b = "t @ 0x80 # replicate (128 - 1 - length t) 0"
    have b: "blit ((sha_p c)[length t := 0x80]) (length t + 1) (replicate (128 - (length t + 1)) 0) = ?b"
      unfolding d using len t128 by (simp add: blit_def)
    have z: "blit (blit ?b 0 (replicate (128 - 16) 0)) (128 - 16) lf = replicate (128 - 16) 0 @ lf"
      using llf t128 by (simp add: blit_def)
    show ?thesis
      unfolding SHA512_Final_def Let_def n b lf if_P [OF True] prod.case diff_zero z pad by simp
  next
    case False
    have z: "blit (blit ((sha_p c)[length t := 0x80]) (length t + 1) (replicate (128 - 16 - (length t + 1)) 0))
          (128 - 16) lf =
        t @ 0x80 # replicate (128 - 16 - 1 - length t) 0 @ lf"
    proof -
      have "112 - length t = Suc (111 - length t)" using False by linarith
      then show ?thesis unfolding d using len t128 llf False by (simp add: blit_def)
    qed
    show ?thesis
      unfolding SHA512_Final_def Let_def n lf if_not_P [OF False] prod.case z pad by simp
  qed
  then show ?thesis unfolding lf_def
    by (simp add: SHA512_Final_def Let_def SHA384_DIGEST_LENGTH_def SHA512_DIGEST_LENGTH_def split: prod.split)
qed

section \<open>Correctness\<close>

definition SHA512_stream :: "sha512_ctx \<Rightarrow> (bool \<times> bytes) list \<Rightarrow> sha512_ctx" where
  "SHA512_stream = foldl (\<lambda>c (unal, data). SHA512_Update unal c data)"

lemma words_out64_be: "words_out64 k s = concat (map (\<lambda>w. be_bytes 8 (unat w)) (take k s))"
  by (simp add: words_out64_def store_be64_bytes [abs_def])

lemma SHA512_stream_digest:
  assumes "length (sha_p ctx) = 128" "sha_num ctx = 0" "sha_Nl ctx = 0" "sha_Nh ctx = 0"
  shows "snd (SHA512_Final True (SHA512_stream ctx inps)) =
     (if sha_md_len ctx = SHA384_DIGEST_LENGTH then Some (fips_sha2_64 (sha_h ctx) 6 (concat (map snd inps)))
      else if sha_md_len ctx = SHA512_DIGEST_LENGTH then Some (fips_sha2_64 (sha_h ctx) 8 (concat (map snd inps)))
      else None)"
proof -
  have "sha512_holds (sha_h ctx) [] ctx" using assms by (simp add: sha512_holds_def sha512.fold_short)
  from SHA512_stream_holds [OF this, of inps]
  have holds: "sha512_holds (sha_h ctx) (concat (map snd inps)) (SHA512_stream ctx inps)"
    and md: "sha_md_len (SHA512_stream ctx inps) = sha_md_len ctx"
    unfolding SHA512_stream_def by simp_all
  from SHA512_Final_pads [OF holds, of True] show ?thesis
    by (simp only: md words_out64_be fips_sha2_64_def fold_blocks_cong [OF sha512_one] not_True_eq_False if_False)
qed

lemma SHA512_stream_fips:
  "length (sha_p ctx) = 128 \<Longrightarrow>
     snd (SHA512_Final True (SHA512_stream (SHA512_Init ctx) inps)) = Some (fips_sha512 (concat (map snd inps)))"
  by (simp add: SHA512_stream_digest SHA512_Init_def fips_sha512_def SHA384_DIGEST_LENGTH_def SHA512_DIGEST_LENGTH_def)

lemma SHA384_stream_fips:
  "length (sha_p ctx) = 128 \<Longrightarrow>
     snd (SHA512_Final True (SHA512_stream (SHA384_Init ctx) inps)) = Some (fips_sha384 (concat (map snd inps)))"
  by (simp add: SHA512_stream_digest SHA384_Init_def fips_sha384_def)

text \<open>C15. SHA-384 and SHA-512, started from a context with any leftover contents and fed a message
  in any pieces, each aligned or not, return the digests that FIPS 180-4 defines for the message
  (with its length taken modulo 2 to the 128 bits), and so do the one-shot functions.\<close>

theorem SHA512_correct:
  assumes "length (sha_p ctx) = 128"
  shows "snd (SHA512_Final True (SHA512_stream (SHA512_Init ctx) inps)) = Some (fips_sha512 (concat (map snd inps))) \<and>
     snd (SHA384_Final True (SHA512_stream (SHA384_Init ctx) inps)) = Some (fips_sha384 (concat (map snd inps))) \<and>
     SHA512 ctx unal data = Some (fips_sha512 data) \<and> SHA384 ctx unal data = Some (fips_sha384 data)"
  using SHA512_stream_fips [OF assms, of inps] SHA384_stream_fips [OF assms, of inps]
    SHA512_stream_fips [OF assms, of "[(unal, data)]"] SHA384_stream_fips [OF assms, of "[(unal, data)]"]
  by (simp add: SHA384_Final_def SHA512_def SHA384_def SHA384_Update_def SHA512_stream_def)

text \<open>A context full of the byte 7 and the message 97, 98, 99 in two pieces.\<close>

theorem SHA512_correct_witness:
  "snd (SHA512_Final True (SHA512_stream
      (SHA512_Init \<lparr>sha_h = [], sha_Nl = 1, sha_Nh = 2, sha_p = replicate 128 7, sha_num = 3, sha_md_len = 4\<rparr>)
      [(True, [97]), (False, [98, 99])])) = Some (fips_sha512 [97, 98, 99])"
  using SHA512_correct [of "\<lparr>sha_h = [], sha_Nl = 1, sha_Nh = 2, sha_p = replicate 128 7, sha_num = 3, sha_md_len = 4\<rparr>"
      "[(True, [97]), (False, [98, 99])]"] by simp

end
