(* ===== verification/Evp.thy ===== *)
theory Evp
  imports Md5 Sha1 Sha256 Sha512
begin

text \<open>
  \<^verbatim>\<open>BoringSSL/crypto/fipsmodule/digest/digests.c\<close> and \<^verbatim>\<open>digest.c\<close>: the method tables of the
  eight digests and the contexts that own the state of one.  A method table is a constructor,
  since \<open>EVP_sha256()\<close> and its kin always return the same pointer; the block \<open>md_data\<close> holds the
  state of the digest.  Allocation can fail: \<open>al n\<close> says whether \<open>OPENSSL_malloc(n)\<close> succeeds.
  Calling an operation that dereferences a NULL \<open>digest\<close> is the result \<open>None\<close>.  The contract
  the clients (HMAC, HKDF, the TLS PRF) rely on is the locale \<open>evp_digest\<close>, which every method
  table is proved to satisfy for the hash function its standard defines.
\<close>

section \<open>Method tables\<close>

datatype evp_md = EVP_md4 | EVP_md5 | EVP_sha1 | EVP_sha224 | EVP_sha256 | EVP_sha384 | EVP_sha512 | EVP_md5_sha1

text \<open>The contents of \<open>md_data\<close>: \<open>Raw\<close> for a block that is fresh or has been cleansed.\<close>

datatype evp_data =
    Raw
  | MD4_data md32_ctx
  | MD5_data md32_ctx
  | SHA1_data md32_ctx
  | SHA256_data sha256_ctx
  | SHA512_data sha512_ctx
  | MD5_SHA1_data md32_ctx md32_ctx

fun EVP_MD_type :: "evp_md \<Rightarrow> int" where
  "EVP_MD_type EVP_md4 = 257"
| "EVP_MD_type EVP_md5 = 4"
| "EVP_MD_type EVP_sha1 = 64"
| "EVP_MD_type EVP_sha224 = 675"
| "EVP_MD_type EVP_sha256 = 672"
| "EVP_MD_type EVP_sha384 = 673"
| "EVP_MD_type EVP_sha512 = 674"
| "EVP_MD_type EVP_md5_sha1 = 114"

fun EVP_MD_size :: "evp_md \<Rightarrow> nat" where
  "EVP_MD_size EVP_md4 = 16"
| "EVP_MD_size EVP_md5 = 16"
| "EVP_MD_size EVP_sha1 = 20"
| "EVP_MD_size EVP_sha224 = 28"
| "EVP_MD_size EVP_sha256 = 32"
| "EVP_MD_size EVP_sha384 = 48"
| "EVP_MD_size EVP_sha512 = 64"
| "EVP_MD_size EVP_md5_sha1 = 16 + 20"

fun EVP_MD_block_size :: "evp_md \<Rightarrow> nat" where
  "EVP_MD_block_size EVP_sha384 = 128"
| "EVP_MD_block_size EVP_sha512 = 128"
| "EVP_MD_block_size _ = 64"

text \<open>\<open>sizeof\<close> of the contexts.\<close>

fun EVP_MD_ctx_size :: "evp_md \<Rightarrow> nat" where
  "EVP_MD_ctx_size EVP_md4 = 92"
| "EVP_MD_ctx_size EVP_md5 = 92"
| "EVP_MD_ctx_size EVP_sha1 = 96"
| "EVP_MD_ctx_size EVP_sha224 = 112"
| "EVP_MD_ctx_size EVP_sha256 = 112"
| "EVP_MD_ctx_size EVP_sha384 = 216"
| "EVP_MD_ctx_size EVP_sha512 = 216"
| "EVP_MD_ctx_size EVP_md5_sha1 = 188"

text \<open>The initialisers of SHA-384 and SHA-512 keep the buffer they find in the block, whose
  contents are never read; in a raw block it is taken to be zeros.\<close>

fun sha512_view :: "evp_data \<Rightarrow> sha512_ctx" where
  "sha512_view (SHA512_data c) = c"
| "sha512_view _ = \<lparr>sha_h = [], sha_Nl = 0, sha_Nh = 0, sha_p = replicate 128 0, sha_num = 0, sha_md_len = 0\<rparr>"

fun evp_init :: "evp_md \<Rightarrow> evp_data \<Rightarrow> evp_data" where
  "evp_init EVP_md4 d = MD4_data MD4_Init"
| "evp_init EVP_md5 d = MD5_data MD5_Init"
| "evp_init EVP_sha1 d = SHA1_data SHA1_Init"
| "evp_init EVP_sha224 d = SHA256_data SHA224_Init"
| "evp_init EVP_sha256 d = SHA256_data SHA256_Init"
| "evp_init EVP_sha384 d = SHA512_data (SHA384_Init (sha512_view d))"
| "evp_init EVP_sha512 d = SHA512_data (SHA512_Init (sha512_view d))"
| "evp_init EVP_md5_sha1 d = MD5_SHA1_data MD5_Init SHA1_Init"

text \<open>The targets of the application read unaligned words, so SHA-512 takes the aligned path.  A
  method is only applied to a block that its own initialiser has set up.\<close>

fun evp_update :: "evp_md \<Rightarrow> evp_data \<Rightarrow> bytes \<Rightarrow> evp_data" where
  "evp_update EVP_md4 (MD4_data c) xs = MD4_data (MD4_Update c xs)"
| "evp_update EVP_md5 (MD5_data c) xs = MD5_data (MD5_Update c xs)"
| "evp_update EVP_sha1 (SHA1_data c) xs = SHA1_data (SHA1_Update c xs)"
| "evp_update EVP_sha224 (SHA256_data c) xs = SHA256_data (SHA224_Update c xs)"
| "evp_update EVP_sha256 (SHA256_data c) xs = SHA256_data (SHA256_Update c xs)"
| "evp_update EVP_sha384 (SHA512_data c) xs = SHA512_data (SHA384_Update False c xs)"
| "evp_update EVP_sha512 (SHA512_data c) xs = SHA512_data (SHA512_Update False c xs)"
| "evp_update EVP_md5_sha1 (MD5_SHA1_data c d) xs = MD5_SHA1_data (MD5_Update c xs) (SHA1_Update d xs)"
| "evp_update _ d xs = d"

text \<open>\<open>None\<close> is a failure of the low-level function, on which \<open>CHECK\<close> aborts.\<close>

fun evp_final :: "evp_md \<Rightarrow> evp_data \<Rightarrow> bytes option" where
  "evp_final EVP_md4 (MD4_data c) = snd (MD4_Final c)"
| "evp_final EVP_md5 (MD5_data c) = snd (MD5_Final c)"
| "evp_final EVP_sha1 (SHA1_data c) = snd (SHA1_Final c)"
| "evp_final EVP_sha224 (SHA256_data c) = snd (SHA224_Final c)"
| "evp_final EVP_sha256 (SHA256_data c) = snd (SHA256_Final c)"
| "evp_final EVP_sha384 (SHA512_data c) = snd (SHA384_Final True c)"
| "evp_final EVP_sha512 (SHA512_data c) = snd (SHA512_Final True c)"
| "evp_final EVP_md5_sha1 (MD5_SHA1_data c d) =
     (case (snd (MD5_Final c), snd (SHA1_Final d)) of (Some x, Some y) \<Rightarrow> Some (x @ y) | _ \<Rightarrow> None)"
| "evp_final _ d = None"

section \<open>Contexts\<close>

record evp_md_ctx =
  digest :: "evp_md option"
  md_data :: evp_data

definition EVP_MD_CTX_init :: evp_md_ctx where
  "EVP_MD_CTX_init = \<lparr>digest = None, md_data = Raw\<rparr>"

definition EVP_MD_CTX_cleanup :: "evp_md_ctx \<Rightarrow> evp_md_ctx" where
  "EVP_MD_CTX_cleanup ctx = EVP_MD_CTX_init"

text \<open>Copies into \<open>out\<close>, reusing its block when the two digests are the same.\<close>

definition EVP_MD_CTX_copy_ex :: "(nat \<Rightarrow> bool) \<Rightarrow> evp_md_ctx \<Rightarrow> evp_md_ctx \<Rightarrow> bool \<times> evp_md_ctx" where
  "EVP_MD_CTX_copy_ex al out inp =
     (case digest inp of
        None \<Rightarrow> (False, out)
      | Some md \<Rightarrow>
          if digest out \<noteq> digest inp \<and> \<not> al (EVP_MD_ctx_size md) then (False, out)
          else (True, (EVP_MD_CTX_cleanup out)\<lparr>digest := digest inp, md_data := md_data inp\<rparr>))"

definition EVP_MD_CTX_copy :: "(nat \<Rightarrow> bool) \<Rightarrow> evp_md_ctx \<Rightarrow> bool \<times> evp_md_ctx" where
  "EVP_MD_CTX_copy al inp = EVP_MD_CTX_copy_ex al EVP_MD_CTX_init inp"

definition EVP_DigestInit_ex :: "(nat \<Rightarrow> bool) \<Rightarrow> evp_md_ctx \<Rightarrow> evp_md \<Rightarrow> bool \<times> evp_md_ctx" where
  "EVP_DigestInit_ex al ctx type =
     (if digest ctx \<noteq> Some type \<and> \<not> al (EVP_MD_ctx_size type) then (False, ctx)
      else
        let ctx = (if digest ctx \<noteq> Some type then ctx\<lparr>md_data := Raw, digest := Some type\<rparr> else ctx)
        in (True, ctx\<lparr>md_data := evp_init type (md_data ctx)\<rparr>))"

definition EVP_DigestInit :: "(nat \<Rightarrow> bool) \<Rightarrow> evp_md \<Rightarrow> bool \<times> evp_md_ctx" where
  "EVP_DigestInit al type = EVP_DigestInit_ex al EVP_MD_CTX_init type"

definition EVP_DigestUpdate :: "evp_md_ctx \<Rightarrow> bytes \<Rightarrow> evp_md_ctx option" where
  "EVP_DigestUpdate ctx data =
     (case digest ctx of
        None \<Rightarrow> None
      | Some md \<Rightarrow> Some (ctx\<lparr>md_data := evp_update md (md_data ctx) data\<rparr>))"

text \<open>The digest written at \<open>md_out\<close> and the context left behind, whose block is cleansed.\<close>

definition EVP_DigestFinal_ex :: "evp_md_ctx \<Rightarrow> (bytes \<times> evp_md_ctx) option" where
  "EVP_DigestFinal_ex ctx =
     (case digest ctx of
        None \<Rightarrow> None
      | Some md \<Rightarrow>
          (case evp_final md (md_data ctx) of
             None \<Rightarrow> None
           | Some out \<Rightarrow> Some (out, ctx\<lparr>md_data := Raw\<rparr>)))"

definition EVP_DigestFinal :: "evp_md_ctx \<Rightarrow> (bytes \<times> evp_md_ctx) option" where
  "EVP_DigestFinal ctx =
     (case EVP_DigestFinal_ex ctx of None \<Rightarrow> None | Some (md, ctx) \<Rightarrow> Some (md, EVP_MD_CTX_cleanup ctx))"

text \<open>The outer option is \<open>None\<close> where the code would abort, the inner one where it returns 0.\<close>

definition EVP_Digest :: "(nat \<Rightarrow> bool) \<Rightarrow> bytes \<Rightarrow> evp_md \<Rightarrow> bytes option option" where
  "EVP_Digest al data type =
     (let (ok, ctx) = EVP_DigestInit_ex al EVP_MD_CTX_init type in
      if \<not> ok then Some None
      else case EVP_DigestUpdate ctx data of
             None \<Rightarrow> None
           | Some ctx \<Rightarrow> (case EVP_DigestFinal_ex ctx of None \<Rightarrow> None | Some (md, ctx) \<Rightarrow> Some (Some md)))"

section \<open>The hash functions\<close>

fun evp_hash :: "evp_md \<Rightarrow> bytes \<Rightarrow> bytes" where
  "evp_hash EVP_md4 = rfc1320_md4"
| "evp_hash EVP_md5 = rfc1321_md5"
| "evp_hash EVP_sha1 = fips_sha1"
| "evp_hash EVP_sha224 = fips_sha224"
| "evp_hash EVP_sha256 = fips_sha256"
| "evp_hash EVP_sha384 = fips_sha384"
| "evp_hash EVP_sha512 = fips_sha512"
| "evp_hash EVP_md5_sha1 = (\<lambda>x. rfc1321_md5 x @ fips_sha1 x)"

text \<open>A block that SHA-384 or SHA-512 has used keeps its 128-byte buffer.\<close>

definition data_ok :: "evp_data \<Rightarrow> bool" where
  "data_ok d \<longleftrightarrow> length (sha_p (sha512_view d)) = 128"

text \<open>A context that has absorbed \<open>m\<close>: further updates append, and the final call returns the hash of \<open>m\<close>.\<close>

definition absorbed :: "evp_md \<Rightarrow> evp_md_ctx \<Rightarrow> bytes \<Rightarrow> bool" where
  "absorbed md ctx m \<longleftrightarrow> digest ctx = Some md \<and>
     (\<exists>d xs. data_ok d \<and> md_data ctx = foldl (evp_update md) (evp_init md d) xs \<and> m = concat xs)"

text \<open>What the clients of a method table rely on.\<close>

locale evp_digest =
  fixes md :: evp_md and H :: "bytes \<Rightarrow> bytes"
  assumes stream: "data_ok d \<Longrightarrow> evp_final md (foldl (evp_update md) (evp_init md d) xs) = Some (H (concat xs))"
    and stream_ok: "data_ok d \<Longrightarrow> data_ok (foldl (evp_update md) (evp_init md d) xs)"
    and H_length: "length (H x) = EVP_MD_size md"
begin

lemma init_absorbed:
  "data_ok (md_data ctx) \<Longrightarrow> EVP_DigestInit_ex al ctx md = (True, c) \<Longrightarrow> absorbed md c []"
proof -
  assume ok: "data_ok (md_data ctx)" and init: "EVP_DigestInit_ex al ctx md = (True, c)"
  define d where "d = (if digest ctx = Some md then md_data ctx else Raw)"
  have "digest c = Some md" "md_data c = evp_init md d" "data_ok d"
    using ok init by (auto simp: EVP_DigestInit_ex_def Let_def d_def data_ok_def split: if_splits)
  then show "absorbed md c []" unfolding absorbed_def
    by (intro conjI exI [of _ d] exI [of _ "[]"]) simp_all
qed

lemma init_ok: "al (EVP_MD_ctx_size md) \<Longrightarrow> \<exists>c. EVP_DigestInit_ex al ctx md = (True, c)"
  by (simp add: EVP_DigestInit_ex_def Let_def)

lemma update_absorbed:
  assumes "absorbed md ctx m"
  shows "\<exists>c. EVP_DigestUpdate ctx x = Some c \<and> absorbed md c (m @ x)"
proof -
  obtain d xs where d: "data_ok d" "digest ctx = Some md" "md_data ctx = foldl (evp_update md) (evp_init md d) xs" "m = concat xs"
    using assms unfolding absorbed_def by blast
  have "absorbed md (ctx\<lparr>md_data := evp_update md (md_data ctx) x\<rparr>) (m @ x)"
    unfolding absorbed_def using d by (auto intro!: exI [of _ d] exI [of _ "xs @ [x]"])
  then show ?thesis using d by (simp add: EVP_DigestUpdate_def)
qed

lemma final_absorbed:
  assumes "absorbed md ctx m"
  shows "EVP_DigestFinal_ex ctx = Some (H m, ctx\<lparr>md_data := Raw\<rparr>)"
  using assms stream unfolding absorbed_def EVP_DigestFinal_ex_def by auto

lemma absorbed_ok: "absorbed md ctx m \<Longrightarrow> data_ok (md_data ctx) \<and> digest ctx = Some md"
  using stream_ok unfolding absorbed_def by auto

lemma copy_absorbed:
  "absorbed md inp m \<Longrightarrow> EVP_MD_CTX_copy_ex al out inp = (True, c) \<Longrightarrow> absorbed md c m"
  unfolding absorbed_def EVP_MD_CTX_copy_ex_def by (auto split: if_splits; blast)

lemma copy_ok:
  "absorbed md inp m \<Longrightarrow> digest out = Some md \<or> al (EVP_MD_ctx_size md) \<Longrightarrow>
     \<exists>c. EVP_MD_CTX_copy_ex al out inp = (True, c)"
  unfolding absorbed_def EVP_MD_CTX_copy_ex_def by auto

end

section \<open>Every method table honours the contract\<close>

lemma foldl_MD4: "foldl (evp_update EVP_md4) (MD4_data c) xs = MD4_data (foldl MD4_Update c xs)"
  by (induction xs arbitrary: c) simp_all
lemma foldl_MD5: "foldl (evp_update EVP_md5) (MD5_data c) xs = MD5_data (foldl MD5_Update c xs)"
  by (induction xs arbitrary: c) simp_all
lemma foldl_SHA1: "foldl (evp_update EVP_sha1) (SHA1_data c) xs = SHA1_data (foldl SHA1_Update c xs)"
  by (induction xs arbitrary: c) simp_all
lemma foldl_SHA224: "foldl (evp_update EVP_sha224) (SHA256_data c) xs = SHA256_data (foldl SHA224_Update c xs)"
  by (induction xs arbitrary: c) simp_all
lemma foldl_SHA256: "foldl (evp_update EVP_sha256) (SHA256_data c) xs = SHA256_data (foldl SHA256_Update c xs)"
  by (induction xs arbitrary: c) simp_all
lemma foldl_SHA384:
  "foldl (evp_update EVP_sha384) (SHA512_data c) xs = SHA512_data (SHA512_stream c (map (Pair False) xs))"
  by (induction xs arbitrary: c) (simp_all add: SHA512_stream_def SHA384_Update_def)
lemma foldl_SHA512:
  "foldl (evp_update EVP_sha512) (SHA512_data c) xs = SHA512_data (SHA512_stream c (map (Pair False) xs))"
  by (induction xs arbitrary: c) (simp_all add: SHA512_stream_def)
lemma foldl_MD5_SHA1:
  "foldl (evp_update EVP_md5_sha1) (MD5_SHA1_data c d) xs = MD5_SHA1_data (foldl MD5_Update c xs) (foldl SHA1_Update d xs)"
  by (induction xs arbitrary: c d) simp_all

lemmas foldl_update = foldl_MD4 foldl_MD5 foldl_SHA1 foldl_SHA224 foldl_SHA256 foldl_SHA384 foldl_SHA512 foldl_MD5_SHA1
lemmas digest_streams = MD4_stream MD5_stream SHA1_stream SHA224_stream SHA256_stream

lemma length_fold_sha2_32: "length h0 = 8 \<Longrightarrow> length (fold_blocks (fips_compress2 q n) B h0 x) = 8"
  by (rule fold_blocks_inv) (simp_all add: fips_compress2_def split: prod.split)

lemma length_fold_sha1: "length h0 = 5 \<Longrightarrow> length (fold_blocks fips_compress1 B h0 x) = 5"
  by (rule fold_blocks_inv) (simp_all add: fips_compress1_def split: prod.split)

lemma length_fold_rfc: "length h0 = 4 \<Longrightarrow> length (fold_blocks (rfc_compress st n) B h0 x) = 4"
  by (rule fold_blocks_inv) (simp_all add: rfc_compress_def split: prod.split)

lemma length_be_words: "length (concat (map (\<lambda>w. be_bytes 8 (f w)) ws)) = 8 * length ws"
  by (induction ws) simp_all

lemma evp_hash_length: "length (evp_hash md x) = EVP_MD_size md"
  by (cases md)
    (simp_all add: rfc1320_md4_def rfc1321_md5_def rfc_digest_def fips_sha1_def fips_sha224_def fips_sha256_def
      fips_sha2_32_def fips_sha384_def fips_sha512_def fips_sha2_64_def length_words_out length_be_words
      length_fold_sha2_32 length_fold_sha1 length_fold_rfc)

lemma SHA512_stream_buffer:
  assumes "length (sha_p ctx) = 128" "sha_num ctx = 0" "sha_Nl ctx = 0" "sha_Nh ctx = 0"
  shows "length (sha_p (SHA512_stream ctx inps)) = 128"
proof -
  have "sha512_holds (sha_h ctx) [] ctx" using assms by (simp add: sha512_holds_def sha512.fold_short)
  from SHA512_stream_holds [OF this, of inps] show ?thesis
    by (simp add: sha512_holds_def SHA512_stream_def)
qed

interpretation evp: evp_digest md "evp_hash md" for md
proof
  show "evp_final md (foldl (evp_update md) (evp_init md d) xs) = Some (evp_hash md (concat xs))"
    if "data_ok d" for d xs
    using that
    by (cases md) (simp_all add: foldl_update digest_streams data_ok_def SHA384_Final_def
        SHA384_stream_fips SHA512_stream_fips comp_def)
  show "data_ok (foldl (evp_update md) (evp_init md d) xs)" if "data_ok d" for d xs
    using that
    by (cases md) (simp_all add: foldl_update data_ok_def SHA512_stream_buffer SHA384_Init_def SHA512_Init_def)
  show "length (evp_hash md x) = EVP_MD_size md" for x by (rule evp_hash_length)
qed

end
