(* ===== verification/Hmac.thy ===== *)
theory Hmac
  imports Evp
begin

text \<open>
  \<^verbatim>\<open>BoringSSL/crypto/fipsmodule/hmac/hmac.c\<close>: HMAC over the digest contexts, with its key set-up,
  rewinding, copying and failure paths, proved equal to RFC 2104 for every digest.  The outer
  \<open>None\<close> of a result is a NULL dereference or an aborted check; \<open>al\<close> says which allocations
  succeed.  The optional ENGINE argument is unused by the code.
\<close>

section \<open>The code\<close>

definition EVP_MAX_MD_BLOCK_SIZE :: nat where "EVP_MAX_MD_BLOCK_SIZE = 128"

record hmac_ctx =
  hmd :: "evp_md option"
  md_ctx :: evp_md_ctx
  i_ctx :: evp_md_ctx
  o_ctx :: evp_md_ctx

definition HMAC_CTX_init :: hmac_ctx where
  "HMAC_CTX_init = \<lparr>hmd = None, md_ctx = EVP_MD_CTX_init, i_ctx = EVP_MD_CTX_init, o_ctx = EVP_MD_CTX_init\<rparr>"

text \<open>\<open>EVP_DigestInit_ex(...) && EVP_DigestUpdate(...)\<close>.\<close>

definition digest_start :: "(nat \<Rightarrow> bool) \<Rightarrow> evp_md_ctx \<Rightarrow> evp_md \<Rightarrow> bytes \<Rightarrow> (bool \<times> evp_md_ctx) option" where
  "digest_start al ctx md data =
     (let (ok, ctx) = EVP_DigestInit_ex al ctx md in
      if \<not> ok then Some (False, ctx)
      else case EVP_DigestUpdate ctx data of None \<Rightarrow> None | Some ctx \<Rightarrow> Some (True, ctx))"

text \<open>The key block before padding: long keys are hashed.  \<open>None\<close> in the pair is a failure.\<close>

definition HMAC_key_block :: "(nat \<Rightarrow> bool) \<Rightarrow> evp_md_ctx \<Rightarrow> evp_md \<Rightarrow> bytes \<Rightarrow> (bytes option \<times> evp_md_ctx) option" where
  "HMAC_key_block al ctx md key =
     (if EVP_MD_block_size md < length key
      then case digest_start al ctx md key of
             None \<Rightarrow> None
           | Some (ok, ctx) \<Rightarrow>
               if \<not> ok then Some (None, ctx)
               else (case EVP_DigestFinal_ex ctx of None \<Rightarrow> None | Some (kb, ctx) \<Rightarrow> Some (Some kb, ctx))
      else Some (Some key, ctx))"

definition HMAC_set_key :: "(nat \<Rightarrow> bool) \<Rightarrow> hmac_ctx \<Rightarrow> bytes \<Rightarrow> evp_md \<Rightarrow> (bool \<times> hmac_ctx) option" where
  "HMAC_set_key al ctx key md =
     (case HMAC_key_block al (md_ctx ctx) md key of
        None \<Rightarrow> None
      | Some (None, c) \<Rightarrow> Some (False, ctx\<lparr>md_ctx := c\<rparr>)
      | Some (Some kb, c) \<Rightarrow>
          (let ctx = ctx\<lparr>md_ctx := c\<rparr>;
               key_block = kb @ replicate (EVP_MAX_MD_BLOCK_SIZE - length kb) 0;
               pad = map (\<lambda>b. 0x36 XOR b) key_block
           in case digest_start al (i_ctx ctx) md (take (EVP_MD_block_size md) pad) of
                None \<Rightarrow> None
              | Some (ok, c) \<Rightarrow>
                  let ctx = ctx\<lparr>i_ctx := c\<rparr> in
                  if \<not> ok then Some (False, ctx)
                  else
                    let pad = map (\<lambda>b. 0x5c XOR b) key_block
                    in case digest_start al (o_ctx ctx) md (take (EVP_MD_block_size md) pad) of
                         None \<Rightarrow> None
                       | Some (ok, c) \<Rightarrow>
                           let ctx = ctx\<lparr>o_ctx := c\<rparr> in
                           if \<not> ok then Some (False, ctx) else Some (True, ctx\<lparr>hmd := Some md\<rparr>)))"

definition HMAC_Init_ex ::
    "(nat \<Rightarrow> bool) \<Rightarrow> hmac_ctx \<Rightarrow> bytes option \<Rightarrow> evp_md option \<Rightarrow> (bool \<times> hmac_ctx) option" where
  "HMAC_Init_ex al ctx key md =
     (let md = (if md = None then hmd ctx else md) in
      case (if md \<noteq> hmd ctx \<or> key \<noteq> None
            then case md of
                   None \<Rightarrow> None
                 | Some m \<Rightarrow> HMAC_set_key al ctx (case key of None \<Rightarrow> [] | Some k \<Rightarrow> k) m
            else Some (True, ctx)) of
        None \<Rightarrow> None
      | Some (ok, ctx) \<Rightarrow>
          if \<not> ok then Some (False, ctx)
          else let (ok, c) = EVP_MD_CTX_copy_ex al (md_ctx ctx) (i_ctx ctx)
               in Some (ok, ctx\<lparr>md_ctx := c\<rparr>))"

definition HMAC_Update :: "hmac_ctx \<Rightarrow> bytes \<Rightarrow> hmac_ctx option" where
  "HMAC_Update ctx data =
     (case EVP_DigestUpdate (md_ctx ctx) data of None \<Rightarrow> None | Some c \<Rightarrow> Some (ctx\<lparr>md_ctx := c\<rparr>))"

text \<open>The pair holds what was written at \<open>out\<close>, or \<open>None\<close> where the function returns 0.\<close>

definition HMAC_Final :: "(nat \<Rightarrow> bool) \<Rightarrow> hmac_ctx \<Rightarrow> (bytes option \<times> hmac_ctx) option" where
  "HMAC_Final al ctx =
     (case EVP_DigestFinal_ex (md_ctx ctx) of
        None \<Rightarrow> None
      | Some (buf, c) \<Rightarrow>
          let (ok, c) = EVP_MD_CTX_copy_ex al c (o_ctx ctx) in
          if \<not> ok then Some (None, ctx\<lparr>md_ctx := c\<rparr>)
          else case EVP_DigestUpdate c buf of
                 None \<Rightarrow> None
               | Some c \<Rightarrow>
                   (case EVP_DigestFinal_ex c of
                      None \<Rightarrow> None
                    | Some (out, c) \<Rightarrow> Some (Some out, ctx\<lparr>md_ctx := c\<rparr>)))"

definition HMAC_size :: "hmac_ctx \<Rightarrow> nat option" where
  "HMAC_size ctx = (case hmd ctx of None \<Rightarrow> None | Some md \<Rightarrow> Some (EVP_MD_size md))"

definition HMAC_CTX_copy_ex :: "(nat \<Rightarrow> bool) \<Rightarrow> hmac_ctx \<Rightarrow> hmac_ctx \<Rightarrow> bool \<times> hmac_ctx" where
  "HMAC_CTX_copy_ex al dest src =
     (let (ok, c) = EVP_MD_CTX_copy_ex al (i_ctx dest) (i_ctx src); dest = dest\<lparr>i_ctx := c\<rparr> in
      if \<not> ok then (False, dest)
      else
        let (ok, c) = EVP_MD_CTX_copy_ex al (o_ctx dest) (o_ctx src); dest = dest\<lparr>o_ctx := c\<rparr> in
        if \<not> ok then (False, dest)
        else
          let (ok, c) = EVP_MD_CTX_copy_ex al (md_ctx dest) (md_ctx src); dest = dest\<lparr>md_ctx := c\<rparr> in
          if \<not> ok then (False, dest) else (True, dest\<lparr>hmd := hmd src\<rparr>))"

definition HMAC_CTX_cleanup :: "hmac_ctx \<Rightarrow> hmac_ctx" where
  "HMAC_CTX_cleanup ctx = \<lparr>hmd = None, md_ctx = EVP_MD_CTX_cleanup (md_ctx ctx),
     i_ctx = EVP_MD_CTX_cleanup (i_ctx ctx), o_ctx = EVP_MD_CTX_cleanup (o_ctx ctx)\<rparr>"

definition HMAC_CTX_reset :: "hmac_ctx \<Rightarrow> hmac_ctx" where
  "HMAC_CTX_reset ctx = HMAC_CTX_init"

definition HMAC_Init ::
    "(nat \<Rightarrow> bool) \<Rightarrow> hmac_ctx \<Rightarrow> bytes option \<Rightarrow> evp_md option \<Rightarrow> (bool \<times> hmac_ctx) option" where
  "HMAC_Init al ctx key md =
     HMAC_Init_ex al (if key \<noteq> None \<and> md \<noteq> None then HMAC_CTX_init else ctx) key md"

definition HMAC_CTX_copy :: "(nat \<Rightarrow> bool) \<Rightarrow> hmac_ctx \<Rightarrow> bool \<times> hmac_ctx" where
  "HMAC_CTX_copy al src = HMAC_CTX_copy_ex al HMAC_CTX_init src"

text \<open>The one-shot function; the inner \<open>None\<close> is its NULL result.\<close>

definition HMAC :: "(nat \<Rightarrow> bool) \<Rightarrow> evp_md \<Rightarrow> bytes option \<Rightarrow> bytes \<Rightarrow> bytes option option" where
  "HMAC al md key data =
     (case HMAC_Init_ex al HMAC_CTX_init key (Some md) of
        None \<Rightarrow> None
      | Some (ok, ctx) \<Rightarrow>
          if \<not> ok then Some None
          else case HMAC_Update ctx data of
                 None \<Rightarrow> None
               | Some ctx \<Rightarrow> (case HMAC_Final al ctx of None \<Rightarrow> None | Some (out, ctx) \<Rightarrow> Some out))"

section \<open>RFC 2104\<close>

definition rfc2104_key :: "(bytes \<Rightarrow> bytes) \<Rightarrow> nat \<Rightarrow> bytes \<Rightarrow> bytes" where
  "rfc2104_key H B K = (let K = (if B < length K then H K else K) in K @ replicate (B - length K) 0)"

definition rfc2104_pad :: "(bytes \<Rightarrow> bytes) \<Rightarrow> nat \<Rightarrow> bytes \<Rightarrow> u8 \<Rightarrow> bytes" where
  "rfc2104_pad H B K p = map2 (XOR) (rfc2104_key H B K) (replicate B p)"

definition rfc2104 :: "evp_md \<Rightarrow> bytes \<Rightarrow> bytes \<Rightarrow> bytes" where
  "rfc2104 md K m =
     (let H = evp_hash md; B = EVP_MD_block_size md
      in H (rfc2104_pad H B K 0x5c @ H (rfc2104_pad H B K 0x36 @ m)))"

section \<open>Correctness\<close>

abbreviation "ipad md K \<equiv> rfc2104_pad (evp_hash md) (EVP_MD_block_size md) K 0x36"
abbreviation "opad md K \<equiv> rfc2104_pad (evp_hash md) (EVP_MD_block_size md) K 0x5c"

text \<open>A context keyed with \<open>K\<close>, and one that has moreover absorbed \<open>m\<close> since it was last started.\<close>

definition hmac_keyed :: "evp_md \<Rightarrow> bytes \<Rightarrow> hmac_ctx \<Rightarrow> bool" where
  "hmac_keyed md K ctx \<longleftrightarrow> hmd ctx = Some md \<and> absorbed md (i_ctx ctx) (ipad md K) \<and>
     absorbed md (o_ctx ctx) (opad md K) \<and> digest (md_ctx ctx) = Some md \<and> data_ok (md_data (md_ctx ctx))"

definition hmac_ready :: "evp_md \<Rightarrow> bytes \<Rightarrow> bytes \<Rightarrow> hmac_ctx \<Rightarrow> bool" where
  "hmac_ready md K m ctx \<longleftrightarrow> hmac_keyed md K ctx \<and> absorbed md (md_ctx ctx) (ipad md K @ m)"

definition hmac_clean :: "hmac_ctx \<Rightarrow> bool" where
  "hmac_clean ctx \<longleftrightarrow> data_ok (md_data (md_ctx ctx)) \<and> data_ok (md_data (i_ctx ctx)) \<and> data_ok (md_data (o_ctx ctx))"

lemma data_ok_Raw [simp]: "data_ok Raw"
  by (simp add: data_ok_def)

lemma hmac_clean_init [simp]: "hmac_clean HMAC_CTX_init"
  by (simp add: hmac_clean_def HMAC_CTX_init_def EVP_MD_CTX_init_def)

lemma hmac_clean_keyed: "hmac_keyed md K ctx \<Longrightarrow> hmac_clean ctx"
  by (auto simp: hmac_clean_def hmac_keyed_def dest: evp.absorbed_ok)

lemma digest_start_absorbed:
  assumes "data_ok (md_data ctx)" "al (EVP_MD_ctx_size md)"
  shows "\<exists>c. digest_start al ctx md x = Some (True, c) \<and> absorbed md c x"
proof -
  obtain c where c: "EVP_DigestInit_ex al ctx md = (True, c)" using evp.init_ok [where al = al, OF assms(2)] by blast
  from evp.update_absorbed [OF evp.init_absorbed [OF assms(1) c], of x] show ?thesis
    by (auto simp: digest_start_def c)
qed

lemma sizes: "EVP_MD_block_size md \<le> 128" "EVP_MD_size md \<le> EVP_MD_block_size md" "0 < EVP_MD_size md"
  by (cases md; simp)+

lemma map_xor_pad:
  assumes "length K = B"
  shows "map (\<lambda>b. p XOR b) K = map2 (XOR) K (replicate B p)"
  using assms by (induction K arbitrary: B) (auto simp: xor.commute)

lemma pad_block:
  assumes kb: "kb = (if EVP_MD_block_size md < length K then evp_hash md K else K)"
  shows "take (EVP_MD_block_size md) (map (\<lambda>b. p XOR b) (kb @ replicate (EVP_MAX_MD_BLOCK_SIZE - length kb) 0)) =
    rfc2104_pad (evp_hash md) (EVP_MD_block_size md) K p"
proof -
  let ?B = "EVP_MD_block_size md"
  have le: "length kb \<le> ?B" using sizes(2) [of md] by (simp add: kb evp_hash_length)
  have "min (?B - length kb) (128 - length kb) = ?B - length kb" using sizes(1) [of md] by linarith
  then have "take ?B (kb @ replicate (EVP_MAX_MD_BLOCK_SIZE - length kb) 0) = rfc2104_key (evp_hash md) ?B K"
    using le by (simp add: rfc2104_key_def kb [symmetric] Let_def EVP_MAX_MD_BLOCK_SIZE_def)
  moreover have len: "length (rfc2104_key (evp_hash md) ?B K) = ?B"
    using le by (simp add: rfc2104_key_def kb [symmetric] Let_def)
  ultimately show ?thesis
    unfolding take_map rfc2104_pad_def by (simp only: map_xor_pad [OF len])
qed

lemma HMAC_key_block_spec:
  assumes "data_ok (md_data ctx)" "al (EVP_MD_ctx_size md)"
  shows "\<exists>c. HMAC_key_block al ctx md K =
      Some (Some (if EVP_MD_block_size md < length K then evp_hash md K else K), c) \<and> data_ok (md_data c)"
proof (cases "EVP_MD_block_size md < length K")
  case True
  obtain c where c: "digest_start al ctx md K = Some (True, c)" "absorbed md c K"
    using digest_start_absorbed [where al = al, OF assms, of K] by blast
  from evp.final_absorbed [OF c(2)] show ?thesis by (simp add: HMAC_key_block_def c True)
qed (use assms in \<open>simp add: HMAC_key_block_def\<close>)

lemma HMAC_set_key_spec:
  assumes clean: "hmac_clean ctx" and al: "al (EVP_MD_ctx_size md)"
  shows "\<exists>c. HMAC_set_key al ctx K md = Some (True, c) \<and> hmd c = Some md \<and>
    absorbed md (i_ctx c) (ipad md K) \<and> absorbed md (o_ctx c) (opad md K) \<and> data_ok (md_data (md_ctx c))"
proof -
  define kb where "kb = (if EVP_MD_block_size md < length K then evp_hash md K else K)"
  obtain m where m: "HMAC_key_block al (md_ctx ctx) md K = Some (Some kb, m)" "data_ok (md_data m)"
    using HMAC_key_block_spec [where al = al and K = K, OF _ al] clean unfolding kb_def hmac_clean_def by blast
  note pads = pad_block [OF kb_def]
  obtain i where i: "digest_start al (i_ctx ctx) md (ipad md K) = Some (True, i)" "absorbed md i (ipad md K)"
    using digest_start_absorbed [where al = al, OF _ al] clean unfolding hmac_clean_def by blast
  obtain o' where o': "digest_start al (o_ctx ctx) md (opad md K) = Some (True, o')" "absorbed md o' (opad md K)"
    using digest_start_absorbed [where al = al, OF _ al] clean unfolding hmac_clean_def by blast
  show ?thesis
    using m i o' by (simp add: HMAC_set_key_def Let_def pads del: take_append map_append)
qed

lemma HMAC_Init_key:
  assumes "hmac_clean ctx" "al (EVP_MD_ctx_size md)" "key \<noteq> None \<or> hmd ctx \<noteq> Some md"
  shows "\<exists>c. HMAC_Init_ex al ctx key (Some md) = Some (True, c) \<and>
    hmac_ready md (case key of None \<Rightarrow> [] | Some k \<Rightarrow> k) [] c"
proof -
  let ?K = "case key of None \<Rightarrow> [] | Some k \<Rightarrow> k"
  obtain c where c: "HMAC_set_key al ctx ?K md = Some (True, c)" "hmd c = Some md"
      "absorbed md (i_ctx c) (ipad md ?K)" "absorbed md (o_ctx c) (opad md ?K)" "data_ok (md_data (md_ctx c))"
    using HMAC_set_key_spec [where al = al and K = ?K, OF assms(1,2)] by blast
  obtain m where m: "EVP_MD_CTX_copy_ex al (md_ctx c) (i_ctx c) = (True, m)" "absorbed md m (ipad md ?K)"
    using evp.copy_ok [OF c(3), of "md_ctx c" al] evp.copy_absorbed [OF c(3)] assms(2) by blast
  have "HMAC_Init_ex al ctx key (Some md) = Some (True, c\<lparr>md_ctx := m\<rparr>)"
    using assms(3) c(1) m(1) by (cases key) (auto simp: HMAC_Init_ex_def)
  moreover have "hmac_ready md ?K [] (c\<lparr>md_ctx := m\<rparr>)"
    using c m evp.absorbed_ok [OF m(2)] by (simp add: hmac_ready_def hmac_keyed_def)
  ultimately show ?thesis by blast
qed

lemma HMAC_rewind:
  assumes "hmac_keyed md K ctx" "md' = None \<or> md' = Some md"
  shows "\<exists>c. HMAC_Init_ex al ctx None md' = Some (True, c) \<and> hmac_ready md K [] c"
proof -
  have k: "hmd ctx = Some md" "absorbed md (i_ctx ctx) (ipad md K)" "digest (md_ctx ctx) = Some md"
    using assms(1) by (simp_all add: hmac_keyed_def)
  obtain m where m: "EVP_MD_CTX_copy_ex al (md_ctx ctx) (i_ctx ctx) = (True, m)" "absorbed md m (ipad md K)"
    using evp.copy_ok [OF k(2), of "md_ctx ctx" al] evp.copy_absorbed [OF k(2)] k(3) by blast
  have "HMAC_Init_ex al ctx None md' = Some (True, ctx\<lparr>md_ctx := m\<rparr>)"
    using assms(2) k(1) m by (auto simp: HMAC_Init_ex_def)
  moreover have "hmac_ready md K [] (ctx\<lparr>md_ctx := m\<rparr>)"
    using assms(1) m evp.absorbed_ok [OF m(2)] by (simp add: hmac_ready_def hmac_keyed_def)
  ultimately show ?thesis by blast
qed

lemma HMAC_Update_ready:
  assumes "hmac_ready md K m ctx"
  shows "\<exists>c. HMAC_Update ctx x = Some c \<and> hmac_ready md K (m @ x) c"
proof -
  have a: "absorbed md (md_ctx ctx) (ipad md K @ m)" using assms by (simp add: hmac_ready_def)
  obtain c where c: "EVP_DigestUpdate (md_ctx ctx) x = Some c" "absorbed md c ((ipad md K @ m) @ x)"
    using evp.update_absorbed [OF a] by blast
  then show ?thesis using assms evp.absorbed_ok [OF c(2)]
    by (auto simp: HMAC_Update_def hmac_ready_def hmac_keyed_def)
qed

lemma HMAC_Final_ready:
  assumes "hmac_ready md K m ctx"
  shows "\<exists>c. HMAC_Final al ctx = Some (Some (rfc2104 md K m), c) \<and> hmac_keyed md K c"
proof -
  let ?h = "evp_hash md (ipad md K @ m)"
  have a: "absorbed md (md_ctx ctx) (ipad md K @ m)" and o': "absorbed md (o_ctx ctx) (opad md K)"
    using assms by (simp_all add: hmac_ready_def hmac_keyed_def)
  let ?c = "md_ctx ctx\<lparr>md_data := Raw\<rparr>"
  obtain c1 where c1: "EVP_MD_CTX_copy_ex al ?c (o_ctx ctx) = (True, c1)" "absorbed md c1 (opad md K)"
    using evp.copy_ok [OF o', of ?c al] evp.copy_absorbed [OF o'] evp.absorbed_ok [OF a] by auto
  obtain c2 where c2: "EVP_DigestUpdate c1 ?h = Some c2" "absorbed md c2 (opad md K @ ?h)"
    using evp.update_absorbed [OF c1(2)] by blast
  have "HMAC_Final al ctx = Some (Some (rfc2104 md K m), ctx\<lparr>md_ctx := c2\<lparr>md_data := Raw\<rparr>\<rparr>)"
    by (simp add: HMAC_Final_def evp.final_absorbed [OF a] c1 c2 evp.final_absorbed [OF c2(2)] rfc2104_def Let_def)
  moreover have "hmac_keyed md K (ctx\<lparr>md_ctx := c2\<lparr>md_data := Raw\<rparr>\<rparr>)"
    using assms evp.absorbed_ok [OF c2(2)] by (simp add: hmac_ready_def hmac_keyed_def)
  ultimately show ?thesis by blast
qed

lemma HMAC_copy_ready:
  assumes src: "hmac_ready md K m src" and al: "al (EVP_MD_ctx_size md)"
  shows "\<exists>c. HMAC_CTX_copy_ex al dest src = (True, c) \<and> hmac_ready md K m c"
proof -
  have a: "absorbed md (md_ctx src) (ipad md K @ m)" "absorbed md (i_ctx src) (ipad md K)"
      "absorbed md (o_ctx src) (opad md K)" "hmd src = Some md"
    using src by (simp_all add: hmac_ready_def hmac_keyed_def)
  obtain ci where ci: "EVP_MD_CTX_copy_ex al (i_ctx dest) (i_ctx src) = (True, ci)" "absorbed md ci (ipad md K)"
    using evp.copy_ok [OF a(2), of _ al] evp.copy_absorbed [OF a(2)] al by blast
  obtain co where co: "EVP_MD_CTX_copy_ex al (o_ctx dest) (o_ctx src) = (True, co)" "absorbed md co (opad md K)"
    using evp.copy_ok [OF a(3), of _ al] evp.copy_absorbed [OF a(3)] al by blast
  obtain cm where cm: "EVP_MD_CTX_copy_ex al (md_ctx dest) (md_ctx src) = (True, cm)"
      "absorbed md cm (ipad md K @ m)"
    using evp.copy_ok [OF a(1), of _ al] evp.copy_absorbed [OF a(1)] al by blast
  have "HMAC_CTX_copy_ex al dest src = (True, dest\<lparr>i_ctx := ci, o_ctx := co, md_ctx := cm, hmd := Some md\<rparr>)"
    by (simp add: HMAC_CTX_copy_ex_def ci co cm a(4) Let_def)
  moreover have "hmac_ready md K m (dest\<lparr>i_ctx := ci, o_ctx := co, md_ctx := cm, hmd := Some md\<rparr>)"
    using ci co cm evp.absorbed_ok [OF cm(2)] by (simp add: hmac_ready_def hmac_keyed_def)
  ultimately show ?thesis by (intro exI [of _ "dest\<lparr>i_ctx := ci, o_ctx := co, md_ctx := cm, hmd := Some md\<rparr>"]) simp
qed

text \<open>Without memory for the first context nothing is computed.\<close>

lemma HMAC_Init_no_memory:
  assumes "\<not> al (EVP_MD_ctx_size md)"
  shows "\<exists>c. HMAC_Init_ex al HMAC_CTX_init key (Some md) = Some (False, c)"
  using assms
  by (simp add: HMAC_Init_ex_def HMAC_set_key_def HMAC_key_block_def digest_start_def EVP_DigestInit_ex_def
      HMAC_CTX_init_def EVP_MD_CTX_init_def Let_def)

definition hmac_key :: "bytes option \<Rightarrow> bytes" where
  "hmac_key key = (case key of None \<Rightarrow> [] | Some k \<Rightarrow> k)"

lemma HMAC_rfc2104:
  "HMAC al md key data = Some (if al (EVP_MD_ctx_size md) then Some (rfc2104 md (hmac_key key) data) else None)"
proof (cases "al (EVP_MD_ctx_size md)")
  case True
  have "hmd HMAC_CTX_init \<noteq> Some md" by (simp add: HMAC_CTX_init_def)
  then obtain c where c: "HMAC_Init_ex al HMAC_CTX_init key (Some md) = Some (True, c)" "hmac_ready md (hmac_key key) [] c"
    using HMAC_Init_key [where al = al and key = key, OF hmac_clean_init True] unfolding hmac_key_def by blast
  obtain c1 where c1: "HMAC_Update c data = Some c1" "hmac_ready md (hmac_key key) data c1"
    using HMAC_Update_ready [OF c(2), of data] by auto
  from HMAC_Final_ready [OF c1(2), of al] show ?thesis using True by (auto simp: HMAC_def c c1)
next
  case False
  with HMAC_Init_no_memory [where al = al, OF False, of key] show ?thesis by (auto simp: HMAC_def)
qed

text \<open>A session: a context is keyed, fed any pieces, finished, and rewound for the next message.\<close>

fun hmac_feed :: "hmac_ctx \<Rightarrow> bytes list \<Rightarrow> hmac_ctx option" where
  "hmac_feed ctx [] = Some ctx"
| "hmac_feed ctx (x # xs) = (case HMAC_Update ctx x of None \<Rightarrow> None | Some c \<Rightarrow> hmac_feed c xs)"

fun hmac_session :: "(nat \<Rightarrow> bool) \<Rightarrow> hmac_ctx \<Rightarrow> bytes list list \<Rightarrow> bytes option list option" where
  "hmac_session al ctx [] = Some []"
| "hmac_session al ctx (msg # msgs) =
     (case HMAC_Init_ex al ctx None None of
        None \<Rightarrow> None
      | Some (ok, c) \<Rightarrow>
          (case hmac_feed c msg of
             None \<Rightarrow> None
           | Some c \<Rightarrow>
               (case HMAC_Final al c of
                  None \<Rightarrow> None
                | Some (out, c) \<Rightarrow> map_option ((#) out) (hmac_session al c msgs))))"

lemma hmac_feed_ready:
  "hmac_ready md K m ctx \<Longrightarrow> \<exists>c. hmac_feed ctx xs = Some c \<and> hmac_ready md K (m @ concat xs) c"
proof (induction xs arbitrary: m ctx)
  case (Cons x xs)
  from HMAC_Update_ready [OF Cons.prems, of x] obtain c where
    "HMAC_Update ctx x = Some c" "hmac_ready md K (m @ x) c" by blast
  with Cons.IH [OF this(2)] show ?case by auto
qed simp

lemma hmac_session_macs:
  "hmac_keyed md K ctx \<Longrightarrow> hmac_session al ctx msgs = Some (map (\<lambda>m. Some (rfc2104 md K (concat m))) msgs)"
proof (induction msgs arbitrary: ctx)
  case (Cons m msgs)
  obtain c where c: "HMAC_Init_ex al ctx None None = Some (True, c)" "hmac_ready md K [] c"
    using HMAC_rewind [OF Cons.prems, of None al] by blast
  obtain c1 where c1: "hmac_feed c m = Some c1" "hmac_ready md K (concat m) c1"
    using hmac_feed_ready [OF c(2), of m] by auto
  obtain c2 where c2: "HMAC_Final al c1 = Some (Some (rfc2104 md K (concat m)), c2)" "hmac_keyed md K c2"
    using HMAC_Final_ready [OF c1(2), of al] by blast
  show ?case by (simp add: c c1 c2 Cons.IH)
qed simp



end
