(* ===== verification/Kdf.thy ===== *)
theory Kdf
  imports Hmac
begin

text \<open>
  \<^verbatim>\<open>BoringSSL/crypto/hkdf/hkdf.c\<close> (HKDF) and \<^verbatim>\<open>fipsmodule/tls/kdf.c\<close> (the TLS 1.0 to 1.2
  pseudo-random function), proved equal to RFC 5869, RFC 5246 and RFC 2246.  An outer \<open>None\<close> is
  an abort or a loop that does not end; an inner \<open>None\<close> is the failure value of the function.
\<close>

section \<open>HKDF\<close>

definition HKDF_extract :: "(nat \<Rightarrow> bool) \<Rightarrow> evp_md \<Rightarrow> bytes \<Rightarrow> bytes option \<Rightarrow> bytes option option" where
  "HKDF_extract al md secret salt = HMAC al md salt secret"

text \<open>The loop of \<open>HKDF_expand\<close>, \<open>k\<close> iterations before its end: \<open>i\<close> counts from 0, \<open>key\<close> is
  what has been written at \<open>out_key\<close>, whose length is \<open>done\<close>.\<close>

fun HKDF_expand_loop :: "(nat \<Rightarrow> bool) \<Rightarrow> evp_md \<Rightarrow> bytes \<Rightarrow> nat \<Rightarrow> nat \<Rightarrow> nat \<Rightarrow> hmac_ctx \<Rightarrow> bytes \<Rightarrow> bytes \<Rightarrow>
    bytes option option" where
  "HKDF_expand_loop al md info out_len 0 i hmac previous key = Some (Some key)"
| "HKDF_expand_loop al md info out_len (Suc k) i hmac previous key =
     (case (if i = 0 then Some (True, hmac)
            else case HMAC_Init_ex al hmac None None of
                   None \<Rightarrow> None
                 | Some (ok, hmac) \<Rightarrow>
                     if \<not> ok then Some (False, hmac)
                     else map_option (Pair True) (HMAC_Update hmac previous)) of
        None \<Rightarrow> None
      | Some (ok, hmac) \<Rightarrow>
          if \<not> ok then Some None
          else case HMAC_Update hmac info of
                 None \<Rightarrow> None
               | Some hmac \<Rightarrow>
                   (case HMAC_Update hmac [word_of_nat (i + 1)] of
                      None \<Rightarrow> None
                    | Some hmac \<Rightarrow>
                        (case HMAC_Final al hmac of
                           None \<Rightarrow> None
                         | Some (None, hmac) \<Rightarrow> Some None
                         | Some (Some previous, hmac) \<Rightarrow>
                             let todo = EVP_MD_size md;
                                 todo = (if out_len < length key + todo then out_len - length key else todo)
                             in HKDF_expand_loop al md info out_len k (i + 1) hmac previous
                                  (key @ take todo previous))))"

definition HKDF_expand :: "(nat \<Rightarrow> bool) \<Rightarrow> nat \<Rightarrow> evp_md \<Rightarrow> bytes \<Rightarrow> bytes \<Rightarrow> bytes option option" where
  "HKDF_expand al out_len md prk info =
     (let digest_len = EVP_MD_size md;
          n = sz (out_len + digest_len - 1) div digest_len
      in if sz (out_len + digest_len) < out_len \<or> 255 < n then Some None
         else case HMAC_Init_ex al HMAC_CTX_init (Some prk) (Some md) of
                None \<Rightarrow> None
              | Some (ok, hmac) \<Rightarrow>
                  if \<not> ok then Some None
                  else HKDF_expand_loop al md info out_len n 0 hmac [] [])"

definition HKDF :: "(nat \<Rightarrow> bool) \<Rightarrow> nat \<Rightarrow> evp_md \<Rightarrow> bytes \<Rightarrow> bytes option \<Rightarrow> bytes \<Rightarrow> bytes option option" where
  "HKDF al out_len md secret salt info =
     (case HKDF_extract al md secret salt of
        None \<Rightarrow> None
      | Some None \<Rightarrow> Some None
      | Some (Some prk) \<Rightarrow> HKDF_expand al out_len md prk info)"

section \<open>The TLS pseudo-random function\<close>

text \<open>The loop of \<open>tls1_P_hash\<close>.  \<open>acc\<close> is the part of the output that is finished, \<open>out\<close> the
  part still to be XORed; \<open>for (;;)\<close> may run forever as far as its definition goes.\<close>

partial_function (option) P_hash_loop :: "(nat \<Rightarrow> bool) \<Rightarrow> evp_md \<Rightarrow> bytes \<Rightarrow> bytes \<Rightarrow> bytes \<Rightarrow> hmac_ctx \<Rightarrow>
    hmac_ctx \<Rightarrow> hmac_ctx \<Rightarrow> bytes \<Rightarrow> bytes \<Rightarrow> bytes \<Rightarrow> bytes option option" where
  "P_hash_loop al md label seed1 seed2 ctx_init ctx ctx_tmp A1 acc out =
     (let (ok, ctx) = HMAC_CTX_copy_ex al ctx ctx_init in
      if \<not> ok then Some None
      else Option.bind (HMAC_Update ctx A1) (\<lambda>ctx.
        let (ok, ctx_tmp) = (if EVP_MD_size md < length out then HMAC_CTX_copy_ex al ctx_tmp ctx else (True, ctx_tmp)) in
        if \<not> ok then Some None
        else
          Option.bind (HMAC_Update ctx label) (\<lambda>ctx.
          Option.bind (HMAC_Update ctx seed1) (\<lambda>ctx.
          Option.bind (HMAC_Update ctx seed2) (\<lambda>ctx.
          Option.bind (HMAC_Final al ctx) (\<lambda>(r, ctx).
            if r = None then Some None
            else
              let hmac = the r;
                  len = length hmac;
                  len = (if length out < len then length out else len);
                  acc = acc @ map2 (XOR) (take len out) (take len hmac);
                  out = drop len out
              in if length out = 0 then Some (Some acc)
                 else Option.bind (HMAC_Final al ctx_tmp) (\<lambda>(r, ctx_tmp).
                   if r = None then Some None
                   else P_hash_loop al md label seed1 seed2 ctx_init ctx ctx_tmp (the r) acc out)))))))"

declare P_hash_loop.simps [code]

definition tls1_P_hash :: "(nat \<Rightarrow> bool) \<Rightarrow> bytes \<Rightarrow> evp_md \<Rightarrow> bytes \<Rightarrow> bytes \<Rightarrow> bytes \<Rightarrow> bytes \<Rightarrow> bytes option option" where
  "tls1_P_hash al out md secret label seed1 seed2 =
     Option.bind (HMAC_Init_ex al HMAC_CTX_init (Some secret) (Some md)) (\<lambda>(ok, ctx_init).
       if \<not> ok then Some None
       else
         let (ok, ctx) = HMAC_CTX_copy_ex al HMAC_CTX_init ctx_init in
         if \<not> ok then Some None
         else
           Option.bind (HMAC_Update ctx label) (\<lambda>ctx.
           Option.bind (HMAC_Update ctx seed1) (\<lambda>ctx.
           Option.bind (HMAC_Update ctx seed2) (\<lambda>ctx.
           Option.bind (HMAC_Final al ctx) (\<lambda>(r, ctx).
             if r = None then Some None
             else P_hash_loop al md label seed1 seed2 ctx_init ctx HMAC_CTX_init (the r) [] out)))))"

definition CRYPTO_tls1_prf :: "(nat \<Rightarrow> bool) \<Rightarrow> evp_md \<Rightarrow> nat \<Rightarrow> bytes \<Rightarrow> bytes \<Rightarrow> bytes \<Rightarrow> bytes \<Rightarrow> bytes option option" where
  "CRYPTO_tls1_prf al md out_len secret label seed1 seed2 =
     (if out_len = 0 then Some (Some [])
      else
        let out = replicate out_len 0 in
        if md = EVP_md5_sha1
        then
          let secret_half = length secret - length secret div 2 in
          Option.bind (tls1_P_hash al out EVP_md5 (take secret_half secret) label seed1 seed2) (\<lambda>r.
            if r = None then Some None
            else
              let secret = drop (length secret - secret_half) secret
              in tls1_P_hash al (the r) EVP_sha1 secret label seed1 seed2)
        else tls1_P_hash al out md secret label seed1 seed2)"

section \<open>RFC 5869\<close>

fun rfc5869_T :: "evp_md \<Rightarrow> bytes \<Rightarrow> bytes \<Rightarrow> nat \<Rightarrow> bytes" where
  "rfc5869_T md prk info 0 = []"
| "rfc5869_T md prk info (Suc i) = rfc2104 md prk (rfc5869_T md prk info i @ info @ [word_of_nat (Suc i)])"

definition rfc5869_expand :: "evp_md \<Rightarrow> bytes \<Rightarrow> bytes \<Rightarrow> nat \<Rightarrow> bytes" where
  "rfc5869_expand md prk info L =
     (let N = (L + EVP_MD_size md - 1) div EVP_MD_size md
      in take L (concat (map (rfc5869_T md prk info) [1..<N + 1])))"

definition rfc5869 :: "evp_md \<Rightarrow> bytes \<Rightarrow> bytes \<Rightarrow> bytes \<Rightarrow> nat \<Rightarrow> bytes" where
  "rfc5869 md secret salt info L = rfc5869_expand md (rfc2104 md salt secret) info L"

section \<open>HKDF is RFC 5869\<close>

lemma rfc2104_length [simp]: "length (rfc2104 md K m) = EVP_MD_size md"
  by (simp add: rfc2104_def Let_def evp_hash_length)

lemma take_append_block:
  assumes "length p = c" "length key = min L (i * c)"
  shows "take (if L < length key + c then L - length key else c) p = take (L - length key) p"
  using assms by auto

text \<open>After \<open>i\<close> iterations the first \<open>L\<close> bytes of \<open>T(1) .. T(i)\<close> have been written.\<close>

lemma HKDF_loop_spec:
  assumes "hmac_keyed md prk hmac" "i = 0 \<longrightarrow> hmac_ready md prk [] hmac"
    and "previous = rfc5869_T md prk info i"
    and "key = take L (concat (map (rfc5869_T md prk info) [1..<i + 1]))"
  shows "HKDF_expand_loop al md info L k i hmac previous key =
    Some (Some (take L (concat (map (rfc5869_T md prk info) [1..<i + k + 1]))))"
  using assms
proof (induction k arbitrary: i hmac previous key)
  case (Suc k)
  let ?T = "rfc5869_T md prk info"
  have "\<exists>h. (if i = 0 then Some (True, hmac)
            else case HMAC_Init_ex al hmac None None of
                   None \<Rightarrow> None
                 | Some (ok, hmac) \<Rightarrow>
                     if \<not> ok then Some (False, hmac)
                     else map_option (Pair True) (HMAC_Update hmac previous)) = Some (True, h) \<and>
      hmac_ready md prk (?T i) h"
  proof (cases "i = 0")
    case True
    with Suc.prems(2) show ?thesis by simp
  next
    case False
    obtain h0 where h0: "HMAC_Init_ex al hmac None None = Some (True, h0)" "hmac_ready md prk [] h0"
      using HMAC_rewind [OF Suc.prems(1), of None al] by blast
    with HMAC_Update_ready [OF h0(2), of previous] False Suc.prems(3) show ?thesis by auto
  qed
  then obtain h where h: "(if i = 0 then Some (True, hmac)
            else case HMAC_Init_ex al hmac None None of
                   None \<Rightarrow> None
                 | Some (ok, hmac) \<Rightarrow>
                     if \<not> ok then Some (False, hmac)
                     else map_option (Pair True) (HMAC_Update hmac previous)) = Some (True, h)"
    and r: "hmac_ready md prk (?T i) h" by blast
  obtain h1 where h1: "HMAC_Update h info = Some h1" "hmac_ready md prk (?T i @ info) h1"
    using HMAC_Update_ready [OF r] by blast
  obtain h2 where h2: "HMAC_Update h1 [word_of_nat (i + 1)] = Some h2"
      "hmac_ready md prk (?T i @ info @ [word_of_nat (Suc i)]) h2"
    using HMAC_Update_ready [OF h1(2), of "[word_of_nat (i + 1)]"] by (auto simp: add.commute)
  obtain h3 where h3: "HMAC_Final al h2 = Some (Some (?T (Suc i)), h3)" "hmac_keyed md prk h3"
    using HMAC_Final_ready [OF h2(2), of al] by auto
  define c where "c = EVP_MD_size md"
  have key: "key @ take (if L < length key + c then L - length key else c) (?T (Suc i)) =
      take L (concat (map ?T [1..<Suc i + 1]))"
  proof -
    have "take (if L < length key + c then L - length key else c) (?T (Suc i)) = take (L - length key) (?T (Suc i))"
      by (auto simp: c_def)
    moreover have "L - length key = L - length (concat (map ?T [1..<i + 1]))" by (simp add: Suc.prems(4))
    moreover have "[1..<Suc i + 1] = [1..<i + 1] @ [Suc i]" by simp
    ultimately show ?thesis
      by (simp only: Suc.prems(4) map_append concat_append take_append list.map concat.simps append_Nil2)
  qed
  have "HKDF_expand_loop al md info L (Suc k) i hmac previous key =
      HKDF_expand_loop al md info L k (i + 1) h3 (?T (Suc i)) (take L (concat (map ?T [1..<Suc i + 1])))"
    unfolding key [symmetric] HKDF_expand_loop.simps h option.case prod.case h1(1) h2(1) h3(1) c_def Let_def by simp
  also have "\<dots> = Some (Some (take L (concat (map ?T [1..<(i + 1) + k + 1]))))"
    by (rule Suc.IH [OF h3(2)]) (simp_all del: rfc5869_T.simps)
  finally show ?case by simp
qed simp

lemma HKDF_expand_rfc5869:
  assumes "L < SIZE_LIMIT"
  shows "HKDF_expand al L md prk info =
    Some (if L \<le> 255 * EVP_MD_size md \<and> al (EVP_MD_ctx_size md) then Some (rfc5869_expand md prk info L) else None)"
proof -
  let ?c = "EVP_MD_size md"
  have c: "0 < ?c" "?c \<le> 128" using sizes [of md] by auto
  show ?thesis
  proof (cases "L + ?c < SIZE_LIMIT \<and> L \<le> 255 * ?c")
    case True
    have "(L + ?c - 1) div ?c \<le> 255"
    proof -
      have "L + ?c - 1 < 256 * ?c" using True c by linarith
      then have "(L + ?c - 1) div ?c < 256" by (simp add: less_mult_imp_div_less)
      then show ?thesis by simp
    qed
    moreover have e: "sz (L + ?c) = L + ?c" "sz (L + ?c - 1) = L + ?c - 1"
      using True by (auto intro!: sz_id simp del: One_nat_def)
    ultimately have "\<not> (sz (L + ?c) < L \<or> 255 < sz (L + ?c - 1) div ?c)" by simp
    then have n: "HKDF_expand al L md prk info =
        (case HMAC_Init_ex al HMAC_CTX_init (Some prk) (Some md) of
                None \<Rightarrow> None
              | Some (ok, hmac) \<Rightarrow>
                  if \<not> ok then Some None
                  else HKDF_expand_loop al md info L ((L + ?c - 1) div ?c) 0 hmac [] [])"
      unfolding HKDF_expand_def Let_def e(2) by (simp only: if_False)
    show ?thesis
    proof (cases "al (EVP_MD_ctx_size md)")
      case al: True
      obtain h where h: "HMAC_Init_ex al HMAC_CTX_init (Some prk) (Some md) = Some (True, h)"
          "hmac_ready md prk [] h"
        using HMAC_Init_key [where al = al and key = "Some prk", OF hmac_clean_init al] by auto
      have "hmac_keyed md prk h" using h(2) by (simp add: hmac_ready_def)
      from HKDF_loop_spec [OF this, of 0 "[]" info "[]" L al "(L + ?c - 1) div ?c"] h show ?thesis
        using al True by (simp add: n rfc5869_expand_def Let_def)
    next
      case False
      with HMAC_Init_no_memory [where al = al, OF False, of "Some prk"] show ?thesis by (auto simp: n)
    qed
  next
    case False
    have "sz (L + ?c) < L \<or> 255 < sz (L + ?c - 1) div ?c"
    proof (cases "L + ?c < SIZE_LIMIT")
      case True
      with False have "255 * ?c < L" by simp
      then have "256 * ?c \<le> L + ?c - 1" using c by linarith
      then have "256 \<le> (L + ?c - 1) div ?c" using c by (simp add: less_eq_div_iff_mult_less_eq)
      moreover have "sz (L + ?c - 1) = L + ?c - 1" using True by (intro sz_id) linarith
      ultimately show ?thesis by simp
    next
      case big: False
      have "?c < SIZE_LIMIT" using c unfolding SIZE_LIMIT_def by simp
      with big assms have "sz (L + ?c) = L + ?c - SIZE_LIMIT" by (simp add: sz_def mod_if)
      then show ?thesis using big \<open>?c < SIZE_LIMIT\<close> assms by linarith
    qed
    moreover have "\<not> L \<le> 255 * ?c"
    proof
      assume "L \<le> 255 * ?c"
      then have "L + ?c \<le> 256 * 128" using c by linarith
      then have "L + ?c < SIZE_LIMIT" unfolding SIZE_LIMIT_def by simp
      with False \<open>L \<le> 255 * ?c\<close> show False by simp
    qed
    ultimately show ?thesis by (auto simp: HKDF_expand_def Let_def)
  qed
qed



section \<open>RFC 5246 and RFC 2246\<close>

fun rfc5246_A :: "evp_md \<Rightarrow> bytes \<Rightarrow> bytes \<Rightarrow> nat \<Rightarrow> bytes" where
  "rfc5246_A md secret seed 0 = seed"
| "rfc5246_A md secret seed (Suc i) = rfc2104 md secret (rfc5246_A md secret seed i)"

definition P_block :: "evp_md \<Rightarrow> bytes \<Rightarrow> bytes \<Rightarrow> nat \<Rightarrow> bytes" where
  "P_block md secret seed i = rfc2104 md secret (rfc5246_A md secret seed (Suc i) @ seed)"

definition rfc5246_P_hash :: "evp_md \<Rightarrow> bytes \<Rightarrow> bytes \<Rightarrow> nat \<Rightarrow> bytes" where
  "rfc5246_P_hash md secret seed L =
     take L (concat (map (P_block md secret seed) [0..<(L + EVP_MD_size md - 1) div EVP_MD_size md]))"

definition rfc_PRF :: "evp_md \<Rightarrow> bytes \<Rightarrow> bytes \<Rightarrow> bytes \<Rightarrow> nat \<Rightarrow> bytes" where
  "rfc_PRF md secret label seed L =
     (if md = EVP_md5_sha1
      then let half = (length secret + 1) div 2
           in map2 (XOR) (rfc5246_P_hash EVP_md5 (take half secret) (label @ seed) L)
                (rfc5246_P_hash EVP_sha1 (drop (length secret - half) secret) (label @ seed) L)
      else rfc5246_P_hash md secret (label @ seed) L)"

section \<open>The PRF terminates and is that of the RFCs\<close>

lemma map2_append: "map2 f xs (a @ b) = map2 f (take (length a) xs) a @ map2 f (drop (length a) xs) b"
  by (simp add: zip_append2)

lemma map2_take: "map2 f xs (take (length xs) ys) = map2 f xs ys"
  by (induction xs arbitrary: ys; case_tac ys) simp_all

lemma P_block_length [simp]: "length (P_block md secret seed i) = EVP_MD_size md"
  by (simp add: P_block_def)

lemma P_hash_loop_spec:
  assumes al: "al (EVP_MD_ctx_size md)" and init: "hmac_ready md secret [] ctx_init"
    and seed: "seed = label @ seed1 @ seed2"
  shows "A1 = rfc5246_A md secret seed (Suc i) \<Longrightarrow> length out \<le> Suc n * EVP_MD_size md \<Longrightarrow>
    P_hash_loop al md label seed1 seed2 ctx_init ctx ctx_tmp A1 acc out =
      Some (Some (acc @ map2 (XOR) out (concat (map (P_block md secret seed) [i..<i + Suc n]))))"
proof (induction n arbitrary: i ctx ctx_tmp A1 acc out rule: less_induct)
  case (less n i ctx ctx_tmp A1 acc out)
  let ?B = "P_block md secret seed"
  obtain c where c: "HMAC_CTX_copy_ex al ctx ctx_init = (True, c)" "hmac_ready md secret [] c"
    using HMAC_copy_ready [where al = al, OF init al] by blast
  obtain c1 where c1: "HMAC_Update c A1 = Some c1" "hmac_ready md secret A1 c1"
    using HMAC_Update_ready [OF c(2), of A1] by auto
  obtain t1 where t1: "(if EVP_MD_size md < length out then HMAC_CTX_copy_ex al ctx_tmp c1 else (True, ctx_tmp)) = (True, t1)"
      "EVP_MD_size md < length out \<longrightarrow> hmac_ready md secret A1 t1"
    using HMAC_copy_ready [where al = al, OF c1(2) al, of ctx_tmp] by (cases "EVP_MD_size md < length out") auto
  obtain c2 where c2: "HMAC_Update c1 label = Some c2" "hmac_ready md secret (A1 @ label) c2"
    using HMAC_Update_ready [OF c1(2)] by blast
  obtain c3 where c3: "HMAC_Update c2 seed1 = Some c3" "hmac_ready md secret ((A1 @ label) @ seed1) c3"
    using HMAC_Update_ready [OF c2(2)] by blast
  obtain c4 where c4: "HMAC_Update c3 seed2 = Some c4" "hmac_ready md secret (((A1 @ label) @ seed1) @ seed2) c4"
    using HMAC_Update_ready [OF c3(2)] by blast
  have "rfc2104 md secret (((A1 @ label) @ seed1) @ seed2) = ?B i"
    using less.prems(1) by (simp add: P_block_def seed)
  with HMAC_Final_ready [OF c4(2), of al] obtain c5 where
    c5: "HMAC_Final al c4 = Some (Some (?B i), c5)" by auto
  note run = c(1) c1(1) t1(1) c2(1) c3(1) c4(1) c5
  have upt: "[i..<i + Suc n] = i # [Suc i..<Suc i + n]" by (simp add: upt_conv_Cons)
  show ?case
  proof (cases "EVP_MD_size md < length out")
    case False
    have "P_hash_loop al md label seed1 seed2 ctx_init ctx ctx_tmp A1 acc out =
        Some (Some (acc @ map2 (XOR) out (take (length out) (?B i))))"
      by (subst P_hash_loop.simps) (simp only: run Let_def prod.case bind.bind_lunit, insert False, simp)
    then show ?thesis unfolding upt using False by (simp add: map2_take map2_append)
  next
    case True
    obtain m where n: "n = Suc m" using True less.prems(2) by (cases n) auto
    obtain t2 where t2: "HMAC_Final al t1 = Some (Some (rfc5246_A md secret seed (Suc (Suc i))), t2)"
      using HMAC_Final_ready [of md secret A1 t1 al] t1(2) True less.prems(1) by auto
    let ?a = "acc @ map2 (XOR) (take (EVP_MD_size md) out) (?B i)"
    have "P_hash_loop al md label seed1 seed2 ctx_init ctx ctx_tmp A1 acc out =
        P_hash_loop al md label seed1 seed2 ctx_init c5 t2 (rfc5246_A md secret seed (Suc (Suc i))) ?a
          (drop (EVP_MD_size md) out)"
      by (subst P_hash_loop.simps) (simp only: run Let_def prod.case bind.bind_lunit, insert True t2, simp)
    also have "\<dots> = Some (Some (?a @ map2 (XOR) (drop (EVP_MD_size md) out) (concat (map ?B [Suc i..<Suc i + Suc m]))))"
      using less.prems(2) by (intro less.IH) (simp_all add: n)
    finally show ?thesis unfolding upt by (simp add: n map2_append)
  qed
qed

lemma map2_zero: "map2 (XOR) (replicate (length ys) 0) (ys :: bytes) = ys"
  by (induction ys) simp_all

lemma tls1_P_hash_rfc:
  assumes "out \<noteq> []"
  shows "tls1_P_hash al out md secret label seed1 seed2 =
    Some (if al (EVP_MD_ctx_size md)
          then Some (map2 (XOR) out (rfc5246_P_hash md secret (label @ seed1 @ seed2) (length out))) else None)"
proof (cases "al (EVP_MD_ctx_size md)")
  case True
  let ?seed = "label @ seed1 @ seed2" and ?c = "EVP_MD_size md"
  obtain ci where ci: "HMAC_Init_ex al HMAC_CTX_init (Some secret) (Some md) = Some (True, ci)"
      "hmac_ready md secret [] ci"
    using HMAC_Init_key [where al = al and key = "Some secret", OF hmac_clean_init True] by auto
  obtain c where c: "HMAC_CTX_copy_ex al HMAC_CTX_init ci = (True, c)" "hmac_ready md secret [] c"
    using HMAC_copy_ready [where al = al, OF ci(2) True] by blast
  obtain c2 where c2: "HMAC_Update c label = Some c2" "hmac_ready md secret label c2"
    using HMAC_Update_ready [OF c(2), of label] by auto
  obtain c3 where c3: "HMAC_Update c2 seed1 = Some c3" "hmac_ready md secret (label @ seed1) c3"
    using HMAC_Update_ready [OF c2(2)] by blast
  obtain c4 where c4: "HMAC_Update c3 seed2 = Some c4" "hmac_ready md secret ((label @ seed1) @ seed2) c4"
    using HMAC_Update_ready [OF c3(2)] by blast
  obtain c5 where c5: "HMAC_Final al c4 = Some (Some (rfc5246_A md secret ?seed (Suc 0)), c5)"
    using HMAC_Final_ready [OF c4(2), of al] by auto
  define N where "N = (length out + ?c - 1) div ?c"
  have cpos: "0 < ?c" using sizes(3) [of md] .
  have "?c \<le> length out + ?c - 1" using assms by (cases out) auto
  then have "0 < N" unfolding N_def using cpos by (simp add: div_greater_zero_iff)
  then obtain n where n: "N = Suc n" by (cases N) auto
  have le: "length out \<le> Suc n * ?c"
  proof -
    have "(length out + ?c - 1) mod ?c < ?c" using cpos by simp
    moreover have "length out + ?c - 1 = N * ?c + (length out + ?c - 1) mod ?c" by (simp add: N_def)
    ultimately show ?thesis unfolding n [symmetric] by linarith
  qed
  have "tls1_P_hash al out md secret label seed1 seed2 =
      P_hash_loop al md label seed1 seed2 ci c5 HMAC_CTX_init (rfc5246_A md secret ?seed (Suc 0)) [] out"
    by (simp add: tls1_P_hash_def ci c c2 c3 c4 c5 del: rfc5246_A.simps)
  also have "\<dots> = Some (Some ([] @ map2 (XOR) out (concat (map (P_block md secret ?seed) [0..<0 + Suc n]))))"
    by (rule P_hash_loop_spec [where al = al, OF True ci(2) refl refl le])
  moreover have "rfc5246_P_hash md secret ?seed (length out) =
      take (length out) (concat (map (P_block md secret ?seed) [0..<Suc n]))"
    unfolding rfc5246_P_hash_def N_def [symmetric] n ..
  ultimately show ?thesis using True by (simp add: map2_take del: upt_Suc)
next
  case False
  with HMAC_Init_no_memory [where al = al, OF False, of "Some secret"] show ?thesis
    by (auto simp: tls1_P_hash_def)
qed

lemma P_hash_rfc_length: "length (rfc5246_P_hash md secret seed L) = L"
proof -
  have "length (concat (map (P_block md secret seed) [0..<n])) = n * EVP_MD_size md" for n
    by (induction n) simp_all
  moreover have "L \<le> (L + EVP_MD_size md - 1) div EVP_MD_size md * EVP_MD_size md"
  proof -
    have "(L + EVP_MD_size md - 1) mod EVP_MD_size md < EVP_MD_size md" using sizes(3) [of md] by simp
    moreover have "L + EVP_MD_size md - 1 = (L + EVP_MD_size md - 1) div EVP_MD_size md * EVP_MD_size md +
        (L + EVP_MD_size md - 1) mod EVP_MD_size md" by simp
    ultimately show ?thesis by linarith
  qed
  ultimately show ?thesis by (simp add: rfc5246_P_hash_def)
qed


end
