(* ===== verification/Bio_Core.thy ===== *)
theory Bio_Core
  imports Pool
begin

text \<open>
  What \<^verbatim>\<open>BoringSSL/crypto/bio/bio.c\<close> keeps in a \<open>BIO\<close> and does with one alone: the struct, the
  flags, the reference count's field, and the memory the BIO code lives in.  A world holds the
  BIOs by address, the error queue (newest last), and the answers of the allocator: \<open>w_alloc i n\<close>
  is the block of the \<open>i\<close>th call of \<open>OPENSSL_malloc\<close>, for \<open>n\<close> bytes, if it does not fail.  An
  operation on the world is \<open>None\<close> when an assertion of the code fails, a NULL or freed BIO is
  dereferenced, or a loop does not end.
\<close>

section \<open>Data\<close>

text \<open>\<open>struct bio_bio_st\<close> of \<^verbatim>\<open>pair.c\<close>: one end of a pair, with the ring buffer it writes to.\<close>

record bio_bio_st =
  pb_peer :: "nat option"
  pb_closed :: bool
  pb_len :: nat
  pb_offset :: nat
  pb_size :: nat
  pb_buf :: "bytes option"
  pb_request :: nat

text \<open>\<open>struct buf_mem_st\<close> of \<^verbatim>\<open>buf.h\<close>; \<open>bm_data\<close> is the block \<open>data\<close> points into (\<open>None\<close> for NULL)
  and \<open>bm_pos\<close> where it points.\<close>

record buf_mem =
  bm_length :: nat
  bm_data :: "bytes option"
  bm_pos :: nat
  bm_max :: nat

text \<open>The method tables \<open>methods_biop\<close> and \<open>mem_method\<close>.\<close>

datatype bio_method = BIO_S_BIO | BIO_S_MEM

text \<open>\<open>struct bio_st\<close>; the untyped \<open>ptr\<close> is \<open>bio_pair\<close> or \<open>bio_mem\<close>, as the method has it.\<close>

record bio_st =
  bio_meth :: "bio_method option"
  bio_init :: bool
  bio_shut :: int
  bio_flags :: u32
  bio_retry_reason :: int
  bio_num :: int
  bio_refs :: u32
  bio_pair :: "bio_bio_st option"
  bio_mem :: "buf_mem option"
  bio_next :: "nat option"
  bio_num_read :: nat
  bio_num_write :: nat

datatype bio_reason =
    BIO_R_BROKEN_PIPE | BIO_R_IN_USE | BIO_R_UNINITIALIZED | BIO_R_UNSUPPORTED_METHOD
  | BIO_R_WRITE_TO_READ_ONLY_BIO | BIO_R_NULL_PARAMETER | ERR_R_MALLOC_FAILURE | ERR_R_OVERFLOW

record world =
  w_bios :: "nat \<Rightarrow> bio_st option"
  w_errs :: "bio_reason list"
  w_alloc :: "nat \<Rightarrow> nat \<Rightarrow> bytes option"
  w_calls :: nat

type_synonym 'a bio_op = "world \<Rightarrow> ('a \<times> world) option"

definition OPENSSL_PUT_ERROR :: "bio_reason \<Rightarrow> world \<Rightarrow> world" where
  "OPENSSL_PUT_ERROR r w = w\<lparr>w_errs := w_errs w @ [r]\<rparr>"

definition w_malloc :: "nat \<Rightarrow> world \<Rightarrow> bytes option \<times> world" where
  "w_malloc n w = (w_alloc w (w_calls w) n, w\<lparr>w_calls := w_calls w + 1\<rparr>)"

definition upd_bio :: "nat \<Rightarrow> (bio_st \<Rightarrow> bio_st) \<Rightarrow> world \<Rightarrow> world" where
  "upd_bio a f w = w\<lparr>w_bios := (w_bios w)(a := map_option f (w_bios w a))\<rparr>"

definition upd_pair :: "nat \<Rightarrow> (bio_bio_st \<Rightarrow> bio_bio_st) \<Rightarrow> world \<Rightarrow> world" where
  "upd_pair a f = upd_bio a (\<lambda>bio. bio\<lparr>bio_pair := map_option f (bio_pair bio)\<rparr>)"

definition pair_at :: "nat \<Rightarrow> world \<Rightarrow> bio_bio_st option" where
  "pair_at a w = Option.bind (w_bios w a) bio_pair"

text \<open>The conversions between \<open>int\<close>, \<open>long\<close> and \<open>size_t\<close>.\<close>

definition size_of_int :: "int \<Rightarrow> nat" where
  "size_of_int i = unat (word_of_int i :: u64)"

definition int_of_size :: "nat \<Rightarrow> int" where
  "int_of_size n = sint (word_of_nat n :: u32)"

definition long_of_size :: "nat \<Rightarrow> int" where
  "long_of_size n = sint (word_of_nat n :: u64)"

section \<open>Flags\<close>

definition BIO_FLAGS_READ :: u32 where "BIO_FLAGS_READ = 0x01"
definition BIO_FLAGS_WRITE :: u32 where "BIO_FLAGS_WRITE = 0x02"
definition BIO_FLAGS_IO_SPECIAL :: u32 where "BIO_FLAGS_IO_SPECIAL = 0x04"
definition BIO_FLAGS_SHOULD_RETRY :: u32 where "BIO_FLAGS_SHOULD_RETRY = 0x08"
definition BIO_FLAGS_MEM_RDONLY :: u32 where "BIO_FLAGS_MEM_RDONLY = 0x200"

definition BIO_FLAGS_RWS :: u32 where
  "BIO_FLAGS_RWS = BIO_FLAGS_READ OR BIO_FLAGS_WRITE OR BIO_FLAGS_IO_SPECIAL"

definition kRetryFlags :: u32 where
  "kRetryFlags = BIO_FLAGS_RWS OR BIO_FLAGS_SHOULD_RETRY"

definition BIO_set_flags :: "u32 \<Rightarrow> bio_st \<Rightarrow> bio_st" where
  "BIO_set_flags f bio = bio\<lparr>bio_flags := bio_flags bio OR f\<rparr>"

definition BIO_test_flags :: "bio_st \<Rightarrow> u32 \<Rightarrow> u32" where
  "BIO_test_flags bio f = bio_flags bio AND f"

definition BIO_clear_flags :: "u32 \<Rightarrow> bio_st \<Rightarrow> bio_st" where
  "BIO_clear_flags f bio = bio\<lparr>bio_flags := bio_flags bio AND NOT f\<rparr>"

definition BIO_should_read :: "bio_st \<Rightarrow> bool" where
  "BIO_should_read bio \<longleftrightarrow> BIO_test_flags bio BIO_FLAGS_READ \<noteq> 0"

definition BIO_should_write :: "bio_st \<Rightarrow> bool" where
  "BIO_should_write bio \<longleftrightarrow> BIO_test_flags bio BIO_FLAGS_WRITE \<noteq> 0"

definition BIO_should_retry :: "bio_st \<Rightarrow> bool" where
  "BIO_should_retry bio \<longleftrightarrow> BIO_test_flags bio BIO_FLAGS_SHOULD_RETRY \<noteq> 0"

definition BIO_should_io_special :: "bio_st \<Rightarrow> bool" where
  "BIO_should_io_special bio \<longleftrightarrow> BIO_test_flags bio BIO_FLAGS_IO_SPECIAL \<noteq> 0"

definition BIO_get_retry_reason :: "bio_st \<Rightarrow> int" where
  "BIO_get_retry_reason bio = bio_retry_reason bio"

definition BIO_set_retry_read :: "bio_st \<Rightarrow> bio_st" where
  "BIO_set_retry_read bio = bio\<lparr>bio_flags := bio_flags bio OR (BIO_FLAGS_READ OR BIO_FLAGS_SHOULD_RETRY)\<rparr>"

definition BIO_set_retry_write :: "bio_st \<Rightarrow> bio_st" where
  "BIO_set_retry_write bio = bio\<lparr>bio_flags := bio_flags bio OR (BIO_FLAGS_WRITE OR BIO_FLAGS_SHOULD_RETRY)\<rparr>"

definition BIO_set_retry_special :: "bio_st \<Rightarrow> bio_st" where
  "BIO_set_retry_special bio = bio\<lparr>bio_flags := bio_flags bio OR (BIO_FLAGS_READ OR BIO_FLAGS_IO_SPECIAL)\<rparr>"

definition BIO_get_retry_flags :: "bio_st \<Rightarrow> u32" where
  "BIO_get_retry_flags bio = bio_flags bio AND kRetryFlags"

definition BIO_clear_retry_flags :: "bio_st \<Rightarrow> bio_st" where
  "BIO_clear_retry_flags bio = bio\<lparr>bio_flags := bio_flags bio AND NOT kRetryFlags, bio_retry_reason := 0\<rparr>"

lemmas bio_flag_defs = BIO_FLAGS_READ_def BIO_FLAGS_WRITE_def BIO_FLAGS_IO_SPECIAL_def
  BIO_FLAGS_SHOULD_RETRY_def BIO_FLAGS_MEM_RDONLY_def BIO_FLAGS_RWS_def kRetryFlags_def

named_theorems bio_world \<open>reading an updated world\<close>

lemma w_bios_upd_bio [bio_world]:
  "w_bios (upd_bio a f w) b = (if b = a then map_option f (w_bios w a) else w_bios w b)"
  by (simp add: upd_bio_def)

lemma upd_bio_rest [bio_world]:
  "w_errs (upd_bio a f w) = w_errs w" "w_alloc (upd_bio a f w) = w_alloc w" "w_calls (upd_bio a f w) = w_calls w"
  by (simp_all add: upd_bio_def)

lemma w_bios_upd_pair [bio_world]:
  "w_bios (upd_pair a f w) b =
     (if b = a then map_option (\<lambda>bio. bio\<lparr>bio_pair := map_option f (bio_pair bio)\<rparr>) (w_bios w a)
      else w_bios w b)"
  by (simp add: upd_pair_def bio_world)

lemma upd_pair_rest [bio_world]:
  "w_errs (upd_pair a f w) = w_errs w" "w_alloc (upd_pair a f w) = w_alloc w" "w_calls (upd_pair a f w) = w_calls w"
  by (simp_all add: upd_pair_def bio_world)

lemma PUT_ERROR_rest [bio_world]:
  "w_bios (OPENSSL_PUT_ERROR r w) = w_bios w" "w_errs (OPENSSL_PUT_ERROR r w) = w_errs w @ [r]"
  "w_alloc (OPENSSL_PUT_ERROR r w) = w_alloc w" "w_calls (OPENSSL_PUT_ERROR r w) = w_calls w"
  by (simp_all add: OPENSSL_PUT_ERROR_def)

lemma int_of_size_id: "n \<le> INT_MAX \<Longrightarrow> int_of_size n = int n"
  by (simp add: int_of_size_def INT_MAX_def signed_of_nat signed_take_bit_int_eq_self)

lemma long_of_size_id: "n < 2 ^ 63 \<Longrightarrow> long_of_size n = int n"
  by (simp add: long_of_size_def signed_of_nat signed_take_bit_int_eq_self)

lemma size_of_int_id: "0 \<le> i \<Longrightarrow> i \<le> int INT_MAX \<Longrightarrow> size_of_int i = nat i"
  by (simp add: size_of_int_def INT_MAX_def unsigned_of_int take_bit_int_eq_self)

text \<open>What the retry flags of a BIO say after it has been cleared and a reason has been set.\<close>

lemma get_retry_flags [bio_world]:
  "BIO_get_retry_flags (BIO_clear_retry_flags bio) = 0"
  "BIO_get_retry_flags (BIO_set_retry_read (BIO_clear_retry_flags bio)) = BIO_FLAGS_READ OR BIO_FLAGS_SHOULD_RETRY"
  "BIO_get_retry_flags (BIO_set_retry_write (BIO_clear_retry_flags bio)) = BIO_FLAGS_WRITE OR BIO_FLAGS_SHOULD_RETRY"
proof -
  have z: "(x AND NOT kRetryFlags) AND kRetryFlags = 0" for x
    by (simp add: and.assoc)
  show "BIO_get_retry_flags (BIO_clear_retry_flags bio) = 0"
    by (simp add: BIO_get_retry_flags_def BIO_clear_retry_flags_def z)
  have "((x AND NOT kRetryFlags) OR y) AND kRetryFlags = y AND kRetryFlags" for x y :: u32
    by (simp add: bit.conj_disj_distrib2 z)
  then show "BIO_get_retry_flags (BIO_set_retry_read (BIO_clear_retry_flags bio)) = BIO_FLAGS_READ OR BIO_FLAGS_SHOULD_RETRY"
    "BIO_get_retry_flags (BIO_set_retry_write (BIO_clear_retry_flags bio)) = BIO_FLAGS_WRITE OR BIO_FLAGS_SHOULD_RETRY"
    by (simp_all add: BIO_get_retry_flags_def BIO_clear_retry_flags_def BIO_set_retry_read_def
        BIO_set_retry_write_def bio_flag_defs)
qed

end
