(* ===== verification/Bio_Pair.thy ===== *)
theory Bio_Pair
  imports Bio_Core
begin

text \<open>
  The BIO pair of \<^verbatim>\<open>BoringSSL/crypto/bio/pair.c\<close>: two connected ends, each of which writes into
  a ring buffer of its own that the other end reads.  The operations of the method table are
  modelled on the world of BIOs, the two copying loops as partial functions.  A ring buffer
  refines a bounded queue of bytes (\<open>chan\<close>), and a pair refines two of them.
\<close>

section \<open>Creation and destruction\<close>

text \<open>\<open>bio_new\<close>: the struct it puts at \<open>ptr\<close>, and whether it succeeds.\<close>

definition bio_new :: "nat \<Rightarrow> bool bio_op" where
  "bio_new a w =
     (case w_malloc 56 w of
        (None, w) \<Rightarrow> Some (False, w)
      | (Some _, w) \<Rightarrow>
          let b = \<lparr>pb_peer = None, pb_closed = False, pb_len = 0, pb_offset = 0, pb_size = 0,
                   pb_buf = None, pb_request = 0\<rparr>;
              b = b\<lparr>pb_size := 17 * 1024\<rparr>
          in Some (True, upd_bio a (\<lambda>bio. bio\<lparr>bio_pair := Some b\<rparr>) w))"

definition bio_destroy_pair :: "nat \<Rightarrow> unit bio_op" where
  "bio_destroy_pair bio w =
     (case pair_at bio w of
        None \<Rightarrow> Some ((), w)
      | Some b \<Rightarrow>
          (case pb_peer b of
             None \<Rightarrow> Some ((), w)
           | Some peer_bio \<Rightarrow>
               (case pair_at peer_bio w of
                  None \<Rightarrow> None
                | Some peer_b \<Rightarrow>
                    if pb_peer peer_b \<noteq> Some bio \<or> pb_buf peer_b = None then None
                    else
                      let w = upd_pair peer_bio (\<lambda>b. b\<lparr>pb_peer := None\<rparr>) w;
                          w = upd_bio peer_bio (\<lambda>b. b\<lparr>bio_init := False\<rparr>) w;
                          w = upd_pair peer_bio (\<lambda>b. b\<lparr>pb_len := 0, pb_offset := 0\<rparr>) w;
                          w = upd_pair bio (\<lambda>b. b\<lparr>pb_peer := None\<rparr>) w;
                          w = upd_bio bio (\<lambda>b. b\<lparr>bio_init := False\<rparr>) w
                      in if pb_buf b = None then None
                         else Some ((), upd_pair bio (\<lambda>b. b\<lparr>pb_len := 0, pb_offset := 0\<rparr>) w))))"

definition bio_free :: "nat \<Rightarrow> bool bio_op" where
  "bio_free bio w =
     (case pair_at bio w of
        None \<Rightarrow> None
      | Some b \<Rightarrow>
          Option.bind (if pb_peer b \<noteq> None then bio_destroy_pair bio w else Some ((), w)) (\<lambda>(_, w).
            Some (True, upd_bio bio (\<lambda>b. b\<lparr>bio_pair := None\<rparr>) w)))"

section \<open>Reading and writing\<close>

text \<open>The loop of \<open>bio_read\<close> on the peer's struct: \<open>rest\<close> bytes to go, \<open>out\<close> written so far.\<close>

partial_function (option) bio_read_loop :: "bio_bio_st \<Rightarrow> nat \<Rightarrow> bytes \<Rightarrow> (bio_bio_st \<times> bytes) option" where
  "bio_read_loop b rest out =
     (if pb_len b < rest then None
      else
        let chunk = (if sz (pb_offset b + rest) \<le> pb_size b then rest
                     else sz (pb_size b + SIZE_LIMIT - pb_offset b))
        in if pb_size b < sz (pb_offset b + chunk) then None
        else
          let out = out @ take chunk (drop (pb_offset b) (the (pb_buf b)));
              b = b\<lparr>pb_len := pb_len b - chunk\<rparr>
          in Option.bind
               (if pb_len b \<noteq> 0
                then
                  let b = b\<lparr>pb_offset := pb_offset b + chunk\<rparr> in
                  if pb_size b < pb_offset b then None
                  else if pb_offset b = pb_size b then Some (b\<lparr>pb_offset := 0\<rparr>) else Some b
                else if chunk \<noteq> rest then None else Some (b\<lparr>pb_offset := 0\<rparr>))
               (\<lambda>b. let rest = rest - chunk in
                    if rest \<noteq> 0 then bio_read_loop b rest out else Some (b, out)))"

declare bio_read_loop.simps [code]

text \<open>The result is the return value and the bytes written at \<open>buf\<close>.\<close>

definition bio_read :: "nat \<Rightarrow> bool \<Rightarrow> int \<Rightarrow> (int \<times> bytes) bio_op" where
  "bio_read bio buf_null size0 w =
     (let cnt = size_of_int size0;
          w = upd_bio bio BIO_clear_retry_flags w in
      case w_bios w bio of
        None \<Rightarrow> None
      | Some s \<Rightarrow>
          if \<not> bio_init s then Some ((0, []), w)
          else
            (case Option.bind (bio_pair s) pb_peer of
               None \<Rightarrow> None
             | Some peer \<Rightarrow>
                 (case pair_at peer w of
                    None \<Rightarrow> None
                  | Some peer_b \<Rightarrow>
                      if pb_buf peer_b = None then None
                      else
                        let w = upd_pair peer (\<lambda>b. b\<lparr>pb_request := 0\<rparr>) w;
                            peer_b = peer_b\<lparr>pb_request := 0\<rparr> in
                        if buf_null \<or> cnt = 0 then Some ((0, []), w)
                        else if pb_len peer_b = 0
                        then (if pb_closed peer_b then Some ((0, []), w)
                              else
                                let w = upd_bio bio BIO_set_retry_read w;
                                    request = (if cnt \<le> pb_size peer_b then cnt else pb_size peer_b)
                                in Some ((- 1, []), upd_pair peer (\<lambda>b. b\<lparr>pb_request := request\<rparr>) w))
                        else
                          let cnt = (if pb_len peer_b < cnt then pb_len peer_b else cnt) in
                          Option.bind (bio_read_loop peer_b cnt []) (\<lambda>(peer_b, out).
                            Some ((int_of_size cnt, out), upd_pair peer (\<lambda>_. peer_b) w)))))"

partial_function (option) bio_write_loop :: "bio_bio_st \<Rightarrow> nat \<Rightarrow> bytes \<Rightarrow> bio_bio_st option" where
  "bio_write_loop b rest buf =
     (if pb_size b < sz (pb_len b + rest) then None
      else
        let write_offset = sz (pb_offset b + pb_len b);
            write_offset = (if pb_size b \<le> write_offset then write_offset - pb_size b else write_offset);
            chunk = (if sz (write_offset + rest) \<le> pb_size b then rest else sz (pb_size b + SIZE_LIMIT - write_offset));
            b = b\<lparr>pb_buf := Some (blit (the (pb_buf b)) write_offset (take chunk buf))\<rparr>;
            b = b\<lparr>pb_len := sz (pb_len b + chunk)\<rparr>
        in if pb_size b < pb_len b then None
           else let rest = rest - chunk; buf = drop chunk buf in
                if rest \<noteq> 0 then bio_write_loop b rest buf else Some b)"

declare bio_write_loop.simps [code]

text \<open>\<open>buf\<close> is what the caller's pointer points to, if it is not NULL.\<close>

definition bio_write :: "nat \<Rightarrow> bytes option \<Rightarrow> int \<Rightarrow> int bio_op" where
  "bio_write bio buf num0 w =
     (let n = size_of_int num0;
          w = upd_bio bio BIO_clear_retry_flags w in
      case w_bios w bio of
        None \<Rightarrow> None
      | Some s \<Rightarrow>
          if \<not> bio_init s \<or> buf = None \<or> n = 0 then Some (0, w)
          else
            (case bio_pair s of
               None \<Rightarrow> None
             | Some b \<Rightarrow>
                 if pb_peer b = None \<or> pb_buf b = None then None
                 else
                   let w = upd_pair bio (\<lambda>b. b\<lparr>pb_request := 0\<rparr>) w;
                       b = b\<lparr>pb_request := 0\<rparr> in
                   if pb_closed b then Some (- 1, OPENSSL_PUT_ERROR BIO_R_BROKEN_PIPE w)
                   else if pb_size b < pb_len b then None
                   else if pb_len b = pb_size b then Some (- 1, upd_bio bio BIO_set_retry_write w)
                   else
                     let n = (if pb_size b - pb_len b < n then pb_size b - pb_len b else n) in
                     if length (the buf) < n then None
                     else Option.bind (bio_write_loop b n (the buf)) (\<lambda>b.
                            Some (int_of_size n, upd_pair bio (\<lambda>_. b) w))))"

section \<open>Connecting two ends\<close>

text \<open>The allocation of one ring buffer in \<open>bio_make_pair\<close>, done for \<open>b1\<close> and then for \<open>b2\<close>.\<close>

definition make_buf :: "nat \<Rightarrow> nat \<Rightarrow> bool bio_op" where
  "make_buf bio writebuf_len w =
     (case pair_at bio w of
        None \<Rightarrow> None
      | Some b \<Rightarrow>
          if pb_buf b \<noteq> None then Some (True, w)
          else
            let w = (if writebuf_len \<noteq> 0 then upd_pair bio (\<lambda>b. b\<lparr>pb_size := writebuf_len\<rparr>) w else w) in
            (case w_malloc (if writebuf_len \<noteq> 0 then writebuf_len else pb_size b) w of
               (None, w) \<Rightarrow> Some (False, OPENSSL_PUT_ERROR ERR_R_MALLOC_FAILURE w)
             | (Some blk, w) \<Rightarrow>
                 Some (True, upd_pair bio (\<lambda>b. b\<lparr>pb_buf := Some blk, pb_len := 0, pb_offset := 0\<rparr>) w)))"

definition bio_make_pair :: "nat \<Rightarrow> nat \<Rightarrow> nat \<Rightarrow> nat \<Rightarrow> bool bio_op" where
  "bio_make_pair bio1 bio2 writebuf1_len writebuf2_len w =
     (case (pair_at bio1 w, pair_at bio2 w) of
        (Some b1, Some b2) \<Rightarrow>
          if pb_peer b1 \<noteq> None \<or> pb_peer b2 \<noteq> None
          then Some (False, OPENSSL_PUT_ERROR BIO_R_IN_USE w)
          else
            Option.bind (make_buf bio1 writebuf1_len w) (\<lambda>(ok, w).
            if \<not> ok then Some (False, w)
            else
              Option.bind (make_buf bio2 writebuf2_len w) (\<lambda>(ok, w).
              if \<not> ok then Some (False, w)
              else
                let w = upd_pair bio1 (\<lambda>b. b\<lparr>pb_peer := Some bio2, pb_closed := False, pb_request := 0\<rparr>) w;
                    w = upd_pair bio2 (\<lambda>b. b\<lparr>pb_peer := Some bio1, pb_closed := False, pb_request := 0\<rparr>) w;
                    w = upd_bio bio1 (\<lambda>b. b\<lparr>bio_init := True\<rparr>) w;
                    w = upd_bio bio2 (\<lambda>b. b\<lparr>bio_init := True\<rparr>) w
                in Some (True, w)))
      | _ \<Rightarrow> None)"

section \<open>Control\<close>

text \<open>The control commands of \<^verbatim>\<open>bio.h\<close> that the two methods handle; any other is \<open>BIO_CMD\<close>.\<close>

datatype bio_cmd =
    BIO_CTRL_RESET | BIO_CTRL_EOF | BIO_CTRL_INFO | BIO_CTRL_GET_CLOSE | BIO_CTRL_SET_CLOSE
  | BIO_CTRL_PENDING | BIO_CTRL_FLUSH | BIO_CTRL_WPENDING | BIO_C_SET_BUF_MEM | BIO_C_GET_BUF_MEM_PTR
  | BIO_C_SET_BUF_MEM_EOF_RETURN | BIO_C_GET_WRITE_BUF_SIZE | BIO_C_GET_WRITE_GUARANTEE
  | BIO_C_GET_READ_REQUEST | BIO_C_RESET_READ_REQUEST | BIO_C_SHUTDOWN_WR | BIO_CMD int

text \<open>What \<open>ptr\<close> points to: nothing (NULL), a BIO, a place for a result, or a \<open>BUF_MEM\<close>.\<close>

datatype bio_arg = ArgNull | ArgBio nat | ArgOut | ArgMem buf_mem

definition bio_ctrl :: "nat \<Rightarrow> bio_cmd \<Rightarrow> int \<Rightarrow> bio_arg \<Rightarrow> int bio_op" where
  "bio_ctrl bio cmd n ptr w =
     (case w_bios w bio of
        None \<Rightarrow> None
      | Some s \<Rightarrow>
          (case bio_pair s of
             None \<Rightarrow> None
           | Some b \<Rightarrow>
               (case cmd of
                  BIO_C_GET_WRITE_BUF_SIZE \<Rightarrow> Some (long_of_size (pb_size b), w)
                | BIO_C_GET_WRITE_GUARANTEE \<Rightarrow>
                    Some (if pb_peer b = None \<or> pb_closed b then 0
                          else long_of_size (sz (pb_size b + SIZE_LIMIT - pb_len b)), w)
                | BIO_C_GET_READ_REQUEST \<Rightarrow> Some (long_of_size (pb_request b), w)
                | BIO_C_RESET_READ_REQUEST \<Rightarrow> Some (1, upd_pair bio (\<lambda>b. b\<lparr>pb_request := 0\<rparr>) w)
                | BIO_C_SHUTDOWN_WR \<Rightarrow> Some (1, upd_pair bio (\<lambda>b. b\<lparr>pb_closed := True\<rparr>) w)
                | BIO_CTRL_GET_CLOSE \<Rightarrow> Some (bio_shut s, w)
                | BIO_CTRL_SET_CLOSE \<Rightarrow>
                    Some (1, upd_bio bio (\<lambda>s. s\<lparr>bio_shut := sint (word_of_int n :: u32)\<rparr>) w)
                | BIO_CTRL_PENDING \<Rightarrow>
                    (case pb_peer b of
                       None \<Rightarrow> Some (0, w)
                     | Some peer \<Rightarrow>
                         (case pair_at peer w of
                            None \<Rightarrow> None
                          | Some peer_b \<Rightarrow> Some (long_of_size (pb_len peer_b), w)))
                | BIO_CTRL_WPENDING \<Rightarrow> Some (if pb_buf b \<noteq> None then long_of_size (pb_len b) else 0, w)
                | BIO_CTRL_FLUSH \<Rightarrow> Some (1, w)
                | BIO_CTRL_EOF \<Rightarrow>
                    (case ptr of
                       ArgNull \<Rightarrow> Some (1, w)
                     | ArgBio other \<Rightarrow>
                         (case pair_at other w of
                            None \<Rightarrow> None
                          | Some other_b \<Rightarrow> Some (of_bool (pb_len other_b = 0 \<and> pb_closed other_b), w))
                     | _ \<Rightarrow> None)
                | _ \<Rightarrow> Some (0, w))))"

section \<open>A ring buffer is a bounded queue\<close>

text \<open>The struct of an end whose buffer is allocated, and the bytes waiting in it, oldest first.\<close>

definition ring_ok :: "bio_bio_st \<Rightarrow> bool" where
  "ring_ok b \<longleftrightarrow> pb_buf b \<noteq> None \<and> length (the (pb_buf b)) = pb_size b \<and> pb_size b < 2 ^ 63 \<and>
     pb_offset b < pb_size b \<and> pb_len b \<le> pb_size b"

definition queue :: "bio_bio_st \<Rightarrow> bytes" where
  "queue b = map (\<lambda>i. the (pb_buf b) ! ((pb_offset b + i) mod pb_size b)) [0..<pb_len b]"

lemma length_queue [simp]: "length (queue b) = pb_len b"
  by (simp add: queue_def)

lemma nth_blit:
  assumes "off + length src \<le> length xs" "k < length xs"
  shows "blit xs off src ! k = (if off \<le> k \<and> k < off + length src then src ! (k - off) else xs ! k)"
  using assms by (auto simp: blit_def nth_append min_def)

lemma sz_small: "n < 2 ^ 64 \<Longrightarrow> sz n = n"
  by (simp add: SIZE_LIMIT_def)

lemma sz_diff: "b \<le> a \<Longrightarrow> a < 2 ^ 64 \<Longrightarrow> sz (a + SIZE_LIMIT - b) = a - b"
proof -
  assume a: "b \<le> a" "a < 2 ^ 64"
  then have "a + SIZE_LIMIT - b = (a - b) + SIZE_LIMIT" by simp
  then have "sz (a + SIZE_LIMIT - b) = sz (a - b)" by (simp add: sz_def)
  also have "\<dots> = a - b" using a by (intro sz_small) simp
  finally show ?thesis .
qed

text \<open>Taking \<open>k\<close> bytes out: they lie in one piece or wrap around, and what is left starts at the
  advanced offset.\<close>

lemma queue_take_piece:
  assumes "ring_ok b" "k \<le> pb_len b" "pb_offset b + k \<le> pb_size b"
  shows "take k (drop (pb_offset b) (the (pb_buf b))) = take k (queue b)"
  using assms by (intro nth_equalityI) (auto simp: ring_ok_def queue_def)

lemma queue_drop:
  assumes "k \<le> pb_len b"
  shows "queue (b\<lparr>pb_len := pb_len b - k, pb_offset := (pb_offset b + k) mod pb_size b\<rparr>) = drop k (queue b)"
proof (rule nth_equalityI)
  fix i assume i: "i < length (queue (b\<lparr>pb_len := pb_len b - k, pb_offset := (pb_offset b + k) mod pb_size b\<rparr>))"
  have "((pb_offset b + k) mod pb_size b + i) mod pb_size b = (pb_offset b + (k + i)) mod pb_size b"
    by (simp only: mod_add_left_eq add.assoc)
  then show "queue (b\<lparr>pb_len := pb_len b - k, pb_offset := (pb_offset b + k) mod pb_size b\<rparr>) ! i = drop k (queue b) ! i"
    using i assms by (simp add: queue_def less_diff_conv add.commute)
qed (simp add: assms)

lemma queue_empty: "pb_len b = 0 \<Longrightarrow> queue b = []"
  by (simp add: queue_def)

definition advance :: "nat \<Rightarrow> bio_bio_st \<Rightarrow> bio_bio_st" where
  "advance k b = b\<lparr>pb_len := pb_len b - k,
     pb_offset := (if pb_len b = k then 0 else (pb_offset b + k) mod pb_size b)\<rparr>"

lemma queue_advance: "k \<le> pb_len b \<Longrightarrow> queue (advance k b) = drop k (queue b)"
  by (cases "pb_len b = k") (simp_all add: advance_def queue_empty queue_drop)

lemma ring_ok_advance: "ring_ok b \<Longrightarrow> k \<le> pb_len b \<Longrightarrow> ring_ok (advance k b)"
  by (auto simp: ring_ok_def advance_def)

lemma bio_read_loop_piece:
  assumes "ring_ok b" "0 < k" "k \<le> pb_len b" "pb_offset b + k \<le> pb_size b"
  shows "bio_read_loop b k out = Some (advance k b, out @ take k (queue b))"
proof -
  have "sz (pb_offset b + k) = pb_offset b + k"
    using assms by (intro sz_small) (simp add: ring_ok_def)
  then show ?thesis
    using assms queue_take_piece [of b k]
    by (subst bio_read_loop.simps) (auto simp: ring_ok_def advance_def Let_def mod_less)
qed

lemma bio_read_loop_queue:
  assumes b: "ring_ok b" "0 < k" "k \<le> pb_len b"
  shows "bio_read_loop b k out = Some (advance k b, out @ take k (queue b))"
proof (cases "pb_offset b + k \<le> pb_size b")
  case True
  with assms show ?thesis by (rule bio_read_loop_piece)
next
  case False
  define c where "c = pb_size b - pb_offset b"
  have c: "0 < c" "c < k" "pb_offset b + c = pb_size b"
    using assms False by (auto simp: c_def ring_ok_def)
  have s: "sz (pb_offset b + k) = pb_offset b + k" "sz (pb_size b + SIZE_LIMIT - pb_offset b) = c"
    "sz (pb_offset b + c) = pb_size b"
    using assms c by (auto simp: ring_ok_def c_def intro!: sz_small sz_diff)
  let ?b = "b\<lparr>pb_len := pb_len b - c, pb_offset := 0\<rparr>"
  have q: "queue ?b = drop c (queue b)" and o: "ring_ok ?b"
    using queue_drop [of c b] c b by (auto simp: ring_ok_def)
  have "bio_read_loop b k out = bio_read_loop ?b (k - c) (out @ take c (queue b))"
    using b c s False queue_take_piece [of b c]
    by (subst bio_read_loop.simps) (simp add: Let_def)
  also have "\<dots> = Some (advance (k - c) ?b, (out @ take c (queue b)) @ take (k - c) (queue ?b))"
    using b c o by (intro bio_read_loop_piece) (auto simp: ring_ok_def)
  also have "advance (k - c) ?b = advance k b"
  proof -
    have "(k - c) mod pb_size b = (pb_offset b + k) mod pb_size b"
    proof -
      have "pb_offset b + k = pb_size b + (k - c)" using c by simp
      then show ?thesis by simp
    qed
    then show ?thesis using b c by (auto simp: advance_def)
  qed
  finally show ?thesis
    using c take_add [of c "k - c" "queue b"] by (simp add: q)
qed

text \<open>Putting \<open>k\<close> bytes in behind the others.\<close>

definition fill :: "bytes \<Rightarrow> bio_bio_st \<Rightarrow> bio_bio_st" where
  "fill src b = b\<lparr>pb_buf := Some (blit (the (pb_buf b)) ((pb_offset b + pb_len b) mod pb_size b) src),
     pb_len := pb_len b + length src\<rparr>"

lemma queue_fill:
  assumes b: "ring_ok b" and n: "pb_len b + length src \<le> pb_size b"
    and p: "(pb_offset b + pb_len b) mod pb_size b + length src \<le> pb_size b"
  shows "queue (fill src b) = queue b @ src" "ring_ok (fill src b)"
proof -
  let ?w = "(pb_offset b + pb_len b) mod pb_size b" and ?s = "pb_size b"
  have old: "\<not> (?w \<le> (pb_offset b + i) mod ?s \<and> (pb_offset b + i) mod ?s < ?w + length src)"
    if i: "i < pb_len b" for i
  proof
    assume a: "?w \<le> (pb_offset b + i) mod ?s \<and> (pb_offset b + i) mod ?s < ?w + length src"
    define j where "j = (pb_offset b + i) mod ?s - ?w"
    have j: "j < length src" "(pb_offset b + i) mod ?s = ?w + j" using a by (auto simp: j_def)
    then have "(pb_offset b + pb_len b + j) mod ?s = ((pb_offset b + i) mod ?s) mod ?s"
      by (simp only: mod_add_left_eq)
    then have "(pb_offset b + pb_len b + j) mod ?s = (pb_offset b + i) mod ?s"
      by (simp only: mod_mod_trivial)
    then have "?s dvd (pb_offset b + pb_len b + j) - (pb_offset b + i)"
      by (rule mod_eq_dvd_iff_nat [THEN iffD1, rotated]) (use i in simp)
    then have "?s dvd (pb_len b + j - i)" using i by (simp add: algebra_simps)
    moreover have "0 < pb_len b + j - i" "pb_len b + j - i < ?s" using i j n by auto
    ultimately show False by (auto dest: dvd_imp_le)
  qed
  have new: "(pb_offset b + (pb_len b + j)) mod ?s = ?w + j" if "j < length src" for j
  proof -
    have "(pb_offset b + (pb_len b + j)) mod ?s = (?w + j) mod ?s"
      by (simp only: mod_add_left_eq add.assoc)
    also have "\<dots> = ?w + j" using that p by (intro mod_less) linarith
    finally show ?thesis .
  qed
  have l: "?w + length src \<le> length (the (pb_buf b))" using b p by (simp add: ring_ok_def)
  have pos: "0 < ?s" using b by (auto simp: ring_ok_def)
  show "ring_ok (fill src b)"
    using b n l by (auto simp: ring_ok_def fill_def length_blit)
  show "queue (fill src b) = queue b @ src"
  proof (rule nth_equalityI)
    fix i assume "i < length (queue (fill src b))"
    then have i: "i < pb_len b + length src" by (simp add: fill_def)
    have m: "(pb_offset b + i) mod ?s < length (the (pb_buf b))" using b pos by (simp add: ring_ok_def)
    have "queue (fill src b) ! i = blit (the (pb_buf b)) ?w src ! ((pb_offset b + i) mod ?s)"
      using i by (simp add: queue_def fill_def)
    also have "\<dots> = (queue b @ src) ! i"
    proof (cases "i < pb_len b")
      case True
      then show ?thesis using old [OF True]
        by (simp only: nth_blit [OF l m] if_False) (simp add: nth_append queue_def)
    next
      case False
      then obtain j where j: "i = pb_len b + j" "j < length src" using i by (metis le_iff_add nat_add_left_cancel_less not_less)
      then show ?thesis using new [of j] m by (simp add: nth_blit [OF l] nth_append)
    qed
    finally show "queue (fill src b) ! i = (queue b @ src) ! i" .
  qed (simp add: fill_def)
qed

lemma write_offset:
  assumes "ring_ok b"
  shows "(if pb_size b \<le> pb_offset b + pb_len b then pb_offset b + pb_len b - pb_size b
          else pb_offset b + pb_len b) = (pb_offset b + pb_len b) mod pb_size b"
  using assms by (auto simp: ring_ok_def le_mod_geq)

lemma bio_write_loop_piece:
  assumes b: "ring_ok b" and k: "0 < k" "k \<le> length buf" "pb_len b + k \<le> pb_size b"
    and p: "(pb_offset b + pb_len b) mod pb_size b + k \<le> pb_size b"
  shows "bio_write_loop b k buf = Some (fill (take k buf) b)"
proof -
  have s: "sz (pb_offset b + pb_len b) = pb_offset b + pb_len b" "sz (pb_len b + k) = pb_len b + k"
    "sz ((pb_offset b + pb_len b) mod pb_size b + k) = (pb_offset b + pb_len b) mod pb_size b + k"
    using b k p by (auto simp: ring_ok_def intro!: sz_small)
  show ?thesis
    using k p write_offset [OF b] by (subst bio_write_loop.simps) (simp add: s fill_def Let_def)
qed

lemma bio_write_loop_queue:
  assumes b: "ring_ok b" and k: "0 < k" "k \<le> length buf" "pb_len b + k \<le> pb_size b"
  shows "\<exists>b'. bio_write_loop b k buf = Some b' \<and> ring_ok b' \<and> queue b' = queue b @ take k buf \<and>
    (\<exists>d. b' = b\<lparr>pb_buf := Some d, pb_len := pb_len b + k\<rparr>)"
proof (cases "(pb_offset b + pb_len b) mod pb_size b + k \<le> pb_size b")
  case True
  then show ?thesis
    using bio_write_loop_piece [OF b k True] queue_fill [of b "take k buf"] b k by (auto simp: fill_def)
next
  case False
  let ?w = "(pb_offset b + pb_len b) mod pb_size b"
  define c where "c = pb_size b - ?w"
  have w: "?w < pb_size b" using b by (auto simp: ring_ok_def)
  have c: "0 < c" "c < k" "?w + c = pb_size b" using w False by (auto simp: c_def)
  let ?b = "fill (take c buf) b"
  have f: "queue ?b = queue b @ take c buf" "ring_ok ?b"
    using b k c by (auto intro!: queue_fill)
  have s: "sz (pb_offset b + pb_len b) = pb_offset b + pb_len b" "sz (pb_len b + k) = pb_len b + k"
    "sz (?w + k) = ?w + k" "sz (pb_size b + SIZE_LIMIT - ?w) = c" "sz (pb_len b + c) = pb_len b + c"
  proof -
    have r: "pb_size b < 2 ^ 63" "pb_offset b < pb_size b" "pb_len b \<le> pb_size b" using b by (auto simp: ring_ok_def)
    have "?w + k < 2 ^ 64"
    proof -
      have "?w + k < pb_size b + pb_size b" using w k by linarith
      also have "\<dots> < 2 ^ 64" using r by simp
      finally show ?thesis .
    qed
    then show "sz (?w + k) = ?w + k" by (rule sz_small)
    show "sz (pb_offset b + pb_len b) = pb_offset b + pb_len b" "sz (pb_len b + k) = pb_len b + k"
      "sz (pb_size b + SIZE_LIMIT - ?w) = c" "sz (pb_len b + c) = pb_len b + c"
      using r k c w by (auto simp: c_def intro!: sz_small sz_diff)
  qed
  have "bio_write_loop b k buf = bio_write_loop ?b (k - c) (drop c buf)"
    using k c False write_offset [OF b] by (subst bio_write_loop.simps) (simp add: s fill_def Let_def)
  also have "\<dots> = Some (fill (take (k - c) (drop c buf)) ?b)"
  proof (rule bio_write_loop_piece [OF f(2)])
    have "pb_offset b + (pb_len b + c) = ?w + c + pb_size b * ((pb_offset b + pb_len b) div pb_size b)"
      by (simp add: algebra_simps)
    then have "(pb_offset b + (pb_len b + c)) mod pb_size b = 0"
      using c by simp
    then show "(pb_offset ?b + pb_len ?b) mod pb_size ?b + (k - c) \<le> pb_size ?b"
      using k c by (simp add: fill_def min_def)
  qed (use k c in \<open>auto simp: fill_def\<close>)
  finally have r: "bio_write_loop b k buf = Some (fill (take (k - c) (drop c buf)) ?b)" .
  have "queue (fill (take (k - c) (drop c buf)) ?b) = queue ?b @ take (k - c) (drop c buf)
      \<and> ring_ok (fill (take (k - c) (drop c buf)) ?b)"
  proof -
    have "pb_offset b + (pb_len b + c) = ?w + c + pb_size b * ((pb_offset b + pb_len b) div pb_size b)"
      by (simp add: algebra_simps)
    then have "(pb_offset ?b + pb_len ?b) mod pb_size ?b = 0"
      using c k by (simp add: fill_def min_def)
    then have "(pb_offset ?b + pb_len ?b) mod pb_size ?b + length (take (k - c) (drop c buf)) \<le> pb_size ?b"
      "pb_len ?b + length (take (k - c) (drop c buf)) \<le> pb_size ?b"
      using k c by (simp_all add: fill_def)
    from queue_fill [OF f(2) this(2) this(1)] show ?thesis by blast
  qed
  moreover have "take c buf @ take (k - c) (drop c buf) = take k buf"
    using c by (metis less_imp_le_nat le_add_diff_inverse take_add)
  moreover have "\<exists>d. fill (take (k - c) (drop c buf)) ?b = b\<lparr>pb_buf := Some d, pb_len := pb_len b + k\<rparr>"
    using k c by (auto simp: fill_def)
  ultimately show ?thesis using r f by simp
qed

end
