(* ===== verification/Bio_Mem.thy ===== *)
theory Bio_Mem
  imports Bio_Pair
begin

text \<open>
  Growable buffers (\<^verbatim>\<open>BoringSSL/crypto/buf/buf.c\<close>) and the memory BIO over them
  (\<^verbatim>\<open>crypto/bio/bio_mem.c\<close>).  A read-only memory BIO moves its data pointer instead of the bytes.
  The representation invariant \<open>mem_ok\<close> says which bytes are waiting; reading takes them off the
  front and writing puts bytes behind them.
\<close>

section \<open>Buffers\<close>

definition upd_mem :: "nat \<Rightarrow> (buf_mem \<Rightarrow> buf_mem) \<Rightarrow> world \<Rightarrow> world" where
  "upd_mem a f = upd_bio a (\<lambda>bio. bio\<lparr>bio_mem := map_option f (bio_mem bio)\<rparr>)"

definition mem_at :: "nat \<Rightarrow> world \<Rightarrow> buf_mem option" where
  "mem_at a w = Option.bind (w_bios w a) bio_mem"

text \<open>\<open>OPENSSL_realloc\<close> of a block, if there is one: the new block keeps the common prefix.\<close>

definition w_realloc :: "bytes option \<Rightarrow> nat \<Rightarrow> world \<Rightarrow> bytes option \<times> world" where
  "w_realloc old n w =
     (case w_malloc n w of
        (None, w) \<Rightarrow> (None, w)
      | (Some blk, w) \<Rightarrow> (Some (case old of None \<Rightarrow> blk | Some blk0 \<Rightarrow> blit blk 0 (take n blk0)), w))"

definition BUF_MEM_new :: "world \<Rightarrow> buf_mem option \<times> world" where
  "BUF_MEM_new w =
     (case w_malloc 24 w of
        (None, w) \<Rightarrow> (None, OPENSSL_PUT_ERROR ERR_R_MALLOC_FAILURE w)
      | (Some _, w) \<Rightarrow> (Some \<lparr>bm_length = 0, bm_data = None, bm_pos = 0, bm_max = 0\<rparr>, w))"

definition BUF_MEM_reserve :: "buf_mem \<Rightarrow> nat \<Rightarrow> world \<Rightarrow> (bool \<times> buf_mem) \<times> world" where
  "BUF_MEM_reserve buf cap w =
     (if cap \<le> bm_max buf then ((True, buf), w)
      else
        let n = sz (cap + 3) in
        if n < cap then ((False, buf), OPENSSL_PUT_ERROR ERR_R_MALLOC_FAILURE w)
        else
          let n = n div 3; alloc_size = sz (n * 4) in
          if alloc_size div 4 \<noteq> n then ((False, buf), OPENSSL_PUT_ERROR ERR_R_MALLOC_FAILURE w)
          else
            (case w_realloc (bm_data buf) alloc_size w of
               (None, w) \<Rightarrow> ((False, buf), OPENSSL_PUT_ERROR ERR_R_MALLOC_FAILURE w)
             | (Some new_buf, w) \<Rightarrow> ((True, buf\<lparr>bm_data := Some new_buf, bm_max := alloc_size\<rparr>), w)))"

definition BUF_MEM_grow :: "buf_mem \<Rightarrow> nat \<Rightarrow> world \<Rightarrow> (nat \<times> buf_mem) \<times> world" where
  "BUF_MEM_grow buf len w =
     (case BUF_MEM_reserve buf len w of
        ((False, buf), w) \<Rightarrow> ((0, buf), w)
      | ((True, buf), w) \<Rightarrow>
          let buf = (if bm_length buf < len
                     then buf\<lparr>bm_data := Some (blit (the (bm_data buf)) (bm_length buf) (replicate (len - bm_length buf) 0))\<rparr>
                     else buf)
          in ((len, buf\<lparr>bm_length := len\<rparr>), w))"

definition BUF_MEM_grow_clean :: "buf_mem \<Rightarrow> nat \<Rightarrow> world \<Rightarrow> (nat \<times> buf_mem) \<times> world" where
  "BUF_MEM_grow_clean = BUF_MEM_grow"

definition BUF_MEM_append :: "buf_mem \<Rightarrow> bytes \<Rightarrow> world \<Rightarrow> (bool \<times> buf_mem) \<times> world" where
  "BUF_MEM_append buf inp w =
     (let len = length inp; new_len = sz (bm_length buf + len) in
      if new_len < len then ((False, buf), OPENSSL_PUT_ERROR ERR_R_OVERFLOW w)
      else
        (case BUF_MEM_reserve buf new_len w of
           ((False, buf), w) \<Rightarrow> ((False, buf), w)
         | ((True, buf), w) \<Rightarrow>
             let buf = (if inp = [] then buf else buf\<lparr>bm_data := Some (blit (the (bm_data buf)) (bm_length buf) inp)\<rparr>)
             in ((True, buf\<lparr>bm_length := new_len\<rparr>), w)))"

section \<open>Strings\<close>

text \<open>A C string is the list of its bytes in memory; reading past the end is \<open>None\<close>.\<close>

fun BUF_strnlen :: "bytes \<Rightarrow> nat \<Rightarrow> nat option" where
  "BUF_strnlen str 0 = Some 0"
| "BUF_strnlen [] (Suc n) = None"
| "BUF_strnlen (c # cs) (Suc n) = (if c = 0 then Some 0 else map_option Suc (BUF_strnlen cs n))"

definition BUF_strndup :: "bytes option \<Rightarrow> nat \<Rightarrow> bytes option bio_op" where
  "BUF_strndup str n w =
     (case str of
        None \<Rightarrow> Some (None, w)
      | Some s \<Rightarrow>
          Option.bind (BUF_strnlen s n) (\<lambda>len.
            let alloc_size = sz (len + 1) in
            if alloc_size < len then Some (None, OPENSSL_PUT_ERROR ERR_R_MALLOC_FAILURE w)
            else
              (case w_malloc alloc_size w of
                 (None, w) \<Rightarrow> Some (None, OPENSSL_PUT_ERROR ERR_R_MALLOC_FAILURE w)
               | (Some ret, w) \<Rightarrow> Some (Some ((blit ret 0 (take len s))[len := 0]), w))))"

text \<open>The loop of \<open>BUF_strlcpy\<close>: how many bytes it copies, for a destination of \<open>n\<close> bytes.\<close>

fun strlcpy_loop :: "bytes \<Rightarrow> nat \<Rightarrow> nat option" where
  "strlcpy_loop src 0 = Some 0"
| "strlcpy_loop src (Suc 0) = Some 0"
| "strlcpy_loop [] (Suc (Suc n)) = None"
| "strlcpy_loop (c # cs) (Suc (Suc n)) = (if c = 0 then Some 0 else map_option Suc (strlcpy_loop cs (Suc n)))"

fun strlen :: "bytes \<Rightarrow> nat option" where
  "strlen [] = None"
| "strlen (c # cs) = (if c = 0 then Some 0 else map_option Suc (strlen cs))"

text \<open>The destination holds at least \<open>dst_size\<close> bytes; the result is the return value and it.\<close>

definition BUF_strlcpy :: "bytes \<Rightarrow> bytes \<Rightarrow> nat \<Rightarrow> (nat \<times> bytes) option" where
  "BUF_strlcpy dst src dst_size =
     Option.bind (strlcpy_loop src dst_size) (\<lambda>l.
     Option.bind (strlen (drop l src)) (\<lambda>n.
       Some (sz (l + n), if dst_size \<noteq> 0 then blit dst 0 (take l src @ [0]) else dst)))"

definition BUF_strlcat :: "bytes \<Rightarrow> bytes \<Rightarrow> nat \<Rightarrow> (nat \<times> bytes) option" where
  "BUF_strlcat dst src dst_size =
     Option.bind (BUF_strnlen dst dst_size) (\<lambda>l.
     Option.bind (BUF_strlcpy (drop l dst) src (dst_size - l)) (\<lambda>(n, d).
       Some (sz (l + n), take l dst @ d)))"

definition BUF_memdup :: "bytes \<Rightarrow> world \<Rightarrow> bytes option \<times> world" where
  "BUF_memdup data w =
     (if data = [] then (None, w)
      else
        (case w_malloc (length data) w of
           (None, w) \<Rightarrow> (None, OPENSSL_PUT_ERROR ERR_R_MALLOC_FAILURE w)
         | (Some ret, w) \<Rightarrow> (Some (blit ret 0 data), w)))"

section \<open>The memory BIO\<close>

definition mem_new :: "nat \<Rightarrow> bool bio_op" where
  "mem_new bio w =
     (case BUF_MEM_new w of
        (None, w) \<Rightarrow> Some (False, w)
      | (Some b, w) \<Rightarrow>
          Some (True, upd_bio bio (\<lambda>s. s\<lparr>bio_shut := 1, bio_init := True, bio_num := - 1, bio_mem := Some b\<rparr>) w))"

definition mem_free :: "nat \<Rightarrow> bool bio_op" where
  "mem_free bio w =
     (case w_bios w bio of
        None \<Rightarrow> None
      | Some s \<Rightarrow>
          if bio_shut s = 0 \<or> \<not> bio_init s \<or> bio_mem s = None then Some (True, w)
          else Some (True, upd_bio bio (\<lambda>s. s\<lparr>bio_mem := None\<rparr>) w))"

definition mem_read :: "nat \<Rightarrow> int \<Rightarrow> (int \<times> bytes) bio_op" where
  "mem_read bio outl w =
     (case mem_at bio w of
        None \<Rightarrow> None
      | Some b \<Rightarrow>
          let w = upd_bio bio BIO_clear_retry_flags w;
              ret = (if bm_length b < INT_MAX \<and> int (bm_length b) < outl then int (bm_length b) else outl) in
          if 0 < ret
          then
            let k = nat ret;
                out = take k (drop (bm_pos b) (the (bm_data b)));
                b = b\<lparr>bm_length := bm_length b - k\<rparr>;
                b = (if BIO_test_flags (the (w_bios w bio)) BIO_FLAGS_MEM_RDONLY \<noteq> 0
                     then b\<lparr>bm_pos := bm_pos b + k\<rparr>
                     else b\<lparr>bm_data := Some (memmove (the (bm_data b)) (bm_pos b) (bm_pos b + k) (bm_length b))\<rparr>)
            in Some ((ret, out), upd_mem bio (\<lambda>_. b) w)
          else if bm_length b = 0
          then
            let ret = bio_num (the (w_bios w bio))
            in Some ((ret, []), if ret \<noteq> 0 then upd_bio bio BIO_set_retry_read w else w)
          else Some ((ret, []), w))"

text \<open>\<open>inp\<close> is what the caller's pointer points to, at least \<open>inl\<close> bytes.\<close>

definition mem_write :: "nat \<Rightarrow> bytes \<Rightarrow> int \<Rightarrow> int bio_op" where
  "mem_write bio inp inl w =
     (case w_bios w bio of
        None \<Rightarrow> None
      | Some s \<Rightarrow>
          (case bio_mem s of
             None \<Rightarrow> None
           | Some b \<Rightarrow>
               if BIO_test_flags s BIO_FLAGS_MEM_RDONLY \<noteq> 0
               then Some (- 1, OPENSSL_PUT_ERROR BIO_R_WRITE_TO_READ_ONLY_BIO w)
               else
                 let w = upd_bio bio BIO_clear_retry_flags w;
                     blen = int_of_size (bm_length b) in
                 if sint (word_of_int (int INT_MAX - blen) :: u32) < inl then Some (- 1, w)
                 else
                   (case BUF_MEM_grow_clean b (size_of_int (sint (word_of_int (blen + inl) :: u32))) w of
                      ((n, b), w) \<Rightarrow>
                        if n \<noteq> size_of_int (blen + inl) then Some (- 1, upd_mem bio (\<lambda>_. b) w)
                        else if length inp < nat inl then None
                        else
                          let b = b\<lparr>bm_data := Some (blit (the (bm_data b)) (size_of_int blen) (take (nat inl) inp))\<rparr>
                          in Some (inl, upd_mem bio (\<lambda>_. b) w))))"

text \<open>The scan for the first newline among the next \<open>j\<close> bytes.\<close>

fun gets_scan :: "bytes \<Rightarrow> nat \<Rightarrow> nat" where
  "gets_scan p 0 = 0"
| "gets_scan [] (Suc j) = 0"
| "gets_scan (c # cs) (Suc j) = (if c = 10 then 1 else Suc (gets_scan cs j))"

definition mem_gets :: "nat \<Rightarrow> int \<Rightarrow> (int \<times> bytes) bio_op" where
  "mem_gets bio size0 w =
     (case mem_at bio w of
        None \<Rightarrow> None
      | Some b \<Rightarrow>
          let w = upd_bio bio BIO_clear_retry_flags w;
              j = int_of_size (bm_length b);
              j = (if size0 - 1 < j then size0 - 1 else j) in
          if j \<le> 0 then Some ((0, if 0 < size0 then [0] else []), w)
          else
            Option.bind (mem_read bio (int (gets_scan (drop (bm_pos b) (the (bm_data b))) (nat j))) w)
              (\<lambda>((i, out), w). Some ((i, if 0 < i then out @ [0] else out), w)))"

text \<open>The result is the return value and what is written at \<open>*ptr\<close>: the address of the bytes
  (\<open>BIO_CTRL_INFO\<close>), given here as the bytes from there on.\<close>

definition mem_ctrl :: "nat \<Rightarrow> bio_cmd \<Rightarrow> int \<Rightarrow> bio_arg \<Rightarrow> (int \<times> bytes option) bio_op" where
  "mem_ctrl bio cmd n ptr w =
     (case w_bios w bio of
        None \<Rightarrow> None
      | Some s \<Rightarrow>
          (case bio_mem s of
             None \<Rightarrow> None
           | Some b \<Rightarrow>
               let answer = (\<lambda>r. Some ((r, None), w)); int_n = sint (word_of_int n :: u32) in
               (case cmd of
                  BIO_CTRL_RESET \<Rightarrow>
                    if bm_data b = None then answer 1
                    else if BIO_test_flags s BIO_FLAGS_MEM_RDONLY \<noteq> 0
                    then Some ((1, None), upd_mem bio (\<lambda>b. b\<lparr>bm_pos := bm_pos b - (bm_max b - bm_length b), bm_length := bm_max b\<rparr>) w)
                    else Some ((1, None), upd_mem bio (\<lambda>b. b\<lparr>bm_data := Some (blit (the (bm_data b)) 0 (replicate (bm_max b) 0)), bm_length := 0\<rparr>) w)
                | BIO_CTRL_EOF \<Rightarrow> answer (of_bool (bm_length b = 0))
                | BIO_C_SET_BUF_MEM_EOF_RETURN \<Rightarrow> Some ((1, None), upd_bio bio (\<lambda>s. s\<lparr>bio_num := int_n\<rparr>) w)
                | BIO_CTRL_INFO \<Rightarrow>
                    Some ((long_of_size (bm_length b),
                           if ptr = ArgNull then None else map_option (drop (bm_pos b)) (bm_data b)), w)
                | BIO_C_SET_BUF_MEM \<Rightarrow>
                    Option.bind (mem_free bio w) (\<lambda>(_, w).
                      Some ((1, None), upd_bio bio (\<lambda>s. s\<lparr>bio_shut := int_n,
                        bio_mem := (case ptr of ArgMem b \<Rightarrow> Some b | _ \<Rightarrow> None)\<rparr>) w))
                | BIO_C_GET_BUF_MEM_PTR \<Rightarrow> answer 1
                | BIO_CTRL_GET_CLOSE \<Rightarrow> answer (bio_shut s)
                | BIO_CTRL_SET_CLOSE \<Rightarrow> Some ((1, None), upd_bio bio (\<lambda>s. s\<lparr>bio_shut := int_n\<rparr>) w)
                | BIO_CTRL_WPENDING \<Rightarrow> answer 0
                | BIO_CTRL_PENDING \<Rightarrow> answer (long_of_size (bm_length b))
                | BIO_CTRL_FLUSH \<Rightarrow> answer 1
                | _ \<Rightarrow> answer 0)))"

end
