(* ===== verification/Bio.thy ===== *)
theory Bio
  imports Bio_Mem Cbs
begin

text \<open>
  The generic layer of \<^verbatim>\<open>BoringSSL/crypto/bio/bio.c\<close>: creation and release of BIOs, the calls
  that dispatch on the method table, chains, and the reading of one ASN.1 element.  The two method
  tables of the world are the BIO pair and the memory BIO.
\<close>

section \<open>Creation and release\<close>

definition bio_zero :: bio_st where
  "bio_zero = \<lparr>bio_meth = None, bio_init = False, bio_shut = 0, bio_flags = 0, bio_retry_reason = 0,
     bio_num = 0, bio_refs = 0, bio_pair = None, bio_mem = None, bio_next = None,
     bio_num_read = 0, bio_num_write = 0\<rparr>"

definition method_create :: "bio_method \<Rightarrow> nat \<Rightarrow> bool bio_op" where
  "method_create m = (case m of BIO_S_BIO \<Rightarrow> bio_new | BIO_S_MEM \<Rightarrow> mem_new)"

definition method_destroy :: "bio_method \<Rightarrow> nat \<Rightarrow> bool bio_op" where
  "method_destroy m = (case m of BIO_S_BIO \<Rightarrow> bio_free | BIO_S_MEM \<Rightarrow> mem_free)"

text \<open>A new BIO lives at the number of the allocation that made it.\<close>

definition BIO_new :: "bio_method \<Rightarrow> nat option bio_op" where
  "BIO_new m w =
     (case w_malloc 96 w of
        (None, w) \<Rightarrow> Some (None, OPENSSL_PUT_ERROR ERR_R_MALLOC_FAILURE w)
      | (Some _, w') \<Rightarrow>
          let ret = w_calls w;
              s = bio_zero\<lparr>bio_meth := Some m, bio_shut := 1, bio_refs := 1\<rparr>;
              w = w'\<lparr>w_bios := (w_bios w')(ret := Some s)\<rparr>
          in Option.bind (method_create m ret w) (\<lambda>(ok, w).
               if ok then Some (Some ret, w)
               else Some (None, w\<lparr>w_bios := (w_bios w)(ret := None)\<rparr>)))"

partial_function (option) BIO_free :: "nat option \<Rightarrow> world \<Rightarrow> (bool \<times> world) option" where
  "BIO_free bio w =
     (case bio of
        None \<Rightarrow> Some (True, w)
      | Some a \<Rightarrow>
          Option.bind (w_bios w a) (\<lambda>s.
          Option.bind (CRYPTO_refcount_dec_and_test_zero (bio_refs s)) (\<lambda>(c, zero).
            let w = upd_bio a (\<lambda>s. s\<lparr>bio_refs := c\<rparr>) w in
            if \<not> zero then Some (False, w)
            else
              let next_bio = bio_next s;
                  w = upd_bio a (\<lambda>s. s\<lparr>bio_next := None\<rparr>) w in
              Option.bind (case bio_meth s of None \<Rightarrow> Some (True, w) | Some m \<Rightarrow> method_destroy m a w) (\<lambda>(_, w).
                BIO_free next_bio (w\<lparr>w_bios := (w_bios w)(a := None)\<rparr>)))))"

declare BIO_free.simps [code]

definition BIO_up_ref :: "nat \<Rightarrow> bool bio_op" where
  "BIO_up_ref bio w =
     (case w_bios w bio of
        None \<Rightarrow> None
      | Some _ \<Rightarrow> Some (True, upd_bio bio (\<lambda>s. s\<lparr>bio_refs := CRYPTO_refcount_inc (bio_refs s)\<rparr>) w))"

section \<open>Reading, writing and control\<close>

definition unsupported :: "'a \<Rightarrow> 'a bio_op" where
  "unsupported r w = Some (r, OPENSSL_PUT_ERROR BIO_R_UNSUPPORTED_METHOD w)"

definition method_read :: "bio_method \<Rightarrow> nat \<Rightarrow> bool \<Rightarrow> int \<Rightarrow> (int \<times> bytes) bio_op" where
  "method_read m a buf_null len =
     (case m of BIO_S_BIO \<Rightarrow> bio_read a buf_null len
              | BIO_S_MEM \<Rightarrow> if buf_null then (\<lambda>w. None) else mem_read a len)"

definition method_write :: "bio_method \<Rightarrow> nat \<Rightarrow> bytes option \<Rightarrow> int \<Rightarrow> int bio_op" where
  "method_write m a inp inl =
     (case m of BIO_S_BIO \<Rightarrow> bio_write a inp inl
              | BIO_S_MEM \<Rightarrow> (case inp of None \<Rightarrow> (\<lambda>w. None) | Some d \<Rightarrow> mem_write a d inl))"

definition BIO_read :: "nat option \<Rightarrow> bool \<Rightarrow> int \<Rightarrow> (int \<times> bytes) bio_op" where
  "BIO_read bio buf_null len w =
     (case bio of
        None \<Rightarrow> unsupported (- 2, []) w
      | Some a \<Rightarrow>
          (case w_bios w a of
             None \<Rightarrow> None
           | Some s \<Rightarrow>
               (case bio_meth s of
                  None \<Rightarrow> unsupported (- 2, []) w
                | Some m \<Rightarrow>
                    if \<not> bio_init s then Some ((- 2, []), OPENSSL_PUT_ERROR BIO_R_UNINITIALIZED w)
                    else if len \<le> 0 then Some ((0, []), w)
                    else
                      Option.bind (method_read m a buf_null len w) (\<lambda>((ret, out), w).
                        Some ((ret, out),
                          if 0 < ret then upd_bio a (\<lambda>s. s\<lparr>bio_num_read := sz (bio_num_read s + nat ret)\<rparr>) w
                          else w)))))"

definition BIO_gets :: "nat option \<Rightarrow> int \<Rightarrow> (int \<times> bytes) bio_op" where
  "BIO_gets bio len w =
     (case bio of
        None \<Rightarrow> unsupported (- 2, []) w
      | Some a \<Rightarrow>
          (case w_bios w a of
             None \<Rightarrow> None
           | Some s \<Rightarrow>
               if bio_meth s \<noteq> Some BIO_S_MEM then unsupported (- 2, []) w
               else if \<not> bio_init s then Some ((- 2, []), OPENSSL_PUT_ERROR BIO_R_UNINITIALIZED w)
               else if len \<le> 0 then Some ((0, []), w)
               else
                 Option.bind (mem_gets a len w) (\<lambda>((ret, out), w).
                   Some ((ret, out),
                     if 0 < ret then upd_bio a (\<lambda>s. s\<lparr>bio_num_read := sz (bio_num_read s + nat ret)\<rparr>) w
                     else w))))"

definition BIO_write :: "nat option \<Rightarrow> bytes option \<Rightarrow> int \<Rightarrow> int bio_op" where
  "BIO_write bio inp inl w =
     (case bio of
        None \<Rightarrow> unsupported (- 2) w
      | Some a \<Rightarrow>
          (case w_bios w a of
             None \<Rightarrow> None
           | Some s \<Rightarrow>
               (case bio_meth s of
                  None \<Rightarrow> unsupported (- 2) w
                | Some m \<Rightarrow>
                    if \<not> bio_init s then Some (- 2, OPENSSL_PUT_ERROR BIO_R_UNINITIALIZED w)
                    else if inl \<le> 0 then Some (0, w)
                    else
                      Option.bind (method_write m a inp inl w) (\<lambda>(ret, w).
                        Some (ret,
                          if 0 < ret then upd_bio a (\<lambda>s. s\<lparr>bio_num_write := sz (bio_num_write s + nat ret)\<rparr>) w
                          else w)))))"

text \<open>\<open>BIO_puts\<close>, with the string as the bytes in memory from its start.\<close>

definition BIO_puts :: "nat option \<Rightarrow> bytes \<Rightarrow> int bio_op" where
  "BIO_puts bio inp w =
     Option.bind (strlen inp) (\<lambda>n. BIO_write bio (Some (take n inp)) (int_of_size n) w)"

definition BIO_ctrl_out :: "nat option \<Rightarrow> bio_cmd \<Rightarrow> int \<Rightarrow> bio_arg \<Rightarrow> (int \<times> bytes option) bio_op" where
  "BIO_ctrl_out bio cmd larg parg w =
     (case bio of
        None \<Rightarrow> Some ((0, None), w)
      | Some a \<Rightarrow>
          (case w_bios w a of
             None \<Rightarrow> None
           | Some s \<Rightarrow>
               (case bio_meth s of
                  None \<Rightarrow> unsupported (- 2, None) w
                | Some BIO_S_BIO \<Rightarrow> map_option (apfst (\<lambda>r. (r, None))) (bio_ctrl a cmd larg parg w)
                | Some BIO_S_MEM \<Rightarrow> mem_ctrl a cmd larg parg w)))"

definition BIO_ctrl :: "nat option \<Rightarrow> bio_cmd \<Rightarrow> int \<Rightarrow> bio_arg \<Rightarrow> int bio_op" where
  "BIO_ctrl bio cmd larg parg w = map_option (apfst fst) (BIO_ctrl_out bio cmd larg parg w)"

definition BIO_reset :: "nat option \<Rightarrow> int bio_op" where
  "BIO_reset bio = BIO_ctrl bio BIO_CTRL_RESET 0 ArgNull"

definition BIO_eof :: "nat option \<Rightarrow> int bio_op" where
  "BIO_eof bio = BIO_ctrl bio BIO_CTRL_EOF 0 ArgNull"

definition BIO_flush :: "nat option \<Rightarrow> int bio_op" where
  "BIO_flush bio = BIO_ctrl bio BIO_CTRL_FLUSH 0 ArgNull"

definition BIO_pending :: "nat option \<Rightarrow> nat bio_op" where
  "BIO_pending bio w = Option.bind (BIO_ctrl bio BIO_CTRL_PENDING 0 ArgNull w)
     (\<lambda>(r, w). if r < 0 then None else Some (nat r, w))"

definition BIO_ctrl_pending :: "nat option \<Rightarrow> nat bio_op" where
  "BIO_ctrl_pending bio = BIO_pending bio"

definition BIO_wpending :: "nat option \<Rightarrow> nat bio_op" where
  "BIO_wpending bio w = Option.bind (BIO_ctrl bio BIO_CTRL_WPENDING 0 ArgNull w)
     (\<lambda>(r, w). if r < 0 then None else Some (nat r, w))"

definition BIO_set_close :: "nat option \<Rightarrow> int \<Rightarrow> int bio_op" where
  "BIO_set_close bio close_flag = BIO_ctrl bio BIO_CTRL_SET_CLOSE close_flag ArgNull"

definition BIO_number_read :: "bio_st \<Rightarrow> nat" where "BIO_number_read bio = bio_num_read bio"
definition BIO_number_written :: "bio_st \<Rightarrow> nat" where "BIO_number_written bio = bio_num_write bio"

text \<open>The wrappers of \<^verbatim>\<open>pair.c\<close> and \<^verbatim>\<open>bio_mem.c\<close>.\<close>

definition BIO_ctrl_get_read_request :: "nat option \<Rightarrow> nat bio_op" where
  "BIO_ctrl_get_read_request bio w =
     map_option (apfst size_of_int) (BIO_ctrl bio BIO_C_GET_READ_REQUEST 0 ArgNull w)"

definition BIO_ctrl_get_write_guarantee :: "nat option \<Rightarrow> nat bio_op" where
  "BIO_ctrl_get_write_guarantee bio w =
     map_option (apfst size_of_int) (BIO_ctrl bio BIO_C_GET_WRITE_GUARANTEE 0 ArgNull w)"

definition BIO_shutdown_wr :: "nat option \<Rightarrow> int bio_op" where
  "BIO_shutdown_wr bio = BIO_ctrl bio BIO_C_SHUTDOWN_WR 0 ArgNull"

definition BIO_new_bio_pair :: "nat \<Rightarrow> nat \<Rightarrow> (nat \<times> nat) option bio_op" where
  "BIO_new_bio_pair writebuf1_len writebuf2_len w =
     Option.bind (BIO_new BIO_S_BIO w) (\<lambda>(bio1, w).
     Option.bind (BIO_new BIO_S_BIO w) (\<lambda>(bio2, w).
     Option.bind (case (bio1, bio2) of
                    (Some b1, Some b2) \<Rightarrow> bio_make_pair b1 b2 writebuf1_len writebuf2_len w
                  | _ \<Rightarrow> Some (False, w)) (\<lambda>(ok, w).
       if ok then Some (Some (the bio1, the bio2), w)
       else
         Option.bind (BIO_free bio1 w) (\<lambda>(_, w).
         Option.bind (BIO_free bio2 w) (\<lambda>(_, w). Some (None, w))))))"

text \<open>\<open>buf\<close> is what the pointer points to (\<open>None\<close> for NULL), \<open>len\<close> the argument.\<close>

definition BIO_new_mem_buf :: "bytes option \<Rightarrow> int \<Rightarrow> nat option bio_op" where
  "BIO_new_mem_buf buf len w =
     Option.bind (if len < 0 then Option.bind buf strlen else Some (size_of_int len)) (\<lambda>n.
       if buf = None \<and> len \<noteq> 0 then Some (None, OPENSSL_PUT_ERROR BIO_R_NULL_PARAMETER w)
       else
         Option.bind (BIO_new BIO_S_MEM w) (\<lambda>(ret, w).
           case ret of
             None \<Rightarrow> Some (None, w)
           | Some a \<Rightarrow>
               let w = upd_mem a (\<lambda>b. b\<lparr>bm_data := buf, bm_length := n, bm_max := n\<rparr>) w;
                   w = upd_bio a (\<lambda>s. s\<lparr>bio_flags := bio_flags s OR BIO_FLAGS_MEM_RDONLY\<rparr>) w;
                   w = upd_bio a (\<lambda>s. s\<lparr>bio_num := 0\<rparr>) w
               in Some (Some a, w)))"

definition BIO_mem_contents :: "nat \<Rightarrow> world \<Rightarrow> (bytes option \<times> nat) option" where
  "BIO_mem_contents bio w =
     Option.bind (w_bios w bio) (\<lambda>s.
       if bio_meth s \<noteq> Some BIO_S_MEM then None
       else Option.bind (bio_mem s) (\<lambda>b. Some (map_option (drop (bm_pos b)) (bm_data b), bm_length b)))"

definition BIO_get_mem_data :: "nat option \<Rightarrow> (int \<times> bytes option) bio_op" where
  "BIO_get_mem_data bio = BIO_ctrl_out bio BIO_CTRL_INFO 0 ArgOut"

definition BIO_set_mem_buf :: "nat option \<Rightarrow> buf_mem \<Rightarrow> int \<Rightarrow> int bio_op" where
  "BIO_set_mem_buf bio b take_ownership = BIO_ctrl bio BIO_C_SET_BUF_MEM take_ownership (ArgMem b)"

definition BIO_set_mem_eof_return :: "nat option \<Rightarrow> int \<Rightarrow> int bio_op" where
  "BIO_set_mem_eof_return bio eof_value = BIO_ctrl bio BIO_C_SET_BUF_MEM_EOF_RETURN eof_value ArgNull"

section \<open>Chains\<close>

partial_function (option) last_bio :: "nat \<Rightarrow> world \<Rightarrow> nat option" where
  "last_bio a w = Option.bind (w_bios w a) (\<lambda>s. case bio_next s of None \<Rightarrow> Some a | Some b \<Rightarrow> last_bio b w)"

declare last_bio.simps [code]

definition BIO_push :: "nat option \<Rightarrow> nat option \<Rightarrow> nat option bio_op" where
  "BIO_push bio appended_bio w =
     (case bio of
        None \<Rightarrow> Some (bio, w)
      | Some a \<Rightarrow>
          Option.bind (last_bio a w) (\<lambda>l. Some (bio, upd_bio l (\<lambda>s. s\<lparr>bio_next := appended_bio\<rparr>) w)))"

definition BIO_pop :: "nat option \<Rightarrow> nat option bio_op" where
  "BIO_pop bio w =
     (case bio of
        None \<Rightarrow> Some (None, w)
      | Some a \<Rightarrow>
          Option.bind (w_bios w a) (\<lambda>s. Some (bio_next s, upd_bio a (\<lambda>s. s\<lparr>bio_next := None\<rparr>) w)))"

definition BIO_next :: "nat option \<Rightarrow> nat option bio_op" where
  "BIO_next bio w =
     (case bio of None \<Rightarrow> Some (None, w) | Some a \<Rightarrow> Option.bind (w_bios w a) (\<lambda>s. Some (bio_next s, w)))"

definition BIO_TYPE_DESCRIPTOR :: u32 where "BIO_TYPE_DESCRIPTOR = 0x0100"
definition BIO_TYPE_FILTER :: u32 where "BIO_TYPE_FILTER = 0x0200"
definition BIO_TYPE_SOURCE_SINK :: u32 where "BIO_TYPE_SOURCE_SINK = 0x0400"

definition method_type :: "bio_method \<Rightarrow> u32" where
  "method_type m = (case m of BIO_S_BIO \<Rightarrow> 19 OR BIO_TYPE_SOURCE_SINK | BIO_S_MEM \<Rightarrow> 1 OR BIO_TYPE_SOURCE_SINK)"

definition BIO_method_type :: "bio_st \<Rightarrow> u32 option" where
  "BIO_method_type bio = map_option method_type (bio_meth bio)"

partial_function (option) BIO_find_type :: "nat option \<Rightarrow> u32 \<Rightarrow> world \<Rightarrow> nat option option" where
  "BIO_find_type bio typ w =
     (case bio of
        None \<Rightarrow> Some None
      | Some a \<Rightarrow>
          Option.bind (w_bios w a) (\<lambda>s.
            let found = (case bio_meth s of
                           None \<Rightarrow> False
                         | Some m \<Rightarrow> if typ AND 0xff = 0 then method_type m AND typ \<noteq> 0 else method_type m = typ)
            in if found then Some (Some a) else BIO_find_type (bio_next s) typ w))"

declare BIO_find_type.simps [code]

definition BIO_copy_next_retry :: "nat \<Rightarrow> unit bio_op" where
  "BIO_copy_next_retry bio w =
     Option.bind (w_bios w bio) (\<lambda>s.
     Option.bind (bio_next s) (\<lambda>b.
       let w = upd_bio bio BIO_clear_retry_flags w in
       Option.bind (w_bios w b) (\<lambda>nxt.
         let w = upd_bio bio (BIO_set_flags (BIO_get_retry_flags nxt)) w in
         Some ((), upd_bio bio (\<lambda>s. s\<lparr>bio_retry_reason := bio_retry_reason nxt\<rparr>) w))))"

fun indent_loop :: "nat option \<Rightarrow> nat \<Rightarrow> bool bio_op" where
  "indent_loop bio 0 w = Some (True, w)"
| "indent_loop bio (Suc n) w =
     Option.bind (BIO_puts bio [32, 0] w) (\<lambda>(r, w). if r \<noteq> 1 then Some (False, w) else indent_loop bio n w)"

definition BIO_indent :: "nat option \<Rightarrow> nat \<Rightarrow> nat \<Rightarrow> bool bio_op" where
  "BIO_indent bio indent max_indent = indent_loop bio (if max_indent < indent then max_indent else indent)"

section \<open>Reading an element\<close>

text \<open>
  The loop of \<open>bio_read_all\<close>: the block \<open>out\<close> points to, its size \<open>len\<close> in the code's variable, and
  how much of it is \<open>dn\<close> (\<open>done\<close>).  A \<open>dn\<close> beyond the block makes the code write outside it.
\<close>

partial_function (option) read_all_loop :: "nat \<Rightarrow> nat option \<Rightarrow> bytes \<Rightarrow> nat \<Rightarrow> nat \<Rightarrow> world \<Rightarrow> (bytes option \<times> world) option" where
  "read_all_loop max_len bio blk len dn w =
     (if dn = len then Some (None, w)
      else if len < dn then None
      else
        let todo = len - dn in
        if INT_MAX \<le> todo then None
        else
          Option.bind (BIO_read bio False (int todo) w) (\<lambda>((n, bs), w).
            if n = 0 then Some (Some (take dn blk), w)
            else if n = - 1 then Some (None, w)
            else
              let blk = blit blk dn bs; dn = sz (dn + size_of_int n) in
              if len < max_len \<and> sz (len + SIZE_LIMIT - dn) < 4096 div 2
              then
                let len = sz (len + 4096);
                    len = (if len < 4096 \<or> max_len < len then max_len else len) in
                (case w_realloc (Some blk) len w of
                   (None, w) \<Rightarrow> Some (None, w)
                 | (Some blk, w) \<Rightarrow> read_all_loop max_len bio blk len dn w)
              else read_all_loop max_len bio blk len dn w))"

declare read_all_loop.simps [code]

definition bio_read_all :: "nat option \<Rightarrow> bytes \<Rightarrow> nat \<Rightarrow> bytes option bio_op" where
  "bio_read_all bio prfx max_len w =
     (let len = sz (length prfx + 4096);
          len = (if max_len < len then max_len else len) in
      if len < length prfx then Some (None, w)
      else
        (case w_malloc len w of
           (None, w) \<Rightarrow> Some (None, w)
         | (Some blk, w) \<Rightarrow> read_all_loop max_len bio (blit blk 0 prfx) len (length prfx) w))"

text \<open>The end of \<open>BIO_read_asn1\<close>, once the length of the contents is known.\<close>

definition read_asn1_body :: "nat option \<Rightarrow> nat \<Rightarrow> bytes \<Rightarrow> nat \<Rightarrow> bytes option bio_op" where
  "read_asn1_body bio max_len header len w =
     (let header_len = length header in
      if sz (len + header_len) < len \<or> max_len < sz (len + header_len) \<or> INT_MAX < len
      then Some (None, w)
      else
        let len = sz (len + header_len) in
        (case w_malloc len w of
           (None, w) \<Rightarrow> Some (None, w)
         | (Some blk, w) \<Rightarrow>
             Option.bind (BIO_read bio False (int_of_size (len - header_len)) w) (\<lambda>((n, bs), w).
               if n \<noteq> int_of_size (len - header_len) then Some (None, w)
               else Some (Some (blit (blit blk 0 header) header_len bs), w))))"

definition BIO_read_asn1 :: "nat option \<Rightarrow> nat \<Rightarrow> bytes option bio_op" where
  "BIO_read_asn1 bio max_len w =
     Option.bind (BIO_read bio False 2 w) (\<lambda>((n, header), w).
       if n \<noteq> 2 then Some (None, w)
       else
         let tag = header ! 0; length_byte = header ! 1 in
         if tag AND 0x1f = 0x1f then Some (None, w)
         else if length_byte AND 0x80 = 0 then read_asn1_body bio max_len header (unat length_byte) w
         else
           let num_bytes = unat (length_byte AND 0x7f) in
           if tag AND 0x20 \<noteq> 0 \<and> num_bytes = 0 then bio_read_all bio header max_len w
           else if num_bytes = 0 \<or> 4 < num_bytes then Some (None, w)
           else
             Option.bind (BIO_read bio False (int num_bytes) w) (\<lambda>((n, bs), w).
               if n \<noteq> int num_bytes then Some (None, w)
               else
                 let len32 = foldl (\<lambda>v b. push_bit 8 v OR ucast b) (0 :: u32) bs in
                 if len32 < 128 then Some (None, w)
                 else if drop_bit ((num_bytes - 1) * 8) len32 = 0 then Some (None, w)
                 else read_asn1_body bio max_len (header @ bs) (unat len32) w))"

end
