(* ===== verification/Channel.thy ===== *)
theory Channel
  imports Prelude
begin

text \<open>
  A client of a byte channel: a sender that writes a message in pieces, retrying when the channel
  is full, and then shuts it down, and a receiver that reads until the end of the stream, under any
  schedule.  The locale \<open>byte_channel\<close> is what the client relies on; a direction of a BIO pair is one.
\<close>

section \<open>The client\<close>

datatype action = Send nat | Recv nat

record 'w transfer =
  todo :: bytes
  got :: bytes
  ended :: bool
  net :: 'w

text \<open>One turn of the sender or of the receiver; \<open>None\<close> where a call of the channel fails to return.\<close>

fun transfer_step ::
  "(bytes \<Rightarrow> 'w \<Rightarrow> (int \<times> 'w) option) \<Rightarrow> (nat \<Rightarrow> 'w \<Rightarrow> ((int \<times> bytes) \<times> 'w) option) \<Rightarrow>
   ('w \<Rightarrow> (int \<times> 'w) option) \<Rightarrow> action \<Rightarrow> 'w transfer \<Rightarrow> 'w transfer option" where
  "transfer_step send recv shut (Send n) x =
     (if todo x = [] then map_option (\<lambda>(_, w). x\<lparr>net := w\<rparr>) (shut (net x))
      else map_option (\<lambda>(r, w). x\<lparr>todo := drop (nat r) (todo x), net := w\<rparr>) (send (take n (todo x)) (net x)))"
| "transfer_step send recv shut (Recv n) x =
     map_option (\<lambda>((r, out), w). x\<lparr>got := got x @ out, ended := ended x \<or> r = 0, net := w\<rparr>) (recv n (net x))"

fun transfer_run ::
  "(bytes \<Rightarrow> 'w \<Rightarrow> (int \<times> 'w) option) \<Rightarrow> (nat \<Rightarrow> 'w \<Rightarrow> ((int \<times> bytes) \<times> 'w) option) \<Rightarrow>
   ('w \<Rightarrow> (int \<times> 'w) option) \<Rightarrow> (nat \<Rightarrow> action) \<Rightarrow> nat \<Rightarrow> 'w transfer \<Rightarrow> 'w transfer option" where
  "transfer_run send recv shut sched 0 x = Some x"
| "transfer_run send recv shut sched (Suc t) x =
     Option.bind (transfer_run send recv shut sched t x) (transfer_step send recv shut (sched t))"

definition start :: "bytes \<Rightarrow> 'w \<Rightarrow> 'w transfer" where
  "start msg w = \<lparr>todo = msg, got = [], ended = False, net = w\<rparr>"

text \<open>Schedules: both parties keep getting turns, and every turn asks for a positive \<open>int\<close>.\<close>

fun amount :: "action \<Rightarrow> nat" where
  "amount (Send n) = n"
| "amount (Recv n) = n"

fun is_send :: "action \<Rightarrow> bool" where
  "is_send (Send n) = True"
| "is_send (Recv n) = False"

definition fair :: "(nat \<Rightarrow> action) \<Rightarrow> bool" where
  "fair sched \<longleftrightarrow> (\<forall>t. 0 < amount (sched t) \<and> amount (sched t) \<le> INT_MAX) \<and>
     (\<forall>t. \<exists>u\<ge>t. is_send (sched u)) \<and> (\<forall>t. \<exists>u\<ge>t. \<not> is_send (sched u))"

section \<open>Delivery over any channel\<close>

locale byte_channel =
  fixes inv :: "'w \<Rightarrow> bool" and pending :: "'w \<Rightarrow> bytes" and shutdown :: "'w \<Rightarrow> bool"
    and send :: "bytes \<Rightarrow> 'w \<Rightarrow> (int \<times> 'w) option"
    and recv :: "nat \<Rightarrow> 'w \<Rightarrow> ((int \<times> bytes) \<times> 'w) option"
    and shut :: "'w \<Rightarrow> (int \<times> 'w) option"
  assumes send_law: "\<lbrakk>inv w; \<not> shutdown w; data \<noteq> []; length data \<le> INT_MAX\<rbrakk> \<Longrightarrow>
      \<exists>r w'. send data w = Some (r, w') \<and> inv w' \<and> \<not> shutdown w' \<and>
        (0 < r \<and> nat r \<le> length data \<and> pending w' = pending w @ take (nat r) data \<or>
         r \<le> 0 \<and> pending w \<noteq> [] \<and> pending w' = pending w)"
    and recv_law: "\<lbrakk>inv w; 0 < n; n \<le> INT_MAX\<rbrakk> \<Longrightarrow>
      \<exists>r out w'. recv n w = Some ((r, out), w') \<and> inv w' \<and> shutdown w' = shutdown w \<and>
        pending w = out @ pending w' \<and> (out = [] \<longleftrightarrow> pending w = []) \<and>
        (r = 0 \<longleftrightarrow> pending w = [] \<and> shutdown w)"
    and shut_law: "inv w \<Longrightarrow> \<exists>r w'. shut w = Some (r, w') \<and> inv w' \<and> shutdown w' \<and> pending w' = pending w"
begin

definition sound :: "bytes \<Rightarrow> 'w transfer \<Rightarrow> bool" where
  "sound msg x \<longleftrightarrow> inv (net x) \<and> got x @ pending (net x) @ todo x = msg \<and>
     (shutdown (net x) \<longrightarrow> todo x = []) \<and> (ended x \<longrightarrow> shutdown (net x) \<and> pending (net x) = [])"

definition left :: "'w transfer \<Rightarrow> nat" where
  "left x = 2 * length (todo x) + length (pending (net x)) + (if shutdown (net x) then 0 else 1) + (if ended x then 0 else 1)"

definition seen :: "'w transfer \<Rightarrow> bytes \<times> bool" where
  "seen x = (pending (net x), shutdown (net x))"

lemma step_sound:
  assumes x: "sound msg x" and a: "0 < amount a" "amount a \<le> INT_MAX"
  shows "\<exists>y. transfer_step send recv shut a x = Some y \<and> sound msg y \<and> (left y < left x \<or> left y = left x \<and> seen y = seen x) \<and>
    (0 < left x \<longrightarrow> is_send a = (seen x = ([], False)) \<longrightarrow> left y < left x)"
proof (cases a)
  case (Send n)
  show ?thesis
  proof (cases "todo x = []")
    case True
    with shut_law [of "net x"] x Send show ?thesis
      by (auto simp: sound_def left_def seen_def)
  next
    case False
    have "inv (net x)" "\<not> shutdown (net x)" "take n (todo x) \<noteq> []" "length (take n (todo x)) \<le> INT_MAX"
      using x False Send a by (auto simp: sound_def)
    from send_law [OF this] obtain r w' where s: "send (take n (todo x)) (net x) = Some (r, w')" "inv w'" "\<not> shutdown w'"
      and c: "0 < r \<and> nat r \<le> length (take n (todo x)) \<and> pending w' = pending (net x) @ take (nat r) (take n (todo x)) \<or>
         r \<le> 0 \<and> pending (net x) \<noteq> [] \<and> pending w' = pending (net x)" by blast
    from c show ?thesis
    proof
      assume c: "0 < r \<and> nat r \<le> length (take n (todo x)) \<and> pending w' = pending (net x) @ take (nat r) (take n (todo x))"
      then have "take (nat r) (take n (todo x)) = take (nat r) (todo x)" by simp
      with c s have y: "transfer_step send recv shut a x = Some (x\<lparr>todo := drop (nat r) (todo x), net := w'\<rparr>)"
        and p: "pending w' = pending (net x) @ take (nat r) (todo x)" "0 < nat r" "nat r \<le> length (todo x)"
        using False Send by auto
      have "sound msg (x\<lparr>todo := drop (nat r) (todo x), net := w'\<rparr>)" using x s p by (auto simp: sound_def)
      moreover have "left (x\<lparr>todo := drop (nat r) (todo x), net := w'\<rparr>) < left x"
        using x s p by (auto simp: left_def sound_def)
      ultimately show ?thesis using y by blast
    next
      assume c: "r \<le> 0 \<and> pending (net x) \<noteq> [] \<and> pending w' = pending (net x)"
      with s x False Send show ?thesis by (auto simp: sound_def left_def seen_def)
    qed
  qed
next
  case (Recv n)
  have "inv (net x)" "0 < n" "n \<le> INT_MAX" using x Recv a by (auto simp: sound_def)
  from recv_law [OF this] obtain r out w' where r: "recv n (net x) = Some ((r, out), w')" "inv w'"
    "shutdown w' = shutdown (net x)" "pending (net x) = out @ pending w'" "out = [] \<longleftrightarrow> pending (net x) = []"
    "r = 0 \<longleftrightarrow> pending (net x) = [] \<and> shutdown (net x)" by blast
  define y where "y = x\<lparr>got := got x @ out, ended := ended x \<or> r = 0, net := w'\<rparr>"
  have y: "transfer_step send recv shut a x = Some y" using Recv r(1) by (simp add: y_def)
  have f: "todo y = todo x" "got y = got x @ out" "net y = w'" "ended y = (ended x \<or> r = 0)" by (simp_all add: y_def)
  have e: "ended y \<longrightarrow> shutdown w' \<and> pending w' = []"
  proof
    assume "ended y"
    then have "pending (net x) = [] \<and> shutdown (net x)" using x r(6) unfolding f sound_def by blast
    then show "shutdown w' \<and> pending w' = []" using r(3,4) by simp
  qed
  have s: "sound msg y"
    unfolding sound_def
  proof (intro conjI)
    show "got y @ pending (net y) @ todo y = msg" using x r(4) by (simp add: f sound_def)
    show "shutdown (net y) \<longrightarrow> todo y = []" using x r(3) by (simp add: f sound_def)
    show "ended y \<longrightarrow> shutdown (net y) \<and> pending (net y) = []" using e by (simp add: f(3))
    show "inv (net y)" using r(2) by (simp add: f)
  qed
  have len: "length (pending (net x)) = length out + length (pending w')" using r(4) by simp
  show ?thesis
  proof (cases "pending (net x) = []")
    case True
    then have p: "pending w' = []" using r(4) by simp
    show ?thesis
    proof (cases "shutdown (net x)")
      case sd: True
      then have "r = 0" using r(6) True by simp
      have "todo x = []" using x sd by (simp add: sound_def)
      then have l: "left x = (if ended x then 0 else 1)" "left y = 0" "seen y = seen x"
        using True p sd r(3) \<open>r = 0\<close> by (simp_all add: left_def seen_def f)
      then have "left y < left x \<or> left y = left x \<and> seen y = seen x" "0 < left x \<longrightarrow> left y < left x"
        by simp_all
      with y s show ?thesis by (intro exI [of _ y]) simp
    next
      case False
      then have "r \<noteq> 0" using r(6) by simp
      then have "left y = left x \<and> seen y = seen x" "seen x = ([], False)"
        using True p False r(3) by (simp_all add: left_def seen_def f)
      with y s Recv show ?thesis by auto
    qed
  next
    case False
    then have "out \<noteq> []" "r \<noteq> 0" using r(5,6) by auto
    then have "left y < left x" using len r(3) by (cases "ended x") (simp_all add: left_def f)
    with y s show ?thesis by blast
  qed
qed

lemma run_sound:
  assumes "sound msg x" "fair sched"
  shows "\<exists>y. transfer_run send recv shut sched t x = Some y \<and> sound msg y"
proof (induction t)
  case 0
  with assms show ?case by simp
next
  case (Suc t)
  then obtain y where "transfer_run send recv shut sched t x = Some y" "sound msg y" by blast
  moreover have "0 < amount (sched t)" "amount (sched t) \<le> INT_MAX" using assms by (auto simp: fair_def)
  ultimately show ?case using step_sound [of msg y "sched t"] by fastforce
qed

text \<open>From any point on, something more gets done.\<close>

lemma run_progress:
  assumes x: "sound msg x" and f: "fair sched" and t: "transfer_run send recv shut sched t x = Some y" "0 < left y"
  shows "\<exists>u z. transfer_run send recv shut sched u x = Some z \<and> left z < left y"
proof -
  have am: "0 < amount (sched u)" "amount (sched u) \<le> INT_MAX" for u using f by (auto simp: fair_def)
  obtain v where v: "t \<le> v" "is_send (sched v) = (seen y = ([], False))"
  proof -
    have "\<exists>v\<ge>t. is_send (sched v)" "\<exists>v\<ge>t. \<not> is_send (sched v)" using f by (simp_all add: fair_def)
    with that show ?thesis by (cases "seen y = ([], False)") auto
  qed
  have still: "(\<exists>u z. transfer_run send recv shut sched u x = Some z \<and> left z < left y) \<or>
      (\<exists>z. transfer_run send recv shut sched (t + k) x = Some z \<and> left z = left y \<and> seen z = seen y)" for k
  proof (induction k)
    case 0
    with t show ?case by auto
  next
    case (Suc k)
    show ?case
    proof (cases "\<exists>u z. transfer_run send recv shut sched u x = Some z \<and> left z < left y")
      case False
      with Suc obtain z where z: "transfer_run send recv shut sched (t + k) x = Some z" "left z = left y" "seen z = seen y" by blast
      moreover have "sound msg z" using run_sound [OF x f, of "t + k"] z by simp
      from step_sound [OF this am] obtain z' where "transfer_step send recv shut (sched (t + k)) z = Some z'"
        "left z' < left z \<or> left z' = left z \<and> seen z' = seen z" by blast
      ultimately have "transfer_run send recv shut sched (Suc (t + k)) x = Some z'"
        "left z' < left y \<or> left z' = left y \<and> seen z' = seen y" by auto
      then show ?thesis by (metis add_Suc_right)
    qed blast
  qed
  from still [of "v - t"] v(1) show ?thesis
  proof (elim disjE exE)
    fix z assume z: "transfer_run send recv shut sched (t + (v - t)) x = Some z \<and> left z = left y \<and> seen z = seen y"
    with v have zv: "transfer_run send recv shut sched v x = Some z" by simp
    have "sound msg z" using run_sound [OF x f, of v] zv by simp
    from step_sound [OF this am [of v]] obtain z' where "transfer_step send recv shut (sched v) z = Some z'" "left z' < left z"
      using z t v by auto
    then have "transfer_run send recv shut sched (Suc v) x = Some z'" "left z' < left y" using zv z by auto
    then show ?thesis by blast
  qed blast
qed

lemma delivers:
  assumes x: "sound msg x" and f: "fair sched"
  shows "\<exists>t y. transfer_run send recv shut sched t x = Some y \<and> got y = msg \<and> todo y = [] \<and> ended y"
proof -
  have "\<exists>u z. transfer_run send recv shut sched u x = Some z \<and> left z = 0"
    if "transfer_run send recv shut sched t x = Some y" for t y
    using that
  proof (induction "left y" arbitrary: t y rule: less_induct)
    case less
    show ?case
    proof (cases "left y = 0")
      case True
      with less show ?thesis by auto
    next
      case False
      with run_progress [OF x f less.prems] less.hyps show ?thesis by fast
    qed
  qed
  from this [of 0 x] obtain u z where z: "transfer_run send recv shut sched u x = Some z" "left z = 0" by auto
  moreover have "sound msg z" using run_sound [OF x f, of u] z by simp
  ultimately show ?thesis by (intro exI [of _ u] exI [of _ z]) (auto simp: left_def sound_def split: if_splits)
qed

lemma start_sound: "inv w \<Longrightarrow> pending w = [] \<Longrightarrow> \<not> shutdown w \<Longrightarrow> sound msg (start msg w)"
  by (simp add: sound_def start_def)

end

end
