(* ===== verification/Duplex.thy ===== *)
theory Duplex
  imports Bio Channel
begin

text \<open>
  What a connected BIO pair promises: two bounded byte queues, one per direction, with a flag for
  the writer that has shut down and the read request of the reader that found nothing.  The
  operations on the two BIOs refine the operations on the queues; as a \<open>byte_channel\<close> each direction
  delivers what is written to it.
\<close>

section \<open>Specification\<close>

record chan =
  ch_bytes :: bytes
  ch_cap :: nat
  ch_closed :: bool
  ch_request :: nat

text \<open>The result of an operation on a channel: return value, bytes read, retry flags, errors.\<close>

definition chan_write :: "bytes option \<Rightarrow> nat \<Rightarrow> chan \<Rightarrow> (int \<times> u32 \<times> bio_reason list) \<times> chan" where
  "chan_write buf n c =
     (case buf of
        None \<Rightarrow> ((0, 0, []), c)
      | Some data \<Rightarrow>
          let c = c\<lparr>ch_request := 0\<rparr>; room = ch_cap c - length (ch_bytes c); k = min n room in
          if ch_closed c then ((- 1, 0, [BIO_R_BROKEN_PIPE]), c)
          else if room = 0 then ((- 1, BIO_FLAGS_WRITE OR BIO_FLAGS_SHOULD_RETRY, []), c)
          else ((int k, 0, []), c\<lparr>ch_bytes := ch_bytes c @ take k data\<rparr>))"

definition chan_read :: "bool \<Rightarrow> nat \<Rightarrow> chan \<Rightarrow> (int \<times> bytes \<times> u32) \<times> chan" where
  "chan_read null n c =
     (let c = c\<lparr>ch_request := 0\<rparr>; k = min n (length (ch_bytes c)) in
      if null then ((0, [], 0), c)
      else if ch_bytes c = []
      then (if ch_closed c then ((0, [], 0), c)
            else ((- 1, [], BIO_FLAGS_READ OR BIO_FLAGS_SHOULD_RETRY), c\<lparr>ch_request := min n (ch_cap c)\<rparr>))
      else ((int k, take k (ch_bytes c), 0), c\<lparr>ch_bytes := drop k (ch_bytes c)\<rparr>))"

datatype side = S1 | S2

fun other :: "side \<Rightarrow> side" where
  "other S1 = S2"
| "other S2 = S1"

text \<open>The channel each side writes to, its retry flags, and the errors so far.\<close>

record duplex =
  chans :: "side \<Rightarrow> chan"
  retry :: "side \<Rightarrow> u32"
  errlog :: "bio_reason list"

datatype pair_op =
    Read side bool int | Write side "bytes option" int | Shutdown side | Pending side | Wpending side
  | Guarantee side | Request side | Reset_request side | Buf_size side | Flush side | At_eof side | Retry_flags side

fun spec_step :: "pair_op \<Rightarrow> duplex \<Rightarrow> (int \<times> bytes) \<times> duplex" where
  "spec_step (Read s null n) d =
     (if n \<le> 0 then ((0, []), d)
      else case chan_read null (nat n) (chans d (other s)) of
        ((r, out, fl), c) \<Rightarrow>
          ((r, out), d\<lparr>chans := (chans d)(other s := c), retry := (retry d)(s := fl)\<rparr>))"
| "spec_step (Write s buf n) d =
     (if n \<le> 0 then ((0, []), d)
      else case chan_write buf (nat n) (chans d s) of
        ((r, fl, es), c) \<Rightarrow>
          ((r, []), d\<lparr>chans := (chans d)(s := c), retry := (retry d)(s := fl), errlog := errlog d @ es\<rparr>))"
| "spec_step (Shutdown s) d = ((1, []), d\<lparr>chans := (chans d)(s := (chans d s)\<lparr>ch_closed := True\<rparr>)\<rparr>)"
| "spec_step (Pending s) d = ((int (length (ch_bytes (chans d (other s)))), []), d)"
| "spec_step (Wpending s) d = ((int (length (ch_bytes (chans d s))), []), d)"
| "spec_step (Guarantee s) d =
     ((if ch_closed (chans d s) then 0 else int (ch_cap (chans d s) - length (ch_bytes (chans d s))), []), d)"
| "spec_step (Request s) d = ((int (ch_request (chans d s)), []), d)"
| "spec_step (Reset_request s) d = ((1, []), d\<lparr>chans := (chans d)(s := (chans d s)\<lparr>ch_request := 0\<rparr>)\<rparr>)"
| "spec_step (Buf_size s) d = ((int (ch_cap (chans d s)), []), d)"
| "spec_step (Flush s) d = ((1, []), d)"
| "spec_step (At_eof s) d =
     ((of_bool (ch_bytes (chans d (other s)) = [] \<and> ch_closed (chans d (other s))), []), d)"
| "spec_step (Retry_flags s) d = ((uint (retry d s), []), d)"

fun spec_steps :: "pair_op list \<Rightarrow> duplex \<Rightarrow> (int \<times> bytes) list \<times> duplex" where
  "spec_steps [] d = ([], d)"
| "spec_steps (q # qs) d = (case spec_step q d of (r, d) \<Rightarrow> case spec_steps qs d of (rs, d) \<Rightarrow> (r # rs, d))"

text \<open>The calls a client makes, on the BIOs at the two addresses.\<close>

definition plain :: "int bio_op \<Rightarrow> (int \<times> bytes) bio_op" where
  "plain f w = map_option (apfst (\<lambda>r. (r, []))) (f w)"

fun pair_step :: "(side \<Rightarrow> nat) \<Rightarrow> pair_op \<Rightarrow> (int \<times> bytes) bio_op" where
  "pair_step at (Read s null n) = BIO_read (Some (at s)) null n"
| "pair_step at (Write s buf n) = plain (BIO_write (Some (at s)) buf n)"
| "pair_step at (Shutdown s) = plain (BIO_shutdown_wr (Some (at s)))"
| "pair_step at (Pending s) = plain (map_option (apfst int) \<circ> BIO_pending (Some (at s)))"
| "pair_step at (Wpending s) = plain (map_option (apfst int) \<circ> BIO_wpending (Some (at s)))"
| "pair_step at (Guarantee s) = plain (map_option (apfst int) \<circ> BIO_ctrl_get_write_guarantee (Some (at s)))"
| "pair_step at (Request s) = plain (map_option (apfst int) \<circ> BIO_ctrl_get_read_request (Some (at s)))"
| "pair_step at (Reset_request s) = plain (BIO_ctrl (Some (at s)) BIO_C_RESET_READ_REQUEST 0 ArgNull)"
| "pair_step at (Buf_size s) = plain (BIO_ctrl (Some (at s)) BIO_C_GET_WRITE_BUF_SIZE 0 ArgNull)"
| "pair_step at (Flush s) = plain (BIO_flush (Some (at s)))"
| "pair_step at (At_eof s) = plain (BIO_ctrl (Some (at s)) BIO_CTRL_EOF 0 (ArgBio (at (other s))))"
| "pair_step at (Retry_flags s) =
     (\<lambda>w. map_option (\<lambda>bio. ((uint (BIO_get_retry_flags bio), []), w)) (w_bios w (at s)))"

fun pair_steps :: "(side \<Rightarrow> nat) \<Rightarrow> pair_op list \<Rightarrow> (int \<times> bytes) list bio_op" where
  "pair_steps at [] w = Some ([], w)"
| "pair_steps at (q # qs) w =
     Option.bind (pair_step at q w) (\<lambda>(r, w). map_option (apfst ((#) r)) (pair_steps at qs w))"

text \<open>What a C caller guarantees: lengths are \<open>int\<close>s, and a buffer has the length it is said to have.\<close>

fun op_valid :: "pair_op \<Rightarrow> bool" where
  "op_valid (Read s null n) \<longleftrightarrow> n \<le> int INT_MAX"
| "op_valid (Write s buf n) \<longleftrightarrow> n \<le> int INT_MAX \<and> (case buf of None \<Rightarrow> True | Some d \<Rightarrow> n \<le> int (length d))"
| "op_valid _ \<longleftrightarrow> True"

section \<open>Refinement\<close>

definition chan_of :: "bio_bio_st \<Rightarrow> chan" where
  "chan_of b = \<lparr>ch_bytes = queue b, ch_cap = pb_size b, ch_closed = pb_closed b, ch_request = pb_request b\<rparr>"

text \<open>The copying loops on a whole request.\<close>

lemma chan_of_advance:
  "ring_ok b \<Longrightarrow> k \<le> pb_len b \<Longrightarrow> chan_of (advance k b) = (chan_of b)\<lparr>ch_bytes := drop k (queue b)\<rparr>"
  by (simp add: chan_of_def queue_advance) (simp add: advance_def)

lemma chan_of_request: "chan_of (b\<lparr>pb_request := r\<rparr>) = (chan_of b)\<lparr>ch_request := r\<rparr>"
  by (simp add: chan_of_def queue_def)

lemma queue_request: "queue (b\<lparr>pb_request := r\<rparr>) = queue b"
  by (simp add: queue_def)

lemma advance_peer: "pb_peer (advance k b) = pb_peer b" "pb_request (advance k b) = pb_request b"
  by (simp_all add: advance_def)

lemma ring_ok_request: "ring_ok (b\<lparr>pb_request := r\<rparr>) = ring_ok b"
  by (simp add: ring_ok_def)

lemma queue_Nil_iff: "queue b = [] \<longleftrightarrow> pb_len b = 0"
  by (metis length_0_conv length_queue)

lemma clear_fields [simp]:
  "bio_init (BIO_clear_retry_flags s) = bio_init s" "bio_pair (BIO_clear_retry_flags s) = bio_pair s"
  "bio_meth (BIO_clear_retry_flags s) = bio_meth s"
  "bio_init (BIO_set_retry_read s) = bio_init s" "bio_pair (BIO_set_retry_read s) = bio_pair s"
  "bio_meth (BIO_set_retry_read s) = bio_meth s"
  "bio_init (BIO_set_retry_write s) = bio_init s" "bio_pair (BIO_set_retry_write s) = bio_pair s"
  "bio_meth (BIO_set_retry_write s) = bio_meth s"
  by (simp_all add: BIO_clear_retry_flags_def BIO_set_retry_read_def BIO_set_retry_write_def)

lemma retry_flags_pair [simp]:
  "BIO_get_retry_flags (s\<lparr>bio_pair := x\<rparr>) = BIO_get_retry_flags s"
  "BIO_get_retry_flags (s\<lparr>bio_num_read := n\<rparr>) = BIO_get_retry_flags s"
  "BIO_get_retry_flags (s\<lparr>bio_num_write := n\<rparr>) = BIO_get_retry_flags s"
  "BIO_clear_retry_flags (s\<lparr>bio_pair := x\<rparr>) = (BIO_clear_retry_flags s)\<lparr>bio_pair := x\<rparr>"
  "BIO_set_retry_read (s\<lparr>bio_pair := x\<rparr>) = (BIO_set_retry_read s)\<lparr>bio_pair := x\<rparr>"
  "BIO_set_retry_write (s\<lparr>bio_pair := x\<rparr>) = (BIO_set_retry_write s)\<lparr>bio_pair := x\<rparr>"
  by (simp_all add: BIO_get_retry_flags_def BIO_clear_retry_flags_def BIO_set_retry_read_def BIO_set_retry_write_def)

text \<open>One end of a pair in a world: its struct and its retry flags.\<close>

definition end_is :: "world \<Rightarrow> nat \<Rightarrow> bio_bio_st \<Rightarrow> u32 \<Rightarrow> bool" where
  "end_is w a b fl \<longleftrightarrow> (\<exists>s. w_bios w a = Some s \<and> bio_meth s = Some BIO_S_BIO \<and> bio_init s \<and>
     bio_pair s = Some b \<and> BIO_get_retry_flags s = fl)"

lemma end_is_pair_at: "end_is w a b fl \<Longrightarrow> pair_at a w = Some b"
  by (auto simp: end_is_def pair_at_def)

lemma end_is_upd_pair: "end_is w a b fl \<Longrightarrow> end_is (upd_pair x f w) a (if x = a then f b else b) fl"
  by (auto simp: end_is_def bio_world)

lemma end_is_clear: "end_is w a b fl \<Longrightarrow> end_is (upd_bio x BIO_clear_retry_flags w) a b (if x = a then 0 else fl)"
  by (auto simp: end_is_def bio_world)

lemma end_is_set_retry:
  "end_is w a b fl \<Longrightarrow> end_is (upd_bio x BIO_set_retry_read w) a b
     (if x = a then fl OR (BIO_FLAGS_READ OR BIO_FLAGS_SHOULD_RETRY) else fl)"
  "end_is w a b fl \<Longrightarrow> end_is (upd_bio x BIO_set_retry_write w) a b
     (if x = a then fl OR (BIO_FLAGS_WRITE OR BIO_FLAGS_SHOULD_RETRY) else fl)"
proof -
  have k: "(BIO_FLAGS_READ OR BIO_FLAGS_SHOULD_RETRY) AND kRetryFlags = BIO_FLAGS_READ OR BIO_FLAGS_SHOULD_RETRY"
    "(BIO_FLAGS_WRITE OR BIO_FLAGS_SHOULD_RETRY) AND kRetryFlags = BIO_FLAGS_WRITE OR BIO_FLAGS_SHOULD_RETRY"
    by (simp_all add: bio_flag_defs)
  have or_and: "y AND kRetryFlags = y \<Longrightarrow> (x OR y) AND kRetryFlags = (x AND kRetryFlags) OR y" for x y :: u32
    by (simp add: bit.conj_disj_distrib2)
  have "BIO_get_retry_flags (BIO_set_retry_read s) = BIO_get_retry_flags s OR (BIO_FLAGS_READ OR BIO_FLAGS_SHOULD_RETRY)"
    "BIO_get_retry_flags (BIO_set_retry_write s) = BIO_get_retry_flags s OR (BIO_FLAGS_WRITE OR BIO_FLAGS_SHOULD_RETRY)" for s
    using or_and [OF k(1)] or_and [OF k(2)]
    by (simp_all add: BIO_get_retry_flags_def BIO_set_retry_read_def BIO_set_retry_write_def)
  then show "end_is w a b fl \<Longrightarrow> end_is (upd_bio x BIO_set_retry_read w) a b
     (if x = a then fl OR (BIO_FLAGS_READ OR BIO_FLAGS_SHOULD_RETRY) else fl)"
    "end_is w a b fl \<Longrightarrow> end_is (upd_bio x BIO_set_retry_write w) a b
     (if x = a then fl OR (BIO_FLAGS_WRITE OR BIO_FLAGS_SHOULD_RETRY) else fl)"
    by (auto simp: end_is_def bio_world)
qed

text \<open>\<open>bio_read\<close> and \<open>bio_write\<close> on a connected end, without the loops.\<close>

lemma bio_read_end:
  assumes a: "end_is w a b f" "pb_peer b = Some p" "p \<noteq> a" and p: "end_is w p c g" "ring_ok c"
    and n: "0 < n" "n \<le> int INT_MAX"
  shows "bio_read a null n w =
    (let w1 = upd_pair p (\<lambda>b. b\<lparr>pb_request := 0\<rparr>) (upd_bio a BIO_clear_retry_flags w) in
     if null \<or> (pb_len c = 0 \<and> pb_closed c) then Some ((0, []), w1)
     else if pb_len c = 0
     then Some ((- 1, []), upd_pair p (\<lambda>b. b\<lparr>pb_request := min (nat n) (pb_size c)\<rparr>) (upd_bio a BIO_set_retry_read w1))
     else Some ((int (min (nat n) (pb_len c)), take (min (nat n) (pb_len c)) (queue c)),
                upd_pair p (\<lambda>_. advance (min (nat n) (pb_len c)) (c\<lparr>pb_request := 0\<rparr>)) w1))"
proof -
  have sz: "size_of_int n = nat n" "0 < nat n" "nat n \<le> INT_MAX"
    using n by (auto simp: size_of_int_id)
  obtain s t where s: "w_bios w a = Some s" "bio_init s" "bio_pair s = Some b"
    and t: "w_bios w p = Some t" "bio_pair t = Some c"
    using a p by (auto simp: end_is_def)
  obtain y where buf: "pb_buf c = Some y" using p by (auto simp: ring_ok_def)
  show ?thesis
  proof (cases "null \<or> pb_len c = 0")
    case True
    with s t a sz buf show ?thesis
      by (simp add: bio_read_def Let_def bio_world pair_at_def) (auto simp: min_def)
  next
    case False
    define k where "k = min (nat n) (pb_len c)"
    have k: "0 < k" "k \<le> pb_len c" "k \<le> INT_MAX" "(if pb_len c < nat n then pb_len c else nat n) = k"
      using sz False by (auto simp: k_def)
    have "bio_read_loop (c\<lparr>pb_request := 0\<rparr>) k [] = Some (advance k (c\<lparr>pb_request := 0\<rparr>), take k (queue c))"
      using bio_read_loop_queue [of "c\<lparr>pb_request := 0\<rparr>" k "[]"] k p by (simp add: ring_ok_request queue_def)
    then show ?thesis
      using s t a sz buf False k
      by (simp add: bio_read_def Let_def bio_world pair_at_def k_def [symmetric] int_of_size_id cong: if_cong split del: if_split)

  qed
qed

lemma bio_write_end:
  assumes a: "end_is w a b f" "pb_peer b \<noteq> None" "ring_ok b"
    and n: "0 < n" "n \<le> int INT_MAX" "case buf of None \<Rightarrow> True | Some d \<Rightarrow> n \<le> int (length d)"
  shows "\<exists>b'. bio_write a buf n w =
    (let w0 = upd_bio a BIO_clear_retry_flags w; w1 = upd_pair a (\<lambda>b. b\<lparr>pb_request := 0\<rparr>) w0;
         k = min (nat n) (pb_size b - pb_len b) in
     if buf = None then Some (0, w0)
     else if pb_closed b then Some (- 1, OPENSSL_PUT_ERROR BIO_R_BROKEN_PIPE w1)
     else if pb_len b = pb_size b then Some (- 1, upd_bio a BIO_set_retry_write w1)
     else Some (int k, upd_pair a (\<lambda>_. b') w1)) \<and>
    (pb_len b < pb_size b \<and> buf \<noteq> None \<longrightarrow>
       ring_ok b' \<and> pb_peer b' = pb_peer b \<and> pb_request b' = 0 \<and>
       chan_of b' = (chan_of b)\<lparr>ch_request := 0, ch_bytes := queue b @ take (min (nat n) (pb_size b - pb_len b)) (the buf)\<rparr>)"
proof -
  have sz: "size_of_int n = nat n" "0 < nat n" "nat n \<le> INT_MAX"
    using n by (auto simp: size_of_int_id)
  obtain y q where bf: "pb_buf b = Some y" "pb_peer b = Some q" "pb_len b \<le> pb_size b" using a by (auto simp: ring_ok_def)
  obtain s where s: "w_bios w a = Some s" "bio_init s" "bio_pair s = Some b"
    using a by (auto simp: end_is_def)
  define k where "k = min (nat n) (pb_size b - pb_len b)"
  show ?thesis
  proof (cases "buf = None \<or> pb_len b = pb_size b")
    case True
    with s a sz bf show ?thesis
      by (intro exI [of _ b]) (auto simp: bio_write_def Let_def bio_world)
  next
    case False
    then obtain data where d: "buf = Some data" by auto
    have k: "0 < k" "k \<le> length data" "pb_len b + k \<le> pb_size b" "k \<le> INT_MAX"
      "(if pb_size b - pb_len b < nat n then pb_size b - pb_len b else nat n) = k"
      using sz n False bf d by (auto simp: k_def)
    obtain b' x where b': "bio_write_loop (b\<lparr>pb_request := 0\<rparr>) k data = Some b'" "ring_ok b'" "queue b' = queue b @ take k data"
      "b' = b\<lparr>pb_request := 0, pb_buf := Some x, pb_len := pb_len b + k\<rparr>"
      using bio_write_loop_queue [of "b\<lparr>pb_request := 0\<rparr>" k data] k a by (auto simp: ring_ok_request queue_def)
    then have "chan_of b' = (chan_of b)\<lparr>ch_request := 0, ch_bytes := queue b @ take k data\<rparr>" by (simp add: chan_of_def)
    with b' show ?thesis
      using s a bf sz False k d
      by (intro exI [of _ b']) (simp add: bio_write_def Let_def bio_world k_def [symmetric] int_of_size_id cong: if_cong split del: if_split)
  qed
qed

section \<open>Every operation\<close>

definition end_at :: "world \<Rightarrow> nat \<Rightarrow> nat \<Rightarrow> chan \<Rightarrow> u32 \<Rightarrow> bool" where
  "end_at w a p c f \<longleftrightarrow> (\<exists>b. end_is w a b f \<and> pb_peer b = Some p \<and> ring_ok b \<and> chan_of b = c \<and> pb_request b < 2 ^ 63)"

definition pair_rel :: "(side \<Rightarrow> nat) \<Rightarrow> world \<Rightarrow> duplex \<Rightarrow> bool" where
  "pair_rel at w d \<longleftrightarrow> at S1 \<noteq> at S2 \<and> (\<forall>s. end_at w (at s) (at (other s)) (chans d s) (retry d s)) \<and>
     w_errs w = errlog d"

lemma other_other [simp]: "other (other s) = s"
  by (cases s) auto

lemma other_neq [simp]: "other s \<noteq> s" "s \<noteq> other s"
  by (cases s; simp)+

lemma side_cases: "(\<forall>t. P t) \<longleftrightarrow> P s \<and> P (other s)"
  by (cases s) (metis other.simps side.exhaust)+

lemma at_neq: "pair_rel at w d \<Longrightarrow> at s \<noteq> at (other s)"
  by (cases s) (auto simp: pair_rel_def)

lemma rel_sides: "pair_rel at w d \<longleftrightarrow> at s \<noteq> at (other s) \<and> end_at w (at s) (at (other s)) (chans d s) (retry d s) \<and>
    end_at w (at (other s)) (at s) (chans d (other s)) (retry d (other s)) \<and> w_errs w = errlog d"
  unfolding pair_rel_def side_cases [of _ s] by (cases s) auto


lemma end_is_counts:
  "end_is (upd_bio x (\<lambda>s. s\<lparr>bio_num_read := f s\<rparr>) w) a b fl = end_is w a b fl"
  "end_is (upd_bio x (\<lambda>s. s\<lparr>bio_num_write := f s\<rparr>) w) a b fl = end_is w a b fl"
  by (auto simp: end_is_def bio_world)

lemma end_is_errs: "end_is (OPENSSL_PUT_ERROR r w) a b fl = end_is w a b fl"
  by (simp add: end_is_def bio_world)

lemmas end_is_steps = end_is_upd_pair end_is_clear end_is_set_retry

lemma BIO_read_pair:
  assumes "end_is w a b f"
  shows "BIO_read (Some a) null n w =
    (if n \<le> 0 then Some ((0, []), w)
     else Option.bind (bio_read a null n w) (\<lambda>((ret, out), w).
       Some ((ret, out), if 0 < ret then upd_bio a (\<lambda>s. s\<lparr>bio_num_read := sz (bio_num_read s + nat ret)\<rparr>) w else w)))"
  using assms by (auto simp: BIO_read_def end_is_def method_read_def)

lemma BIO_write_pair:
  assumes "end_is w a b f"
  shows "BIO_write (Some a) buf n w =
    (if n \<le> 0 then Some (0, w)
     else Option.bind (bio_write a buf n w) (\<lambda>(ret, w).
       Some (ret, if 0 < ret then upd_bio a (\<lambda>s. s\<lparr>bio_num_write := sz (bio_num_write s + nat ret)\<rparr>) w else w)))"
  using assms by (auto simp: BIO_write_def end_is_def method_write_def)

lemma BIO_ctrl_pair:
  assumes "end_is w a b f"
  shows "BIO_ctrl (Some a) cmd n p w = bio_ctrl a cmd n p w"
  using assms by (auto simp: BIO_ctrl_def BIO_ctrl_out_def end_is_def option.map_comp o_def apfst_def
      map_prod_def prod.case_eq_if option.map_ident)

lemma pair_read_refines:
  assumes rel: "pair_rel at w d" and n: "n \<le> int INT_MAX"
  shows "\<exists>w'. pair_step at (Read s null n) w = Some (fst (spec_step (Read s null n) d), w') \<and>
    pair_rel at w' (snd (spec_step (Read s null n) d))"
proof (cases "n \<le> 0")
  case True
  then show ?thesis
    using rel unfolding rel_sides [of _ _ _ s] by (auto simp: end_at_def BIO_read_pair)
next
  case False
  from rel obtain b c where ne: "at s \<noteq> at (other s)" and E: "w_errs w = errlog d"
    and b: "end_is w (at s) b (retry d s)" "pb_peer b = Some (at (other s))" "ring_ok b" "chan_of b = chans d s" "pb_request b < 2 ^ 63"
    and c: "end_is w (at (other s)) c (retry d (other s))" "pb_peer c = Some (at s)" "ring_ok c" "chan_of c = chans d (other s)" "pb_request c < 2 ^ 63"
    unfolding rel_sides [of _ _ _ s] by (auto simp: end_at_def)
  note rd = bio_read_end [OF b(1,2) ne [symmetric] c(1,3), of n null]
  define k where "k = min (nat n) (pb_len c)"
  have mx: "min (nat n) (pb_size c) < 2 ^ 63" using n by (simp add: INT_MAX_def)
  have cc: "ch_bytes (chans d (other s)) = queue c" "ch_cap (chans d (other s)) = pb_size c" "ch_closed (chans d (other s)) = pb_closed c"
    unfolding c(4) [symmetric] by (simp_all add: chan_of_def)
  let ?w1 = "upd_pair (at (other s)) (\<lambda>b. b\<lparr>pb_request := 0\<rparr>) (upd_bio (at s) BIO_clear_retry_flags w)"
  have e1: "end_is ?w1 (at s) b 0" "end_is ?w1 (at (other s)) (c\<lparr>pb_request := 0\<rparr>) (retry d (other s))"
    using end_is_upd_pair [OF end_is_clear [OF b(1)], of "at (other s)" _ "at s"]
      end_is_upd_pair [OF end_is_clear [OF c(1)], of "at (other s)" _ "at s"] ne by (simp_all split: if_splits)
  show ?thesis
  proof (cases "null \<or> (pb_len c = 0 \<and> pb_closed c)")
    case True
    then have "spec_step (Read s null n) d = ((0, []), d\<lparr>chans := (chans d)(other s := (chans d (other s))\<lparr>ch_request := 0\<rparr>), retry := (retry d)(s := 0)\<rparr>)"
      using False cc by (auto simp: chan_read_def Let_def queue_Nil_iff)
    moreover have "bio_read (at s) null n w = Some ((0, []), ?w1)" using rd True False n by simp
    ultimately show ?thesis
      using False b c e1 ne E unfolding rel_sides [of _ _ _ s]
      by (auto simp: BIO_read_pair end_at_def bio_world ring_ok_request chan_of_request intro!: exI)
  next
    case nn: False
    show ?thesis
    proof (cases "pb_len c = 0")
      case True
      let ?w2 = "upd_pair (at (other s)) (\<lambda>b. b\<lparr>pb_request := min (nat n) (pb_size c)\<rparr>) (upd_bio (at s) BIO_set_retry_read ?w1)"
      have "spec_step (Read s null n) d = ((- 1, []), d\<lparr>chans := (chans d)(other s := (chans d (other s))\<lparr>ch_request := min (nat n) (pb_size c)\<rparr>),
          retry := (retry d)(s := BIO_FLAGS_READ OR BIO_FLAGS_SHOULD_RETRY)\<rparr>)"
        using False cc nn True by (simp add: chan_read_def Let_def queue_Nil_iff)
      moreover have "bio_read (at s) null n w = Some ((- 1, []), ?w2)" using rd True False n nn by simp
      moreover have "end_is ?w2 (at s) b (BIO_FLAGS_READ OR BIO_FLAGS_SHOULD_RETRY)"
        "end_is ?w2 (at (other s)) (c\<lparr>pb_request := min (nat n) (pb_size c)\<rparr>) (retry d (other s))"
        using end_is_upd_pair [OF end_is_set_retry(1) [OF e1(1)], of "at (other s)" _ "at s"]
          end_is_upd_pair [OF end_is_set_retry(1) [OF e1(2)], of "at (other s)" "\<lambda>b. b\<lparr>pb_request := min (nat n) (pb_size c)\<rparr>" "at s"] ne by (simp_all split: if_splits)
      ultimately show ?thesis
        using False b c ne E mx unfolding rel_sides [of _ _ _ s]
        by (auto simp: BIO_read_pair end_at_def bio_world ring_ok_request chan_of_request intro!: exI)
    next
      case len: False
      have k: "0 < k" "k \<le> pb_len c" using False len by (auto simp: k_def)
      let ?c = "advance k (c\<lparr>pb_request := 0\<rparr>)"
      let ?w2 = "upd_pair (at (other s)) (\<lambda>_. ?c) ?w1"
      have ch: "chan_of ?c = (chan_of c)\<lparr>ch_request := 0, ch_bytes := drop k (queue c)\<rparr>" "ring_ok ?c" "pb_peer ?c = pb_peer c" "pb_request ?c = 0"
        using c(3) k chan_of_advance [of "c\<lparr>pb_request := 0\<rparr>" k] ring_ok_advance [of "c\<lparr>pb_request := 0\<rparr>" k]
        by (simp_all add: ring_ok_request chan_of_request queue_request advance_peer)
      have "spec_step (Read s null n) d = ((int k, take k (queue c)),
          d\<lparr>chans := (chans d)(other s := (chans d (other s))\<lparr>ch_request := 0, ch_bytes := drop k (queue c)\<rparr>), retry := (retry d)(s := 0)\<rparr>)"
        using False cc nn len by (simp add: chan_read_def Let_def queue_Nil_iff k_def)
      moreover have "bio_read (at s) null n w = Some ((int k, take k (queue c)), ?w2)" using rd False n nn len by (simp add: k_def)
      moreover have "end_is ?w2 (at s) b 0" "end_is ?w2 (at (other s)) ?c (retry d (other s))"
        using end_is_upd_pair [OF e1(1), of "at (other s)"] end_is_upd_pair [OF e1(2), of "at (other s)"] ne
        by (simp_all split: if_splits)
      ultimately show ?thesis
        using False b c ne E k ch unfolding rel_sides [of _ _ _ s]
        by (auto simp: BIO_read_pair end_at_def bio_world end_is_counts intro!: exI)
    qed
  qed
qed

lemma pair_write_refines:
  assumes rel: "pair_rel at w d" and n: "op_valid (Write s buf n)"
  shows "\<exists>w'. pair_step at (Write s buf n) w = Some (fst (spec_step (Write s buf n) d), w') \<and>
    pair_rel at w' (snd (spec_step (Write s buf n) d))"
proof (cases "n \<le> 0")
  case True
  then show ?thesis
    using rel unfolding rel_sides [of _ _ _ s] by (auto simp: end_at_def BIO_write_pair plain_def)
next
  case False
  from rel obtain b c where ne: "at s \<noteq> at (other s)" and E: "w_errs w = errlog d"
    and b: "end_is w (at s) b (retry d s)" "pb_peer b = Some (at (other s))" "ring_ok b" "chan_of b = chans d s" "pb_request b < 2 ^ 63"
    and c: "end_is w (at (other s)) c (retry d (other s))" "pb_peer c = Some (at s)" "ring_ok c" "chan_of c = chans d (other s)" "pb_request c < 2 ^ 63"
    unfolding rel_sides [of _ _ _ s] by (auto simp: end_at_def)
  have bb: "ch_bytes (chans d s) = queue b" "ch_cap (chans d s) = pb_size b" "ch_closed (chans d s) = pb_closed b"
    unfolding b(4) [symmetric] by (simp_all add: chan_of_def)
  have len: "pb_len b \<le> pb_size b" using b(3) by (simp add: ring_ok_def)
  define k where "k = min (nat n) (pb_size b - pb_len b)"
  let ?w0 = "upd_bio (at s) BIO_clear_retry_flags w"
  let ?w1 = "upd_pair (at s) (\<lambda>b. b\<lparr>pb_request := 0\<rparr>) ?w0"
  have pre: "pb_peer b \<noteq> None" "0 < n" "n \<le> int INT_MAX" "case buf of None \<Rightarrow> True | Some d \<Rightarrow> n \<le> int (length d)"
    using n False b(2) by auto
  from bio_write_end [OF b(1) pre(1) b(3) pre(2-4), unfolded Let_def, folded k_def] obtain b' where
    wr: "bio_write (at s) buf n w =
      (if buf = None then Some (0, ?w0)
       else if pb_closed b then Some (- 1, OPENSSL_PUT_ERROR BIO_R_BROKEN_PIPE ?w1)
       else if pb_len b = pb_size b then Some (- 1, upd_bio (at s) BIO_set_retry_write ?w1)
       else Some (int k, upd_pair (at s) (\<lambda>_. b') ?w1))"
    and b': "pb_len b < pb_size b \<Longrightarrow> buf \<noteq> None \<Longrightarrow> ring_ok b' \<and> pb_peer b' = pb_peer b \<and> pb_request b' = 0 \<and>
       chan_of b' = (chan_of b)\<lparr>ch_request := 0, ch_bytes := queue b @ take k (the buf)\<rparr>"
    by blast
  have e0: "end_is ?w0 (at s) b 0" "end_is ?w0 (at (other s)) c (retry d (other s))"
    using end_is_clear [OF b(1), of "at s"] end_is_clear [OF c(1), of "at s"] ne by (simp_all split: if_splits)
  have e1: "end_is ?w1 (at s) (b\<lparr>pb_request := 0\<rparr>) 0" "end_is ?w1 (at (other s)) c (retry d (other s))"
    using end_is_upd_pair [OF e0(1), of "at s"] end_is_upd_pair [OF e0(2), of "at s"] ne by (simp_all split: if_splits)
  consider "buf = None" | "buf \<noteq> None" "pb_closed b" | "buf \<noteq> None" "\<not> pb_closed b" "pb_len b = pb_size b"
    | data where "buf = Some data" "\<not> pb_closed b" "pb_len b < pb_size b"
    using len by fastforce
  then show ?thesis
  proof cases
    case 1
    then show ?thesis
      using False b c e0 ne E wr unfolding rel_sides [of _ _ _ s]
      by (auto simp: BIO_write_pair end_at_def bio_world plain_def chan_write_def)
  next
    case 2
    then have "spec_step (Write s buf n) d = ((- 1, []), d\<lparr>chans := (chans d)(s := (chans d s)\<lparr>ch_request := 0\<rparr>),
        retry := (retry d)(s := 0), errlog := errlog d @ [BIO_R_BROKEN_PIPE]\<rparr>)"
      using False bb by (auto simp: chan_write_def Let_def)
    with 2 show ?thesis
      using False b c e1 ne E wr unfolding rel_sides [of _ _ _ s]
      by (auto simp: BIO_write_pair end_at_def bio_world plain_def end_is_errs ring_ok_request chan_of_request intro!: exI)
  next
    case 3
    have "end_is (upd_bio (at s) BIO_set_retry_write ?w1) (at s) (b\<lparr>pb_request := 0\<rparr>) (BIO_FLAGS_WRITE OR BIO_FLAGS_SHOULD_RETRY)"
      "end_is (upd_bio (at s) BIO_set_retry_write ?w1) (at (other s)) c (retry d (other s))"
      using end_is_set_retry(2) [OF e1(1), of "at s"] end_is_set_retry(2) [OF e1(2), of "at s"] ne by (simp_all split: if_splits)
    moreover have "spec_step (Write s buf n) d = ((- 1, []), d\<lparr>chans := (chans d)(s := (chans d s)\<lparr>ch_request := 0\<rparr>),
        retry := (retry d)(s := BIO_FLAGS_WRITE OR BIO_FLAGS_SHOULD_RETRY)\<rparr>)"
      using False bb 3 by (auto simp: chan_write_def Let_def)
    ultimately show ?thesis
      using 3 False b c ne E wr unfolding rel_sides [of _ _ _ s]
      by (auto simp: BIO_write_pair end_at_def bio_world plain_def ring_ok_request chan_of_request intro!: exI)
  next
    case 4
    let ?w2 = "upd_pair (at s) (\<lambda>_. b') ?w1"
    have k: "0 < k" using False 4 by (simp add: k_def)
    have "end_is ?w2 (at s) b' 0" "end_is ?w2 (at (other s)) c (retry d (other s))"
      using end_is_upd_pair [OF e1(1), of "at s"] end_is_upd_pair [OF e1(2), of "at s"] ne by (simp_all split: if_splits)
    moreover have "spec_step (Write s buf n) d = ((int k, []), d\<lparr>chans := (chans d)(s := (chans d s)\<lparr>ch_request := 0, ch_bytes := queue b @ take k data\<rparr>),
        retry := (retry d)(s := 0)\<rparr>)"
      using False bb 4 by (simp add: chan_write_def Let_def k_def)
    ultimately show ?thesis
      using 4 False b c ne E wr k b' unfolding rel_sides [of _ _ _ s]
      by (auto simp: BIO_write_pair end_at_def bio_world plain_def end_is_counts intro!: exI)
  qed
qed

lemma chan_fields:
  "chan_of b = c \<Longrightarrow> ch_bytes c = queue b" "chan_of b = c \<Longrightarrow> ch_cap c = pb_size b"
  "chan_of b = c \<Longrightarrow> ch_closed c = pb_closed b" "chan_of b = c \<Longrightarrow> ch_request c = pb_request b"
  by (auto simp: chan_of_def)

lemma long_size_ring:
  assumes "ring_ok b"
  shows "long_of_size (pb_size b) = int (pb_size b)" "long_of_size (pb_len b) = int (pb_len b)"
    "long_of_size (sz (pb_size b + SIZE_LIMIT - pb_len b)) = int (pb_size b - pb_len b)"
proof -
  have b: "pb_len b \<le> pb_size b" "pb_size b < 2 ^ 63" using assms by (auto simp: ring_ok_def)
  then show "long_of_size (pb_size b) = int (pb_size b)" "long_of_size (pb_len b) = int (pb_len b)"
    by (simp_all add: long_of_size_id)
  have "sz (pb_size b + SIZE_LIMIT - pb_len b) = pb_size b - pb_len b" using b by (intro sz_diff) simp_all
  then show "long_of_size (sz (pb_size b + SIZE_LIMIT - pb_len b)) = int (pb_size b - pb_len b)"
    using b by (simp add: long_of_size_id)
qed

lemma size_of_long: "n < 2 ^ 63 \<Longrightarrow> size_of_int (int n) = n"
  by (simp add: size_of_int_def unsigned_of_int take_bit_int_eq_self)

lemma size_of_int_0: "size_of_int 0 = 0"
  by (simp add: size_of_int_def)

lemma bio_ctrl_end:
  assumes "end_is w a b f"
  shows "bio_ctrl a cmd n ptr w =
     (case cmd of
        BIO_C_GET_WRITE_BUF_SIZE \<Rightarrow> Some (long_of_size (pb_size b), w)
      | BIO_C_GET_WRITE_GUARANTEE \<Rightarrow>
          Some (if pb_peer b = None \<or> pb_closed b then 0
                else long_of_size (sz (pb_size b + SIZE_LIMIT - pb_len b)), w)
      | BIO_C_GET_READ_REQUEST \<Rightarrow> Some (long_of_size (pb_request b), w)
      | BIO_C_RESET_READ_REQUEST \<Rightarrow> Some (1, upd_pair a (\<lambda>b. b\<lparr>pb_request := 0\<rparr>) w)
      | BIO_C_SHUTDOWN_WR \<Rightarrow> Some (1, upd_pair a (\<lambda>b. b\<lparr>pb_closed := True\<rparr>) w)
      | BIO_CTRL_PENDING \<Rightarrow>
          (case pb_peer b of
             None \<Rightarrow> Some (0, w)
           | Some peer \<Rightarrow> (case pair_at peer w of None \<Rightarrow> None | Some c \<Rightarrow> Some (long_of_size (pb_len c), w)))
      | BIO_CTRL_WPENDING \<Rightarrow> Some (if pb_buf b \<noteq> None then long_of_size (pb_len b) else 0, w)
      | BIO_CTRL_FLUSH \<Rightarrow> Some (1, w)
      | BIO_CTRL_EOF \<Rightarrow>
          (case ptr of
             ArgNull \<Rightarrow> Some (1, w)
           | ArgBio x \<Rightarrow> (case pair_at x w of None \<Rightarrow> None | Some c \<Rightarrow> Some (of_bool (pb_len c = 0 \<and> pb_closed c), w))
           | _ \<Rightarrow> None)
      | _ \<Rightarrow> bio_ctrl a cmd n ptr w)"
  using assms by (auto simp: end_is_def bio_ctrl_def split: bio_cmd.split)

lemma chan_of_closed: "chan_of (b\<lparr>pb_closed := x\<rparr>) = (chan_of b)\<lparr>ch_closed := x\<rparr>"
  by (simp add: chan_of_def queue_def)

lemma ring_ok_closed: "ring_ok (b\<lparr>pb_closed := x\<rparr>) = ring_ok b"
  by (simp add: ring_ok_def)

text \<open>One step: the same answer, and related states afterwards.\<close>

lemma pair_step_refines:
  assumes rel: "pair_rel at w d" and v: "op_valid q"
  shows "\<exists>w'. pair_step at q w = Some (fst (spec_step q d), w') \<and> pair_rel at w' (snd (spec_step q d))"
proof -
  define s where "s = (case q of Read s _ _ \<Rightarrow> s | Write s _ _ \<Rightarrow> s | Shutdown s \<Rightarrow> s | Pending s \<Rightarrow> s
    | Wpending s \<Rightarrow> s | Guarantee s \<Rightarrow> s | Request s \<Rightarrow> s | Reset_request s \<Rightarrow> s | Buf_size s \<Rightarrow> s | Flush s \<Rightarrow> s
    | At_eof s \<Rightarrow> s | Retry_flags s \<Rightarrow> s)"
  from rel obtain b c where ne: "at s \<noteq> at (other s)" and E: "w_errs w = errlog d"
    and b: "end_is w (at s) b (retry d s)" "pb_peer b = Some (at (other s))" "ring_ok b" "chan_of b = chans d s" "pb_request b < 2 ^ 63"
    and c: "end_is w (at (other s)) c (retry d (other s))" "pb_peer c = Some (at s)" "ring_ok c" "chan_of c = chans d (other s)" "pb_request c < 2 ^ 63"
    unfolding rel_sides [of _ _ _ s] by (auto simp: end_at_def)
  have cp: "pair_at (at (other s)) w = Some c" using c(1) by (rule end_is_pair_at)
  have buf: "pb_buf b \<noteq> None" using b(3) by (simp add: ring_ok_def)
  have upd: "end_is (upd_pair (at s) f w) (at s) (f b) (retry d s)"
    "end_is (upd_pair (at s) f w) (at (other s)) c (retry d (other s))" for f
    using end_is_upd_pair [OF b(1), of "at s" f] end_is_upd_pair [OF c(1), of "at s" f] ne by simp_all
  have lr: "long_of_size (pb_request b) = int (pb_request b)" using b(5) by (rule long_of_size_id)
  have sl: "pb_size b - pb_len b < 2 ^ 63" using b(3) by (auto simp: ring_ok_def)
  note ev = plain_def BIO_ctrl_pair [OF b(1)] bio_ctrl_end [OF b(1)] chan_fields [OF b(4)] chan_fields [OF c(4)]
    long_size_ring [OF b(3)] long_size_ring [OF c(3)] size_of_long b(2) cp buf queue_Nil_iff lr
  show ?thesis
  proof (cases q)
    case (Read s' null n)
    with pair_read_refines [OF rel] v show ?thesis by simp
  next
    case (Write s' bf n)
    with pair_write_refines [OF rel] v show ?thesis by simp
  next
    case (Shutdown s')
    then have "s' = s" by (simp add: s_def)
    with Shutdown upd b c ne E show ?thesis
      unfolding rel_sides [of _ _ _ s]
      by (auto simp: ev BIO_shutdown_wr_def bio_world end_at_def ring_ok_closed chan_of_closed intro!: exI)
  next
    case (Reset_request s')
    then have "s' = s" by (simp add: s_def)
    with Reset_request upd b c ne E show ?thesis
      unfolding rel_sides [of _ _ _ s]
      by (auto simp: ev bio_world end_at_def ring_ok_request chan_of_request intro!: exI)
  next
    case (Pending s')
    then have "s' = s" by (simp add: s_def)
    with Pending rel show ?thesis by (simp add: ev BIO_pending_def)
  next
    case (Wpending s')
    then have "s' = s" by (simp add: s_def)
    with Wpending rel show ?thesis by (simp add: ev BIO_wpending_def)
  next
    case (Guarantee s')
    then have "s' = s" by (simp add: s_def)
    with Guarantee rel sl show ?thesis by (simp add: ev BIO_ctrl_get_write_guarantee_def apfst_def size_of_int_0)
  next
    case (Request s')
    then have "s' = s" by (simp add: s_def)
    with Request rel b(5) show ?thesis by (simp add: ev BIO_ctrl_get_read_request_def apfst_def)
  next
    case (Buf_size s')
    then have "s' = s" by (simp add: s_def)
    with Buf_size rel show ?thesis by (simp add: ev)
  next
    case (Flush s')
    then have "s' = s" by (simp add: s_def)
    with Flush rel show ?thesis by (simp add: ev BIO_flush_def)
  next
    case (At_eof s')
    then have "s' = s" by (simp add: s_def)
    with At_eof rel show ?thesis by (simp add: ev)
  next
    case (Retry_flags s')
    then have "s' = s" by (simp add: s_def)
    with Retry_flags rel b(1) show ?thesis by (auto simp: end_is_def)
  qed
qed

lemma pair_steps_refine:
  assumes "pair_rel at w d" "\<forall>q \<in> set qs. op_valid q"
  shows "\<exists>w'. pair_steps at qs w = Some (fst (spec_steps qs d), w') \<and> pair_rel at w' (snd (spec_steps qs d))"
  using assms
proof (induction qs arbitrary: w d)
  case (Cons q qs)
  then obtain w1 where "pair_step at q w = Some (fst (spec_step q d), w1)" "pair_rel at w1 (snd (spec_step q d))"
    using pair_step_refines [of at w d q] by auto
  moreover from this Cons obtain w2 where "pair_steps at qs w1 = Some (fst (spec_steps qs (snd (spec_step q d))), w2)"
    "pair_rel at w2 (snd (spec_steps qs (snd (spec_step q d))))" by fastforce
  ultimately show ?case by (auto simp: case_prod_beta)
qed simp

section \<open>A new pair\<close>

definition new_end :: bio_st where
  "new_end = bio_zero\<lparr>bio_meth := Some BIO_S_BIO, bio_shut := 1, bio_refs := 1,
     bio_pair := Some \<lparr>pb_peer = None, pb_closed = False, pb_len = 0, pb_offset = 0, pb_size = 17 * 1024,
       pb_buf = None, pb_request = 0\<rparr>\<rparr>"

definition fresh :: "world \<Rightarrow> bool" where
  "fresh w \<longleftrightarrow> (\<forall>a. w_calls w \<le> a \<longrightarrow> w_bios w a = None)"

lemma BIO_new_end:
  assumes "fresh w"
  shows "\<exists>r w'. BIO_new BIO_S_BIO w = Some (r, w') \<and> w_alloc w' = w_alloc w \<and> fresh w' \<and>
    (case r of None \<Rightarrow> w_bios w' = w_bios w
     | Some a \<Rightarrow> a = w_calls w \<and> w_bios w' = (w_bios w)(a \<mapsto> new_end) \<and> w_errs w' = w_errs w)"
proof (cases "w_alloc w (w_calls w) 96")
  case None
  then show ?thesis using assms by (simp add: BIO_new_def w_malloc_def bio_world fresh_def)
next
  case (Some x)
  have k: "w_bios w (w_calls w) = None" using assms by (simp add: fresh_def)
  show ?thesis
  proof (cases "w_alloc w (w_calls w + 1) 56")
    case None
    with Some k show ?thesis using assms
      by (simp add: BIO_new_def w_malloc_def method_create_def bio_new_def fresh_def fun_upd_idem)
  next
    case (Some y)
    with \<open>w_alloc w (w_calls w) 96 = Some x\<close> show ?thesis using assms
      by (simp add: BIO_new_def w_malloc_def method_create_def bio_new_def fresh_def bio_world upd_bio_def new_end_def bio_zero_def Let_def)
  qed
qed

text \<open>An end not connected to anything is released without touching anything else.\<close>

lemma BIO_free_end:
  assumes "w_bios w a = Some s" "bio_meth s = Some BIO_S_BIO" "bio_refs s = 1" "bio_next s = None"
    "bio_pair s = Some b" "pb_peer b = None"
  shows "\<exists>w'. BIO_free (Some a) w = Some (True, w') \<and> w_bios w' = (w_bios w)(a := None) \<and> w_errs w' = w_errs w"
  using assms
  by (simp add: BIO_free.simps CRYPTO_refcount_dec_and_test_zero_def CRYPTO_REFCOUNT_MAX_def method_destroy_def
      bio_free_def pair_at_def bio_world) (simp add: upd_bio_def)

lemma BIO_free_NULL: "BIO_free None w = Some (True, w)"
  by (simp add: BIO_free.simps)

definition buf_cap :: "nat \<Rightarrow> nat" where
  "buf_cap n = (if n = 0 then 17 * 1024 else n)"

definition new_chan :: "nat \<Rightarrow> chan" where
  "new_chan n = \<lparr>ch_bytes = [], ch_cap = buf_cap n, ch_closed = False, ch_request = 0\<rparr>"

definition new_duplex :: "nat \<Rightarrow> nat \<Rightarrow> bio_reason list \<Rightarrow> duplex" where
  "new_duplex n1 n2 es = \<lparr>chans = (\<lambda>s. case s of S1 \<Rightarrow> new_chan n1 | S2 \<Rightarrow> new_chan n2), retry = (\<lambda>_. 0), errlog = es\<rparr>"

definition ends :: "nat \<times> nat \<Rightarrow> side \<Rightarrow> nat" where
  "ends p s = (case s of S1 \<Rightarrow> fst p | S2 \<Rightarrow> snd p)"

definition alloc_ok :: "world \<Rightarrow> bool" where
  "alloc_ok w \<longleftrightarrow> (\<forall>i n b. w_alloc w i n = Some b \<longrightarrow> length b = n)"

lemma make_buf_end:
  assumes s: "w_bios w a = Some s" "bio_pair s = Some b" "pb_buf b = None" "pb_size b = 17 * 1024" and al: "alloc_ok w"
  shows "\<exists>ok w' s' b'. make_buf a n w = Some (ok, w') \<and> w_alloc w' = w_alloc w \<and> w_bios w' = (w_bios w)(a \<mapsto> s') \<and>
    s' = s\<lparr>bio_pair := Some b'\<rparr> \<and> pb_peer b' = pb_peer b \<and>
    (ok \<longrightarrow> w_errs w' = w_errs w \<and> (\<exists>blk. length blk = buf_cap n \<and>
       b' = b\<lparr>pb_size := buf_cap n, pb_buf := Some blk, pb_len := 0, pb_offset := 0\<rparr>))"
proof (cases "w_alloc w (w_calls w) (buf_cap n)")
  case None
  have e: "w_bios w = (w_bios w)(a \<mapsto> s\<lparr>bio_pair := Some b\<rparr>)" using s by (simp add: fun_upd_idem)
  show ?thesis
  proof (cases "n = 0")
    case True
    with s None e show ?thesis
      by (intro exI [of _ False] exI [of _ "w\<lparr>w_calls := Suc (w_calls w), w_errs := w_errs w @ [ERR_R_MALLOC_FAILURE]\<rparr>"]
          exI [of _ "s\<lparr>bio_pair := Some b\<rparr>"] exI [of _ b])
        (simp add: make_buf_def pair_at_def w_malloc_def buf_cap_def OPENSSL_PUT_ERROR_def)
  next
    case False
    with s None show ?thesis
      by (intro exI [of _ False] exI [of _ "w\<lparr>w_bios := (w_bios w)(a \<mapsto> s\<lparr>bio_pair := Some (b\<lparr>pb_size := n\<rparr>)\<rparr>), w_calls := Suc (w_calls w), w_errs := w_errs w @ [ERR_R_MALLOC_FAILURE]\<rparr>"]
          exI [of _ "s\<lparr>bio_pair := Some (b\<lparr>pb_size := n\<rparr>)\<rparr>"] exI [of _ "b\<lparr>pb_size := n\<rparr>"])
        (simp add: make_buf_def pair_at_def w_malloc_def buf_cap_def upd_pair_def upd_bio_def OPENSSL_PUT_ERROR_def)
  qed
next
  case (Some blk)
  then have "length blk = buf_cap n" using al by (simp add: alloc_ok_def)
  with s Some show ?thesis
    by (auto simp: make_buf_def pair_at_def w_malloc_def buf_cap_def bio_world upd_pair_def upd_bio_def intro!: exI)
qed

text \<open>
  Either the two BIOs are connected, or none is left behind.
\<close>

lemma BIO_new_bio_pair_result:
  assumes w: "fresh w" "alloc_ok w" and n: "n1 < 2 ^ 63" "n2 < 2 ^ 63"
  shows "\<exists>r w'. BIO_new_bio_pair n1 n2 w = Some (r, w') \<and>
    (case r of None \<Rightarrow> w_bios w' = w_bios w
     | Some p \<Rightarrow> pair_rel (ends p) w' (new_duplex n1 n2 (w_errs w)) \<and>
         (\<forall>a. w_bios w a \<noteq> None \<longrightarrow> w_bios w' a = w_bios w a))"
proof -
  from BIO_new_end [OF w(1)] obtain r1 w1 where 1: "BIO_new BIO_S_BIO w = Some (r1, w1)" "w_alloc w1 = w_alloc w" "fresh w1"
    and 11: "case r1 of None \<Rightarrow> w_bios w1 = w_bios w
     | Some a \<Rightarrow> a = w_calls w \<and> w_bios w1 = (w_bios w)(a \<mapsto> new_end) \<and> w_errs w1 = w_errs w" by auto
  from BIO_new_end [OF 1(3)] obtain r2 w2 where 2: "BIO_new BIO_S_BIO w1 = Some (r2, w2)" "w_alloc w2 = w_alloc w1" "fresh w2"
    and 22: "case r2 of None \<Rightarrow> w_bios w2 = w_bios w1
     | Some a \<Rightarrow> a = w_calls w1 \<and> w_bios w2 = (w_bios w1)(a \<mapsto> new_end) \<and> w_errs w2 = w_errs w1" by auto
  have f1: "w_bios w (w_calls w) = None" "w_bios w1 (w_calls w1) = None"
    using w(1) 1(3) by (simp_all add: fresh_def)
  have al2: "alloc_ok w2" using w(2) 1 2 by (simp add: alloc_ok_def)
  show ?thesis
  proof (cases "r1 = None \<or> r2 = None")
    case True
    have fr: "\<exists>w'. BIO_free (Some a) v = Some (True, w') \<and> w_bios w' = (w_bios v)(a := None) \<and> w_errs w' = w_errs v"
      if "w_bios v a = Some new_end" for v a
      using BIO_free_end [OF that, of "the (bio_pair new_end)"] by (simp add: new_end_def bio_zero_def)
    show ?thesis
    proof (cases r1)
      case None
      show ?thesis
      proof (cases r2)
        case (Some b)
        then obtain w3 where "BIO_free (Some b) w2 = Some (True, w3)" "w_bios w3 = (w_bios w2)(b := None)"
          using fr [of w2 b] 22 by auto
        then show ?thesis using None Some 1 2 11 22 f1
          by (simp add: BIO_new_bio_pair_def BIO_free_NULL fun_upd_idem)
      qed (use None 1 2 11 22 in \<open>simp add: BIO_new_bio_pair_def BIO_free_NULL\<close>)
    next
      case (Some a)
      then have "r2 = None" using True by simp
      moreover obtain w3 where "BIO_free (Some a) w2 = Some (True, w3)" "w_bios w3 = (w_bios w2)(a := None)"
        using fr [of w2 a] 11 22 Some \<open>r2 = None\<close> by auto
      ultimately show ?thesis using Some 1 2 11 22 f1
        by (simp add: BIO_new_bio_pair_def BIO_free_NULL fun_upd_idem)
    qed
  next
    case False
    then obtain a b where ab: "r1 = Some a" "r2 = Some b" by auto
    then have a: "a = w_calls w" and b: "b = w_calls w1" and w2: "w_bios w2 = (w_bios w)(a \<mapsto> new_end, b \<mapsto> new_end)"
      and es: "w_errs w2 = w_errs w" and ne: "a \<noteq> b"
      using 11 22 f1 by auto
    have new: "w_bios w a = None" "w_bios w b = None" using f1 11 22 ab ne a b by (auto split: if_splits)
    define e where "e = \<lparr>pb_peer = None, pb_closed = False, pb_len = 0, pb_offset = 0, pb_size = 17 * 1024,
       pb_buf = None, pb_request = 0\<rparr>"
    have ee: "bio_pair new_end = Some e" "pb_buf e = None" "pb_size e = 17 * 1024" "pb_peer e = None"
      by (simp_all add: new_end_def e_def)
    obtain ok1 w3 s1 b1 where m1: "make_buf a n1 w2 = Some (ok1, w3)" "w_alloc w3 = w_alloc w2" "w_bios w3 = (w_bios w2)(a \<mapsto> s1)"
      "s1 = new_end\<lparr>bio_pair := Some b1\<rparr>" "pb_peer b1 = None"
      "ok1 \<longrightarrow> w_errs w3 = w_errs w2 \<and> (\<exists>blk. length blk = buf_cap n1 \<and>
         b1 = e\<lparr>pb_size := buf_cap n1, pb_buf := Some blk, pb_len := 0, pb_offset := 0\<rparr>)"
      using make_buf_end [of w2 a new_end e n1] w2 ne ee al2 by fastforce
    have al3: "alloc_ok w3" using al2 m1 by (simp add: alloc_ok_def)
    obtain ok2 w4 s2 b2 where m2: "make_buf b n2 w3 = Some (ok2, w4)" "w_alloc w4 = w_alloc w3" "w_bios w4 = (w_bios w3)(b \<mapsto> s2)"
      "s2 = new_end\<lparr>bio_pair := Some b2\<rparr>" "pb_peer b2 = None"
      "ok2 \<longrightarrow> w_errs w4 = w_errs w3 \<and> (\<exists>blk. length blk = buf_cap n2 \<and>
         b2 = e\<lparr>pb_size := buf_cap n2, pb_buf := Some blk, pb_len := 0, pb_offset := 0\<rparr>)"
      using make_buf_end [of w3 b new_end e n2] w2 m1(3) ne ee al3 by fastforce
    have pr: "pair_at a w2 = Some e" "pair_at b w2 = Some e" using w2 ne ee by (simp_all add: pair_at_def)
    have mk: "BIO_new_bio_pair n1 n2 w =
      Option.bind (bio_make_pair a b n1 n2 w2) (\<lambda>(ok, w).
        if ok then Some (Some (a, b), w)
        else Option.bind (BIO_free (Some a) w) (\<lambda>(_, w).
             Option.bind (BIO_free (Some b) w) (\<lambda>(_, w). Some (None, w))))"
      using 1 2 ab by (simp add: BIO_new_bio_pair_def cong: if_cong)
    have drop: "\<exists>v'. Option.bind (BIO_free (Some a) v) (\<lambda>(_, w).
             Option.bind (BIO_free (Some b) w) (\<lambda>(_, w). Some (None, w))) = Some (None :: (nat \<times> nat) option, v') \<and> w_bios v' = w_bios w"
      if v: "w_bios v = (w_bios w)(a \<mapsto> new_end\<lparr>bio_pair := Some x\<rparr>, b \<mapsto> new_end\<lparr>bio_pair := Some y\<rparr>)" "pb_peer x = None" "pb_peer y = None" for v x y
    proof -
      obtain v1 where v1: "BIO_free (Some a) v = Some (True, v1)" "w_bios v1 = (w_bios v)(a := None)"
        using BIO_free_end [of v a "new_end\<lparr>bio_pair := Some x\<rparr>" x] v ne by (auto simp: new_end_def bio_zero_def)
      obtain v2 where "BIO_free (Some b) v1 = Some (True, v2)" "w_bios v2 = (w_bios v1)(b := None)"
        using BIO_free_end [of v1 b "new_end\<lparr>bio_pair := Some y\<rparr>" y] v v1 ne by (auto simp: new_end_def bio_zero_def)
      with v1 v new ne show ?thesis by (auto simp: fun_upd_idem fun_upd_twist)
    qed
    have ne_e: "new_end\<lparr>bio_pair := Some e\<rparr> = new_end" using ee by (simp add: new_end_def e_def bio_zero_def)
    consider "\<not> ok1" | "ok1" "\<not> ok2" | "ok1" "ok2" by auto
    then show ?thesis
    proof cases
      case 1
      have "w_bios w3 = (w_bios w)(a \<mapsto> new_end\<lparr>bio_pair := Some b1\<rparr>, b \<mapsto> new_end\<lparr>bio_pair := Some e\<rparr>)"
        using m1 w2 ne ne_e by (simp add: fun_upd_twist)
      from drop [OF this m1(5)] ee m1(5) obtain v' where "Option.bind (BIO_free (Some a) w3) (\<lambda>(_, w).
          Option.bind (BIO_free (Some b) w) (\<lambda>(_, w). Some (None, w))) = Some (None :: (nat \<times> nat) option, v')" "w_bios v' = w_bios w" by auto
      with ee 1 m1(1) pr mk show ?thesis
        by (intro exI [of _ None] exI [of _ v']) (simp add: bio_make_pair_def)
    next
      case 2
      have "w_bios w4 = (w_bios w)(a \<mapsto> new_end\<lparr>bio_pair := Some b1\<rparr>, b \<mapsto> new_end\<lparr>bio_pair := Some b2\<rparr>)"
        using m1 m2 w2 ne by (simp add: fun_upd_twist)
      from drop [OF this m1(5) m2(5)] obtain v' where "Option.bind (BIO_free (Some a) w4) (\<lambda>(_, w).
          Option.bind (BIO_free (Some b) w) (\<lambda>(_, w). Some (None, w))) = Some (None :: (nat \<times> nat) option, v')" "w_bios v' = w_bios w" by auto
      with ee 2 m1(1) m2(1) pr mk show ?thesis
        by (intro exI [of _ None] exI [of _ v']) (simp add: bio_make_pair_def)
    next
      case 3
      obtain x y where x: "length x = buf_cap n1" "b1 = e\<lparr>pb_size := buf_cap n1, pb_buf := Some x, pb_len := 0, pb_offset := 0\<rparr>"
        and y: "length y = buf_cap n2" "b2 = e\<lparr>pb_size := buf_cap n2, pb_buf := Some y, pb_len := 0, pb_offset := 0\<rparr>"
        and es4: "w_errs w4 = w_errs w"
        using m1(6) m2(6) 3 es by auto
      have w4: "w_bios w4 = (w_bios w)(a \<mapsto> new_end\<lparr>bio_pair := Some b1\<rparr>, b \<mapsto> new_end\<lparr>bio_pair := Some b2\<rparr>)"
        using m1 m2 w2 ne by (simp add: fun_upd_twist)
      let ?f = "\<lambda>p b. b\<lparr>pb_peer := Some p, pb_closed := False, pb_request := 0\<rparr>"
      let ?w = "upd_bio b (\<lambda>s. s\<lparr>bio_init := True\<rparr>) (upd_bio a (\<lambda>s. s\<lparr>bio_init := True\<rparr>)
        (upd_pair b (?f a) (upd_pair a (?f b) w4)))"
      have res: "BIO_new_bio_pair n1 n2 w = Some (Some (a, b), ?w)"
        using pr ee m1(1) m2(1) 3 unfolding mk by (simp add: bio_make_pair_def)
      have ea: "end_is ?w a (?f b b1) 0" and eb: "end_is ?w b (?f a b2) 0"
        using w4 ne by (auto simp: end_is_def bio_world new_end_def bio_zero_def BIO_get_retry_flags_def)
      have cap: "0 < buf_cap n1" "0 < buf_cap n2" "buf_cap n1 < 2 ^ 63" "buf_cap n2 < 2 ^ 63"
        using n by (auto simp: buf_cap_def)
      have "ring_ok (?f b b1)" "ring_ok (?f a b2)" "chan_of (?f b b1) = new_chan n1" "chan_of (?f a b2) = new_chan n2"
        using x y cap by (simp_all add: ring_ok_def chan_of_def new_chan_def queue_def e_def)
      then have "pair_rel (ends (a, b)) ?w (new_duplex n1 n2 (w_errs w))"
        unfolding rel_sides [of _ _ _ S1]
        using ea eb ne es4 by (auto simp: end_at_def ends_def new_duplex_def bio_world intro!: exI)
      moreover have "w_bios ?w k = w_bios w k" if "w_bios w k \<noteq> None" for k
        using that new w4 by (auto simp: bio_world)
      ultimately show ?thesis using res by simp
    qed
  qed
qed

section \<open>Each direction is a channel\<close>

text \<open>What side \<open>s\<close> has written and the other side has not read, and whether \<open>s\<close> has shut down.\<close>

definition dir_inv :: "(side \<Rightarrow> nat) \<Rightarrow> world \<Rightarrow> bool" where
  "dir_inv at w \<longleftrightarrow> (\<exists>d. pair_rel at w d)"

definition dir_pending :: "(side \<Rightarrow> nat) \<Rightarrow> side \<Rightarrow> world \<Rightarrow> bytes" where
  "dir_pending at s w = queue (the (pair_at (at s) w))"

definition dir_closed :: "(side \<Rightarrow> nat) \<Rightarrow> side \<Rightarrow> world \<Rightarrow> bool" where
  "dir_closed at s w = pb_closed (the (pair_at (at s) w))"

definition dir_send :: "(side \<Rightarrow> nat) \<Rightarrow> side \<Rightarrow> bytes \<Rightarrow> int bio_op" where
  "dir_send at s data = BIO_write (Some (at s)) (Some data) (int (length data))"

definition dir_recv :: "(side \<Rightarrow> nat) \<Rightarrow> side \<Rightarrow> nat \<Rightarrow> (int \<times> bytes) bio_op" where
  "dir_recv at s n = BIO_read (Some (at (other s))) False (int n)"

definition dir_shut :: "(side \<Rightarrow> nat) \<Rightarrow> side \<Rightarrow> int bio_op" where
  "dir_shut at s = BIO_shutdown_wr (Some (at s))"

lemma dir_abs:
  assumes "pair_rel at w d"
  shows "dir_pending at s w = ch_bytes (chans d s)" "dir_closed at s w = ch_closed (chans d s)"
    "length (ch_bytes (chans d s)) \<le> ch_cap (chans d s)" "0 < ch_cap (chans d s)"
proof -
  obtain b where b: "end_is w (at s) b (retry d s)" "ring_ok b" "chan_of b = chans d s"
    using assms unfolding rel_sides [of _ _ _ s] by (auto simp: end_at_def)
  then show "dir_pending at s w = ch_bytes (chans d s)" "dir_closed at s w = ch_closed (chans d s)"
    by (simp_all add: dir_pending_def dir_closed_def end_is_pair_at [OF b(1)] chan_fields [OF b(3)])
  show "length (ch_bytes (chans d s)) \<le> ch_cap (chans d s)" "0 < ch_cap (chans d s)"
    using b(2) by (auto simp: chan_fields [OF b(3)] ring_ok_def)
qed

lemma plain_Some: "plain f w = Some (r, w') \<Longrightarrow> f w = Some (fst r, w')"
  by (cases "f w") (auto simp: plain_def)

interpretation pair_dir: byte_channel "dir_inv at" "dir_pending at s" "dir_closed at s"
    "dir_send at s" "dir_recv at s" "dir_shut at s" for at s
proof unfold_locales
  fix w and data :: bytes
  assume "dir_inv at w" "\<not> dir_closed at s w" and data: "data \<noteq> []" "length data \<le> INT_MAX"
  then obtain d where d: "pair_rel at w d" "\<not> ch_closed (chans d s)" by (auto simp: dir_inv_def dir_abs)
  define k where "k = min (length data) (ch_cap (chans d s) - length (ch_bytes (chans d s)))"
  obtain w' where w': "pair_step at (Write s (Some data) (int (length data))) w =
      Some (fst (spec_step (Write s (Some data) (int (length data))) d), w')"
    and r': "pair_rel at w' (snd (spec_step (Write s (Some data) (int (length data))) d))"
    using pair_step_refines [OF d(1), of "Write s (Some data) (int (length data))"] data by auto
  then have sent: "dir_send at s data w = Some (fst (fst (spec_step (Write s (Some data) (int (length data))) d)), w')"
    unfolding dir_send_def by (intro plain_Some) simp
  note abs' = dir_abs [OF r', of s]
  show "\<exists>r w'. dir_send at s data w = Some (r, w') \<and> dir_inv at w' \<and> \<not> dir_closed at s w' \<and>
    (0 < r \<and> nat r \<le> length data \<and> dir_pending at s w' = dir_pending at s w @ take (nat r) data \<or>
     r \<le> 0 \<and> dir_pending at s w \<noteq> [] \<and> dir_pending at s w' = dir_pending at s w)"
  proof (cases "length (ch_bytes (chans d s)) = ch_cap (chans d s)")
    case True
    have "dir_inv at w'" "\<not> dir_closed at s w'" "dir_pending at s w' = dir_pending at s w"
      "fst (fst (spec_step (Write s (Some data) (int (length data))) d)) = - 1"
      using r' d data True abs' dir_abs [OF d(1), of s] by (auto simp: dir_inv_def chan_write_def Let_def)
    moreover have "dir_pending at s w \<noteq> []" using True dir_abs [OF d(1), of s] by auto
    ultimately show ?thesis using sent by auto
  next
    case False
    then have k: "0 < k" "k \<le> length data" using data dir_abs [OF d(1), of s] by (auto simp: k_def)
    have "dir_inv at w'" "\<not> dir_closed at s w'" "dir_pending at s w' = dir_pending at s w @ take k data"
      "fst (fst (spec_step (Write s (Some data) (int (length data))) d)) = int k"
      using r' d data False abs' dir_abs [OF d(1), of s] by (auto simp: dir_inv_def chan_write_def Let_def k_def)
    with sent k show ?thesis by auto
  qed
next
  fix w and n :: nat
  assume "dir_inv at w" and n: "0 < n" "n \<le> INT_MAX"
  then obtain d where d: "pair_rel at w d" by (auto simp: dir_inv_def)
  let ?q = "Read (other s) False (int n)"
  obtain w' where w': "dir_recv at s n w = Some (fst (spec_step ?q d), w')" and r': "pair_rel at w' (snd (spec_step ?q d))"
    using pair_step_refines [OF d, of ?q] n by (auto simp: dir_recv_def)
  note a = dir_abs(1,2) [OF d, of s] and abs' = dir_abs(1,2) [OF r', of s]
  define k where "k = min n (length (ch_bytes (chans d s)))"
  have spec_read:
    "fst (fst (spec_step ?q d)) = (if ch_bytes (chans d s) = [] then if ch_closed (chans d s) then 0 else - 1 else int k)"
    "snd (fst (spec_step ?q d)) = take k (ch_bytes (chans d s))"
    "ch_bytes (chans (snd (spec_step ?q d)) s) = drop k (ch_bytes (chans d s))"
    "ch_closed (chans (snd (spec_step ?q d)) s) = ch_closed (chans d s)"
    using n by (cases "ch_bytes (chans d s) = []"; cases "ch_closed (chans d s)"; simp add: chan_read_def Let_def k_def)+
  have "dir_inv at w'" using r' by (auto simp: dir_inv_def)
  moreover have "dir_closed at s w' = dir_closed at s w"
    "dir_pending at s w = snd (fst (spec_step ?q d)) @ dir_pending at s w'"
    "snd (fst (spec_step ?q d)) = [] \<longleftrightarrow> dir_pending at s w = []"
    "fst (fst (spec_step ?q d)) = 0 \<longleftrightarrow> dir_pending at s w = [] \<and> dir_closed at s w"
    unfolding a abs' spec_read using n by (auto simp: k_def min_def split: if_splits)
  ultimately show "\<exists>r out w'. dir_recv at s n w = Some ((r, out), w') \<and> dir_inv at w' \<and>
      dir_closed at s w' = dir_closed at s w \<and> dir_pending at s w = out @ dir_pending at s w' \<and>
      (out = [] \<longleftrightarrow> dir_pending at s w = []) \<and> (r = 0 \<longleftrightarrow> dir_pending at s w = [] \<and> dir_closed at s w)"
    using w' by (intro exI [of _ "fst (fst (spec_step ?q d))"] exI [of _ "snd (fst (spec_step ?q d))"] exI [of _ w'] conjI)
      (simp_all del: spec_step.simps)
next
  fix w assume "dir_inv at w"
  then obtain d where d: "pair_rel at w d" by (auto simp: dir_inv_def)
  obtain w' where "plain (dir_shut at s) w = Some ((1, []), w')" and r': "pair_rel at w' (snd (spec_step (Shutdown s) d))"
    using pair_step_refines [OF d, of "Shutdown s"] by (auto simp: dir_shut_def)
  then have "dir_shut at s w = Some (1, w')" by (metis plain_Some fst_conv)
  moreover have "dir_inv at w'" using r' by (auto simp: dir_inv_def)
  moreover have "dir_closed at s w'" "dir_pending at s w' = dir_pending at s w"
    using dir_abs [OF d, of s] dir_abs [OF r', of s] by simp_all
  ultimately show "\<exists>r w'. dir_shut at s w = Some (r, w') \<and> dir_inv at w' \<and> dir_closed at s w' \<and> dir_pending at s w' = dir_pending at s w"
    by blast
qed

section \<open>The guarantees\<close>

text \<open>C4. A pair either cannot be allocated, and then no BIO is left behind, or its two ends behave as
  two bounded byte queues: any sequence of reads, writes, shutdowns and queries on either end returns
  the values, delivers the bytes, sets the retry flags and reports the errors of the queues, in
  particular across the wrap-around of the ring buffers; no assertion of the code fails.\<close>

theorem bio_pair_refines_queues:
  assumes "fresh w" "alloc_ok w" "n1 < 2 ^ 63" "n2 < 2 ^ 63" "\<forall>q \<in> set qs. op_valid q"
  shows "\<exists>r w'. BIO_new_bio_pair n1 n2 w = Some (r, w') \<and>
    (case r of
       None \<Rightarrow> w_bios w' = w_bios w
     | Some p \<Rightarrow>
         let (rs, d) = spec_steps qs (new_duplex n1 n2 (w_errs w)) in
         \<exists>w''. pair_steps (ends p) qs w' = Some (rs, w'') \<and> w_errs w'' = errlog d)"
proof -
  obtain r w' where r: "BIO_new_bio_pair n1 n2 w = Some (r, w')"
    "case r of None \<Rightarrow> w_bios w' = w_bios w
     | Some p \<Rightarrow> pair_rel (ends p) w' (new_duplex n1 n2 (w_errs w)) \<and>
         (\<forall>a. w_bios w a \<noteq> None \<longrightarrow> w_bios w' a = w_bios w a)"
    using BIO_new_bio_pair_result [OF assms(1-4)] by blast
  show ?thesis
  proof (cases r)
    case None
    with r show ?thesis by auto
  next
    case (Some p)
    then have "pair_rel (ends p) w' (new_duplex n1 n2 (w_errs w))" using r(2) by simp
    from pair_steps_refine [OF this assms(5)] obtain w'' where
      "pair_steps (ends p) qs w' = Some (fst (spec_steps qs (new_duplex n1 n2 (w_errs w))), w'')"
      "w_errs w'' = errlog (snd (spec_steps qs (new_duplex n1 n2 (w_errs w))))"
      by (auto simp: pair_rel_def)
    with r(1) Some show ?thesis by (simp add: case_prod_beta)
  qed
qed

definition demo_world :: world where
  "demo_world = \<lparr>w_bios = (\<lambda>_. None), w_errs = [], w_alloc = (\<lambda>i n. Some (replicate n 0)), w_calls = 0\<rparr>"

lemma demo_world_ok: "fresh demo_world" "alloc_ok demo_world"
  by (auto simp: demo_world_def fresh_def alloc_ok_def)

definition demo_ops :: "pair_op list" where
  "demo_ops = [Write S1 (Some [1, 2, 3]) 3, Read S2 False 2, Write S1 (Some [4, 5, 6, 7]) 4, Shutdown S1,
     Read S2 False 9, Read S2 False 9, Write S1 (Some [8]) 1, Read S1 False 5, Request S2]"

lemma demo_ops_spec:
  "fst (spec_steps demo_ops (new_duplex 4 0 [])) =
     [(3, []), (2, [1, 2]), (3, []), (1, []), (4, [3, 4, 5, 6]), (0, []), (- 1, []), (- 1, []), (5, [])]"
  "errlog (snd (spec_steps demo_ops (new_duplex 4 0 []))) = [BIO_R_BROKEN_PIPE]"
  by code_simp+

lemma bio_pair_refines_queues_witness:
  "\<exists>r w'. BIO_new_bio_pair 4 0 demo_world = Some (r, w') \<and>
    (case r of
       None \<Rightarrow> w_bios w' = w_bios demo_world
     | Some p \<Rightarrow> \<exists>w''. pair_steps (ends p) demo_ops w' =
         Some ([(3, []), (2, [1, 2]), (3, []), (1, []), (4, [3, 4, 5, 6]), (0, []), (- 1, []), (- 1, []), (5, [])], w'') \<and>
         w_errs w'' = [BIO_R_BROKEN_PIPE])"
proof -
  have "\<forall>q \<in> set demo_ops. op_valid q" by (simp add: demo_ops_def INT_MAX_def)
  moreover have "w_errs demo_world = []" by (simp add: demo_world_def)
  ultimately show ?thesis
    using bio_pair_refines_queues [OF demo_world_ok, of 4 0 demo_ops] demo_ops_spec
    by (simp add: case_prod_beta cong: option.case_cong)
qed

text \<open>C5. A BIO pair delivers: whatever the sizes of its buffers, a sender that writes a message in
  pieces and then shuts its end down, and a reader on the other end, get the whole message across in
  order, followed by the end of the stream, under every schedule that keeps giving both of them turns.\<close>

theorem bio_pair_delivers:
  assumes "fresh w" "alloc_ok w" "n1 < 2 ^ 63" "n2 < 2 ^ 63"
    and "BIO_new_bio_pair n1 n2 w = Some (Some p, w')" and "fair sched"
  shows "\<exists>t x. transfer_run (dir_send (ends p) s) (dir_recv (ends p) s) (dir_shut (ends p) s) sched t (start msg w') = Some x \<and>
    got x = msg \<and> todo x = [] \<and> ended x"
proof (rule pair_dir.delivers [OF pair_dir.start_sound assms(6)])
  from BIO_new_bio_pair_result [OF assms(1-4)] assms(5)
  have rel: "pair_rel (ends p) w' (new_duplex n1 n2 (w_errs w))" by auto
  then show "dir_inv (ends p) w'" by (auto simp: dir_inv_def)
  show "dir_pending (ends p) s w' = []" "\<not> dir_closed (ends p) s w'"
    by (cases s; simp add: dir_abs [OF rel] new_duplex_def new_chan_def)+
qed

definition demo_sched :: "nat \<Rightarrow> action" where
  "demo_sched t = (if even t then Send 5 else Recv 3)"

lemma demo_sched_fair: "fair demo_sched"
  unfolding fair_def
proof (intro conjI allI)
  fix t
  show "0 < amount (demo_sched t)" "amount (demo_sched t) \<le> INT_MAX" by (simp_all add: demo_sched_def INT_MAX_def)
  show "\<exists>u\<ge>t. is_send (demo_sched u)" by (rule exI [of _ "2 * t"]) (simp add: demo_sched_def)
  show "\<exists>u\<ge>t. \<not> is_send (demo_sched u)" by (rule exI [of _ "2 * t + 1"]) (simp add: demo_sched_def)
qed

text \<open>A pair in the example world, seven bytes through a buffer of four.\<close>

lemma demo_pair: "map_option fst (BIO_new_bio_pair 4 4 demo_world) = Some (Some (0, 2))"
  by code_simp

lemma bio_pair_delivers_witness:
  "\<exists>w' t x. BIO_new_bio_pair 4 4 demo_world = Some (Some (0, 2), w') \<and>
    transfer_run (dir_send (ends (0, 2)) S1) (dir_recv (ends (0, 2)) S1) (dir_shut (ends (0, 2)) S1) demo_sched t
      (start [1, 2, 3, 4, 5, 6, 7] w') = Some x \<and>
    got x = [1, 2, 3, 4, 5, 6, 7] \<and> todo x = [] \<and> ended x"
proof -
  obtain w' where w': "BIO_new_bio_pair 4 4 demo_world = Some (Some (0, 2), w')" using demo_pair by auto
  from bio_pair_delivers [OF demo_world_ok _ _ w' demo_sched_fair, of S1 "[1, 2, 3, 4, 5, 6, 7]"] w'
  show ?thesis by auto
qed

end
