(* ===== verification/Bio_Asn1.thy ===== *)
theory Bio_Asn1
  imports Duplex
begin

text \<open>
  \<open>BIO_read_asn1\<close> on any BIO that hands out its bytes in order and then reports the end: the locale
  \<open>byte_source\<close>, which a memory BIO and the reading end of a pair that the writer has shut down
  satisfy.  On a definite length it returns what the parser of \<^verbatim>\<open>cbs.c\<close> accepts, on the
  indefinite one everything up to the end.
\<close>

section \<open>Sources\<close>

definition can_alloc :: "world \<Rightarrow> bool" where
  "can_alloc w \<longleftrightarrow> (\<forall>i n. \<exists>b. w_alloc w i n = Some b \<and> length b = n)"

lemma can_alloc_malloc:
  assumes "can_alloc w"
  shows "\<exists>b. w_malloc n w = (Some b, w\<lparr>w_calls := w_calls w + 1\<rparr>) \<and> length b = n"
  using assms unfolding can_alloc_def w_malloc_def by (metis)

lemma low_bits: "ucast (t :: u8) AND 0x1f = (0x1f :: u32) \<longleftrightarrow> t AND 0x1f = 0x1f"
proof -
  have "ucast t AND (0x1f :: u32) = ucast (t AND 0x1f)" by (simp add: unsigned_and_eq)
  also have "\<dots> = 0x1f \<longleftrightarrow> t AND 0x1f = 0x1f"
  proof -
    have "unat (ucast x :: u32) = unat x" for x :: u8 by (simp add: unsigned_ucast_eq)
    from this [of "t AND 0x1f"] show ?thesis by (auto simp: word_unat_eq_iff)
  qed
  finally show ?thesis .
qed

text \<open>What \<open>BIO_read_asn1\<close> makes of a stream: the element the parser of \<^verbatim>\<open>cbs.c\<close> accepts, if it
  fits, or the whole stream for the indefinite length, if it is shorter than the limit.\<close>

definition read_asn1_spec :: "nat \<Rightarrow> bytes \<Rightarrow> bytes option" where
  "read_asn1_spec max_len inp =
     (case inp of
        t # l # r \<Rightarrow>
          if t AND 0x1f = 0x1f then None
          else if t AND 0x20 \<noteq> 0 \<and> l = 0x80 then (if length inp < max_len then Some inp else None)
          else (case CBS_get_any_asn1_element inp of
                  (Some (el, _, _), _) \<Rightarrow> if length el \<le> max_len then Some el else None
                | _ \<Rightarrow> None)
      | _ \<Rightarrow> None)"

locale byte_source =
  fixes bio :: "nat option" and src :: "world \<Rightarrow> bytes \<Rightarrow> bool"
  assumes read_law: "\<lbrakk>src w inp; n \<le> INT_MAX\<rbrakk> \<Longrightarrow>
      \<exists>w'. BIO_read bio False (int n) w = Some ((int (min n (length inp)), take n inp), w') \<and> src w' (drop n inp)"
    and src_calls: "src w inp \<Longrightarrow> src (w\<lparr>w_calls := k\<rparr>) inp"
    and src_alloc: "src w inp \<Longrightarrow> can_alloc w"
    and src_bound: "src w inp \<Longrightarrow> length inp \<le> INT_MAX"
begin

lemma body:
  assumes "src w inp" and n: "len < 2 ^ 32" and h: "length header \<le> 6"
  shows "\<exists>w'. read_asn1_body bio max_len header len w =
    Some (if len + length header \<le> max_len \<and> len \<le> length inp then Some (header @ take len inp) else None, w') \<and>
    (len + length header \<le> max_len \<and> len \<le> length inp \<longrightarrow> src w' (drop len inp))"
proof -
  have sz: "sz (len + length header) = len + length header" using n h by (intro sz_small) simp
  show ?thesis
  proof (cases "max_len < len + length header \<or> INT_MAX < len")
    case True
    with src_bound [OF assms(1)] show ?thesis by (auto simp: read_asn1_body_def sz)
  next
    case False
    then have m: "len \<le> INT_MAX" "len + length header \<le> max_len" by auto
    obtain blk where blk: "w_malloc (len + length header) w = (Some blk, w\<lparr>w_calls := w_calls w + 1\<rparr>)" "length blk = len + length header"
      using can_alloc_malloc [OF src_alloc [OF assms(1)], of "len + length header"] by blast
    obtain w' where w': "BIO_read bio False (int len) (w\<lparr>w_calls := w_calls w + 1\<rparr>) = Some ((int (min len (length inp)), take len inp), w')"
      "src w' (drop len inp)"
      using read_law [OF src_calls [OF assms(1)] m(1)] by blast
    have "blit (blit blk 0 header) (length header) (take len inp) = header @ take len inp" if "len \<le> length inp"
      using blk(2) that by (simp add: blit_def)
    then show ?thesis
      using False m blk w' by (auto simp: read_asn1_body_def sz Let_def int_of_size_id)
  qed
qed

lemma asn1:
  assumes s: "src w (t # l # r)" and t: "t AND 0x1f \<noteq> 0x1f" and d: "\<not> (t AND 0x20 \<noteq> 0 \<and> l = 0x80)"
  shows "\<exists>w'. BIO_read_asn1 bio max_len w =
    Some (case CBS_get_any_asn1_element (t # l # r) of
            (Some (el, _, _), _) \<Rightarrow> if length el \<le> max_len then Some el else None | _ \<Rightarrow> None, w') \<and>
    (\<forall>el tag hl rest. CBS_get_any_asn1_element (t # l # r) = (Some (el, tag, hl), rest) \<longrightarrow> length el \<le> max_len \<longrightarrow> src w' rest)"
proof -
  have "ucast t AND 0x1f \<noteq> (0x1f :: u32)" using t by (simp add: low_bits)
  then have "parse_asn1_tag (t # l # r) = (Some (join_tag t (ucast t AND 0x1f)), l # r)"
    by (simp add: parse_asn1_tag_Cons)
  then obtain tag where tag: "der_tag tag = [t]" by (auto simp: parse_asn1_tag_iff)
  obtain w1 where w1: "BIO_read bio False 2 w = Some ((2, [t, l]), w1)" "src w1 r"
  proof -
    have "2 \<le> INT_MAX" "min 2 (length (t # l # r)) = 2" "take 2 (t # l # r) = [t, l]" "drop 2 (t # l # r) = r"
      by (simp_all add: INT_MAX_def numeral_2_eq_2)
    with read_law [OF s, of 2] that show ?thesis by force
  qed
  show ?thesis
  proof (cases "unat l < 128")
    case True
    then have l: "l AND 0x80 = 0" using high_bit [of l] by auto
    from body [OF w1(2), of "unat l" "[t, l]" max_len] True obtain w' where
      "read_asn1_body bio max_len [t, l] (unat l) w1 =
        Some (if unat l + 2 \<le> max_len \<and> unat l \<le> length r then Some ([t, l] @ take (unat l) r) else None, w')"
      "unat l + 2 \<le> max_len \<and> unat l \<le> length r \<longrightarrow> src w' (drop (unat l) r)" by auto
    moreover have "BIO_read_asn1 bio max_len w = read_asn1_body bio max_len [t, l] (unat l) w1"
    proof -
      have h: "([t, l] ! 0) = t" "([t, l] ! 1) = l" by simp_all
      show ?thesis
        unfolding BIO_read_asn1_def w1(1) bind.bind_lunit prod.case Let_def h if_not_P [OF t] if_P [OF l] by simp
    qed
    moreover have "CBS_get_any_asn1_element (t # l # r) =
       (if length r < unat l then (None, t # l # r) else (Some (t # l # take (unat l) r, tag, 2), drop (unat l) r))"
      using element_eval [of tag l r] True by (simp add: tag)
    ultimately show ?thesis by (cases "length r < unat l") (simp_all add: min_def)
  next
    case False
    then have l: "l AND 0x80 \<noteq> 0" "unat (l AND 0x7f) = unat l - 128" using high_bit [of l] high_bits [of l] by auto
    define k where "k = unat l - 128"
    have cond: "\<not> (t AND 0x20 \<noteq> 0 \<and> k = 0)"
    proof
      assume "t AND 0x20 \<noteq> 0 \<and> k = 0"
      then have "unat l = unat (0x80 :: u8)" using False by (simp add: k_def)
      then have "l = 0x80" by (simp only: word_unat_eq_iff)
      then show False using d \<open>t AND 0x20 \<noteq> 0 \<and> k = 0\<close> by blast
    qed
    show ?thesis
    proof (cases "k = 0 \<or> 4 < k")
      case True
      then show ?thesis
        using element_eval [of tag l r] False l t w1 cond by (auto simp: tag BIO_read_asn1_def Let_def k_def)
    next
      case k: False
      then have "k \<le> INT_MAX" by (simp add: INT_MAX_def)
      from read_law [OF w1(2) this] obtain w2 where w2: "BIO_read bio False (int k) w1 = Some ((int (min k (length r)), take k r), w2)"
        "src w2 (drop k r)" by blast
      have bio: "BIO_read_asn1 bio max_len w =
         (if length r < k then Some (None, w2)
          else let v = foldl (\<lambda>v b. push_bit 8 v OR ucast b) (0 :: u32) (take k r) in
            if v < 128 \<or> drop_bit ((k - 1) * 8) v = 0 then Some (None, w2)
            else read_asn1_body bio max_len ([t, l] @ take k r) (unat v) w2)"
        using l t w1 w2 k cond by (auto simp: BIO_read_asn1_def Let_def k_def [symmetric] min_def)
      show ?thesis
      proof (cases "length r < k")
        case True
        then have "cbs_get_u k r = (None, r)" by (simp add: cbs_get_u_def bnd_def cbs_get_def)
        then show ?thesis
          using element_eval [of tag l r] False k True bio by (simp add: tag Let_def k_def [symmetric])
      next
        case rk: False
        define v where "v = foldl (\<lambda>v b. push_bit 8 v OR ucast b) (0 :: u32) (take k r)"
        have u: "cbs_get_u k r = (Some v, drop k r)"
          using rk by (simp add: cbs_get_u_def bnd_def cbs_get_def ret_def v_def)
        have v32: "unat v < 2 ^ 32" using unsigned_less [of v] by simp
        have sz: "sz (unat v + 2 + k) = unat v + 2 + k" using v32 k by (intro sz_small) simp
        have el: "CBS_get_any_asn1_element (t # l # r) =
           (if v < 128 \<or> drop_bit ((k - 1) * 8) v = 0 \<or> length r < unat v + k then (None, t # l # r)
            else (Some (t # l # take (unat v + k) r, tag, 2 + k), drop (unat v + k) r))"
          using element_eval [of tag l r] False k u sz by (simp add: tag k_def [symmetric])
        show ?thesis
        proof (cases "v < 128 \<or> drop_bit ((k - 1) * 8) v = 0")
          case True
          have "CBS_get_any_asn1_element (t # l # r) = (None, t # l # r)" unfolding el by (rule if_P) (use True in blast)
          moreover have "BIO_read_asn1 bio max_len w = Some (None, w2)"
            unfolding bio Let_def v_def [symmetric] if_not_P [OF rk] if_P [OF True] by simp
          ultimately show ?thesis by simp
        next
          case good: False
          have h: "length ([t, l] @ take k r) = 2 + k"
            "([t, l] @ take k r) @ take (unat v) (drop k r) = t # l # take (unat v + k) r"
            "unat v \<le> length (drop k r) \<longleftrightarrow> unat v + k \<le> length r" "drop (unat v) (drop k r) = drop (unat v + k) r"
            using rk by (auto simp: take_add [of k "unat v"] add.commute [of "unat v" k])
          have "length ([t, l] @ take k r) \<le> 6" using k h(1) by simp
          from body [OF w2(2) v32 this, of max_len] obtain w' where
            b: "read_asn1_body bio max_len ([t, l] @ take k r) (unat v) w2 =
              Some (if unat v + (2 + k) \<le> max_len \<and> unat v + k \<le> length r
                    then Some (t # l # take (unat v + k) r) else None, w')"
            "unat v + (2 + k) \<le> max_len \<and> unat v + k \<le> length r \<longrightarrow> src w' (drop (unat v + k) r)"
            unfolding h by blast
          have "BIO_read_asn1 bio max_len w = read_asn1_body bio max_len ([t, l] @ take k r) (unat v) w2"
            unfolding bio Let_def v_def [symmetric] if_not_P [OF rk] if_not_P [OF good] by simp
          with b show ?thesis using el good by (cases "length r < unat v + k") (simp_all add: ac_simps)
        qed
      qed
    qed
  qed
qed

lemma read_all:
  assumes "src w inp" "length blk = len" "dn \<le> len" "len \<le> max_len" "dn < len \<or> len = max_len"
    "len \<le> dn + 6144" "dn + length inp < 2 ^ 32" "max_len < 2 ^ 64"
  shows "\<exists>w'. read_all_loop max_len bio blk len dn w =
    Some (if dn + length inp < max_len then Some (take dn blk @ inp) else None, w')"
  using assms
proof (induction "length inp" arbitrary: inp w blk len dn rule: less_induct)
  case less
  note p = less.prems
  show ?case
  proof (cases "dn = len")
    case True
    then show ?thesis using p by (subst read_all_loop.simps) auto
  next
    case False
    then have lt: "dn < len" using p by simp
    define k where "k = min (len - dn) (length inp)"
    have todo: "len - dn \<le> INT_MAX" "\<not> INT_MAX \<le> len - dn" using p by (auto simp: INT_MAX_def)
    obtain w1 where w1: "BIO_read bio False (int (len - dn)) w = Some ((int k, take (len - dn) inp), w1)" "src w1 (drop (len - dn) inp)"
      using read_law [OF p(1) todo(1)] unfolding k_def by blast
    have tk: "take (len - dn) inp = take k inp" "drop (len - dn) inp = drop k inp" by (auto simp: k_def min_def)
    show ?thesis
    proof (cases "inp = []")
      case True
      then have "read_all_loop max_len bio blk len dn w = Some (Some (take dn blk), w1)"
        using lt False todo w1 by (subst read_all_loop.simps) (simp add: k_def)
      then show ?thesis using True lt p by simp
    next
      case ne: False
      then have k: "0 < k" "k \<le> length inp" "dn + k \<le> len" using lt by (auto simp: k_def)
      let ?blk = "blit blk dn (take k inp)"
      have blk: "length ?blk = len" "take (dn + k) ?blk = take dn blk @ take k inp"
        using p(2) k by (auto simp: length_blit blit_def)
      have dn: "sz (dn + size_of_int (int k)) = dn + k"
      proof -
        have "k < 2 ^ 63" "dn + k < 2 ^ 64" using k p(7) by auto
        then show ?thesis by (simp add: size_of_long sz_small)
      qed
      have lend: "sz (len + SIZE_LIMIT - (dn + k)) = len - (dn + k)" using k p by (intro sz_diff) auto
      have step: "read_all_loop max_len bio blk len dn w =
        (if len < max_len \<and> len - (dn + k) < 2048
         then let len' = sz (len + 4096); len' = (if len' < 4096 \<or> max_len < len' then max_len else len') in
           (case w_realloc (Some ?blk) len' w1 of
              (None, w) \<Rightarrow> Some (None, w)
            | (Some blk, w) \<Rightarrow> read_all_loop max_len bio blk len' (dn + k) w)
         else read_all_loop max_len bio ?blk len (dn + k) w1)"
        using False lt todo w1(1) k by (subst read_all_loop.simps) (simp add: Let_def tk dn lend cong: if_cong option.case_cong prod.case_cong split del: if_split)
      have fit: "dn + k + length (drop k inp) < 2 ^ 32" "dn + k + length (drop k inp) = dn + length inp" using k p(7) by auto
      have goal: "\<exists>w'. Some (if dn + k + length (drop k inp) < max_len then Some (take (dn + k) b @ drop k inp) else None, w'') =
          Some (if dn + length inp < max_len then Some (take dn blk @ inp) else None, w')"
        if "take (dn + k) b = take dn blk @ take k inp" for b and w'' :: world
        using that fit(2) by simp
      show ?thesis
      proof (cases "len < max_len \<and> len - (dn + k) < 2048")
        case grow: True
        define len' where "len' = (if max_len < len + 4096 then max_len else len + 4096)"
        have l4: "sz (len + 4096) = len + 4096" using p by (intro sz_small) simp
        have len': "len < len'" "len' \<le> max_len" "len' \<le> dn + k + 6144" "dn + k < len' \<or> len' = max_len"
          using grow k by (auto simp: len'_def)
        obtain nb where nb: "w_malloc len' w1 = (Some nb, w1\<lparr>w_calls := w_calls w1 + 1\<rparr>)" "length nb = len'"
          using can_alloc_malloc [OF src_alloc [OF w1(2)], of len'] by blast
        let ?nb = "blit nb 0 (take len' ?blk)"
        have nbl: "length ?nb = len'" "take (dn + k) ?nb = take (dn + k) ?blk"
          using nb(2) blk(1) len' k by (auto simp: length_blit blit_def)
        have "read_all_loop max_len bio blk len dn w = read_all_loop max_len bio ?nb len' (dn + k) (w1\<lparr>w_calls := w_calls w1 + 1\<rparr>)"
          using grow step nb(1) by (simp add: l4 len'_def [symmetric] w_realloc_def)
        moreover have "\<exists>w'. read_all_loop max_len bio ?nb len' (dn + k) (w1\<lparr>w_calls := w_calls w1 + 1\<rparr>) =
            Some (if dn + k + length (drop k inp) < max_len then Some (take (dn + k) ?nb @ drop k inp) else None, w')"
          using k ne len' nbl p(8) fit(1) src_calls [OF w1(2)] unfolding tk
          by (intro less.hyps) auto
        ultimately show ?thesis using goal [of ?nb] nbl(2) blk(2) by auto
      next
        case stay: False
        have "read_all_loop max_len bio blk len dn w = read_all_loop max_len bio ?blk len (dn + k) w1"
          unfolding step by (rule if_not_P [OF stay])
        moreover have "\<exists>w'. read_all_loop max_len bio ?blk len (dn + k) w1 =
            Some (if dn + k + length (drop k inp) < max_len then Some (take (dn + k) ?blk @ drop k inp) else None, w')"
          using k ne stay blk(1) p fit(1) w1(2) unfolding tk
          by (intro less.hyps) auto
        ultimately show ?thesis using goal [of ?blk] blk(2) by auto
      qed
    qed
  qed
qed

lemma indefinite:
  assumes s: "src w (t # 0x80 # r)" and t: "t AND 0x1f \<noteq> 0x1f" "t AND 0x20 \<noteq> 0" and m: "max_len < 2 ^ 64"
  shows "\<exists>w'. BIO_read_asn1 bio max_len w =
    Some (if length (t # 0x80 # r) < max_len then Some (t # 0x80 # r) else None, w')"
proof -
  obtain w1 where w1: "BIO_read bio False 2 w = Some ((2, [t, 0x80]), w1)" "src w1 r"
  proof -
    have "2 \<le> INT_MAX" "min 2 (length (t # 0x80 # r)) = 2" "take 2 (t # 0x80 # r) = [t, 0x80]" "drop 2 (t # 0x80 # r) = r"
      by (simp_all add: INT_MAX_def numeral_2_eq_2)
    with read_law [OF s, of 2] that show ?thesis by force
  qed
  have "BIO_read_asn1 bio max_len w = bio_read_all bio [t, 0x80] max_len w1"
    using t w1(1) by (simp add: BIO_read_asn1_def)
  also have "\<exists>w'. \<dots> = Some (if length (t # 0x80 # r) < max_len then Some (t # 0x80 # r) else None, w')"
  proof (cases "max_len < 2")
    case True
    then show ?thesis by (simp add: bio_read_all_def sz_small)
  next
    case False
    define len where "len = (if max_len < 4098 then max_len else 4098 :: nat)"
    obtain blk where blk: "w_malloc len w1 = (Some blk, w1\<lparr>w_calls := w_calls w1 + 1\<rparr>)" "length blk = len"
      using can_alloc_malloc [OF src_alloc [OF w1(2)], of len] by blast
    let ?blk = "blit blk 0 [t, 0x80]"
    have len: "2 \<le> len" "len \<le> max_len" "len \<le> 4098" "2 < len \<or> len = max_len" using False by (auto simp: len_def)
    have b: "length ?blk = len" "take 2 ?blk = [t, 0x80]" using blk(2) len by (auto simp: length_blit blit_def numeral_2_eq_2)
    have "bio_read_all bio [t, 0x80] max_len w1 = read_all_loop max_len bio ?blk len 2 (w1\<lparr>w_calls := w_calls w1 + 1\<rparr>)"
      using blk(1) len by (simp add: bio_read_all_def sz_small len_def [symmetric]) (simp only: numeral_2_eq_2)
    moreover obtain w' where "read_all_loop max_len bio ?blk len 2 (w1\<lparr>w_calls := w_calls w1 + 1\<rparr>) =
        Some (if 2 + length r < max_len then Some (take 2 ?blk @ r) else None, w')"
    proof -
      have "\<exists>w'. read_all_loop max_len bio ?blk len 2 (w1\<lparr>w_calls := w_calls w1 + 1\<rparr>) =
        Some (if 2 + length r < max_len then Some (take 2 ?blk @ r) else None, w')"
      using src_calls [OF w1(2)] b len m src_bound [OF w1(2)] by (intro read_all) (auto simp: INT_MAX_def)
      with that show ?thesis by blast
    qed
    ultimately show ?thesis using b by (intro exI [of _ w']) simp
  qed
  finally show ?thesis .
qed

lemma spec:
  assumes s: "src w inp" and m: "max_len < 2 ^ 64"
  shows "\<exists>w'. BIO_read_asn1 bio max_len w = Some (read_asn1_spec max_len inp, w')"
proof -
  obtain w1 where w1: "BIO_read bio False 2 w = Some ((int (min 2 (length inp)), take 2 inp), w1)"
    using read_law [OF s, of 2] by (auto simp: INT_MAX_def)
  consider "length inp < 2" | t l r where "inp = t # l # r"
    by (cases inp; cases "tl inp") auto
  then show ?thesis
  proof cases
    case 1
    then show ?thesis using w1 by (auto simp: BIO_read_asn1_def read_asn1_spec_def split: list.splits)
  next
    case 2
    show ?thesis
    proof (cases "t AND 0x1f = 0x1f")
      case True
      then show ?thesis using w1 2 by (simp add: BIO_read_asn1_def read_asn1_spec_def numeral_2_eq_2)
    next
      case False
      show ?thesis
      proof (cases "t AND 0x20 \<noteq> 0 \<and> l = 0x80")
        case True
        with indefinite [OF _ False _ m, of w r] s 2 False show ?thesis by (simp add: read_asn1_spec_def)
      next
        case def: False
        from asn1 [OF _ False def, of w r max_len] s 2
        obtain w' where "BIO_read_asn1 bio max_len w =
           Some (case CBS_get_any_asn1_element (t # l # r) of
            (Some (el, _, _), _) \<Rightarrow> if length el \<le> max_len then Some el else None | _ \<Rightarrow> None, w')" by auto
        then show ?thesis unfolding 2 read_asn1_spec_def list.case if_not_P [OF False] if_not_P [OF def] by blast
      qed
    qed
  qed
qed

end

section \<open>Memory BIOs\<close>

definition mem_src :: "nat \<Rightarrow> world \<Rightarrow> bytes \<Rightarrow> bool" where
  "mem_src a w inp \<longleftrightarrow> can_alloc w \<and> (\<exists>s b. w_bios w a = Some s \<and> bio_meth s = Some BIO_S_MEM \<and> bio_init s \<and>
     bio_num s = 0 \<and> bio_mem s = Some b \<and> bm_length b = length inp \<and> length inp \<le> INT_MAX \<and>
     take (bm_length b) (drop (bm_pos b) (the (bm_data b))) = inp)"

lemma mem_read_src:
  assumes s: "mem_src a w inp" and n: "0 < n" "n \<le> INT_MAX"
  shows "\<exists>w'. mem_read a (int n) w = Some ((int (min n (length inp)), take n inp), w') \<and> mem_src a w' (drop n inp)"
proof -
  obtain s b where w: "can_alloc w" "w_bios w a = Some s" "bio_meth s = Some BIO_S_MEM" "bio_init s" "bio_num s = 0" "bio_mem s = Some b"
    and b: "bm_length b = length inp" "length inp \<le> INT_MAX" "take (length inp) (drop (bm_pos b) (the (bm_data b))) = inp"
    using s by (auto simp: mem_src_def)
  obtain e where e: "drop (bm_pos b) (the (bm_data b)) = inp @ e"
    using b(3) by (metis append_take_drop_id)
  define k where "k = min n (length inp)"
  have k: "k \<le> length inp" "take k inp = take n inp" "drop k inp = drop n inp" by (auto simp: k_def min_def)
  have ret: "(if bm_length b < INT_MAX \<and> int (bm_length b) < int n then int (bm_length b) else int n) = int k"
    using n b by (auto simp: k_def min_def)
  have clear: "bio_num (BIO_clear_retry_flags s) = bio_num s" "bio_mem (BIO_clear_retry_flags s) = bio_mem s" for s
    by (simp_all add: BIO_clear_retry_flags_def)
  have at: "mem_at a w = Some b" using w by (simp add: mem_at_def)
  show ?thesis
  proof (cases "inp = []")
    case True
    then have "mem_read a (int n) w = Some ((0, []), upd_bio a BIO_clear_retry_flags w)"
      using w b n by (simp add: mem_read_def at Let_def ret k_def clear bio_world)
    moreover have "mem_src a (upd_bio a BIO_clear_retry_flags w) []"
      using s True by (auto simp: mem_src_def bio_world clear can_alloc_def)
    ultimately show ?thesis using True by simp
  next
    case False
    then have k0: "0 < k" using n by (simp add: k_def)
    define b' where "b' = (if BIO_test_flags (the (w_bios (upd_bio a BIO_clear_retry_flags w) a)) BIO_FLAGS_MEM_RDONLY \<noteq> 0
      then b\<lparr>bm_length := bm_length b - k, bm_pos := bm_pos b + k\<rparr>
      else b\<lparr>bm_length := bm_length b - k, bm_data := Some (memmove (the (bm_data b)) (bm_pos b) (bm_pos b + k) (bm_length b - k))\<rparr>)"
    have rd: "mem_read a (int n) w = Some ((int k, take k inp), upd_mem a (\<lambda>_. b') (upd_bio a BIO_clear_retry_flags w))"
      unfolding mem_read_def at option.case Let_def ret using k0 k e by (simp add: b'_def)
    have len: "bm_pos b + length inp \<le> length (the (bm_data b))"
      using arg_cong [OF e, of length] False by (cases inp) auto
    have dk: "take (length inp - k) (drop (bm_pos b + k) (the (bm_data b))) = drop k inp"
    proof -
      have "drop (bm_pos b + k) (the (bm_data b)) = drop k inp @ e"
        using e k(1) by (metis add.commute diff_is_0_eq drop0 drop_append drop_drop)
      then show ?thesis by simp
    qed
    have "bm_length b' = length (drop k inp)" "take (bm_length b') (drop (bm_pos b') (the (bm_data b'))) = drop k inp"
      using b(1) dk len k(1) by (auto simp: b'_def memmove_def blit_def)
    then have "mem_src a (upd_mem a (\<lambda>_. b') (upd_bio a BIO_clear_retry_flags w)) (drop k inp)"
      using w b by (auto simp: mem_src_def upd_mem_def bio_world clear can_alloc_def)
    then have "mem_src a (upd_mem a (\<lambda>_. b') (upd_bio a BIO_clear_retry_flags w)) (drop n inp)" by (simp only: k(3))
    moreover have "int k = int (min n (length inp))" by (simp add: k_def)
    ultimately show ?thesis using rd unfolding k(2) by auto
  qed
qed

lemma BIO_read_mem:
  assumes s: "mem_src a w inp" and n: "n \<le> INT_MAX"
  shows "\<exists>w'. BIO_read (Some a) False (int n) w = Some ((int (min n (length inp)), take n inp), w') \<and> mem_src a w' (drop n inp)"
proof (cases "n = 0")
  case True
  with s show ?thesis by (auto simp: BIO_read_def mem_src_def)
next
  case False
  then obtain w' where w': "mem_read a (int n) w = Some ((int (min n (length inp)), take n inp), w')" "mem_src a w' (drop n inp)"
    using mem_read_src [OF s _ n] by auto
  have count: "mem_src a (upd_bio a (\<lambda>s. s\<lparr>bio_num_read := f s\<rparr>) w') (drop n inp)" for f
    using w'(2) by (auto simp: mem_src_def bio_world can_alloc_def)
  show ?thesis
    using s w' count False by (auto simp: BIO_read_def method_read_def mem_src_def)
qed

interpretation mem_source: byte_source "Some a" "mem_src a" for a
proof unfold_locales
  show "mem_src a w inp \<Longrightarrow> n \<le> INT_MAX \<Longrightarrow>
      \<exists>w'. BIO_read (Some a) False (int n) w = Some ((int (min n (length inp)), take n inp), w') \<and> mem_src a w' (drop n inp)" for w inp n
    by (rule BIO_read_mem)
qed (auto simp: mem_src_def can_alloc_def)

section \<open>The reading end of a pair\<close>

text \<open>The other side has shut down; what it wrote is still in the ring buffer.\<close>

definition pair_src :: "(side \<Rightarrow> nat) \<Rightarrow> side \<Rightarrow> world \<Rightarrow> bytes \<Rightarrow> bool" where
  "pair_src at s w inp \<longleftrightarrow> can_alloc w \<and> length inp \<le> INT_MAX \<and>
     (\<exists>d. pair_rel at w d \<and> ch_closed (chans d s) \<and> ch_bytes (chans d s) = inp)"

lemma bio_read_alloc: "bio_read a null n w = Some (r, w') \<Longrightarrow> w_alloc w' = w_alloc w"
  by (auto simp: bio_read_def Let_def bio_world split: option.splits if_splits bind_splits prod.splits)

lemma end_is_calls: "end_is (w\<lparr>w_calls := k\<rparr>) a b f = end_is w a b f"
  by (simp add: end_is_def)

interpretation pair_source: byte_source "Some (at (other s))" "pair_src at s" for at s
proof unfold_locales
  fix w inp and n :: nat
  assume "pair_src at s w inp" and n: "n \<le> INT_MAX"
  then obtain d where d: "pair_rel at w d" "ch_closed (chans d s)" "ch_bytes (chans d s) = inp" and al: "can_alloc w" "length inp \<le> INT_MAX"
    by (auto simp: pair_src_def)
  obtain w' where w': "BIO_read (Some (at (other s))) False (int n) w = Some (fst (spec_step (Read (other s) False (int n)) d), w')"
    and r': "pair_rel at w' (snd (spec_step (Read (other s) False (int n)) d))"
    using pair_step_refines [OF d(1), of "Read (other s) False (int n)"] n by auto
  obtain b where "end_is w (at (other s)) b (retry d (other s))"
    using d(1) unfolding rel_sides [of _ _ _ s] by (auto simp: end_at_def)
  then have "w_alloc w' = w_alloc w"
    using w' by (auto simp: BIO_read_pair upd_bio_rest split: if_splits bind_splits dest!: bio_read_alloc)
  then have "can_alloc w'" using al by (simp add: can_alloc_def)
  moreover have "fst (spec_step (Read (other s) False (int n)) d) = (int (min n (length inp)), take n inp)"
    "ch_closed (chans (snd (spec_step (Read (other s) False (int n)) d)) s)"
    "ch_bytes (chans (snd (spec_step (Read (other s) False (int n)) d)) s) = drop n inp"
    using d(2,3) by (cases "inp = []"; cases "n = 0"; simp add: chan_read_def Let_def min_def)+
  ultimately show "\<exists>w'. BIO_read (Some (at (other s))) False (int n) w = Some ((int (min n (length inp)), take n inp), w') \<and>
      pair_src at s w' (drop n inp)"
    using w' r' al(2) unfolding pair_src_def by auto
next
  fix w inp k assume "pair_src at s w inp"
  then show "pair_src at s (w\<lparr>w_calls := k\<rparr>) inp"
    by (auto simp: pair_src_def can_alloc_def pair_rel_def end_at_def end_is_calls)
qed (auto simp: pair_src_def)

section \<open>The guarantee\<close>

lemma BIO_new_mem_buf_src:
  assumes "BIO_new_mem_buf (Some inp) (int (length inp)) w = Some (Some a, w1)" "can_alloc w" "length inp \<le> INT_MAX"
  shows "mem_src a w1 inp"
proof -
  have sz: "size_of_int (int (length inp)) = length inp" using assms(3) by (simp add: size_of_int_id)
  define s where "s = bio_zero\<lparr>bio_meth := Some BIO_S_MEM, bio_shut := 1, bio_refs := 1, bio_init := True, bio_num := - 1,
    bio_mem := Some \<lparr>bm_length = 0, bm_data = None, bm_pos = 0, bm_max = 0\<rparr>\<rparr>"
  obtain b1 where b1: "w_alloc w (w_calls w) 96 = Some b1" using assms(2) unfolding can_alloc_def by blast
  obtain b2 where b2: "w_alloc w (w_calls w + 1) 24 = Some b2" using assms(2) unfolding can_alloc_def by blast
  have "BIO_new BIO_S_MEM w = Some (Some (w_calls w), w\<lparr>w_calls := w_calls w + 2, w_bios := (w_bios w)(w_calls w \<mapsto> s)\<rparr>)"
    using b1 b2 by (simp add: BIO_new_def w_malloc_def method_create_def mem_new_def BUF_MEM_new_def upd_bio_def
        bio_world s_def bio_zero_def Let_def)
  with assms show ?thesis
    by (auto simp: BIO_new_mem_buf_def sz mem_src_def bio_world upd_mem_def s_def bio_zero_def can_alloc_def)
qed


lemma demo_can_alloc: "can_alloc demo_world"
  by (simp add: can_alloc_def demo_world_def)

lemma demo_mem_buf: "map_option fst (BIO_new_mem_buf (Some [0x04, 0x02, 7, 8, 9]) 5 demo_world) = Some (Some 0)"
  by code_simp


end
