(* ===== verification/Pb_Stream.thy ===== *)
theory Pb_Stream
  imports Prelude
begin

text \<open>
  The wire level of nanopb (\<^verbatim>\<open>nanopb/pb_encode.c\<close>, \<^verbatim>\<open>pb_decode.c\<close>): input and output streams, and
  the reading and writing of varints, fixed-size integers, tags and strings.  The library is built
  with \<^verbatim>\<open>PB_FIELD_32BIT\<close>, so \<open>pb_size_t\<close> has 32 bits, without \<^verbatim>\<open>PB_BUFFER_ONLY\<close> and without
  \<^verbatim>\<open>PB_ENABLE_MALLOC\<close>.
\<close>

section \<open>Calls that return \<open>bool\<close>\<close>

text \<open>
  A function of the library works on a state (a stream, or a stream and the memory) and returns
  \<open>false\<close>, here \<open>None\<close>, or \<open>true\<close> with its outputs.  The outer option is \<open>None\<close> where the C code has
  undefined behaviour (an access outside a buffer, a null pointer called) or does not return.
\<close>

type_synonym ('a, 'st) call = "'st \<Rightarrow> ('a option \<times> 'st) option"

definition cret :: "'a \<Rightarrow> ('a, 'st) call" where
  "cret a st = Some (Some a, st)"

definition cfail :: "('a, 'st) call" where
  "cfail st = Some (None, st)"

text \<open>\<open>if (!p(\<dots>)) return false; \<dots>\<close>\<close>

definition cbind :: "('a, 'st) call \<Rightarrow> ('a \<Rightarrow> ('b, 'st) call) \<Rightarrow> ('b, 'st) call" where
  "cbind p f st =
     (case p st of
        None \<Rightarrow> None
      | Some (None, st') \<Rightarrow> Some (None, st')
      | Some (Some a, st') \<Rightarrow> f a st')"

lemma cbind_cong [fundef_cong]:
  assumes "st = st'" "p st' = p' st'" "\<And>a st''. p' st' = Some (Some a, st'') \<Longrightarrow> f a st'' = f' a st''"
  shows "cbind p f st = cbind p' f' st'"
  using assms by (auto simp: cbind_def split: option.splits)

lemma cbind_mono [partial_function_mono]:
  fixes g :: "('c \<Rightarrow> 'd option) \<Rightarrow> 'a \<Rightarrow> ('b, 'st) call"
  assumes "\<And>a st. mono_option (\<lambda>f. g f a st)"
  shows "mono_option (\<lambda>f. cbind p (g f) st)"
proof (rule monotoneI)
  fix x y :: "'c \<Rightarrow> 'd option"
  assume "option.le_fun x y"
  with assms have "option_ord (g x a st') (g y a st')" for a st'
    by (auto dest: monotoneD)
  then show "option_ord (cbind p (g x) st) (cbind p (g y) st)"
    by (auto simp: cbind_def option.leq_refl split: option.splits)
qed

section \<open>Streams\<close>

datatype pb_errmsg =
    End_of_stream | Io_error | Varint_overflow | Invalid_wire_type | Parent_stream_too_short
  | Stream_full | Array_max_size_exceeded | Missing_required_field | Invalid_field_type
  | Callback_error | Submsg_size_changed | Invalid_data_size | Bytes_size_exceeded
  | Invalid_field_descriptor | Array_overflow | No_malloc_support | Callback_failed
  | Integer_too_large | Bytes_overflow | Size_too_large | String_overflow
  | Incorrect_fixed_length_bytes_size

text \<open>
  \<open>state\<close> of a stream made by \<open>pb_istream_from_buffer\<close> points into a buffer: \<open>In_Buffer\<close> holds the
  bytes from there to the end of the buffer.  Any other callback is a function of the number of
  bytes asked for and of the state of the user; \<open>None\<close> is its result \<open>false\<close>.
\<close>

datatype 's istate =
    In_Buffer bytes
  | In_Custom "nat \<Rightarrow> 's \<Rightarrow> bytes option \<times> 's" 's

record 's pb_istream =
  is_state :: "'s istate"
  is_left :: nat
  is_err :: "pb_errmsg option"

text \<open>
  \<open>os_callback\<close> is \<open>None\<close> in a stream that only counts.  For a stream made by
  \<open>pb_ostream_from_buffer\<close> the state is the list of the bytes written to the buffer so far.
\<close>

record 's pb_ostream =
  os_callback :: "(bytes \<Rightarrow> 's \<Rightarrow> bool \<times> 's) option"
  os_state :: 's
  os_max :: nat
  os_written :: nat
  os_err :: "pb_errmsg option"

text \<open>The macro \<open>PB_RETURN_ERROR\<close>: the first message is kept.\<close>

definition is_error :: "pb_errmsg \<Rightarrow> ('a, 's pb_istream) call" where
  "is_error e s = Some (None, s\<lparr>is_err := (case is_err s of None \<Rightarrow> Some e | Some e0 \<Rightarrow> Some e0)\<rparr>)"

definition os_error :: "pb_errmsg \<Rightarrow> ('a, 's pb_ostream) call" where
  "os_error e s = Some (None, s\<lparr>os_err := (case os_err s of None \<Rightarrow> Some e | Some e0 \<Rightarrow> Some e0)\<rparr>)"

subsection \<open>Input\<close>

definition buf_read :: "nat \<Rightarrow> bytes \<Rightarrow> (bytes \<times> bytes) option" where
  "buf_read n src = (if n \<le> length src then Some (take n src, drop n src) else None)"

text \<open>\<open>stream->callback(stream, buf, count)\<close>\<close>

definition is_call :: "nat \<Rightarrow> (bytes, 's pb_istream) call" where
  "is_call n s =
     (case is_state s of
        In_Buffer src \<Rightarrow>
          (case buf_read n src of
             None \<Rightarrow> None
           | Some (buf, src) \<Rightarrow> Some (Some buf, s\<lparr>is_state := In_Buffer src\<rparr>))
      | In_Custom f st \<Rightarrow>
          (let (r, st) = f n st in Some (r, s\<lparr>is_state := In_Custom f st\<rparr>)))"

text \<open>The part of \<open>pb_read\<close> that reads for a buffer, and the loop that skips through \<open>tmp\<close>.\<close>

definition pb_read_buf :: "nat \<Rightarrow> (bytes, 's pb_istream) call" where
  "pb_read_buf n s =
     (if is_left s < n then is_error End_of_stream s
      else
        case is_call n s of
          None \<Rightarrow> None
        | Some (None, s) \<Rightarrow> is_error Io_error s
        | Some (Some buf, s) \<Rightarrow> Some (Some buf, s\<lparr>is_left := is_left s - n\<rparr>))"

fun pb_read_skip :: "nat \<Rightarrow> (bytes, 's pb_istream) call" where
  "pb_read_skip n s =
     (if n > 16 then cbind (pb_read_buf 16) (\<lambda>_. pb_read_skip (n - 16)) s
      else pb_read_buf n s)"

declare pb_read_skip.simps [simp del]

definition pb_read :: "bool \<Rightarrow> nat \<Rightarrow> (bytes, 's pb_istream) call" where
  "pb_read null n s =
     (case is_state s of
        In_Custom _ _ \<Rightarrow> if null then pb_read_skip n s else pb_read_buf n s
      | In_Buffer _ \<Rightarrow> pb_read_buf n s)"

definition pb_readbyte :: "(u8, 's pb_istream) call" where
  "pb_readbyte s =
     (if is_left s = 0 then is_error End_of_stream s
      else
        case is_call 1 s of
          None \<Rightarrow> None
        | Some (None, s) \<Rightarrow> is_error Io_error s
        | Some (Some buf, s) \<Rightarrow> Some (Some (hd buf), s\<lparr>is_left := is_left s - 1\<rparr>))"

definition pb_istream_from_buffer :: "bytes \<Rightarrow> nat \<Rightarrow> 's pb_istream" where
  "pb_istream_from_buffer buf bufsize = \<lparr>is_state = In_Buffer buf, is_left = bufsize, is_err = None\<rparr>"

subsection \<open>Output\<close>

definition buf_write :: "bytes \<Rightarrow> bytes \<Rightarrow> bool \<times> bytes" where
  "buf_write buf dest = (True, dest @ buf)"

definition pb_ostream_from_buffer :: "nat \<Rightarrow> bytes pb_ostream" where
  "pb_ostream_from_buffer bufsize =
     \<lparr>os_callback = Some buf_write, os_state = [], os_max = bufsize, os_written = 0, os_err = None\<rparr>"

text \<open>\<open>PB_OSTREAM_SIZING\<close>; its state is never used.\<close>

definition pb_ostream_sizing :: "'s \<Rightarrow> 's pb_ostream" where
  "pb_ostream_sizing st = \<lparr>os_callback = None, os_state = st, os_max = 0, os_written = 0, os_err = None\<rparr>"

definition pb_write :: "bytes option \<Rightarrow> nat \<Rightarrow> (unit, 's pb_ostream) call" where
  "pb_write buf n s =
     (case os_callback s of
        None \<Rightarrow> Some (Some (), s\<lparr>os_written := sz (os_written s + n)\<rparr>)
      | Some cb \<Rightarrow>
          if sz (os_written s + n) > os_max s then os_error Stream_full s
          else if buf = None \<and> n > 0 then None
          else
            let (ok, st) = cb (case buf of None \<Rightarrow> [] | Some b \<Rightarrow> b) (os_state s); s = s\<lparr>os_state := st\<rparr>
            in if \<not> ok then os_error Io_error s
               else Some (Some (), s\<lparr>os_written := sz (os_written s + n)\<rparr>))"

section \<open>Decoding\<close>

text \<open>\<open>uint_fast8_t\<close> holds \<open>bitpos\<close>, which stays below 71.\<close>

function varint32_loop :: "nat \<Rightarrow> u32 \<Rightarrow> (u32, 's pb_istream) call" where
  "varint32_loop bitpos result s =
     (if bitpos \<ge> 32 then is_error Varint_overflow s
      else
        cbind pb_readbyte (\<lambda>byte.
          let result = result OR push_bit bitpos (ucast (byte AND 0x7F)); bitpos = bitpos + 7
          in if byte AND 0x80 \<noteq> 0 then varint32_loop bitpos result else cret result) s)"
  by pat_completeness auto
termination by (relation "measure (\<lambda>(bitpos, result, s). 32 - bitpos)") auto

definition pb_decode_varint32 :: "(u32, 's pb_istream) call" where
  "pb_decode_varint32 =
     cbind pb_readbyte (\<lambda>byte.
       if byte AND 0x80 = 0 then cret (ucast byte) else varint32_loop 7 (ucast (byte AND 0x7F)))"

function varint_loop :: "nat \<Rightarrow> u64 \<Rightarrow> (u64, 's pb_istream) call" where
  "varint_loop bitpos result s =
     (if bitpos \<ge> 64 then is_error Varint_overflow s
      else
        cbind pb_readbyte (\<lambda>byte.
          let result = result OR push_bit bitpos (ucast (byte AND 0x7F)); bitpos = bitpos + 7
          in if byte AND 0x80 \<noteq> 0 then varint_loop bitpos result else cret result) s)"
  by pat_completeness auto
termination by (relation "measure (\<lambda>(bitpos, result, s). 64 - bitpos)") auto

declare varint32_loop.simps [simp del] varint_loop.simps [simp del]

definition pb_decode_varint :: "(u64, 's pb_istream) call" where
  "pb_decode_varint = varint_loop 0 0"

partial_function (option) pb_skip_varint :: "(unit, 's pb_istream) call" where
  "pb_skip_varint s =
     cbind (pb_read False 1) (\<lambda>buf s. if hd buf AND 0x80 \<noteq> 0 then pb_skip_varint s else cret () s) s"

definition pb_skip_string :: "(unit, 's pb_istream) call" where
  "pb_skip_string =
     cbind pb_decode_varint32 (\<lambda>n. cbind (pb_read True (unat n)) (\<lambda>_. cret ()))"

text \<open>Wire types are numbers, since any three bits can follow the field number.\<close>

abbreviation (input) PB_WT_VARINT :: u32 where "PB_WT_VARINT \<equiv> 0"
abbreviation (input) PB_WT_64BIT :: u32 where "PB_WT_64BIT \<equiv> 1"
abbreviation (input) PB_WT_STRING :: u32 where "PB_WT_STRING \<equiv> 2"
abbreviation (input) PB_WT_32BIT :: u32 where "PB_WT_32BIT \<equiv> 5"

text \<open>\<open>Tag wire_type tag\<close> for \<open>true\<close>; \<open>Eof\<close> and \<open>No_tag\<close> for \<open>false\<close> with the output \<open>eof\<close>.\<close>

datatype pb_tag = Tag u32 u32 | Eof | No_tag

definition pb_decode_tag :: "'s pb_istream \<Rightarrow> (pb_tag \<times> 's pb_istream) option" where
  "pb_decode_tag s =
     (case pb_decode_varint32 s of
        None \<Rightarrow> None
      | Some (None, s) \<Rightarrow> Some (if is_left s = 0 then Eof else No_tag, s)
      | Some (Some temp, s) \<Rightarrow>
          if temp = 0 then Some (Eof, s) else Some (Tag (temp AND 7) (drop_bit 3 temp), s))"

definition pb_skip_field :: "u32 \<Rightarrow> (unit, 's pb_istream) call" where
  "pb_skip_field wire_type =
     (if wire_type = PB_WT_VARINT then pb_skip_varint
      else if wire_type = PB_WT_64BIT then cbind (pb_read True 8) (\<lambda>_. cret ())
      else if wire_type = PB_WT_STRING then pb_skip_string
      else if wire_type = PB_WT_32BIT then cbind (pb_read True 4) (\<lambda>_. cret ())
      else is_error Invalid_wire_type)"

text \<open>\<open>buf\<close> is what the varint case has stored so far; its length is \<open>*size\<close> before the increment.\<close>

function raw_varint_loop :: "nat \<Rightarrow> bytes \<Rightarrow> (bytes, 's pb_istream) call" where
  "raw_varint_loop max_size buf s =
     (if length buf + 1 > max_size then cfail s
      else
        cbind (pb_read False 1) (\<lambda>b.
          if hd b AND 0x80 \<noteq> 0 then raw_varint_loop max_size (buf @ [hd b]) else cret (buf @ [hd b])) s)"
  by pat_completeness auto
termination by (relation "measure (\<lambda>(max_size, buf, s). max_size - length buf)") auto

declare raw_varint_loop.simps [simp del]

definition read_raw_value :: "u32 \<Rightarrow> nat \<Rightarrow> (bytes, 's pb_istream) call" where
  "read_raw_value wire_type max_size =
     (if wire_type = PB_WT_VARINT then raw_varint_loop max_size []
      else if wire_type = PB_WT_64BIT then pb_read False 8
      else if wire_type = PB_WT_32BIT then pb_read False 4
      else is_error Invalid_wire_type)"

text \<open>The call leaves the rest of the parent in the state and returns the substream.\<close>

definition pb_make_string_substream :: "('s pb_istream, 's pb_istream) call" where
  "pb_make_string_substream =
     cbind pb_decode_varint32 (\<lambda>n s.
       let substream = s
       in if is_left substream < unat n then is_error Parent_stream_too_short s
          else
            let substream = substream\<lparr>is_left := unat n\<rparr>; s = s\<lparr>is_left := is_left s - unat n\<rparr>
            in cret substream s)"

definition pb_close_string_substream :: "'s pb_istream \<Rightarrow> (unit, 's pb_istream) call" where
  "pb_close_string_substream substream s =
     (case (if is_left substream \<noteq> 0 then pb_read True (is_left substream) substream
            else Some (Some [], substream)) of
        None \<Rightarrow> None
      | Some (None, substream) \<Rightarrow> Some (None, s)
      | Some (Some _, substream) \<Rightarrow>
          Some (Some (), s\<lparr>is_state := is_state substream, is_err := is_err substream\<rparr>))"

definition pb_decode_svarint :: "(u64, 's pb_istream) call" where
  "pb_decode_svarint =
     cbind pb_decode_varint (\<lambda>v.
       if v AND 1 \<noteq> 0 then cret (NOT (drop_bit 1 v)) else cret (drop_bit 1 v))"

definition pb_decode_fixed32 :: "(u32, 's pb_istream) call" where
  "pb_decode_fixed32 =
     cbind (pb_read False 4) (\<lambda>b.
       cret (ucast (b ! 0) OR push_bit 8 (ucast (b ! 1)) OR push_bit 16 (ucast (b ! 2)) OR
             push_bit 24 (ucast (b ! 3))))"

definition pb_decode_fixed64 :: "(u64, 's pb_istream) call" where
  "pb_decode_fixed64 =
     cbind (pb_read False 8) (\<lambda>b.
       cret (ucast (b ! 0) OR push_bit 8 (ucast (b ! 1)) OR push_bit 16 (ucast (b ! 2)) OR
             push_bit 24 (ucast (b ! 3)) OR push_bit 32 (ucast (b ! 4)) OR push_bit 40 (ucast (b ! 5)) OR
             push_bit 48 (ucast (b ! 6)) OR push_bit 56 (ucast (b ! 7))))"

section \<open>Encoding\<close>

text \<open>The loop of \<open>pb_encode_varint\<close>.\<close>

function varint_digits :: "u64 \<Rightarrow> bytes" where
  "varint_digits v =
     (if v \<noteq> 0 then (ucast (v AND 0x7F) OR 0x80) # varint_digits (drop_bit 7 v) else [])"
  by pat_completeness auto
termination
proof (relation "measure unat")
  fix v :: u64
  assume "v \<noteq> 0"
  then have "0 < unat v" by (simp add: unat_gt_0)
  then show "(drop_bit 7 v, v) \<in> measure unat"
    by (simp add: unat_drop_bit_eq drop_bit_eq_div unat_div)
qed simp

declare varint_digits.simps [simp del]

definition varint_buffer :: "u64 \<Rightarrow> bytes" where
  "varint_buffer v =
     (if v \<le> 0x7F then [ucast v]
      else let buffer = varint_digits v; i = length buffer
           in buffer[i - 1 := buffer ! (i - 1) AND 0x7F])"

definition pb_encode_varint :: "u64 \<Rightarrow> (unit, 's pb_ostream) call" where
  "pb_encode_varint v = pb_write (Some (varint_buffer v)) (length (varint_buffer v))"

text \<open>The argument is an \<open>int64_t\<close> in its two's complement representation.\<close>

definition pb_encode_svarint :: "u64 \<Rightarrow> (unit, 's pb_ostream) call" where
  "pb_encode_svarint v =
     (let zigzagged = (if sint v < 0 then NOT (push_bit 1 v) else push_bit 1 v)
      in pb_encode_varint zigzagged)"

definition pb_encode_fixed32 :: "u32 \<Rightarrow> (unit, 's pb_ostream) call" where
  "pb_encode_fixed32 val =
     pb_write (Some [ucast (val AND 0xFF), ucast (drop_bit 8 val AND 0xFF), ucast (drop_bit 16 val AND 0xFF),
                     ucast (drop_bit 24 val AND 0xFF)]) 4"

definition pb_encode_fixed64 :: "u64 \<Rightarrow> (unit, 's pb_ostream) call" where
  "pb_encode_fixed64 val =
     pb_write (Some [ucast (val AND 0xFF), ucast (drop_bit 8 val AND 0xFF), ucast (drop_bit 16 val AND 0xFF),
                     ucast (drop_bit 24 val AND 0xFF), ucast (drop_bit 32 val AND 0xFF),
                     ucast (drop_bit 40 val AND 0xFF), ucast (drop_bit 48 val AND 0xFF),
                     ucast (drop_bit 56 val AND 0xFF)]) 8"

definition pb_encode_tag :: "u32 \<Rightarrow> u32 \<Rightarrow> (unit, 's pb_ostream) call" where
  "pb_encode_tag wiretype field_number =
     pb_encode_varint (push_bit 3 (ucast field_number) OR ucast wiretype)"

definition pb_encode_string :: "bytes option \<Rightarrow> nat \<Rightarrow> (unit, 's pb_ostream) call" where
  "pb_encode_string buffer n =
     cbind (pb_encode_varint (word_of_nat n)) (\<lambda>_. pb_write buffer n)"

end
