(* ===== verification/Pb_Wire.thy ===== *)
theory Pb_Wire
  imports Pb_Stream
begin

text \<open>
  What the wire level of nanopb does: every reading call returns on every stream, never reads past
  its end and consumes what it says (\<open>takes\<close>), and each decoder reads back what the encoder of
  the same name writes (\<open>consumes\<close>).  \<open>leb128\<close> is the base-128 representation of a number, least
  significant digit first.
\<close>

section \<open>Base 128\<close>

fun leb128 :: "nat \<Rightarrow> bytes" where
  "leb128 n = (if n < 128 then [word_of_nat n] else word_of_nat (n mod 128 + 128) # leb128 (n div 128))"

declare leb128.simps [simp del]

lemma leb128_small [simp]: "n < 128 \<Longrightarrow> leb128 n = [word_of_nat n]"
  by (subst leb128.simps) simp

lemma leb128_large: "128 \<le> n \<Longrightarrow> leb128 n = word_of_nat (n mod 128 + 128) # leb128 (n div 128)"
  by (subst leb128.simps) simp

lemma leb128_ne [simp]: "leb128 n \<noteq> []"
  by (subst leb128.simps) simp

lemma length_leb128: "n < 128 ^ k \<Longrightarrow> length (leb128 n) \<le> max 1 k"
proof (induction k arbitrary: n)
  case (Suc k)
  show ?case
  proof (cases "n < 128")
    case False
    then have "0 < k" using Suc.prems by (cases k) auto
    moreover have "n div 128 < 128 ^ k" using Suc.prems by (simp add: less_mult_imp_div_less mult.commute)
    ultimately show ?thesis using Suc.IH [of "n div 128"] False by (simp add: leb128_large max_def split: if_splits)
  qed simp
qed simp

lemma unat_and_7f: "unat ((v :: 'a::len word) AND 0x7F) = unat v mod 128"
proof -
  have "v AND 0x7F = take_bit 7 v" by (simp add: take_bit_eq_mask mask_eq_exp_minus_1)
  then have "unat (v AND 0x7F) = take_bit 7 (unat v)" by (simp only: unsigned_take_bit_eq)
  then show ?thesis by (simp add: take_bit_eq_mod)
qed

lemma digit_more: "(ucast ((v :: u64) AND 0x7F) OR 0x80 :: u8) = word_of_nat (unat v mod 128 + 128)"
proof (rule word_unat_eq_iff [THEN iffD2])
  have u: "unat (ucast (v AND 0x7F) :: u8) = unat v mod 128"
    by (simp add: unat_and_7f)
  have "push_bit 7 1 = (0x80 :: u8)" by (simp add: push_bit_eq_mult)
  then have "unat (0x80 OR ucast (v AND 0x7F) :: u8) = 128 + unat v mod 128"
    using unat_or_push [of "ucast (v AND 0x7F) :: u8" 7 1 1] u by simp
  moreover have "unat v mod 128 + 128 < 256" using mod_less_divisor [of 128 "unat v"] by linarith
  ultimately show "unat (ucast (v AND 0x7F) OR 0x80 :: u8) = unat (word_of_nat (unat v mod 128 + 128) :: u8)"
    by (simp only: unat_u8_of_nat mod_less or.commute add.commute)
qed

lemma digit_last: "(word_of_nat (n mod 128 + 128) :: u8) AND 0x7F = word_of_nat (n mod 128)"
proof (rule word_unat_eq_iff [THEN iffD2])
  have "n mod 128 < 256" using mod_less_divisor [of 128 n] by linarith
  then show "unat ((word_of_nat (n mod 128 + 128) :: u8) AND 0x7F) = unat (word_of_nat (n mod 128) :: u8)"
    by (simp only: unat_and_7f b128_digit(2)) (simp only: unat_u8_of_nat mod_less)
qed

lemma varint_digits_leb128:
  assumes "v \<noteq> 0"
  shows "varint_digits v \<noteq> [] \<and>
    (varint_digits v)[length (varint_digits v) - 1 := varint_digits v ! (length (varint_digits v) - 1) AND 0x7F] =
      leb128 (unat v)"
  using assms
proof (induction v rule: varint_digits.induct)
  case (1 v)
  let ?w = "drop_bit 7 v"
  have d: "varint_digits v = word_of_nat (unat v mod 128 + 128) # varint_digits ?w"
    using 1 by (subst varint_digits.simps) (simp add: digit_more)
  have w: "unat ?w = unat v div 128" by (simp add: unat_drop_bit)
  show ?case
  proof (cases "unat v < 128")
    case True
    then have "?w = 0" using w by (simp add: unat_eq_zero)
    then have "varint_digits ?w = []" by (subst varint_digits.simps) simp
    with d obtain x where "varint_digits v = [x]" "x AND 0x7F = word_of_nat (unat v mod 128)"
      using digit_last by metis
    then show ?thesis using True by simp
  next
    case False
    then have "?w \<noteq> 0" using w by (auto simp: unat_eq_zero [symmetric] div_eq_0_iff)
    with 1 have "varint_digits ?w \<noteq> []" "(varint_digits ?w)[length (varint_digits ?w) - 1 :=
        varint_digits ?w ! (length (varint_digits ?w) - 1) AND 0x7F] = leb128 (unat ?w)" by auto
    then show ?thesis using False
      by (cases "varint_digits ?w") (simp_all add: d w leb128_large not_less)
  qed
qed

lemma varint_buffer_leb128: "varint_buffer v = leb128 (unat v)"
proof (cases "v \<le> 0x7F")
  case True
  then have "unat v \<le> 127" by (simp add: word_le_nat_alt)
  moreover have "(ucast v :: u8) = word_of_nat (unat v)" by simp
  ultimately show ?thesis using True by (simp add: varint_buffer_def)
next
  case False
  then have "v \<noteq> 0" by auto
  from varint_digits_leb128 [OF this] False show ?thesis by (simp add: varint_buffer_def Let_def)
qed

section \<open>Calls that return\<close>

lemma cbind_Some [simp]: "p s = Some (Some a, s') \<Longrightarrow> cbind p f s = f a s'"
  by (simp add: cbind_def)

lemma cbind_None [simp]: "p s = Some (None, s') \<Longrightarrow> cbind p f s = Some (None, s')"
  by (simp add: cbind_def)

lemma cbind_assoc: "cbind (cbind p f) g = cbind p (\<lambda>a. cbind (f a) g)"
  by (auto simp: cbind_def split: option.splits)

lemma cbind_ret [simp]: "cbind (cret a) f = f a"
  by (simp add: cbind_def cret_def fun_eq_iff)

text \<open>
  \<open>stream_ok m s\<close>: the buffer of \<open>s\<close> has at least \<open>m\<close> bytes more than the stream may still read; a
  custom callback that returns \<open>true\<close> fills the buffer it is given.
\<close>

definition stream_ok :: "nat \<Rightarrow> 's pb_istream \<Rightarrow> bool" where
  "stream_ok m s \<longleftrightarrow>
     (case is_state s of
        In_Buffer b \<Rightarrow> is_left s + m \<le> length b
      | In_Custom f st \<Rightarrow> \<forall>n t b t'. f n t = (Some b, t') \<longrightarrow> length b = n)"

lemma stream_ok_le: "stream_ok m s \<Longrightarrow> k \<le> m \<Longrightarrow> stream_ok k s"
  by (auto simp: stream_ok_def split: istate.splits)

lemma stream_ok_err [simp]: "stream_ok m (s\<lparr>is_err := e\<rparr>) = stream_ok m s"
  by (simp add: stream_ok_def cong: istate.case_cong)

text \<open>\<open>takes k Q p\<close>: the call \<open>p\<close> returns, takes at least \<open>k\<close> bytes if it succeeds, and its result has \<open>Q\<close>.\<close>

definition takes :: "nat \<Rightarrow> ('a \<Rightarrow> bool) \<Rightarrow> ('a, 's pb_istream) call \<Rightarrow> bool" where
  "takes k Q p \<longleftrightarrow>
     (\<forall>m s. stream_ok m s \<longrightarrow> (\<exists>r s'. p s = Some (r, s') \<and> stream_ok m s' \<and> is_left s' \<le> is_left s \<and>
        (\<forall>a. r = Some a \<longrightarrow> Q a \<and> is_left s' + k \<le> is_left s)))"

lemma takesI:
  assumes "\<And>m s. stream_ok m s \<Longrightarrow> \<exists>r s'. p s = Some (r, s') \<and> stream_ok m s' \<and> is_left s' \<le> is_left s \<and>
    (\<forall>a. r = Some a \<longrightarrow> Q a \<and> is_left s' + k \<le> is_left s)"
  shows "takes k Q p"
  using assms unfolding takes_def by blast

lemma takesD:
  assumes "takes k Q p" "stream_ok m s"
  obtains r s' where "p s = Some (r, s')" "stream_ok m s'" "is_left s' \<le> is_left s"
    "\<And>a. r = Some a \<Longrightarrow> Q a" "\<And>a. r = Some a \<Longrightarrow> is_left s' + k \<le> is_left s"
  using assms unfolding takes_def by blast

lemma takes_ret: "Q a \<Longrightarrow> takes 0 Q (cret a)"
  by (auto simp: takes_def cret_def)

lemma takes_error: "takes k Q (is_error e)"
  by (auto simp: takes_def is_error_def)

lemma takes_fail: "takes k Q cfail"
  by (auto simp: takes_def cfail_def)

lemma takes_bind:
  assumes "takes k Q p" "\<And>a. Q a \<Longrightarrow> takes j R (f a)"
  shows "takes (k + j) R (cbind p f)"
proof (rule takesI)
  fix m and s :: "'b pb_istream"
  assume "stream_ok m s"
  with assms(1) obtain r s1 where 1: "p s = Some (r, s1)" "stream_ok m s1" "is_left s1 \<le> is_left s"
    "\<And>a. r = Some a \<Longrightarrow> Q a" "\<And>a. r = Some a \<Longrightarrow> is_left s1 + k \<le> is_left s" by (rule takesD) blast
  show "\<exists>r' s'. cbind p f s = Some (r', s') \<and> stream_ok m s' \<and> is_left s' \<le> is_left s \<and>
      (\<forall>a. r' = Some a \<longrightarrow> R a \<and> is_left s' + (k + j) \<le> is_left s)"
  proof (cases r)
    case (Some a)
    then have "takes j R (f a)" using assms(2) 1(4) by blast
    then obtain r' s' where "f a s1 = Some (r', s')" "stream_ok m s'" "is_left s' \<le> is_left s1"
      "\<And>b. r' = Some b \<Longrightarrow> R b" "\<And>b. r' = Some b \<Longrightarrow> is_left s' + j \<le> is_left s1"
      using 1(2) by (rule takesD) blast
    then show ?thesis using 1 Some by fastforce
  qed (use 1 in simp)
qed

lemma takes_weaken: "takes k Q p \<Longrightarrow> j \<le> k \<Longrightarrow> (\<And>a. Q a \<Longrightarrow> R a) \<Longrightarrow> takes j R p"
  unfolding takes_def by (meson le_trans add_le_mono1 add_left_mono)

lemma takes_any: "takes k Q p \<Longrightarrow> takes 0 (\<lambda>_. True) p"
  by (erule takes_weaken) simp_all

lemma takes_bind_ret: "takes k Q p \<Longrightarrow> (\<And>a. Q a \<Longrightarrow> R (f a)) \<Longrightarrow> takes k R (cbind p (\<lambda>a. cret (f a)))"
  using takes_bind [of k Q p 0 R] takes_ret by (metis add.right_neutral)

lemma is_call_ok:
  assumes "stream_ok m s" "n \<le> is_left s"
  shows "\<exists>r s'. is_call n s = Some (r, s') \<and> is_left s' = is_left s \<and> is_err s' = is_err s \<and>
    (r = None \<longrightarrow> stream_ok m s') \<and> (\<forall>b. r = Some b \<longrightarrow> length b = n \<and> stream_ok m (s'\<lparr>is_left := is_left s - n\<rparr>))"
proof (cases "is_state s")
  case (In_Buffer b)
  then show ?thesis using assms by (auto simp: is_call_def buf_read_def stream_ok_def)
next
  case (In_Custom f st)
  then show ?thesis using assms by (auto simp: is_call_def stream_ok_def split: prod.splits)
qed

lemma takes_read_buf: "takes n (\<lambda>b. length b = n) (pb_read_buf n)"
proof (rule takesI)
  fix m and s :: "'a pb_istream"
  assume s: "stream_ok m s"
  show "\<exists>r s'. pb_read_buf n s = Some (r, s') \<and> stream_ok m s' \<and> is_left s' \<le> is_left s \<and>
      (\<forall>a. r = Some a \<longrightarrow> length a = n \<and> is_left s' + n \<le> is_left s)"
  proof (cases "n \<le> is_left s")
    case True
    from is_call_ok [OF s True] obtain r s' where "is_call n s = Some (r, s')" "is_left s' = is_left s"
      "r = None \<longrightarrow> stream_ok m s'" "\<forall>b. r = Some b \<longrightarrow> length b = n \<and> stream_ok m (s'\<lparr>is_left := is_left s - n\<rparr>)"
      by blast
    then show ?thesis using True by (cases r) (simp_all add: pb_read_buf_def is_error_def)
  qed (use s in \<open>simp add: pb_read_buf_def is_error_def\<close>)
qed

lemma takes_read_skip: "takes n (\<lambda>_. True) (pb_read_skip n)"
proof (induction n rule: less_induct)
  case (less n)
  show ?case
  proof (cases "16 < n")
    case True
    then have "takes (16 + (n - 16)) (\<lambda>_. True) (cbind (pb_read_buf 16) (\<lambda>_. pb_read_skip (n - 16) :: (bytes, 'a pb_istream) call))"
      by (intro takes_bind [OF takes_read_buf] less) simp
    moreover have "pb_read_skip n = cbind (pb_read_buf 16) (\<lambda>_. pb_read_skip (n - 16) :: (bytes, 'a pb_istream) call)"
      using True by (intro ext) (simp add: pb_read_skip.simps)
    ultimately show ?thesis using True by simp
  next
    case False
    then have "pb_read_skip n = (pb_read_buf n :: (bytes, 'a pb_istream) call)"
      by (intro ext) (simp add: pb_read_skip.simps)
    then show ?thesis using takes_weaken [OF takes_read_buf [of n], of n "\<lambda>_. True"] by simp
  qed
qed

lemma takes_read: "takes n (\<lambda>b. \<not> null \<longrightarrow> length b = n) (pb_read null n)"
proof (rule takesI)
  fix m and s :: "'a pb_istream"
  assume s: "stream_ok m s"
  have "pb_read null n s = (if null \<and> (\<exists>f st. is_state s = In_Custom f st) then pb_read_skip n s else pb_read_buf n s)"
    by (simp add: pb_read_def split: istate.splits)
  then show "\<exists>r s'. pb_read null n s = Some (r, s') \<and> stream_ok m s' \<and> is_left s' \<le> is_left s \<and>
      (\<forall>a. r = Some a \<longrightarrow> (\<not> null \<longrightarrow> length a = n) \<and> is_left s' + n \<le> is_left s)"
    using takes_read_skip [of n, unfolded takes_def, rule_format, OF s]
      takes_read_buf [of n, unfolded takes_def, rule_format, OF s] by (simp split: if_split) blast
qed

lemma takes_readbyte: "takes 1 (\<lambda>_. True) pb_readbyte"
proof (rule takesI)
  fix m and s :: "'a pb_istream"
  assume s: "stream_ok m s"
  show "\<exists>r s'. pb_readbyte s = Some (r, s') \<and> stream_ok m s' \<and> is_left s' \<le> is_left s \<and>
      (\<forall>a. r = Some a \<longrightarrow> True \<and> is_left s' + 1 \<le> is_left s)"
  proof (cases "is_left s = 0")
    case False
    then have l: "1 \<le> is_left s" by simp
    from is_call_ok [OF s l] obtain r s' where "is_call 1 s = Some (r, s')" "is_left s' = is_left s"
      "r = None \<longrightarrow> stream_ok m s'" "\<forall>b. r = Some b \<longrightarrow> length b = 1 \<and> stream_ok m (s'\<lparr>is_left := is_left s - 1\<rparr>)"
      by blast
    then show ?thesis using False by (cases r) (simp_all add: pb_readbyte_def is_error_def)
  qed (use s in \<open>simp add: pb_readbyte_def is_error_def\<close>)
qed

text \<open>The two decoding loops have one shape.\<close>

lemma takes_base128:
  fixes lim :: nat
  assumes "\<And>pos w. F pos w =
    (if lim \<le> pos then is_error e else cbind pb_readbyte (\<lambda>b. if cont b then F (pos + 7) (G pos w b) else cret (G pos w b)))"
  shows "takes 1 (\<lambda>_. True) (F pos w)"
proof (induction "lim - pos" arbitrary: pos w rule: less_induct)
  case less
  show ?case
  proof (cases "lim \<le> pos")
    case True
    then show ?thesis by (subst assms) (simp add: takes_error)
  next
    case False
    have "takes 0 (\<lambda>_. True) (if cont b then F (pos + 7) (G pos w b) else cret (G pos w b))" for b
      using False by (auto intro: takes_ret intro!: takes_any [OF less])
    from takes_bind [OF takes_readbyte this] False show ?thesis by (subst assms) simp
  qed
qed

lemma takes_varint32_loop: "takes 1 (\<lambda>_. True) (varint32_loop pos w)"
  by (rule takes_base128 [of varint32_loop 32 Varint_overflow "\<lambda>b. b AND 0x80 \<noteq> 0"
      "\<lambda>pos w b. w OR push_bit pos (ucast (b AND 0x7F))"]) (rule ext, subst varint32_loop.simps, simp add: Let_def)

lemma takes_varint: "takes 1 (\<lambda>_. True) pb_decode_varint"
  unfolding pb_decode_varint_def
  by (rule takes_base128 [of varint_loop 64 Varint_overflow "\<lambda>b. b AND 0x80 \<noteq> 0"
      "\<lambda>pos w b. w OR push_bit pos (ucast (b AND 0x7F))"]) (rule ext, subst varint_loop.simps, simp add: Let_def)

lemma takes_varint32: "takes 1 (\<lambda>_. True) pb_decode_varint32"
proof -
  have "takes 0 (\<lambda>_. True) (if b AND 0x80 = 0 then cret (ucast b) else varint32_loop 7 (ucast (b AND 0x7F)))" for b :: u8
    by (auto intro: takes_ret takes_any [OF takes_varint32_loop])
  from takes_bind [OF takes_readbyte this] show ?thesis by (simp add: pb_decode_varint32_def)
qed

lemma takes_svarint: "takes 1 (\<lambda>_. True) pb_decode_svarint"
proof -
  have "takes 0 (\<lambda>_. True) (if v AND 1 \<noteq> 0 then cret (NOT (drop_bit 1 v)) else cret (drop_bit 1 v))" for v :: u64
    by (auto intro: takes_ret)
  from takes_bind [OF takes_varint this] show ?thesis by (simp add: pb_decode_svarint_def)
qed

lemma takes_fixed32: "takes 4 (\<lambda>_. True) pb_decode_fixed32"
  unfolding pb_decode_fixed32_def by (rule takes_bind_ret [OF takes_read]) simp

lemma takes_fixed64: "takes 8 (\<lambda>_. True) pb_decode_fixed64"
  unfolding pb_decode_fixed64_def by (rule takes_bind_ret [OF takes_read]) simp

lemma takes_skip_varint: "takes 1 (\<lambda>_. True) pb_skip_varint"
proof (rule takesI)
  fix m and s :: "'a pb_istream"
  assume "stream_ok m s"
  then show "\<exists>r s'. pb_skip_varint s = Some (r, s') \<and> stream_ok m s' \<and> is_left s' \<le> is_left s \<and>
      (\<forall>a. r = Some a \<longrightarrow> True \<and> is_left s' + 1 \<le> is_left s)"
  proof (induction "is_left s" arbitrary: s rule: less_induct)
    case less
    from less.prems obtain r s1 where r: "pb_read False 1 s = Some (r, s1)" "stream_ok m s1" "is_left s1 \<le> is_left s"
      "\<And>a. r = Some a \<Longrightarrow> is_left s1 + 1 \<le> is_left s" by (rule takesD [OF takes_read]) blast
    show ?case
    proof (cases r)
      case None
      with r show ?thesis by (subst pb_skip_varint.simps) simp
    next
      case (Some b)
      with r less(1) [of s1] show ?thesis
        by (subst pb_skip_varint.simps) (fastforce simp: cret_def)
    qed
  qed
qed

lemma takes_skip_string: "takes 1 (\<lambda>_. True) pb_skip_string"
proof -
  have "takes 0 (\<lambda>_. True) (cbind (pb_read True n) (\<lambda>_. cret ()))" for n
    by (rule takes_any, rule takes_bind_ret [OF takes_read]) simp
  from takes_bind [OF takes_varint32 this] show ?thesis by (simp add: pb_skip_string_def)
qed

lemma takes_skip_field: "takes 1 (\<lambda>_. True) (pb_skip_field wt)"
proof -
  have r: "takes 1 (\<lambda>_. True) (cbind (pb_read True n) (\<lambda>_. cret ()))" if "1 \<le> n" for n
    by (rule takes_bind_ret [OF takes_weaken [OF takes_read that]]) auto
  show ?thesis using r [of 4] r [of 8]
    by (auto simp: pb_skip_field_def takes_error simp del: One_nat_def
      intro: takes_skip_varint takes_skip_string)
qed

lemma takes_raw_varint: "takes 0 (\<lambda>b. length b \<le> k) (raw_varint_loop k buf)" if "length buf \<le> k"
  using that
proof (induction "k - length buf" arbitrary: buf rule: less_induct)
  case less
  show ?case
  proof (cases "length buf + 1 > k")
    case True
    then have "raw_varint_loop k buf = (cfail :: (bytes, 'a pb_istream) call)"
      by (intro ext) (simp add: raw_varint_loop.simps)
    then show ?thesis by (simp add: takes_fail)
  next
    case False
    have eq: "raw_varint_loop k buf = cbind (pb_read False 1) (\<lambda>b.
        if hd b AND 0x80 \<noteq> 0 then raw_varint_loop k (buf @ [hd b]) else cret (buf @ [hd b]))"
      using False by (intro ext) (simp add: raw_varint_loop.simps)
    have "takes 0 (\<lambda>b. length b \<le> k) (if hd b AND 0x80 \<noteq> 0 then raw_varint_loop k (buf @ [hd b])
        else cret (buf @ [hd b]) :: (bytes, 'a pb_istream) call)" for b :: bytes
      using False less(1) [of "buf @ [hd b]"] by (auto intro: takes_ret)
    from takes_bind [OF takes_read this, of 1 False] show ?thesis unfolding eq
      by (rule takes_weaken) simp_all
  qed
qed

lemma takes_raw_value: "8 \<le> k \<Longrightarrow> takes 0 (\<lambda>b. length b \<le> k) (read_raw_value wt k)"
  unfolding read_raw_value_def
  by (auto intro!: takes_raw_varint takes_error intro: takes_weaken [OF takes_read])

text \<open>A tag is at least one byte; it ends the message at the end of the stream or with a zero byte.\<close>

lemma decode_tag_ok:
  assumes "stream_ok m s"
  obtains t s' where "pb_decode_tag s = Some (t, s')" "stream_ok m s'" "is_left s' \<le> is_left s"
    "\<And>wt tag. t = Tag wt tag \<Longrightarrow> is_left s' + 1 \<le> is_left s"
proof -
  from assms obtain r s1 where r: "pb_decode_varint32 s = Some (r, s1)" "stream_ok m s1" "is_left s1 \<le> is_left s"
    "\<And>a. r = Some a \<Longrightarrow> is_left s1 + 1 \<le> is_left s" by (rule takesD [OF takes_varint32]) blast
  show thesis
  proof (cases r)
    case None
    with r that [of "if is_left s1 = 0 then Eof else No_tag" s1] show thesis
      by (cases "is_left s1 = 0") (simp_all add: pb_decode_tag_def)
  next
    case (Some w)
    with r that show thesis by (cases "w = 0") (auto simp: pb_decode_tag_def)
  qed
qed

text \<open>The substream and the rest of the parent share the source: what each may read is disjoint.\<close>

lemma make_substream_ok:
  assumes "stream_ok m s"
  obtains s' where "pb_make_string_substream s = Some (None, s')" "stream_ok m s'" "is_left s' \<le> is_left s"
  | sub s' where "pb_make_string_substream s = Some (Some sub, s')" "stream_ok (m + is_left s') sub"
      "stream_ok m s'" "is_left sub + is_left s' + 1 \<le> is_left s"
proof -
  from assms obtain r s1 where r: "pb_decode_varint32 s = Some (r, s1)" "stream_ok m s1" "is_left s1 \<le> is_left s"
    "\<And>a. r = Some a \<Longrightarrow> is_left s1 + 1 \<le> is_left s" by (rule takesD [OF takes_varint32]) blast
  show thesis
  proof (cases r)
    case None
    with r that(1) show thesis by (simp add: pb_make_string_substream_def)
  next
    case (Some w)
    show thesis
    proof (cases "is_left s1 < unat w")
      case True
      with Some r that(1) show thesis by (simp add: pb_make_string_substream_def is_error_def)
    next
      case False
      with Some r that(2) show thesis
        by (fastforce simp: pb_make_string_substream_def cret_def stream_ok_def split: istate.splits)
    qed
  qed
qed

lemma close_substream_ok:
  assumes "stream_ok (m + is_left s) sub" "stream_ok m s"
  obtains r s' where "pb_close_string_substream sub s = Some (r, s')" "stream_ok m s'" "is_left s' = is_left s"
proof -
  note ok = that
  have *: thesis if r: "(if is_left sub \<noteq> 0 then pb_read True (is_left sub) sub else Some (Some [], sub)) = Some (r, t)"
    and t: "stream_ok (m + is_left s) t" for r t
  proof (cases r)
    case None
    with r assms(2) ok [of None s] show thesis by (simp add: pb_close_string_substream_def)
  next
    case (Some b)
    have "stream_ok m (s\<lparr>is_state := is_state t, is_err := is_err t\<rparr>)"
      using t by (auto simp: stream_ok_def split: istate.splits)
    with r Some ok [of "Some ()" "s\<lparr>is_state := is_state t, is_err := is_err t\<rparr>"] show thesis
      by (simp add: pb_close_string_substream_def)
  qed
  show thesis
  proof (cases "is_left sub = 0")
    case True
    with * [of "Some []" sub] assms show thesis by simp
  next
    case False
    obtain r t where "pb_read True (is_left sub) sub = Some (r, t)" "stream_ok (m + is_left s) t"
      by (rule takesD [OF takes_read assms(1)])
    with * [of r t] False show thesis by simp
  qed
qed

section \<open>Reading back\<close>

definition src :: "bytes \<Rightarrow> nat \<Rightarrow> pb_errmsg option \<Rightarrow> 's pb_istream" where
  "src b n e = \<lparr>is_state = In_Buffer b, is_left = n, is_err = e\<rparr>"

text \<open>\<open>consumes p xs a\<close>: on a buffer that begins with \<open>xs\<close> the call returns \<open>a\<close> and stands behind \<open>xs\<close>.\<close>

definition consumes :: "('a, 's pb_istream) call \<Rightarrow> bytes \<Rightarrow> 'a \<Rightarrow> bool" where
  "consumes p xs a \<longleftrightarrow>
     (\<forall>rest n e. p (src (xs @ rest) (length xs + n) e) = Some (Some a, src rest n e))"

lemma consumesD: "consumes p xs a \<Longrightarrow> p (src (xs @ rest) (length xs + n) e) = Some (Some a, src rest n e)"
  by (simp add: consumes_def)

lemma consumes_ret: "consumes (cret a) [] a"
  by (simp add: consumes_def cret_def)

lemma consumes_bind:
  assumes "consumes p xs a" "consumes (f a) ys b"
  shows "consumes (cbind p f) (xs @ ys) b"
  unfolding consumes_def
proof (intro allI)
  fix rest n e
  have "p (src (xs @ ys @ rest) (length xs + (length ys + n)) e) = Some (Some a, src (ys @ rest) (length ys + n) e)"
    using assms(1) by (rule consumesD)
  then show "cbind p f (src ((xs @ ys) @ rest) (length (xs @ ys) + n) e) = Some (Some b, src rest n e)"
    using consumesD [OF assms(2)] by (simp add: add.assoc)
qed

lemma consumes_bind_ret: "consumes p xs a \<Longrightarrow> consumes (cbind p (\<lambda>a. cret (f a))) xs (f a)"
  using consumes_bind [OF _ consumes_ret] by fastforce

lemma consumes_read: "consumes (pb_read null (length xs)) xs xs"
  by (simp add: consumes_def pb_read_def pb_read_buf_def is_call_def buf_read_def src_def)

lemma consumes_readbyte: "consumes pb_readbyte [b] b"
  by (simp add: consumes_def pb_readbyte_def is_call_def buf_read_def src_def)

lemma unat_ucast_u8_gen: "8 \<le> LENGTH('a::len) \<Longrightarrow> unat (ucast (b :: u8) :: 'a word) = unat b"
proof -
  assume "8 \<le> LENGTH('a)"
  then have "(2 :: nat) ^ 8 \<le> 2 ^ LENGTH('a)" by (rule power_increasing) simp
  with unat_u8_less [of b] have "unat b < 2 ^ LENGTH('a)" by (simp del: unat_u8_less)
  then show ?thesis by (simp add: unsigned_ucast_eq take_bit_nat_eq_self)
qed

lemma unat_u8_small: "n < 256 \<Longrightarrow> unat (word_of_nat n :: u8) = n"
  by (simp only: unat_u8_of_nat mod_less)

lemma consumes_base128:
  fixes F :: "nat \<Rightarrow> 'w::len word \<Rightarrow> ('w word, 's pb_istream) call"
  assumes F: "\<And>pos w. F pos w = (if LENGTH('w) \<le> pos then is_error e else cbind pb_readbyte (\<lambda>b.
      if b AND 0x80 \<noteq> 0 then F (pos + 7) (w OR push_bit pos (ucast (b AND 0x7F)))
      else cret (w OR push_bit pos (ucast (b AND 0x7F)))))"
    and L: "8 \<le> LENGTH('w)"
    and "pos < LENGTH('w)" "unat w < 2 ^ pos" "n < 2 ^ (LENGTH('w) - pos)"
  shows "consumes (F pos w) (leb128 n) (word_of_nat (unat w + n * 2 ^ pos))"
  using assms(3-)
proof (induction n arbitrary: pos w rule: leb128.induct)
  case (1 n)
  have join: "unat (w OR push_bit pos (ucast (b AND 0x7F))) = unat w + unat b mod 128 * 2 ^ pos"
    if "unat b mod 128 < 2 ^ (LENGTH('w) - pos)" for b :: u8
    using unat_or_push [of w pos "ucast (b AND 0x7F)" "LENGTH('w) - pos"] that 1(2,3)
    by (simp add: unat_ucast_u8_gen [OF L] unat_and_7f or.commute)
  have step: "consumes (F pos w) (b # ys) v"
    if "consumes (if b AND 0x80 \<noteq> 0 then F (pos + 7) (w OR push_bit pos (ucast (b AND 0x7F)))
      else cret (w OR push_bit pos (ucast (b AND 0x7F)))) ys v" for b ys v
    using consumes_bind [where f = "\<lambda>b. if b AND 0x80 \<noteq> 0 then F (pos + 7) (w OR push_bit pos (ucast (b AND 0x7F)))
        else cret (w OR push_bit pos (ucast (b AND 0x7F)))", OF consumes_readbyte that] 1(2) by (subst F) simp
  show ?case
  proof (cases "n < 128")
    case True
    have b: "unat (word_of_nat n :: u8) = n" using True by (simp add: unat_u8_small)
    then have "(word_of_nat n :: u8) AND 0x80 = 0" using high_bit [of "word_of_nat n"] True by simp
    moreover have "unat (w OR push_bit pos (ucast ((word_of_nat n :: u8) AND 0x7F))) = unat w + n * 2 ^ pos"
      using join [of "word_of_nat n"] True 1(4) unfolding b by simp
    then have "w OR push_bit pos (ucast ((word_of_nat n :: u8) AND 0x7F)) = word_of_nat (unat w + n * 2 ^ pos)"
      by (metis of_nat_unat ucast_id)
    ultimately show ?thesis using True consumes_ret by (simp only: leb128_small) (rule step, simp)
  next
    case False
    define k where "k = LENGTH('w) - pos - 7"
    have k: "LENGTH('w) - pos = 7 + k" "0 < k"
    proof -
      have "\<not> LENGTH('w) - pos \<le> 7"
      proof
        assume "LENGTH('w) - pos \<le> 7"
        then have "(2 :: nat) ^ (LENGTH('w) - pos) \<le> 2 ^ 7" by (rule power_increasing) simp
        with 1(4) False show False by simp
      qed
      then show "LENGTH('w) - pos = 7 + k" "0 < k" by (simp_all add: k_def)
    qed
    have n: "n div 128 < 2 ^ k" using 1(4) unfolding k(1) power_add by (simp add: less_mult_imp_div_less mult.commute)
    define b :: u8 where "b = word_of_nat (n mod 128 + 128)"
    define w' where "w' = w OR push_bit pos (ucast (b AND 0x7F))"
    have b: "b AND 0x80 \<noteq> 0" "unat b mod 128 = n mod 128" unfolding b_def by (rule b128_digit)+
    have "n mod 128 < 2 ^ (7 + k)" using 1(4) k by (metis le_less_trans mod_less_eq_dividend)
    then have w': "unat w' = unat w + n mod 128 * 2 ^ pos"
      unfolding w'_def using join [of b] by (simp add: b(2) k(1))
    have "n mod 128 + 1 \<le> 128" using mod_less_divisor [of 128 n] by linarith
    then have "(n mod 128 + 1) * 2 ^ pos \<le> 128 * 2 ^ pos" by (rule mult_le_mono1)
    then have "n mod 128 * 2 ^ pos + 2 ^ pos \<le> 128 * 2 ^ pos" by (simp only: add_mult_distrib mult_1)
    moreover have "2 ^ (pos + 7) = 128 * (2 :: nat) ^ pos" by (simp add: power_add)
    ultimately have "unat w' < 2 ^ (pos + 7)" using 1(3) unfolding w' by linarith
    then have IH: "consumes (F (pos + 7) w') (leb128 (n div 128)) (word_of_nat (unat w' + n div 128 * 2 ^ (pos + 7)))"
    proof (intro 1(1) False)
      show "pos + 7 < LENGTH('w)" using k by arith
      have "LENGTH('w) - (pos + 7) = k" unfolding k_def by arith
      then show "n div 128 < 2 ^ (LENGTH('w) - (pos + 7))" using n by simp
    qed
    have "n mod 128 * 2 ^ pos + n div 128 * (2 ^ pos * 128) = (n div 128 * 128 + n mod 128) * 2 ^ pos"
      by (simp only: distrib_left distrib_right ac_simps)
    also have "\<dots> = n * 2 ^ pos" by (simp only: div_mult_mod_eq)
    finally have "unat w' + n div 128 * 2 ^ (pos + 7) = unat w + n * 2 ^ pos" by (simp add: w' power_add)
    then show ?thesis using IH False b(1) unfolding leb128_large [OF False [unfolded not_less]] b_def [symmetric]
      by (intro step) (simp add: w'_def [symmetric])
  qed
qed

lemma consumes_varint: "consumes pb_decode_varint (leb128 (unat v)) v"
proof -
  have "consumes (varint_loop 0 0) (leb128 (unat v)) (word_of_nat (unat (0 :: u64) + unat v * 2 ^ 0))"
    by (rule consumes_base128 [where e = Varint_overflow]) (rule ext, subst varint_loop.simps, simp_all add: Let_def unsigned_less [of v, simplified])
  then show ?thesis by (simp add: pb_decode_varint_def)
qed

lemma ucast_and_7f: "(b :: u8) AND 0x80 = 0 \<Longrightarrow> b AND 0x7F = b"
  using high_bit [of b] by (intro word_unat_eq_iff [THEN iffD2]) (simp add: unat_and_7f)

lemma decode_varint32_loop: "pb_decode_varint32 = varint32_loop 0 0"
proof (rule ext)
  fix s :: "'a pb_istream"
  have "varint32_loop 0 0 s = cbind pb_readbyte (\<lambda>b. if b AND 0x80 = 0 then cret (ucast b) else varint32_loop 7 (ucast (b AND 0x7F))) s"
    by (subst varint32_loop.simps) (simp add: Let_def, rule cbind_cong, auto simp: ucast_and_7f)
  then show "pb_decode_varint32 s = varint32_loop 0 0 s" by (simp add: pb_decode_varint32_def)
qed

lemma consumes_varint32: "consumes pb_decode_varint32 (leb128 (unat v)) v"
proof -
  have "consumes (varint32_loop 0 0) (leb128 (unat v)) (word_of_nat (unat (0 :: u32) + unat v * 2 ^ 0))"
    by (rule consumes_base128 [where e = Varint_overflow]) (rule ext, subst varint32_loop.simps, simp_all add: Let_def unsigned_less [of v, simplified])
  then show ?thesis by (simp add: decode_varint32_loop)
qed

lemma consumes_skip_varint: "consumes pb_skip_varint (leb128 n) ()"
proof (induction n rule: leb128.induct)
  case (1 n)
  have eq: "pb_skip_varint = cbind (pb_read False 1) (\<lambda>buf s. if hd buf AND 0x80 \<noteq> 0 then pb_skip_varint s else cret () s :: (unit option \<times> 'a pb_istream) option)"
    by (rule ext) (rule pb_skip_varint.simps)
  have step: "consumes (pb_skip_varint :: (unit, 'a pb_istream) call) (b # ys) ()"
    if "consumes (if b AND 0x80 \<noteq> 0 then pb_skip_varint else cret () :: (unit, 'a pb_istream) call) ys ()" for b ys
  proof -
    have "consumes (\<lambda>s. if hd [b] AND 0x80 \<noteq> 0 then pb_skip_varint s else cret () s :: (unit option \<times> 'a pb_istream) option) ys ()"
      using that by (simp split: if_splits)
    from consumes_bind [where f = "\<lambda>buf s. if hd buf AND 0x80 \<noteq> 0 then pb_skip_varint s else cret () s",
        OF consumes_read [of False "[b]", simplified] this] show ?thesis by (subst eq) simp
  qed
  show ?case
  proof (cases "n < 128")
    case True
    then have "(word_of_nat n :: u8) AND 0x80 = 0"
      using high_bit [of "word_of_nat n"] unat_u8_small [of n] by simp
    then show ?thesis using True consumes_ret by (simp only: leb128_small) (rule step, simp)
  next
    case False
    have "(word_of_nat (n mod 128 + 128) :: u8) AND 0x80 \<noteq> 0" by (rule b128_digit)
    then show ?thesis using 1 False unfolding leb128_large [OF False [unfolded not_less]] by (intro step) simp
  qed
qed

lemma consumes_skip_string: "length xs < 2 ^ 32 \<Longrightarrow> consumes pb_skip_string (leb128 (length xs) @ xs) ()"
proof -
  assume "length xs < 2 ^ 32"
  then have l: "unat (word_of_nat (length xs) :: u32) = length xs" by (simp add: unat_of_nat take_bit_nat_eq_self)
  have "consumes (cbind (pb_read True (length xs)) (\<lambda>_. cret ())) xs ()"
    by (rule consumes_bind_ret [OF consumes_read])
  then show ?thesis
    using consumes_bind [OF consumes_varint32 [of "word_of_nat (length xs)"], where f = "\<lambda>n. cbind (pb_read True (unat n)) (\<lambda>_. cret ())"]
    by (simp add: pb_skip_string_def l)
qed

lemma consumes_substream:
  assumes "length xs < 2 ^ 32"
  shows "pb_make_string_substream (src (leb128 (length xs) @ xs @ rest) (length (leb128 (length xs)) + (length xs + n)) e) =
    Some (Some (src (xs @ rest) (length xs) e), src (xs @ rest) n e)"
proof -
  have l: "unat (word_of_nat (length xs) :: u32) = length xs" using assms by (simp add: unat_of_nat take_bit_nat_eq_self)
  note r = consumesD [OF consumes_varint32 [of "word_of_nat (length xs)"], unfolded l, of "xs @ rest" "length xs + n" e]
  show ?thesis unfolding pb_make_string_substream_def cbind_Some [where p = pb_decode_varint32, OF r]
    by (simp add: l cret_def src_def)
qed

section \<open>Writing\<close>

text \<open>
  \<open>emits p xs\<close>: a counting stream counts \<open>xs\<close>; a buffer without an earlier error gets \<open>xs\<close> if it has room, and otherwise
  the call returns \<open>false\<close> with an error message and a part of \<open>xs\<close> written.
\<close>

definition emits :: "(unit, bytes pb_ostream) call \<Rightarrow> bytes \<Rightarrow> bool" where
  "emits p xs \<longleftrightarrow>
     (\<forall>s. os_callback s = None \<and> os_written s < SIZE_LIMIT \<longrightarrow>
        p s = Some (Some (), s\<lparr>os_written := sz (os_written s + length xs)\<rparr>)) \<and>
     (\<forall>s. os_callback s = Some buf_write \<and> os_err s = None \<and> os_written s \<le> os_max s \<and> os_max s < 2 ^ 63 \<longrightarrow>
        (if os_written s + length xs \<le> os_max s
         then p s = Some (Some (), s\<lparr>os_state := os_state s @ xs, os_written := os_written s + length xs\<rparr>)
         else \<exists>k e. k < length xs \<and> os_written s + k \<le> os_max s \<and>
           p s = Some (None, s\<lparr>os_state := os_state s @ take k xs, os_written := os_written s + k, os_err := Some e\<rparr>)))"

lemma emits_sizing: "\<lbrakk>emits p xs; os_callback s = None; os_written s < SIZE_LIMIT\<rbrakk> \<Longrightarrow>
    p s = Some (Some (), s\<lparr>os_written := sz (os_written s + length xs)\<rparr>)"
  by (simp add: emits_def)

lemma emits_room:
  "\<lbrakk>emits p xs; os_callback s = Some buf_write; os_err s = None; os_written s + length xs \<le> os_max s; os_max s < 2 ^ 63\<rbrakk> \<Longrightarrow>
    p s = Some (Some (), s\<lparr>os_state := os_state s @ xs, os_written := os_written s + length xs\<rparr>)"
  by (simp add: emits_def)

lemma emits_full:
  assumes "emits p xs" "os_callback s = Some buf_write" "os_err s = None" "os_written s \<le> os_max s" "os_max s < os_written s + length xs"
    "os_max s < 2 ^ 63"
  obtains k e where "k < length xs" "os_written s + k \<le> os_max s"
    "p s = Some (None, s\<lparr>os_state := os_state s @ take k xs, os_written := os_written s + k, os_err := Some e\<rparr>)"
  using assms(1) [unfolded emits_def, THEN conjunct2, rule_format, of s] assms(2-) by auto

lemma emits_ret: "emits (cret ()) []"
  by (auto simp: emits_def cret_def sz_def)

lemma emits_write:
  assumes "length xs = n" "n < 2 ^ 63"
  shows "emits (pb_write (Some xs) n) xs"
  unfolding emits_def
proof (intro conjI allI impI, goal_cases)
  case (2 s)
  have sz: "sz (os_written s + n) = os_written s + n"
    using 2 assms by (intro sz_id) (simp add: SIZE_LIMIT_def)
  show ?case
  proof (cases "os_written s + length xs \<le> os_max s")
    case True
    then show ?thesis using 2 assms sz by (simp add: pb_write_def buf_write_def)
  next
    case False
    then have "pb_write (Some xs) n s = Some (None, s\<lparr>os_state := os_state s @ take 0 xs, os_written := os_written s + 0,
        os_err := Some (case os_err s of None \<Rightarrow> Stream_full | Some e0 \<Rightarrow> e0)\<rparr>)"
      using 2 assms sz by (simp add: pb_write_def os_error_def split: option.splits)
    moreover have "0 < length xs" using False 2 by linarith
    ultimately show ?thesis using False 2 by (metis add.right_neutral)
  qed
qed (use assms in \<open>simp add: pb_write_def\<close>)

lemma emits_bind:
  assumes p: "emits p xs" and q: "emits (q ()) ys"
  shows "emits (cbind p q) (xs @ ys)"
  unfolding emits_def
proof (intro conjI allI impI, goal_cases)
  case (1 s)
  then show ?case using emits_sizing [OF p, of s] emits_sizing [OF q, of "s\<lparr>os_written := sz (os_written s + length xs)\<rparr>"]
    by (simp add: sz_def mod_add_left_eq add.assoc)
next
  case (2 s)
  then have s: "os_callback s = Some buf_write" "os_err s = None" "os_written s \<le> os_max s" "os_max s < 2 ^ 63" by simp_all
  let ?t = "s\<lparr>os_state := os_state s @ xs, os_written := os_written s + length xs\<rparr>"
  show ?case
  proof (cases "os_written s + length xs \<le> os_max s")
    case True
    have t: "p s = Some (Some (), ?t)" using emits_room [OF p s(1,2) True s(4)] .
    show ?thesis
    proof (cases "os_written s + length xs + length ys \<le> os_max s")
      case True
      then show ?thesis using t emits_room [OF q, of ?t] s by (simp add: add.assoc)
    next
      case False
      with emits_full [OF q, of ?t] True s obtain k e where k: "k < length ys" "os_written s + length xs + k \<le> os_max s"
        "q () ?t = Some (None, ?t\<lparr>os_state := os_state ?t @ take k ys, os_written := os_written ?t + k, os_err := Some e\<rparr>)"
        by auto
      have "cbind p q s = Some (None, s\<lparr>os_state := os_state s @ take (length xs + k) (xs @ ys),
          os_written := os_written s + (length xs + k), os_err := Some e\<rparr>)"
        using t k(3) by (simp add: add.assoc)
      then show ?thesis using k False
        by (auto intro!: exI [of _ "length xs + k"] exI [of _ e])
    qed
  next
    case False
    then obtain k e where k: "k < length xs" "os_written s + k \<le> os_max s"
      "p s = Some (None, s\<lparr>os_state := os_state s @ take k xs, os_written := os_written s + k, os_err := Some e\<rparr>)"
      using emits_full [OF p s(1-3) _ s(4)] by (metis not_le)
    then have "cbind p q s = Some (None, s\<lparr>os_state := os_state s @ take k (xs @ ys), os_written := os_written s + k, os_err := Some e\<rparr>)"
      by simp
    then show ?thesis using k False by (auto intro!: exI [of _ k] exI [of _ e])
  qed
qed

lemma emits_varint: "emits (pb_encode_varint v) (leb128 (unat v))"
proof -
  have "unat v < 128 ^ 10" by (rule less_trans [OF unsigned_less]) simp
  then have "length (leb128 (unat v)) \<le> max 1 10" by (rule length_leb128)
  then show ?thesis unfolding pb_encode_varint_def varint_buffer_leb128 by (intro emits_write) simp_all
qed

lemma emits_string: "length xs = n \<Longrightarrow> n < 2 ^ 63 \<Longrightarrow> emits (pb_encode_string (Some xs) n) (leb128 n @ xs)"
  unfolding pb_encode_string_def
  using emits_bind [OF emits_varint [of "word_of_nat n"] emits_write [of xs n]]
  by (simp add: unat_of_nat take_bit_nat_eq_self)

lemma ff_mask: "(0xFF :: 'a::len word) = mask 8"
  by (simp add: mask_eq_exp_minus_1)

lemma byte_piece: "bit (push_bit k (ucast (ucast (drop_bit k (v :: 'a::len word) AND 0xFF) :: u8)) :: 'a word) n \<longleftrightarrow>
    n < LENGTH('a) \<and> k \<le> n \<and> n < k + 8 \<and> bit v n"
  unfolding ff_mask by (auto simp: bit_simps)

lemma byte_piece0: "bit (ucast (ucast ((v :: 'a::len word) AND 0xFF) :: u8) :: 'a word) n \<longleftrightarrow>
    n < LENGTH('a) \<and> n < 8 \<and> bit v n"
  unfolding ff_mask by (auto simp: bit_simps)

lemma fixed32_pieces:
  "ucast (ucast ((v :: u32) AND 0xFF) :: u8) OR push_bit 8 (ucast (ucast (drop_bit 8 v AND 0xFF) :: u8)) OR
   push_bit 16 (ucast (ucast (drop_bit 16 v AND 0xFF) :: u8)) OR push_bit 24 (ucast (ucast (drop_bit 24 v AND 0xFF) :: u8)) = v"
  by (rule bit_word_eqI) (simp only: bit_or_iff byte_piece byte_piece0, auto)

lemma fixed64_pieces:
  "ucast (ucast ((v :: u64) AND 0xFF) :: u8) OR push_bit 8 (ucast (ucast (drop_bit 8 v AND 0xFF) :: u8)) OR
   push_bit 16 (ucast (ucast (drop_bit 16 v AND 0xFF) :: u8)) OR push_bit 24 (ucast (ucast (drop_bit 24 v AND 0xFF) :: u8)) OR
   push_bit 32 (ucast (ucast (drop_bit 32 v AND 0xFF) :: u8)) OR push_bit 40 (ucast (ucast (drop_bit 40 v AND 0xFF) :: u8)) OR
   push_bit 48 (ucast (ucast (drop_bit 48 v AND 0xFF) :: u8)) OR push_bit 56 (ucast (ucast (drop_bit 56 v AND 0xFF) :: u8)) = v"
  by (rule bit_word_eqI) (simp only: bit_or_iff byte_piece byte_piece0, auto)

definition fixed32_bytes :: "u32 \<Rightarrow> bytes" where
  "fixed32_bytes v = map (\<lambda>k. ucast (drop_bit k v AND 0xFF)) [0, 8, 16, 24]"

definition fixed64_bytes :: "u64 \<Rightarrow> bytes" where
  "fixed64_bytes v = map (\<lambda>k. ucast (drop_bit k v AND 0xFF)) [0, 8, 16, 24, 32, 40, 48, 56]"

lemma emits_fixed32: "emits (pb_encode_fixed32 v) (fixed32_bytes v)"
  unfolding pb_encode_fixed32_def fixed32_bytes_def by (simp, rule emits_write) simp_all

lemma emits_fixed64: "emits (pb_encode_fixed64 v) (fixed64_bytes v)"
  unfolding pb_encode_fixed64_def fixed64_bytes_def by (simp, rule emits_write) simp_all

lemma consumes_fixed32: "consumes pb_decode_fixed32 (fixed32_bytes v) v"
proof -
  define f where "f b = (ucast (b ! 0) OR push_bit 8 (ucast (b ! 1)) OR push_bit 16 (ucast (b ! 2)) OR
    push_bit 24 (ucast (b ! 3)) :: u32)" for b :: bytes
  have "consumes (cbind (pb_read False (length (fixed32_bytes v))) (\<lambda>b. cret (f b))) (fixed32_bytes v) (f (fixed32_bytes v))"
    by (rule consumes_bind_ret [OF consumes_read])
  moreover have "length (fixed32_bytes v) = 4" by (simp add: fixed32_bytes_def)
  moreover have "f (fixed32_bytes v) = v"
    using fixed32_pieces [of v] by (simp add: f_def fixed32_bytes_def)
  ultimately show ?thesis by (simp add: pb_decode_fixed32_def f_def)
qed

lemma consumes_fixed64: "consumes pb_decode_fixed64 (fixed64_bytes v) v"
proof -
  define f where "f b = (ucast (b ! 0) OR push_bit 8 (ucast (b ! 1)) OR push_bit 16 (ucast (b ! 2)) OR
    push_bit 24 (ucast (b ! 3)) OR push_bit 32 (ucast (b ! 4)) OR push_bit 40 (ucast (b ! 5)) OR
    push_bit 48 (ucast (b ! 6)) OR push_bit 56 (ucast (b ! 7)) :: u64)" for b :: bytes
  have "consumes (cbind (pb_read False (length (fixed64_bytes v))) (\<lambda>b. cret (f b))) (fixed64_bytes v) (f (fixed64_bytes v))"
    by (rule consumes_bind_ret [OF consumes_read])
  moreover have "length (fixed64_bytes v) = 8" by (simp add: fixed64_bytes_def)
  moreover have "f (fixed64_bytes v) = v"
    using fixed64_pieces [of v] by (simp add: f_def fixed64_bytes_def)
  ultimately show ?thesis by (simp add: pb_decode_fixed64_def f_def)
qed

definition zigzag :: "u64 \<Rightarrow> u64" where
  "zigzag v = (if sint v < 0 then NOT (push_bit 1 v) else push_bit 1 v)"

lemma zigzag_inv: "(if zigzag v AND 1 \<noteq> 0 then NOT (drop_bit 1 (zigzag v)) else drop_bit 1 (zigzag v)) = v"
proof -
  have neg: "sint v < 0 \<longleftrightarrow> bit v 63" using bit_last_iff [of v] by simp
  have low: "w AND 1 \<noteq> 0 \<longleftrightarrow> bit w 0" for w :: u64 
    by (simp add: and_one_eq odd_iff_mod_2_eq_one bit_0 flip: odd_iff_mod_2_eq_one)
  have "zigzag v AND 1 \<noteq> 0 \<longleftrightarrow> sint v < 0" unfolding low by (simp add: zigzag_def bit_not_iff bit_0)
  moreover have z: "bit (push_bit 1 v) (1 + n) \<longleftrightarrow> n < 63 \<and> bit v n" for n
    by (auto simp: bit_push_bit_iff dest: bit_imp_le_length simp del: push_bit_Suc)
  have "NOT (drop_bit 1 (zigzag v)) = v" if "sint v < 0"
  proof (rule bit_word_eqI)
    fix n
    assume "n < LENGTH(64)"
    then have "n < 63 \<or> n = 63" by auto
    then show "bit (NOT (drop_bit 1 (zigzag v))) n = bit v n"
      using that neg z [of n] by (auto simp: zigzag_def bit_not_iff bit_drop_bit_eq simp del: push_bit_Suc)
  qed
  moreover have "drop_bit 1 (zigzag v) = v" if "\<not> sint v < 0"
  proof (rule bit_word_eqI)
    fix n
    assume "n < LENGTH(64)"
    then have "n < 63 \<or> n = 63" by auto
    then show "bit (drop_bit 1 (zigzag v)) n = bit v n"
      using that neg z [of n] by (auto simp: zigzag_def bit_drop_bit_eq)
  qed
  ultimately show ?thesis by simp
qed

lemma emits_svarint: "emits (pb_encode_svarint v) (leb128 (unat (zigzag v)))"
  by (simp only: pb_encode_svarint_def Let_def zigzag_def [symmetric] emits_varint)

lemma consumes_svarint: "consumes pb_decode_svarint (leb128 (unat (zigzag v))) v"
proof -
  have "consumes (cbind pb_decode_varint (\<lambda>v. cret (if v AND 1 \<noteq> 0 then NOT (drop_bit 1 v) else drop_bit 1 v)))
      (leb128 (unat (zigzag v))) v"
    using consumes_bind_ret [OF consumes_varint [of "zigzag v"], where f = "\<lambda>v. if (v :: u64) AND 1 \<noteq> 0 then NOT (drop_bit 1 v) else drop_bit 1 v"]
    by (simp only: zigzag_inv)
  then show ?thesis unfolding pb_decode_svarint_def by (simp only: if_distrib [of cret])
qed

section \<open>Sequences of fields\<close>

text \<open>
  What a user of the wire level does: write fields one after the other, and read them in a loop,
  as the kinds a schema gives for their numbers, skipping the numbers it does not know.
\<close>

datatype wire = W_varint u64 | W_svarint u64 | W_fixed32 u32 | W_fixed64 u64 | W_string bytes
datatype wire_kind = K_varint | K_svarint | K_fixed32 | K_fixed64 | K_string

fun wire_kind_of :: "wire \<Rightarrow> wire_kind" where
  "wire_kind_of (W_varint v) = K_varint"
| "wire_kind_of (W_svarint v) = K_svarint"
| "wire_kind_of (W_fixed32 v) = K_fixed32"
| "wire_kind_of (W_fixed64 v) = K_fixed64"
| "wire_kind_of (W_string b) = K_string"

fun wire_type :: "wire_kind \<Rightarrow> u32" where
  "wire_type K_varint = PB_WT_VARINT"
| "wire_type K_svarint = PB_WT_VARINT"
| "wire_type K_fixed32 = PB_WT_32BIT"
| "wire_type K_fixed64 = PB_WT_64BIT"
| "wire_type K_string = PB_WT_STRING"

fun write_wire :: "wire \<Rightarrow> (unit, bytes pb_ostream) call" where
  "write_wire (W_varint v) = pb_encode_varint v"
| "write_wire (W_svarint v) = pb_encode_svarint v"
| "write_wire (W_fixed32 v) = pb_encode_fixed32 v"
| "write_wire (W_fixed64 v) = pb_encode_fixed64 v"
| "write_wire (W_string b) = pb_encode_string (Some b) (length b)"

fun write_fields :: "(u32 \<times> wire) list \<Rightarrow> (unit, bytes pb_ostream) call" where
  "write_fields [] = cret ()"
| "write_fields (f # fs) =
     cbind (pb_encode_tag (wire_type (wire_kind_of (snd f))) (fst f)) (\<lambda>_. cbind (write_wire (snd f)) (\<lambda>_. write_fields fs))"

text \<open>A string is read through a substream, as a submessage is.\<close>

definition read_string :: "(bytes, 's pb_istream) call" where
  "read_string =
     cbind pb_make_string_substream (\<lambda>sub s.
       case pb_read False (is_left sub) sub of
         None \<Rightarrow> None
       | Some (None, sub) \<Rightarrow> cfail s
       | Some (Some b, sub) \<Rightarrow> cbind (pb_close_string_substream sub) (\<lambda>_. cret b) s)"

fun read_wire :: "wire_kind \<Rightarrow> (wire, 's pb_istream) call" where
  "read_wire K_varint = cbind pb_decode_varint (\<lambda>v. cret (W_varint v))"
| "read_wire K_svarint = cbind pb_decode_svarint (\<lambda>v. cret (W_svarint v))"
| "read_wire K_fixed32 = cbind pb_decode_fixed32 (\<lambda>v. cret (W_fixed32 v))"
| "read_wire K_fixed64 = cbind pb_decode_fixed64 (\<lambda>v. cret (W_fixed64 v))"
| "read_wire K_string = cbind read_string (\<lambda>b. cret (W_string b))"

partial_function (option) read_fields ::
  "(u32 \<Rightarrow> wire_kind option) \<Rightarrow> (u32 \<times> wire) list \<Rightarrow> ((u32 \<times> wire) list, 's pb_istream) call" where
  "read_fields schema acc s =
     (if is_left s = 0 then cret acc s
      else
        (case pb_decode_tag s of
           None \<Rightarrow> None
         | Some (t, s) \<Rightarrow>
             (case t of
                Eof \<Rightarrow> cret acc s
              | No_tag \<Rightarrow> cfail s
              | Tag wt tag \<Rightarrow>
                  (case schema tag of
                     None \<Rightarrow> cbind (pb_skip_field wt) (\<lambda>_ s. read_fields schema acc s) s
                   | Some k \<Rightarrow> cbind (read_wire k) (\<lambda>w s. read_fields schema (acc @ [(tag, w)]) s) s))))"

fun wire_bytes :: "wire \<Rightarrow> bytes" where
  "wire_bytes (W_varint v) = leb128 (unat v)"
| "wire_bytes (W_svarint v) = leb128 (unat (zigzag v))"
| "wire_bytes (W_fixed32 v) = fixed32_bytes v"
| "wire_bytes (W_fixed64 v) = fixed64_bytes v"
| "wire_bytes (W_string b) = leb128 (length b) @ b"

fun wire_ok :: "u32 \<times> wire \<Rightarrow> bool" where
  "wire_ok (tag, w) \<longleftrightarrow> 0 < tag \<and> tag < 2 ^ 29 \<and> (case w of W_string b \<Rightarrow> length b < 2 ^ 32 | _ \<Rightarrow> True)"

definition tag_val :: "u32 \<Rightarrow> u32 \<Rightarrow> u32" where
  "tag_val wt tag = push_bit 3 tag OR wt"

lemma no_bit_above: "\<not> bit (w :: 'a::len word) n" if "unat w < 2 ^ k" "k \<le> n"
proof -
  have "unat w < 2 ^ n" using that by (meson less_le_trans one_le_numeral power_increasing)
  then have "\<not> bit (unat w) n" by (simp only: bit_iff_odd div_less) simp
  then show ?thesis by (auto simp: bit_unsigned_iff)
qed

lemma tag_val:
  assumes "unat wt < 8" "unat tag < 2 ^ 29"
  shows "unat (tag_val wt tag) = unat tag * 8 + unat wt"
    "push_bit 3 (ucast tag) OR ucast wt = (ucast (tag_val wt tag) :: u64)"
    "tag_val wt tag AND 7 = wt" "drop_bit 3 (tag_val wt tag) = tag" "0 < tag \<Longrightarrow> tag_val wt tag \<noteq> 0"
proof -
  have wt: "\<not> bit wt n" if "3 \<le> n" for n using no_bit_above [of wt 3 n] assms that by simp
  have tag: "\<not> bit tag n" if "29 \<le> n" for n using no_bit_above [of tag 29 n] assms that by simp
  show u: "unat (tag_val wt tag) = unat tag * 8 + unat wt"
    unfolding tag_val_def using unat_or_push [of wt 3 tag 29] assms by simp
  have "(7 :: u32) = mask 3" by (simp add: mask_eq_exp_minus_1)
  then have seven: "bit (7 :: u32) n \<longleftrightarrow> n < 3" for n by (simp only: bit_mask_iff) auto
  show "tag_val wt tag AND 7 = wt"
  proof (rule bit_word_eqI)
    fix n
    show "bit (tag_val wt tag AND 7) n = bit wt n"
      using wt [of n] by (cases "n < 3") (simp_all only: tag_val_def bit_and_iff bit_or_iff bit_push_bit_iff seven, auto)
  qed
  show d: "drop_bit 3 (tag_val wt tag) = tag"
  proof (rule bit_word_eqI)
    fix n
    show "bit (drop_bit 3 (tag_val wt tag)) n = bit tag n"
      using wt [of "3 + n"] tag [of n] by (cases "29 \<le> n") (auto simp: tag_val_def bit_simps not_le)
  qed
  show "push_bit 3 (ucast tag) OR ucast wt = (ucast (tag_val wt tag) :: u64)"
  proof (rule bit_word_eqI)
    fix n
    show "bit (push_bit 3 (ucast tag) OR ucast wt :: u64) n = bit (ucast (tag_val wt tag) :: u64) n"
      using wt [of n] tag [of "n - 3"] by (cases "32 \<le> n") (auto simp: tag_val_def bit_simps not_le)
  qed
  show "tag_val wt tag \<noteq> 0" if "0 < tag" using d that by (intro notI) simp
qed

lemma unat_ucast_u64: "unat (ucast (w :: u32) :: u64) = unat w"
proof -
  have "unat w < 2 ^ 64" by (rule less_le_trans [OF unsigned_less]) simp
  then show ?thesis by (simp add: unsigned_ucast_eq take_bit_nat_eq_self)
qed

lemma emits_tag: "unat wt < 8 \<Longrightarrow> unat tag < 2 ^ 29 \<Longrightarrow> emits (pb_encode_tag wt tag) (leb128 (unat (tag_val wt tag)))"
  unfolding pb_encode_tag_def tag_val(2)
  using emits_varint [of "ucast (tag_val wt tag)"] by (simp only: unat_ucast_u64)

lemma src_sel [simp]: "is_left (src b n e) = n" "is_state (src b n e) = In_Buffer b" "is_err (src b n e) = e"
  by (simp_all add: src_def)

lemma close_src [simp]: "pb_close_string_substream (src rest 0 e) (src b n e') = Some (Some (), src rest n e)"
  by (simp add: pb_close_string_substream_def src_def)

lemma decode_tag:
  assumes "unat wt < 8" "unat tag < 2 ^ 29" "0 < tag"
  shows "pb_decode_tag (src (leb128 (unat (tag_val wt tag)) @ rest) (length (leb128 (unat (tag_val wt tag))) + n) e) =
    Some (Tag wt tag, src rest n e)"
  unfolding pb_decode_tag_def consumesD [OF consumes_varint32] using tag_val [OF assms(1,2)] assms(3) by simp

lemma wire_type_less: "unat (wire_type k) < 8"
  by (cases k) simp_all

lemma emits_wire: "wire_ok (tag, w) \<Longrightarrow> emits (write_wire w) (wire_bytes w)"
  by (cases w) (auto intro: emits_varint emits_svarint emits_fixed32 emits_fixed64 emits_string)

lemma consumes_string:
  assumes "length b < 2 ^ 32"
  shows "consumes (read_string :: (bytes, 's pb_istream) call) (leb128 (length b) @ b) b"
  unfolding consumes_def
proof (intro allI)
  fix rest n and e :: "pb_errmsg option"
  note make = cbind_Some [where p = pb_make_string_substream, OF consumes_substream [OF assms], of _ rest n e]
  have "pb_read False (length b) (src (b @ rest) (length b) e :: 's pb_istream) = Some (Some b, src rest 0 e)"
    using consumesD [OF consumes_read [of False b], of rest 0 e] by simp
  then show "read_string (src ((leb128 (length b) @ b) @ rest) (length (leb128 (length b) @ b) + n) e :: 's pb_istream) = Some (Some b, src rest n e)"
    unfolding read_string_def append_assoc length_append add.assoc make by (simp add: cret_def)
qed

lemma consumes_wire: "wire_ok (tag, w) \<Longrightarrow> consumes (read_wire (wire_kind_of w)) (wire_bytes w) w"
  by (cases w) (simp_all add: consumes_bind_ret [where f = W_varint] consumes_bind_ret [where f = W_svarint]
    consumes_bind_ret [where f = W_fixed32] consumes_bind_ret [where f = W_fixed64] consumes_bind_ret [where f = W_string]
    consumes_varint consumes_svarint consumes_fixed32 consumes_fixed64 consumes_string)

lemma length_fixed: "length (fixed32_bytes v) = 4" "length (fixed64_bytes w) = 8"
  by (simp_all add: fixed32_bytes_def fixed64_bytes_def)

lemma consumes_skip:
  assumes "wire_ok (tag, w)"
  shows "consumes (pb_skip_field (wire_type (wire_kind_of w)) :: (unit, 's pb_istream) call) (wire_bytes w) ()"
proof -
  have skip: "consumes (cbind (pb_read True n) (\<lambda>_. cret ()) :: (unit, 's pb_istream) call) b ()" if "length b = n" for b n
    using consumes_bind_ret [OF consumes_read [of True b], where f = "\<lambda>_. ()"] that by simp
  show ?thesis
    using assms by (cases w)
      (simp_all add: pb_skip_field_def consumes_skip_varint consumes_skip_string skip length_fixed)
qed

fun fields_bytes :: "(u32 \<times> wire) list \<Rightarrow> bytes" where
  "fields_bytes [] = []"
| "fields_bytes ((tag, w) # fs) = leb128 (unat (tag_val (wire_type (wire_kind_of w)) tag)) @ wire_bytes w @ fields_bytes fs"

lemma emits_fields: "list_all wire_ok fs \<Longrightarrow> emits (write_fields fs) (fields_bytes fs)"
proof (induction fs)
  case (Cons f fs)
  obtain tag w where f: "f = (tag, w)" by (cases f)
  with Cons have "emits (write_fields fs) (fields_bytes fs)" "wire_ok (tag, w)" by auto
  moreover from this have "unat tag < 2 ^ 29" by (simp add: word_less_nat_alt)
  ultimately show ?case unfolding f fields_bytes.simps write_fields.simps fst_conv snd_conv
    using emits_wire by (intro emits_bind emits_tag wire_type_less) blast+
qed (simp add: emits_ret)

lemma read_fields_bytes:
  assumes "list_all wire_ok fs" "\<And>tag w. (tag, w) \<in> set fs \<Longrightarrow> schema tag = None \<or> schema tag = Some (wire_kind_of w)"
  shows "read_fields schema acc (src (fields_bytes fs) (length (fields_bytes fs)) e :: 's pb_istream) =
    Some (Some (acc @ filter (\<lambda>(tag, w). schema tag \<noteq> None) fs), src [] 0 e)"
  using assms
proof (induction fs arbitrary: acc)
  case Nil
  then show ?case by (subst read_fields.simps) (simp add: src_def cret_def)
next
  case (Cons f fs)
  obtain tag w where f: "f = (tag, w)" by (cases f)
  let ?t = "leb128 (unat (tag_val (wire_type (wire_kind_of w)) tag))"
  have ok: "wire_ok (tag, w)" "list_all wire_ok fs" using Cons.prems f by auto
  then have "0 < tag" "unat tag < 2 ^ 29" by (simp_all add: word_less_nat_alt)
  note t = decode_tag [OF wire_type_less this(2,1)]
  have IH: "read_fields schema acc' (src (fields_bytes fs) (length (fields_bytes fs)) e :: 's pb_istream) =
      Some (Some (acc' @ filter (\<lambda>(tag, w). schema tag \<noteq> None) fs), src [] 0 e)" for acc'
    by (rule Cons.IH) (use Cons.prems ok in auto)
  note skip = consumesD [OF consumes_skip [OF ok(1)], of "fields_bytes fs" "length (fields_bytes fs)" e]
  note read = consumesD [OF consumes_wire [OF ok(1)], of "fields_bytes fs" "length (fields_bytes fs)" e]
  have "0 < length ?t" by simp
  have "schema tag = None \<or> schema tag = Some (wire_kind_of w)" using Cons.prems f by auto
  then show ?case
  proof
    assume "schema tag = None"
    then show ?thesis unfolding f fields_bytes.simps length_append
      by (subst read_fields.simps) (simp add: t skip IH)
  next
    assume "schema tag = Some (wire_kind_of w)"
    then show ?thesis unfolding f fields_bytes.simps length_append
      by (subst read_fields.simps) (simp add: t read IH)
  qed
qed

text \<open>C10. Any sequence of fields written to a buffer is read back, in order and completely, by a
  reader that knows some of the field numbers and skips the others; the write succeeds exactly
  when the buffer has room, and nothing is ever written beyond it.\<close>

theorem wire_roundtrip:
  assumes "list_all wire_ok fs" "\<forall>(tag, w) \<in> set fs. schema tag = None \<or> schema tag = Some (wire_kind_of w)"
    and "room < 2 ^ 63"
  shows "(\<exists>os. write_fields fs (pb_ostream_from_buffer room) = Some (Some (), os) \<and> os_state os = fields_bytes fs \<and>
        os_written os = length (os_state os) \<and> length (os_state os) \<le> room \<and>
        read_fields schema [] (pb_istream_from_buffer (os_state os) (os_written os)) =
          Some (Some (filter (\<lambda>(tag, w). schema tag \<noteq> None) fs), pb_istream_from_buffer [] 0)) \<or>
     (\<exists>os. write_fields fs (pb_ostream_from_buffer room) = Some (None, os) \<and> os_err os \<noteq> None \<and>
        length (os_state os) \<le> room \<and> room < length (fields_bytes fs))"
proof -
  let ?s = "pb_ostream_from_buffer room" and ?b = "fields_bytes fs"
  have s: "os_callback ?s = Some buf_write" "os_state ?s = []" "os_written ?s = 0" "os_max ?s = room" "os_err ?s = None"
    by (simp_all add: pb_ostream_from_buffer_def)
  have e: "emits (write_fields fs) ?b" using assms(1) by (rule emits_fields)
  show ?thesis
  proof (cases "length ?b \<le> room")
    case True
    have "write_fields fs ?s = Some (Some (), ?s\<lparr>os_state := ?b, os_written := length ?b\<rparr>)"
      using emits_room [OF e s(1,5)] True assms(3) s by simp
    moreover have "read_fields schema [] (pb_istream_from_buffer ?b (length ?b)) =
        Some (Some (filter (\<lambda>(tag, w). schema tag \<noteq> None) fs), pb_istream_from_buffer [] 0)"
      using read_fields_bytes [OF assms(1), of schema "[]" None] assms(2)
      by (simp add: pb_istream_from_buffer_def src_def) fastforce
    ultimately show ?thesis using True by (intro disjI1 exI conjI) (assumption | simp)+
  next
    case False
    then obtain k e where "k < length ?b" "k \<le> room"
      "write_fields fs ?s = Some (None, ?s\<lparr>os_state := take k ?b, os_written := k, os_err := Some e\<rparr>)"
      using emits_full [OF e s(1,5)] s assms(3) by (metis add_0 append_Nil not_le zero_le)
    then show ?thesis using False by (intro disjI2 exI conjI) (assumption | simp)+
  qed
qed

text \<open>Field 2 is not in the schema; 20 bytes are more than enough.\<close>

theorem wire_roundtrip_witness:
  "\<exists>os. write_fields [(1, W_varint 300), (2, W_string [97, 98]), (3, W_svarint (- 2))] (pb_ostream_from_buffer 20) =
       Some (Some (), os) \<and>
     read_fields (\<lambda>tag. if tag = 1 then Some K_varint else if tag = 3 then Some K_svarint else None) []
       (pb_istream_from_buffer (os_state os) (os_written os) :: unit pb_istream) =
     Some (Some [(1, W_varint 300), (3, W_svarint (- 2))], pb_istream_from_buffer [] 0)"
proof -
  have "length (fields_bytes [(1, W_varint 300), (2, W_string [97, 98]), (3, W_svarint (- 2))]) \<le> 20" by code_simp
  then show ?thesis
    using wire_roundtrip [of "[(1, W_varint 300), (2, W_string [97, 98]), (3, W_svarint (- 2))]"
      "\<lambda>tag. if tag = 1 then Some K_varint else if tag = 3 then Some K_svarint else None" 20,
      where 'a = unit] by fastforce
qed

end
