(* ===== verification/Pb_Field.thy ===== *)
theory Pb_Field
  imports Pb_Stream
begin

text \<open>
  Messages of nanopb in memory (\<^verbatim>\<open>nanopb/pb.h\<close>, \<^verbatim>\<open>pb_common.c\<close>): the bytes of the C structs, the field
  descriptors that say where the members are, and the iterator that walks over them.
\<close>

section \<open>Memory\<close>

text \<open>
  The bytes of the objects that exist; an access to any other address is undefined.  Integers and
  pointers are little endian, a pointer has 8 bytes and the null pointer is 0.
\<close>

type_synonym pbmem = "nat \<Rightarrow> u8 option"

definition load :: "pbmem \<Rightarrow> nat \<Rightarrow> nat \<Rightarrow> bytes option" where
  "load m a n = those (map (\<lambda>i. m (a + i)) [0..<n])"

definition store :: "pbmem \<Rightarrow> nat \<Rightarrow> bytes \<Rightarrow> pbmem option" where
  "store m a bs =
     (if list_all (\<lambda>i. m (a + i) \<noteq> None) [0..<length bs]
      then Some (\<lambda>x. if a \<le> x \<and> x < a + length bs then Some (bs ! (x - a)) else m x)
      else None)"

definition mget :: "nat \<Rightarrow> nat \<Rightarrow> (bytes, pbmem) call" where
  "mget a n m = (case load m a n of None \<Rightarrow> None | Some b \<Rightarrow> Some (Some b, m))"

definition mput :: "nat \<Rightarrow> bytes \<Rightarrow> (unit, pbmem) call" where
  "mput a b m = (case store m a b of None \<Rightarrow> None | Some m \<Rightarrow> Some (Some (), m))"

section \<open>Field descriptors\<close>

text \<open>
  A descriptor of type \<open>pb_field_t\<close>.  Its member \<open>ptr\<close> is a null pointer, points to the default
  value of the field, or to the table of a submessage.  A table is the list of its entries before
  \<open>PB_LAST_FIELD\<close>.
\<close>

datatype pb_field =
    Field (fd_tag: u32) (fd_type: u8) (fd_data_offset: nat) (fd_size_offset: int) (fd_data_size: nat)
      (fd_array_size: nat) (fd_ptr: pb_ptr)
  and pb_ptr = Null | Default bytes | Fields "pb_field list"

definition PB_LAST_FIELD :: pb_field where
  "PB_LAST_FIELD = Field 0 0 0 0 0 0 Null"

definition field_at :: "pb_field list \<Rightarrow> nat \<Rightarrow> pb_field" where
  "field_at fds i = (if i < length fds then fds ! i else PB_LAST_FIELD)"

definition PB_LTYPE :: "u8 \<Rightarrow> u8" where
  "PB_LTYPE x = x AND 0x0F"

definition PB_HTYPE :: "u8 \<Rightarrow> u8" where
  "PB_HTYPE x = x AND 0x30"

definition PB_ATYPE :: "u8 \<Rightarrow> u8" where
  "PB_ATYPE x = x AND 0xC0"

abbreviation (input) PB_LTYPE_VARINT :: u8 where "PB_LTYPE_VARINT \<equiv> 0x00"
abbreviation (input) PB_LTYPE_UVARINT :: u8 where "PB_LTYPE_UVARINT \<equiv> 0x01"
abbreviation (input) PB_LTYPE_SVARINT :: u8 where "PB_LTYPE_SVARINT \<equiv> 0x02"
abbreviation (input) PB_LTYPE_FIXED32 :: u8 where "PB_LTYPE_FIXED32 \<equiv> 0x03"
abbreviation (input) PB_LTYPE_FIXED64 :: u8 where "PB_LTYPE_FIXED64 \<equiv> 0x04"
abbreviation (input) PB_LTYPE_LAST_PACKABLE :: u8 where "PB_LTYPE_LAST_PACKABLE \<equiv> 0x04"
abbreviation (input) PB_LTYPE_BYTES :: u8 where "PB_LTYPE_BYTES \<equiv> 0x05"
abbreviation (input) PB_LTYPE_STRING :: u8 where "PB_LTYPE_STRING \<equiv> 0x06"
abbreviation (input) PB_LTYPE_SUBMESSAGE :: u8 where "PB_LTYPE_SUBMESSAGE \<equiv> 0x07"
abbreviation (input) PB_LTYPE_EXTENSION :: u8 where "PB_LTYPE_EXTENSION \<equiv> 0x08"
abbreviation (input) PB_LTYPE_FIXED_LENGTH_BYTES :: u8 where "PB_LTYPE_FIXED_LENGTH_BYTES \<equiv> 0x09"

abbreviation (input) PB_HTYPE_REQUIRED :: u8 where "PB_HTYPE_REQUIRED \<equiv> 0x00"
abbreviation (input) PB_HTYPE_OPTIONAL :: u8 where "PB_HTYPE_OPTIONAL \<equiv> 0x10"
abbreviation (input) PB_HTYPE_REPEATED :: u8 where "PB_HTYPE_REPEATED \<equiv> 0x20"
abbreviation (input) PB_HTYPE_ONEOF :: u8 where "PB_HTYPE_ONEOF \<equiv> 0x30"

abbreviation (input) PB_ATYPE_STATIC :: u8 where "PB_ATYPE_STATIC \<equiv> 0x00"
abbreviation (input) PB_ATYPE_CALLBACK :: u8 where "PB_ATYPE_CALLBACK \<equiv> 0x40"
abbreviation (input) PB_ATYPE_POINTER :: u8 where "PB_ATYPE_POINTER \<equiv> 0x80"

definition PB_SIZE_MAX :: nat where
  "PB_SIZE_MAX = 2 ^ 32 - 1"

text \<open>\<open>PB_BYTES_ARRAY_T_ALLOCSIZE\<close>: \<open>bytes\<close> follows the 32-bit \<open>size\<close>.\<close>

definition PB_BYTES_ARRAY_T_ALLOCSIZE :: "nat \<Rightarrow> nat" where
  "PB_BYTES_ARRAY_T_ALLOCSIZE n = n + 4"

section \<open>The iterator\<close>

text \<open>\<open>start\<close> is the table, \<open>pos\<close> an index into it.\<close>

record pb_field_iter =
  it_start :: "pb_field list"
  it_pos :: nat
  required_field_index :: nat
  dest_struct :: nat
  pData :: nat
  pSize :: nat

definition it_field :: "pb_field_iter \<Rightarrow> pb_field" where
  "it_field iter = field_at (it_start iter) (it_pos iter)"

definition size_addr :: "nat \<Rightarrow> pb_field \<Rightarrow> nat" where
  "size_addr data f = nat (int data + fd_size_offset f)"

definition pb_field_iter_begin :: "pb_field list \<Rightarrow> nat \<Rightarrow> bool \<times> pb_field_iter" where
  "pb_field_iter_begin fds dest =
     (let f = field_at fds 0; data = dest + fd_data_offset f
      in (fd_tag f \<noteq> 0,
          \<lparr>it_start = fds, it_pos = 0, required_field_index = 0, dest_struct = dest, pData = data,
           pSize = size_addr data f\<rparr>))"

definition pb_field_iter_next :: "pb_field_iter \<Rightarrow> bool \<times> pb_field_iter" where
  "pb_field_iter_next iter =
     (let prev_field = it_field iter in
      if fd_tag prev_field = 0 then (False, iter)
      else
        let iter = iter\<lparr>it_pos := it_pos iter + 1\<rparr>; f = it_field iter in
        if fd_tag f = 0 then (False, snd (pb_field_iter_begin (it_start iter) (dest_struct iter)))
        else if PB_HTYPE (fd_type prev_field) = PB_HTYPE_ONEOF \<and> PB_HTYPE (fd_type f) = PB_HTYPE_ONEOF \<and>
                fd_data_offset f = PB_SIZE_MAX
        then (True, iter)
        else
          let prev_size =
                (if PB_ATYPE (fd_type prev_field) = PB_ATYPE_STATIC \<and> PB_HTYPE (fd_type prev_field) = PB_HTYPE_REPEATED
                 then fd_data_size prev_field * fd_array_size prev_field
                 else if PB_ATYPE (fd_type prev_field) = PB_ATYPE_POINTER then 8
                 else fd_data_size prev_field);
              iter = (if PB_HTYPE (fd_type prev_field) = PB_HTYPE_REQUIRED
                      then iter\<lparr>required_field_index := required_field_index iter + 1\<rparr> else iter);
              data = pData iter + prev_size + fd_data_offset f
          in (True, iter\<lparr>pData := data, pSize := size_addr data f\<rparr>))"

text \<open>\<open>start\<close> is the position where the search began.\<close>

partial_function (option) iter_find_loop :: "nat \<Rightarrow> (pb_field \<Rightarrow> bool) \<Rightarrow> pb_field_iter \<Rightarrow> (bool \<times> pb_field_iter) option" where
  "iter_find_loop start hit iter =
     (if hit (it_field iter) then Some (True, iter)
      else
        let iter = snd (pb_field_iter_next iter)
        in if it_pos iter \<noteq> start then iter_find_loop start hit iter else Some (False, iter))"

declare iter_find_loop.simps [code]

definition pb_field_iter_find :: "pb_field_iter \<Rightarrow> u32 \<Rightarrow> (bool \<times> pb_field_iter) option" where
  "pb_field_iter_find iter tag =
     iter_find_loop (it_pos iter) (\<lambda>f. fd_tag f = tag \<and> PB_LTYPE (fd_type f) \<noteq> PB_LTYPE_EXTENSION) iter"

text \<open>\<open>do { \<dots> } while (pb_field_iter_next(&iter));\<close> where the body may return \<open>false\<close>.\<close>

partial_function (option) iter_each :: "(pb_field_iter \<Rightarrow> (unit, 'st) call) \<Rightarrow> pb_field_iter \<Rightarrow> (unit, 'st) call" where
  "iter_each body iter st =
     cbind (body iter) (\<lambda>_ st.
       let r = pb_field_iter_next iter
       in if fst r then iter_each body (snd r) st else cret () st) st"

declare iter_each.simps [code]

end
