(* ===== verification/Pb_Encode.thy ===== *)
theory Pb_Encode
  imports Pb_Field
begin

text \<open>
  The message encoder of \<^verbatim>\<open>nanopb/pb_encode.c\<close>.  The message is in the memory \<open>m\<close>, which the encoder
  only reads; the state of the calls is the output stream.  Functions that are called through a
  pointer belong to the user: \<open>e_encode\<close> and \<open>e_ext_encode\<close> say what the functions at an address do,
  and \<open>e_field\<close> which descriptor a pointer to a constant leads to.
\<close>

record 's pb_enc_env =
  e_encode :: "nat \<Rightarrow> pb_field \<Rightarrow> nat \<Rightarrow> pbmem \<Rightarrow> (unit, 's pb_ostream) call"
  e_ext_encode :: "nat \<Rightarrow> nat \<Rightarrow> pbmem \<Rightarrow> (unit, 's pb_ostream) call"
  e_field :: "nat \<Rightarrow> pb_field option"

text \<open>Read \<open>n\<close> bytes of the message and go on.\<close>

definition mload :: "pbmem \<Rightarrow> nat \<Rightarrow> nat \<Rightarrow> (bytes \<Rightarrow> ('a, 'st) call) \<Rightarrow> ('a, 'st) call" where
  "mload m a n k = (case load m a n of None \<Rightarrow> (\<lambda>_. None) | Some b \<Rightarrow> k b)"

section \<open>Field encoders\<close>

definition pb_encode_tag_for_field :: "pb_field \<Rightarrow> (unit, 's pb_ostream) call" where
  "pb_encode_tag_for_field field =
     (let t = PB_LTYPE (fd_type field) in
      if t \<in> {PB_LTYPE_VARINT, PB_LTYPE_UVARINT, PB_LTYPE_SVARINT} then pb_encode_tag PB_WT_VARINT (fd_tag field)
      else if t = PB_LTYPE_FIXED32 then pb_encode_tag PB_WT_32BIT (fd_tag field)
      else if t = PB_LTYPE_FIXED64 then pb_encode_tag PB_WT_64BIT (fd_tag field)
      else if t \<in> {PB_LTYPE_BYTES, PB_LTYPE_STRING, PB_LTYPE_SUBMESSAGE, PB_LTYPE_FIXED_LENGTH_BYTES}
      then pb_encode_tag PB_WT_STRING (fd_tag field)
      else os_error Invalid_field_type)"

text \<open>An integer of the message, widened to 64 bits with or without its sign.\<close>

definition read_signed :: "bytes \<Rightarrow> u64" where
  "read_signed b =
     (if length b = 1 then scast (word_of_nat (le_val b) :: u8)
      else if length b = 2 then scast (word_of_nat (le_val b) :: u16)
      else if length b = 4 then scast (word_of_nat (le_val b) :: u32)
      else word_of_nat (le_val b))"

definition pb_enc_varint :: "pbmem \<Rightarrow> pb_field \<Rightarrow> nat \<Rightarrow> (unit, 's pb_ostream) call" where
  "pb_enc_varint m field src =
     (if fd_data_size field \<in> {1, 2, 4, 8}
      then mload m src (fd_data_size field) (\<lambda>b. pb_encode_varint (read_signed b))
      else os_error Invalid_data_size)"

definition pb_enc_uvarint :: "pbmem \<Rightarrow> pb_field \<Rightarrow> nat \<Rightarrow> (unit, 's pb_ostream) call" where
  "pb_enc_uvarint m field src =
     (if fd_data_size field \<in> {1, 2, 4, 8}
      then mload m src (fd_data_size field) (\<lambda>b. pb_encode_varint (word_of_nat (le_val b)))
      else os_error Invalid_data_size)"

definition pb_enc_svarint :: "pbmem \<Rightarrow> pb_field \<Rightarrow> nat \<Rightarrow> (unit, 's pb_ostream) call" where
  "pb_enc_svarint m field src =
     (if fd_data_size field \<in> {1, 2, 4, 8}
      then mload m src (fd_data_size field) (\<lambda>b. pb_encode_svarint (read_signed b))
      else os_error Invalid_data_size)"

definition pb_enc_fixed32 :: "pbmem \<Rightarrow> pb_field \<Rightarrow> nat \<Rightarrow> (unit, 's pb_ostream) call" where
  "pb_enc_fixed32 m field src = mload m src 4 (\<lambda>b. pb_encode_fixed32 (word_of_nat (le_val b)))"

definition pb_enc_fixed64 :: "pbmem \<Rightarrow> pb_field \<Rightarrow> nat \<Rightarrow> (unit, 's pb_ostream) call" where
  "pb_enc_fixed64 m field src = mload m src 8 (\<lambda>b. pb_encode_fixed64 (word_of_nat (le_val b)))"

text \<open>\<open>pb_encode_string(stream, &m[a], n)\<close>; a stream that only counts does not read the bytes.\<close>

definition enc_buffer :: "pbmem \<Rightarrow> nat \<Rightarrow> nat \<Rightarrow> (unit, 's pb_ostream) call" where
  "enc_buffer m a n s =
     (if os_callback s = None then pb_encode_string None n s
      else mload m a n (\<lambda>b. pb_encode_string (Some b) n) s)"

definition pb_enc_bytes :: "pbmem \<Rightarrow> pb_field \<Rightarrow> nat \<Rightarrow> (unit, 's pb_ostream) call" where
  "pb_enc_bytes m field src =
     (if src = 0 then pb_encode_string None 0
      else
        mload m src 4 (\<lambda>b.
          let len = le_val b
          in if PB_ATYPE (fd_type field) = PB_ATYPE_STATIC \<and> PB_BYTES_ARRAY_T_ALLOCSIZE len > fd_data_size field
             then os_error Bytes_size_exceeded
             else enc_buffer m (src + 4) len))"

partial_function (option) string_size :: "pbmem \<Rightarrow> nat \<Rightarrow> nat \<Rightarrow> nat \<Rightarrow> nat option" where
  "string_size m p len max_size =
     (if len < max_size
      then Option.bind (m p) (\<lambda>c. if c \<noteq> 0 then string_size m (p + 1) (len + 1) max_size else Some len)
      else Some len)"

declare string_size.simps [code]

definition pb_enc_string :: "pbmem \<Rightarrow> pb_field \<Rightarrow> nat \<Rightarrow> (unit, 's pb_ostream) call" where
  "pb_enc_string m field src =
     (let max_size = (if PB_ATYPE (fd_type field) = PB_ATYPE_POINTER then SIZE_LIMIT - 1 else fd_data_size field)
      in if src = 0 then pb_encode_string None 0
         else case string_size m src 0 max_size of
                None \<Rightarrow> (\<lambda>_. None)
              | Some len \<Rightarrow> enc_buffer m src len)"

definition pb_enc_fixed_length_bytes :: "pbmem \<Rightarrow> pb_field \<Rightarrow> nat \<Rightarrow> (unit, 's pb_ostream) call" where
  "pb_enc_fixed_length_bytes m field src = enc_buffer m src (fd_data_size field)"

text \<open>\<open>enc fds src\<close> is \<open>pb_encode\<close> of the nested message.\<close>

definition pb_encode_submessage ::
  "(pb_field list \<Rightarrow> nat \<Rightarrow> (unit, 's pb_ostream) call) \<Rightarrow> pb_field list \<Rightarrow> nat \<Rightarrow> (unit, 's pb_ostream) call" where
  "pb_encode_submessage enc fds src s =
     (case enc fds src (pb_ostream_sizing (os_state s)) of
        None \<Rightarrow> None
      | Some (None, substream) \<Rightarrow> Some (None, s\<lparr>os_err := os_err substream\<rparr>)
      | Some (Some _, substream) \<Rightarrow>
          let len = os_written substream in
          cbind (pb_encode_varint (word_of_nat len)) (\<lambda>_ s.
            if os_callback s = None then pb_write None len s
            else if sz (os_written s + len) > os_max s then os_error Stream_full s
            else
              (case enc fds src \<lparr>os_callback = os_callback s, os_state = os_state s, os_max = len, os_written = 0,
                                 os_err = None\<rparr> of
                 None \<Rightarrow> None
               | Some (status, substream) \<Rightarrow>
                   let s = s\<lparr>os_written := sz (os_written s + os_written substream), os_state := os_state substream,
                             os_err := os_err substream\<rparr>
                   in if os_written substream \<noteq> len then os_error Submsg_size_changed s
                      else Some (status, s))) s)"

definition pb_enc_submessage ::
  "(pb_field list \<Rightarrow> nat \<Rightarrow> (unit, 's pb_ostream) call) \<Rightarrow> pb_field \<Rightarrow> nat \<Rightarrow> (unit, 's pb_ostream) call" where
  "pb_enc_submessage enc field src =
     (case fd_ptr field of
        Null \<Rightarrow> os_error Invalid_field_descriptor
      | Default _ \<Rightarrow> (\<lambda>_. None)
      | Fields fds \<Rightarrow> pb_encode_submessage enc fds src)"

text \<open>A call through \<open>PB_ENCODERS[PB_LTYPE(type)]\<close>; there is no function for extensions.\<close>

definition PB_ENCODERS ::
  "(pb_field list \<Rightarrow> nat \<Rightarrow> (unit, 's pb_ostream) call) \<Rightarrow> pbmem \<Rightarrow> pb_field \<Rightarrow> nat \<Rightarrow> (unit, 's pb_ostream) call" where
  "PB_ENCODERS enc m field src =
     (let t = PB_LTYPE (fd_type field) in
      if t = PB_LTYPE_VARINT then pb_enc_varint m field src
      else if t = PB_LTYPE_UVARINT then pb_enc_uvarint m field src
      else if t = PB_LTYPE_SVARINT then pb_enc_svarint m field src
      else if t = PB_LTYPE_FIXED32 then pb_enc_fixed32 m field src
      else if t = PB_LTYPE_FIXED64 then pb_enc_fixed64 m field src
      else if t = PB_LTYPE_BYTES then pb_enc_bytes m field src
      else if t = PB_LTYPE_STRING then pb_enc_string m field src
      else if t = PB_LTYPE_SUBMESSAGE then pb_enc_submessage enc field src
      else if t = PB_LTYPE_FIXED_LENGTH_BYTES then pb_enc_fixed_length_bytes m field src
      else (\<lambda>_. None))"

section \<open>Fields\<close>

text \<open>The loops over the items of an array: \<open>k\<close> items from \<open>p\<close> on.\<close>

fun encode_items :: "(nat \<Rightarrow> (unit, 's pb_ostream) call) \<Rightarrow> nat \<Rightarrow> nat \<Rightarrow> nat \<Rightarrow> (unit, 's pb_ostream) call" where
  "encode_items func data_size 0 p = cret ()"
| "encode_items func data_size (Suc k) p = cbind (func p) (\<lambda>_. encode_items func data_size k (p + data_size))"

definition encode_array ::
  "pbmem \<Rightarrow> pb_field \<Rightarrow> nat \<Rightarrow> nat \<Rightarrow> (nat \<Rightarrow> (unit, 's pb_ostream) call) \<Rightarrow> (unit, 's pb_ostream) call" where
  "encode_array m field data n func =
     (let ltype = PB_LTYPE (fd_type field); atype = PB_ATYPE (fd_type field); items = encode_items func (fd_data_size field) n data in
      if n = 0 then cret ()
      else if atype \<noteq> PB_ATYPE_POINTER \<and> n > fd_array_size field then os_error Array_max_size_exceeded
      else if ltype \<le> PB_LTYPE_LAST_PACKABLE then
        cbind (pb_encode_tag PB_WT_STRING (fd_tag field)) (\<lambda>_ s.
          case (if ltype = PB_LTYPE_FIXED32 then Some (Some (4 * n))
                else if ltype = PB_LTYPE_FIXED64 then Some (Some (8 * n))
                else map_option (\<lambda>(r, sizestream). map_option (\<lambda>_. os_written sizestream) r)
                       (items (pb_ostream_sizing (os_state s)))) of
            None \<Rightarrow> None
          | Some None \<Rightarrow> cfail s
          | Some (Some len) \<Rightarrow>
              cbind (pb_encode_varint (word_of_nat len)) (\<lambda>_ s.
                if os_callback s = None then pb_write None len s else items s) s)
      else
        encode_items
          (\<lambda>p. cbind (pb_encode_tag_for_field field) (\<lambda>_.
            if atype = PB_ATYPE_POINTER \<and> (ltype = PB_LTYPE_STRING \<or> ltype = PB_LTYPE_BYTES)
            then mload m p 8 (\<lambda>b. func (le_val b)) else func p))
          (fd_data_size field) n data)"

text \<open>The byte-by-byte comparison at the end of \<open>pb_check_proto3_default_value\<close>.\<close>

fun zero_bytes :: "pbmem \<Rightarrow> nat \<Rightarrow> nat \<Rightarrow> bool option" where
  "zero_bytes m p 0 = Some True"
| "zero_bytes m p (Suc k) = Option.bind (m p) (\<lambda>b. if b \<noteq> 0 then Some False else zero_bytes m (p + 1) k)"

text \<open>\<open>d\<close> bounds the nesting of the submessages that are looked into.\<close>

fun pb_check_proto3_default_value :: "nat \<Rightarrow> pbmem \<Rightarrow> pb_field \<Rightarrow> nat \<Rightarrow> bool option" where
  "pb_check_proto3_default_value d m field data =
     (let ltype = PB_LTYPE (fd_type field) in
      if PB_ATYPE (fd_type field) = PB_ATYPE_STATIC \<and> ltype = PB_LTYPE_BYTES
      then map_option (\<lambda>b. le_val b = 0) (load m data 4)
      else if PB_ATYPE (fd_type field) = PB_ATYPE_STATIC \<and> ltype = PB_LTYPE_STRING
      then map_option (\<lambda>c. c = 0) (m data)
      else if PB_ATYPE (fd_type field) = PB_ATYPE_STATIC \<and> ltype = PB_LTYPE_FIXED_LENGTH_BYTES
      then Some (fd_data_size field = 0)
      else if PB_ATYPE (fd_type field) = PB_ATYPE_STATIC \<and> ltype = PB_LTYPE_SUBMESSAGE
      then
        (case (d, fd_ptr field) of
           (Suc d, Fields fds) \<Rightarrow>
             let r = pb_field_iter_begin fds data
             in if fst r
                then map_option (\<lambda>(b, _). b \<noteq> None)
                  (iter_each (\<lambda>iter _.
                     case pb_check_proto3_default_value d m (it_field iter) (pData iter) of
                       None \<Rightarrow> None
                     | Some True \<Rightarrow> cret () ()
                     | Some False \<Rightarrow> cfail ()) (snd r) ())
                else Some True
         | _ \<Rightarrow> None)
      else zero_bytes m data (fd_data_size field))"

declare pb_check_proto3_default_value.simps [simp del]

text \<open>The value of the flag or counter that \<open>pSize\<close> points to, where it does not point to \<open>implicit_has\<close>.\<close>

definition encode_basic_field ::
  "(pb_field list \<Rightarrow> nat \<Rightarrow> (unit, 's pb_ostream) call) \<Rightarrow> nat \<Rightarrow> pbmem \<Rightarrow> pb_field \<Rightarrow> nat \<Rightarrow> (unit, 's pb_ostream) call" where
  "encode_basic_field enc d m field data =
     (let type = fd_type field; htype = PB_HTYPE type; func = PB_ENCODERS enc m field;
          has_addr = (if fd_size_offset field \<noteq> 0 then Some (size_addr data field) else None) in
      if PB_LTYPE type \<ge> 0x0A then (\<lambda>_. None)
      else
        case (if fd_size_offset field \<noteq> 0 then Some False
              else if htype = PB_HTYPE_OPTIONAL then map_option Not (pb_check_proto3_default_value d m field data)
              else Some True) of
          None \<Rightarrow> (\<lambda>_. None)
        | Some implicit_has \<Rightarrow>
            (case (if PB_ATYPE type = PB_ATYPE_POINTER
                   then map_option (\<lambda>b. (le_val b, le_val b \<noteq> 0)) (load m data 8)
                   else Some (data, implicit_has)) of
               None \<Rightarrow> (\<lambda>_. None)
             | Some (data, implicit_has) \<Rightarrow>
                 if htype = PB_HTYPE_REQUIRED then
                   if data = 0 then os_error Missing_required_field
                   else cbind (pb_encode_tag_for_field field) (\<lambda>_. func data)
                 else if htype = PB_HTYPE_OPTIONAL then
                   (case (case has_addr of None \<Rightarrow> Some implicit_has | Some p \<Rightarrow> map_option (\<lambda>b. b \<noteq> 0) (m p)) of
                      None \<Rightarrow> (\<lambda>_. None)
                    | Some has \<Rightarrow>
                        if has then cbind (pb_encode_tag_for_field field) (\<lambda>_. func data) else cret ())
                 else if htype = PB_HTYPE_REPEATED then
                   (case has_addr of
                      None \<Rightarrow> (\<lambda>_. None)
                    | Some p \<Rightarrow> mload m p 4 (\<lambda>b. encode_array m field data (le_val b) func))
                 else if htype = PB_HTYPE_ONEOF then
                   (case has_addr of
                      None \<Rightarrow> (\<lambda>_. None)
                    | Some p \<Rightarrow> mload m p 4 (\<lambda>b.
                        if le_val b = unat (fd_tag field)
                        then cbind (pb_encode_tag_for_field field) (\<lambda>_. func data) else cret ()))
                 else os_error Invalid_field_type))"

text \<open>\<open>pb_callback_t\<close> holds the function pointer and, at offset 8, \<open>arg\<close>.\<close>

definition encode_callback_field :: "'s pb_enc_env \<Rightarrow> pbmem \<Rightarrow> pb_field \<Rightarrow> nat \<Rightarrow> (unit, 's pb_ostream) call" where
  "encode_callback_field env m field data =
     mload m data 8 (\<lambda>b s.
       let encode = le_val b
       in if encode \<noteq> 0
          then (case e_encode env encode field (data + 8) m s of
                  None \<Rightarrow> None
                | Some (None, s) \<Rightarrow> os_error Callback_error s
                | Some (Some _, s) \<Rightarrow> cret () s)
          else cret () s)"

definition encode_field ::
  "(pb_field list \<Rightarrow> nat \<Rightarrow> (unit, 's pb_ostream) call) \<Rightarrow> nat \<Rightarrow> 's pb_enc_env \<Rightarrow> pbmem \<Rightarrow> pb_field \<Rightarrow> nat \<Rightarrow>
   (unit, 's pb_ostream) call" where
  "encode_field enc d env m field data =
     (let atype = PB_ATYPE (fd_type field) in
      if atype = PB_ATYPE_STATIC \<or> atype = PB_ATYPE_POINTER then encode_basic_field enc d m field data
      else if atype = PB_ATYPE_CALLBACK then encode_callback_field env m field data
      else os_error Invalid_field_type)"

text \<open>\<open>pb_extension_t\<close>: \<open>type\<close>, \<open>dest\<close> at 8, \<open>next\<close> at 16; \<open>pb_extension_type_t\<close>: \<open>decode\<close>, \<open>encode\<close> at 8, \<open>arg\<close> at 16.\<close>

definition default_extension_encoder ::
  "(pb_field list \<Rightarrow> nat \<Rightarrow> (unit, 's pb_ostream) call) \<Rightarrow> nat \<Rightarrow> 's pb_enc_env \<Rightarrow> pbmem \<Rightarrow> nat \<Rightarrow>
   (unit, 's pb_ostream) call" where
  "default_extension_encoder enc d env m extension =
     mload m extension 8 (\<lambda>type. mload m (le_val type + 16) 8 (\<lambda>arg.
       case e_field env (le_val arg) of
         None \<Rightarrow> (\<lambda>_. None)
       | Some field \<Rightarrow>
           if PB_ATYPE (fd_type field) = PB_ATYPE_POINTER then encode_field enc d env m field (extension + 8)
           else mload m (extension + 8) 8 (\<lambda>dest. encode_field enc d env m field (le_val dest))))"

text \<open>One turn of the loop of \<open>encode_extension_field\<close>.\<close>

definition encode_extension ::
  "(pb_field list \<Rightarrow> nat \<Rightarrow> (unit, 's pb_ostream) call) \<Rightarrow> nat \<Rightarrow> 's pb_enc_env \<Rightarrow> pbmem \<Rightarrow> nat \<Rightarrow>
   (unit, 's pb_ostream) call" where
  "encode_extension enc d env m extension =
     mload m extension 8 (\<lambda>type. mload m (le_val type + 8) 8 (\<lambda>encode.
       if le_val encode \<noteq> 0 then e_ext_encode env (le_val encode) extension m
       else default_extension_encoder enc d env m extension))"

partial_function (option) encode_extensions ::
  "(nat \<Rightarrow> (unit, 's pb_ostream) call) \<Rightarrow> pbmem \<Rightarrow> nat \<Rightarrow> (unit, 's pb_ostream) call" where
  "encode_extensions one m extension s =
     (if extension = 0 then cret () s
      else cbind (one extension) (\<lambda>_ s.
        (case load m (extension + 16) 8 of
           None \<Rightarrow> None
         | Some b \<Rightarrow> encode_extensions one m (le_val b) s)) s)"

declare encode_extensions.simps [code]

definition encode_extension_field ::
  "(pb_field list \<Rightarrow> nat \<Rightarrow> (unit, 's pb_ostream) call) \<Rightarrow> nat \<Rightarrow> 's pb_enc_env \<Rightarrow> pbmem \<Rightarrow> nat \<Rightarrow>
   (unit, 's pb_ostream) call" where
  "encode_extension_field enc d env m data =
     mload m data 8 (\<lambda>b. encode_extensions (encode_extension enc d env m) m (le_val b))"

section \<open>Messages\<close>

text \<open>\<open>d\<close> bounds the nesting of messages, which the C stack does in the code.\<close>

fun pb_encode :: "nat \<Rightarrow> 's pb_enc_env \<Rightarrow> pbmem \<Rightarrow> pb_field list \<Rightarrow> nat \<Rightarrow> (unit, 's pb_ostream) call" where
  "pb_encode 0 env m fds src = (\<lambda>_. None)"
| "pb_encode (Suc d) env m fds src =
     (let r = pb_field_iter_begin fds src in
      if \<not> fst r then cret ()
      else
        iter_each (\<lambda>iter.
          if PB_LTYPE (fd_type (it_field iter)) = PB_LTYPE_EXTENSION
          then encode_extension_field (pb_encode d env m) d env m (pData iter)
          else encode_field (pb_encode d env m) d env m (it_field iter) (pData iter)) (snd r))"

definition pb_encode_delimited :: "nat \<Rightarrow> 's pb_enc_env \<Rightarrow> pbmem \<Rightarrow> pb_field list \<Rightarrow> nat \<Rightarrow> (unit, 's pb_ostream) call" where
  "pb_encode_delimited d env m fds src = pb_encode_submessage (pb_encode d env m) fds src"

definition pb_get_encoded_size :: "nat \<Rightarrow> 's pb_enc_env \<Rightarrow> 's \<Rightarrow> pbmem \<Rightarrow> pb_field list \<Rightarrow> nat \<Rightarrow> nat option option" where
  "pb_get_encoded_size d env st m fds src =
     map_option (\<lambda>(r, stream). map_option (\<lambda>_. os_written stream) r)
       (pb_encode d env m fds src (pb_ostream_sizing st))"

end
