(* ===== verification/Pb_Decode.thy ===== *)
theory Pb_Decode
  imports Pb_Field
begin

text \<open>
  The message decoder of \<^verbatim>\<open>nanopb/pb_decode.c\<close>, without \<^verbatim>\<open>PB_ENABLE_MALLOC\<close>.  The state of the calls
  is the memory that holds the message and the input stream.  Functions called through a pointer
  belong to the user: \<open>d_decode\<close> and \<open>d_ext_decode\<close> say what the functions at an address do, and
  \<open>d_field\<close> which descriptor a pointer to a constant leads to.
\<close>

type_synonym 's dstate = "pbmem \<times> 's pb_istream"

record 's pb_dec_env =
  d_decode :: "nat \<Rightarrow> pb_field \<Rightarrow> nat \<Rightarrow> (unit, 's dstate) call"
  d_ext_decode :: "nat \<Rightarrow> nat \<Rightarrow> u32 \<Rightarrow> u32 \<Rightarrow> (unit, 's dstate) call"
  d_field :: "nat \<Rightarrow> pb_field option"

definition on_mem :: "('a, pbmem) call \<Rightarrow> ('a, 's dstate) call" where
  "on_mem p st = (case p (fst st) of None \<Rightarrow> None | Some (r, m) \<Rightarrow> Some (r, (m, snd st)))"

definition on_stream :: "('a, 's pb_istream) call \<Rightarrow> ('a, 's dstate) call" where
  "on_stream p st = (case p (snd st) of None \<Rightarrow> None | Some (r, s) \<Rightarrow> Some (r, (fst st, s)))"

section \<open>Field decoders\<close>

text \<open>The low \<open>data_size\<close> bytes of an integer are stored; \<open>back\<close> is what they represent.\<close>

definition store_clamped :: "nat \<Rightarrow> nat \<Rightarrow> u64 \<Rightarrow> u64 \<Rightarrow> (unit, 's dstate) call" where
  "store_clamped dest data_size v back =
     cbind (on_mem (mput dest (le_bytes data_size (unat v)))) (\<lambda>_.
       if back \<noteq> v then on_stream (is_error Integer_too_large) else cret ())"

definition clamp_signed :: "nat \<Rightarrow> u64 \<Rightarrow> u64" where
  "clamp_signed data_size v =
     (if data_size = 8 then v
      else if data_size = 4 then scast (ucast v :: u32)
      else if data_size = 2 then scast (ucast v :: u16)
      else scast (ucast v :: u8))"

definition clamp_unsigned :: "nat \<Rightarrow> u64 \<Rightarrow> u64" where
  "clamp_unsigned data_size v =
     (if data_size = 8 then v
      else if data_size = 4 then ucast (ucast v :: u32)
      else if data_size = 2 then ucast (ucast v :: u16)
      else ucast (ucast v :: u8))"

definition pb_dec_varint :: "pb_field \<Rightarrow> nat \<Rightarrow> (unit, 's dstate) call" where
  "pb_dec_varint field dest =
     cbind (on_stream pb_decode_varint) (\<lambda>v.
       let svalue = (if fd_data_size field = 8 then v else scast (ucast v :: u32)) in
       if fd_data_size field \<in> {8, 4, 2, 1}
       then store_clamped dest (fd_data_size field) svalue (clamp_signed (fd_data_size field) svalue)
       else on_stream (is_error Invalid_data_size))"

definition pb_dec_uvarint :: "pb_field \<Rightarrow> nat \<Rightarrow> (unit, 's dstate) call" where
  "pb_dec_uvarint field dest =
     cbind (on_stream pb_decode_varint) (\<lambda>v.
       if fd_data_size field \<in> {8, 4, 2, 1}
       then store_clamped dest (fd_data_size field) v (clamp_unsigned (fd_data_size field) v)
       else on_stream (is_error Invalid_data_size))"

definition pb_dec_svarint :: "pb_field \<Rightarrow> nat \<Rightarrow> (unit, 's dstate) call" where
  "pb_dec_svarint field dest =
     cbind (on_stream pb_decode_svarint) (\<lambda>v.
       if fd_data_size field \<in> {8, 4, 2, 1}
       then store_clamped dest (fd_data_size field) v (clamp_signed (fd_data_size field) v)
       else on_stream (is_error Invalid_data_size))"

definition pb_dec_fixed32 :: "pb_field \<Rightarrow> nat \<Rightarrow> (unit, 's dstate) call" where
  "pb_dec_fixed32 field dest =
     cbind (on_stream pb_decode_fixed32) (\<lambda>v. on_mem (mput dest (le_bytes 4 (unat v))))"

definition pb_dec_fixed64 :: "pb_field \<Rightarrow> nat \<Rightarrow> (unit, 's dstate) call" where
  "pb_dec_fixed64 field dest =
     cbind (on_stream pb_decode_fixed64) (\<lambda>v. on_mem (mput dest (le_bytes 8 (unat v))))"

text \<open>\<open>pb_read(stream, &m[a], n)\<close>; a read that fails stores nothing.\<close>

definition read_into :: "nat \<Rightarrow> nat \<Rightarrow> (unit, 's dstate) call" where
  "read_into a n = cbind (on_stream (pb_read (a = 0) n)) (\<lambda>b. if a = 0 then cret () else on_mem (mput a b))"

definition pb_dec_bytes :: "pb_field \<Rightarrow> nat \<Rightarrow> (unit, 's dstate) call" where
  "pb_dec_bytes field dest =
     cbind (on_stream pb_decode_varint32) (\<lambda>n.
       let alloc_size = sz (PB_BYTES_ARRAY_T_ALLOCSIZE (unat n)) in
       if unat n > PB_SIZE_MAX then on_stream (is_error Bytes_overflow)
       else if unat n > alloc_size then on_stream (is_error Size_too_large)
       else if PB_ATYPE (fd_type field) = PB_ATYPE_POINTER then on_stream (is_error No_malloc_support)
       else if alloc_size > fd_data_size field then on_stream (is_error Bytes_overflow)
       else cbind (on_mem (mput dest (le_bytes 4 (unat n)))) (\<lambda>_. read_into (dest + 4) (unat n)))"

definition pb_dec_string :: "pb_field \<Rightarrow> nat \<Rightarrow> (unit, 's dstate) call" where
  "pb_dec_string field dest =
     cbind (on_stream pb_decode_varint32) (\<lambda>n.
       let alloc_size = n + 1 in
       if alloc_size < n then on_stream (is_error Size_too_large)
       else if PB_ATYPE (fd_type field) = PB_ATYPE_POINTER then on_stream (is_error No_malloc_support)
       else if unat alloc_size > fd_data_size field then on_stream (is_error String_overflow)
       else (\<lambda>st.
         case read_into dest (unat n) st of
           None \<Rightarrow> None
         | Some (status, st) \<Rightarrow>
             (case on_mem (mput (dest + unat n) [0]) st of
                None \<Rightarrow> None
              | Some (_, st) \<Rightarrow> Some (status, st))))"

definition pb_dec_fixed_length_bytes :: "pb_field \<Rightarrow> nat \<Rightarrow> (unit, 's dstate) call" where
  "pb_dec_fixed_length_bytes field dest =
     cbind (on_stream pb_decode_varint32) (\<lambda>n.
       if unat n > PB_SIZE_MAX then on_stream (is_error Bytes_overflow)
       else if n = 0 then on_mem (mput dest (replicate (fd_data_size field) 0))
       else if unat n \<noteq> fd_data_size field then on_stream (is_error Incorrect_fixed_length_bytes_size)
       else read_into dest (fd_data_size field))"

text \<open>
  A length-delimited part of the stream: \<open>body\<close> works on the substream, \<open>close\<close> decides from what
  is left whether to close it or to return an error on the parent.
\<close>

definition with_substream ::
  "(unit, 's dstate) call \<Rightarrow> (unit option \<Rightarrow> 's pb_istream \<Rightarrow> pb_errmsg option) \<Rightarrow> (unit, 's dstate) call" where
  "with_substream body check st =
     (case pb_make_string_substream (snd st) of
        None \<Rightarrow> None
      | Some (None, s) \<Rightarrow> Some (None, (fst st, s))
      | Some (Some substream, s) \<Rightarrow>
          (case body (fst st, substream) of
             None \<Rightarrow> None
           | Some (status, (m, substream)) \<Rightarrow>
               (case check status substream of
                  Some e \<Rightarrow> on_stream (is_error e) (m, s)
                | None \<Rightarrow>
                    (case pb_close_string_substream substream s of
                       None \<Rightarrow> None
                     | Some (None, s) \<Rightarrow> Some (None, (m, s))
                     | Some (Some _, s) \<Rightarrow> Some (status, (m, s))))))"

text \<open>\<open>dec fds dest\<close> and \<open>noinit fds dest\<close> are \<open>pb_decode\<close> and \<open>pb_decode_noinit\<close> of a nested message.\<close>

definition pb_dec_submessage ::
  "(pb_field list \<Rightarrow> nat \<Rightarrow> (unit, 's dstate) call) \<Rightarrow> (pb_field list \<Rightarrow> nat \<Rightarrow> (unit, 's dstate) call) \<Rightarrow>
   pb_field \<Rightarrow> nat \<Rightarrow> (unit, 's dstate) call" where
  "pb_dec_submessage dec noinit field dest =
     (case fd_ptr field of
        Null \<Rightarrow> cbind (on_stream pb_make_string_substream) (\<lambda>_. on_stream (is_error Invalid_field_descriptor))
      | Default _ \<Rightarrow> (\<lambda>_. None)
      | Fields fds \<Rightarrow>
          with_substream
            (if PB_HTYPE (fd_type field) = PB_HTYPE_REPEATED then dec fds dest else noinit fds dest)
            (\<lambda>_ _. None))"

definition PB_DECODERS ::
  "(pb_field list \<Rightarrow> nat \<Rightarrow> (unit, 's dstate) call) \<Rightarrow> (pb_field list \<Rightarrow> nat \<Rightarrow> (unit, 's dstate) call) \<Rightarrow>
   pb_field \<Rightarrow> nat \<Rightarrow> (unit, 's dstate) call" where
  "PB_DECODERS dec noinit field dest =
     (let t = PB_LTYPE (fd_type field) in
      if t = PB_LTYPE_VARINT then pb_dec_varint field dest
      else if t = PB_LTYPE_UVARINT then pb_dec_uvarint field dest
      else if t = PB_LTYPE_SVARINT then pb_dec_svarint field dest
      else if t = PB_LTYPE_FIXED32 then pb_dec_fixed32 field dest
      else if t = PB_LTYPE_FIXED64 then pb_dec_fixed64 field dest
      else if t = PB_LTYPE_BYTES then pb_dec_bytes field dest
      else if t = PB_LTYPE_STRING then pb_dec_string field dest
      else if t = PB_LTYPE_SUBMESSAGE then pb_dec_submessage dec noinit field dest
      else if t = PB_LTYPE_FIXED_LENGTH_BYTES then pb_dec_fixed_length_bytes field dest
      else (\<lambda>_. None))"

section \<open>Default values\<close>

text \<open>A fake iterator for an extension field; \<open>pb_extension_t\<close> has its \<open>found\<close> at offset 24.\<close>

definition iter_from_extension :: "(nat \<Rightarrow> pb_field option) \<Rightarrow> nat \<Rightarrow> (pb_field_iter, pbmem) call" where
  "iter_from_extension descr extension =
     cbind (mget extension 8) (\<lambda>type. cbind (mget (le_val type + 16) 8) (\<lambda>arg. cbind (mget (extension + 8) 8) (\<lambda>dest.
       case descr (le_val arg) of
         None \<Rightarrow> (\<lambda>_. None)
       | Some field \<Rightarrow>
           let iter = snd (pb_field_iter_begin [field] (le_val dest));
               iter = iter\<lparr>pData := le_val dest, pSize := extension + 24\<rparr>;
               iter = (if PB_ATYPE (fd_type field) = PB_ATYPE_POINTER then iter\<lparr>pData := extension + 8\<rparr> else iter)
           in cret iter)))"

text \<open>The loop over the list of extensions of a message.\<close>

partial_function (option) default_extensions ::
  "(nat \<Rightarrow> (unit, pbmem) call) \<Rightarrow> nat \<Rightarrow> (unit, pbmem) call" where
  "default_extensions one ext m =
     (if ext = 0 then cret () m
      else cbind (one ext) (\<lambda>_ m. cbind (mget (ext + 16) 8) (\<lambda>b m. default_extensions one (le_val b) m) m) m)"

declare default_extensions.simps [code]

text \<open>\<open>nested\<close> is \<open>pb_message_set_to_defaults\<close> and \<open>ext\<close> the treatment of one extension.\<close>

definition pb_field_set_to_default ::
  "(pb_field list \<Rightarrow> nat \<Rightarrow> (unit, pbmem) call) \<Rightarrow> (nat \<Rightarrow> (unit, pbmem) call) \<Rightarrow> pb_field_iter \<Rightarrow> (unit, pbmem) call" where
  "pb_field_set_to_default nested ext iter =
     (let f = it_field iter; type = fd_type f; htype = PB_HTYPE type in
      if PB_LTYPE type = PB_LTYPE_EXTENSION then
        cbind (mget (pData iter) 8) (\<lambda>b. default_extensions ext (le_val b))
      else if PB_ATYPE type = PB_ATYPE_STATIC then
        cbind
          (if htype = PB_HTYPE_OPTIONAL \<and> pSize iter \<noteq> pData iter
           then cbind (mput (pSize iter) [0]) (\<lambda>_. cret True)
           else if htype = PB_HTYPE_REPEATED \<or> htype = PB_HTYPE_ONEOF
           then cbind (mput (pSize iter) (le_bytes 4 0)) (\<lambda>_. cret False)
           else cret True)
          (\<lambda>init_data.
             if \<not> init_data then cret ()
             else if PB_LTYPE type = PB_LTYPE_SUBMESSAGE then
               (case fd_ptr f of Fields fds \<Rightarrow> nested fds (pData iter) | _ \<Rightarrow> (\<lambda>_. None))
             else
               (case fd_ptr f of
                  Null \<Rightarrow> mput (pData iter) (replicate (fd_data_size f) 0)
                | Default b \<Rightarrow>
                    if fd_data_size f \<le> length b then mput (pData iter) (take (fd_data_size f) b) else (\<lambda>_. None)
                | Fields _ \<Rightarrow> (\<lambda>_. None)))
      else if PB_ATYPE type = PB_ATYPE_POINTER then
        cbind (mput (pData iter) (le_bytes 8 0)) (\<lambda>_.
          if htype = PB_HTYPE_REPEATED \<or> htype = PB_HTYPE_ONEOF then mput (pSize iter) (le_bytes 4 0)
          else cret ())
      else cret ())"

text \<open>\<open>d\<close> bounds the nesting of messages and extensions, which the C stack does in the code.\<close>

fun set_to_default :: "nat \<Rightarrow> (nat \<Rightarrow> pb_field option) \<Rightarrow> pb_field_iter \<Rightarrow> (unit, pbmem) call" where
  "set_to_default 0 descr iter = (\<lambda>_. None)"
| "set_to_default (Suc d) descr iter =
     pb_field_set_to_default
       (\<lambda>fds dest.
          let r = pb_field_iter_begin fds dest
          in if fst r then iter_each (set_to_default d descr) (snd r) else cret ())
       (\<lambda>ext.
          cbind (mput (ext + 24) [0]) (\<lambda>_. cbind (iter_from_extension descr ext) (set_to_default d descr)))
       iter"

definition pb_message_set_to_defaults ::
  "nat \<Rightarrow> (nat \<Rightarrow> pb_field option) \<Rightarrow> pb_field list \<Rightarrow> nat \<Rightarrow> (unit, pbmem) call" where
  "pb_message_set_to_defaults d descr fds dest =
     (let r = pb_field_iter_begin fds dest
      in if fst r then iter_each (set_to_default d descr) (snd r) else cret ())"

section \<open>Fields\<close>

text \<open>The loop over a packed array; the counter is the one in the message.\<close>

partial_function (option) packed_loop ::
  "(nat \<Rightarrow> (unit, 's dstate) call) \<Rightarrow> pb_field \<Rightarrow> nat \<Rightarrow> nat \<Rightarrow> (unit, 's dstate) call" where
  "packed_loop func field data size_ptr st =
     (if is_left (snd st) = 0 then cret () st
      else
        cbind (on_mem (mget size_ptr 4)) (\<lambda>n st.
          if le_val n < fd_array_size field
          then
            cbind (func (data + fd_data_size field * le_val n)) (\<lambda>_ st.
              cbind (on_mem (mget size_ptr 4)) (\<lambda>n st.
                cbind (on_mem (mput size_ptr (le_bytes 4 (le_val n + 1)))) (\<lambda>_ st.
                  packed_loop func field data size_ptr st) st) st) st
          else cret () st) st)"

declare packed_loop.simps [code]

text \<open>\<open>defaults\<close> is \<open>pb_message_set_to_defaults\<close>, \<open>func\<close> the decoder of the field.\<close>

definition decode_static_field ::
  "(pb_field list \<Rightarrow> nat \<Rightarrow> (unit, pbmem) call) \<Rightarrow> (nat \<Rightarrow> (unit, 's dstate) call) \<Rightarrow> u32 \<Rightarrow> pb_field_iter \<Rightarrow>
   (unit, 's dstate) call" where
  "decode_static_field defaults func wire_type iter =
     (let f = it_field iter; type = fd_type f; htype = PB_HTYPE type in
      if PB_LTYPE type \<ge> 0x0A then (\<lambda>_. None)
      else if htype = PB_HTYPE_REQUIRED then func (pData iter)
      else if htype = PB_HTYPE_OPTIONAL then
        cbind (if pSize iter \<noteq> pData iter then on_mem (mput (pSize iter) [1]) else cret ())
          (\<lambda>_. func (pData iter))
      else if htype = PB_HTYPE_REPEATED then
        if wire_type = PB_WT_STRING \<and> PB_LTYPE type \<le> PB_LTYPE_LAST_PACKABLE
        then
          with_substream (packed_loop func f (pData iter) (pSize iter))
            (\<lambda>_ substream. if is_left substream \<noteq> 0 then Some Array_overflow else None)
        else
          cbind (on_mem (mget (pSize iter) 4)) (\<lambda>n.
            if le_val n \<ge> fd_array_size f then on_stream (is_error Array_overflow)
            else
              cbind (on_mem (mput (pSize iter) (le_bytes 4 (le_val n + 1)))) (\<lambda>_.
                func (pData iter + fd_data_size f * le_val n)))
      else if htype = PB_HTYPE_ONEOF then
        cbind (on_mem (mput (pSize iter) (le_bytes 4 (unat (fd_tag f))))) (\<lambda>_.
          cbind
            (if PB_LTYPE type = PB_LTYPE_SUBMESSAGE
             then
               cbind (on_mem (mput (pData iter) (replicate (fd_data_size f) 0))) (\<lambda>_.
                 case fd_ptr f of Fields fds \<Rightarrow> on_mem (defaults fds (pData iter)) | _ \<Rightarrow> (\<lambda>_. None))
             else cret ())
            (\<lambda>_. func (pData iter)))
      else on_stream (is_error Invalid_field_type))"

definition decode_pointer_field :: "(unit, 's dstate) call" where
  "decode_pointer_field = on_stream (is_error No_malloc_support)"

text \<open>\<open>do { \<dots> } while (substream.bytes_left);\<close>\<close>

partial_function (option) callback_loop :: "(unit, 's dstate) call \<Rightarrow> (unit, 's dstate) call" where
  "callback_loop decode st =
     cbind decode (\<lambda>_ st. if is_left (snd st) \<noteq> 0 then callback_loop decode st else cret () st) st"

declare callback_loop.simps [code]

definition decode_callback_field :: "'s pb_dec_env \<Rightarrow> u32 \<Rightarrow> pb_field_iter \<Rightarrow> (unit, 's dstate) call" where
  "decode_callback_field env wire_type iter =
     cbind (on_mem (mget (pData iter) 8)) (\<lambda>b.
       let decode = d_decode env (le_val b) (it_field iter) (pData iter + 8) in
       if le_val b = 0 then on_stream (pb_skip_field wire_type)
       else if wire_type = PB_WT_STRING then
         with_substream (callback_loop decode) (\<lambda>status _. if status = None then Some Callback_failed else None)
       else
         cbind (on_stream (read_raw_value wire_type 10)) (\<lambda>buffer st.
           case decode (fst st, pb_istream_from_buffer buffer (length buffer)) of
             None \<Rightarrow> None
           | Some (status, (m, _)) \<Rightarrow> Some (status, (m, snd st))))"

definition decode_field ::
  "(pb_field list \<Rightarrow> nat \<Rightarrow> (unit, pbmem) call) \<Rightarrow> (pb_field \<Rightarrow> nat \<Rightarrow> (unit, 's dstate) call) \<Rightarrow>
   's pb_dec_env \<Rightarrow> u32 \<Rightarrow> pb_field_iter \<Rightarrow> (unit, 's dstate) call" where
  "decode_field defaults func env wire_type iter =
     (let atype = PB_ATYPE (fd_type (it_field iter)) in
      if atype = PB_ATYPE_STATIC then decode_static_field defaults (func (it_field iter)) wire_type iter
      else if atype = PB_ATYPE_POINTER then decode_pointer_field
      else if atype = PB_ATYPE_CALLBACK then decode_callback_field env wire_type iter
      else on_stream (is_error Invalid_field_type))"

section \<open>Extensions\<close>

text \<open>\<open>decf\<close> is \<open>decode_field\<close> with its arguments but the last two.\<close>

definition default_extension_decoder ::
  "(u32 \<Rightarrow> pb_field_iter \<Rightarrow> (unit, 's dstate) call) \<Rightarrow> 's pb_dec_env \<Rightarrow> nat \<Rightarrow> u32 \<Rightarrow> u32 \<Rightarrow> (unit, 's dstate) call" where
  "default_extension_decoder decf env extension tag wire_type =
     cbind (on_mem (mget extension 8)) (\<lambda>type. cbind (on_mem (mget (le_val type + 16) 8)) (\<lambda>arg.
       case d_field env (le_val arg) of
         None \<Rightarrow> (\<lambda>_. None)
       | Some field \<Rightarrow>
           if fd_tag field \<noteq> tag then cret ()
           else
             cbind (on_mem (iter_from_extension (d_field env) extension)) (\<lambda>iter.
               cbind (on_mem (mput (extension + 24) [1])) (\<lambda>_. decf wire_type iter))))"

partial_function (option) extension_loop ::
  "(nat \<Rightarrow> (unit, 's dstate) call) \<Rightarrow> nat \<Rightarrow> nat \<Rightarrow> (unit, 's dstate) call" where
  "extension_loop one pos extension st =
     (if extension \<noteq> 0 \<and> pos = is_left (snd st)
      then
        cbind (one extension) (\<lambda>_ st.
          cbind (on_mem (mget (extension + 16) 8)) (\<lambda>b st. extension_loop one pos (le_val b) st) st) st
      else cret () st)"

declare extension_loop.simps [code]

definition decode_extension ::
  "(u32 \<Rightarrow> pb_field_iter \<Rightarrow> (unit, 's dstate) call) \<Rightarrow> 's pb_dec_env \<Rightarrow> u32 \<Rightarrow> u32 \<Rightarrow> pb_field_iter \<Rightarrow> (unit, 's dstate) call" where
  "decode_extension decf env tag wire_type iter st =
     cbind (on_mem (mget (pData iter) 8)) (\<lambda>b.
       extension_loop
         (\<lambda>extension.
            cbind (on_mem (mget extension 8)) (\<lambda>type. cbind (on_mem (mget (le_val type) 8)) (\<lambda>decode.
              if le_val decode \<noteq> 0 then d_ext_decode env (le_val decode) extension tag wire_type
              else default_extension_decoder decf env extension tag wire_type)))
         (is_left (snd st)) (le_val b)) st"

definition find_extension_field :: "pb_field_iter \<Rightarrow> (bool \<times> pb_field_iter) option" where
  "find_extension_field iter =
     iter_find_loop (it_pos iter) (\<lambda>f. PB_LTYPE (fd_type f) = PB_LTYPE_EXTENSION) iter"

section \<open>Messages\<close>

definition PB_MAX_REQUIRED_FIELDS :: nat where
  "PB_MAX_REQUIRED_FIELDS = 64"

text \<open>A field without an entry in the table: the new iterator and start of the extension range.\<close>

definition decode_unknown ::
  "(u32 \<Rightarrow> pb_field_iter \<Rightarrow> (unit, 's dstate) call) \<Rightarrow> 's pb_dec_env \<Rightarrow> u32 \<Rightarrow> u32 \<Rightarrow> pb_field_iter \<Rightarrow> u32 \<Rightarrow>
   (pb_field_iter \<times> u32, 's dstate) call" where
  "decode_unknown decf env tag wire_type iter ext_start st =
     (if tag \<ge> ext_start
      then
        (case find_extension_field iter of
           None \<Rightarrow> None
         | Some (found, iter) \<Rightarrow>
             let ext_start = (if found then fd_tag (it_field iter) else - 1) in
             if tag \<ge> ext_start
             then
               cbind (decode_extension decf env tag wire_type iter) (\<lambda>_ st'.
                 if is_left (snd st) \<noteq> is_left (snd st') then cret (iter, ext_start) st'
                 else cbind (on_stream (pb_skip_field wire_type)) (\<lambda>_. cret (iter, ext_start)) st') st
             else cbind (on_stream (pb_skip_field wire_type)) (\<lambda>_. cret (iter, ext_start)) st)
      else cbind (on_stream (pb_skip_field wire_type)) (\<lambda>_. cret (iter, ext_start)) st)"

definition mark_seen :: "pb_field_iter \<Rightarrow> u32 list \<Rightarrow> u32 list" where
  "mark_seen iter fields_seen =
     (let i = required_field_index iter in
      if PB_HTYPE (fd_type (it_field iter)) = PB_HTYPE_REQUIRED \<and> i < PB_MAX_REQUIRED_FIELDS
      then fields_seen[i div 32 := fields_seen ! (i div 32) OR push_bit (i mod 32) 1]
      else fields_seen)"

partial_function (option) decode_loop ::
  "(u32 \<Rightarrow> pb_field_iter \<Rightarrow> (unit, 's dstate) call) \<Rightarrow> 's pb_dec_env \<Rightarrow> pb_field_iter \<Rightarrow> u32 list \<Rightarrow> u32 \<Rightarrow>
   (pb_field_iter \<times> u32 list, 's dstate) call" where
  "decode_loop decf env iter fields_seen ext_start st =
     (if is_left (snd st) = 0 then cret (iter, fields_seen) st
      else
        (case pb_decode_tag (snd st) of
           None \<Rightarrow> None
         | Some (t, s) \<Rightarrow>
             (case t of
                Eof \<Rightarrow> cret (iter, fields_seen) (fst st, s)
              | No_tag \<Rightarrow> cfail (fst st, s)
              | Tag wire_type tag \<Rightarrow>
                  (case pb_field_iter_find iter tag of
                     None \<Rightarrow> None
                   | Some (found, iter) \<Rightarrow>
                       if found
                       then
                         cbind (decf wire_type iter)
                           (\<lambda>_ st. decode_loop decf env iter (mark_seen iter fields_seen) ext_start st) (fst st, s)
                       else
                         cbind (decode_unknown decf env tag wire_type iter ext_start)
                           (\<lambda>r st. decode_loop decf env (fst r) fields_seen (snd r) st) (fst st, s)))))"

declare decode_loop.simps [code]

text \<open>The walk to the end of the table: \<open>req_field_count\<close>, \<open>last_type\<close> and the iterator after it.\<close>

partial_function (option) count_required :: "pb_field_iter \<Rightarrow> (nat \<times> u8 \<times> pb_field_iter) option" where
  "count_required iter =
     (let r = pb_field_iter_next iter
      in if fst r then count_required (snd r)
         else Some (required_field_index iter, fd_type (it_field iter), snd r))"

declare count_required.simps [code]

text \<open>
  The comparison with the fields that must be there.  \<open>fields_seen[i]\<close> outside the array and a shift
  of a 32-bit word by 32 are undefined.
\<close>

definition check_required :: "nat \<Rightarrow> u32 list \<Rightarrow> (unit, 's dstate) call" where
  "check_required req_field_count fields_seen =
     (if req_field_count = 0 then cret ()
      else if \<exists>i<req_field_count div 32. i < length fields_seen \<and> (\<forall>j<i. fields_seen ! j = - 1) \<and> fields_seen ! i \<noteq> - 1
      then on_stream (is_error Missing_required_field)
      else if req_field_count div 32 \<ge> length fields_seen \<or> req_field_count mod 32 = 0 then (\<lambda>_. None)
      else if fields_seen ! (req_field_count div 32) \<noteq> drop_bit (32 - req_field_count mod 32) (- 1)
      then on_stream (is_error Missing_required_field)
      else cret ())"

definition finish_message :: "pb_field_iter \<Rightarrow> u32 list \<Rightarrow> (unit, 's dstate) call" where
  "finish_message iter fields_seen =
     (case count_required iter of
        None \<Rightarrow> (\<lambda>_. None)
      | Some (n, last_type, iter) \<Rightarrow>
          let n = (if PB_HTYPE last_type = PB_HTYPE_REQUIRED \<and> fd_tag (it_field iter) \<noteq> 0 then n + 1 else n)
          in check_required n fields_seen)"

definition noinit_body ::
  "(u32 \<Rightarrow> pb_field_iter \<Rightarrow> (unit, 's dstate) call) \<Rightarrow> 's pb_dec_env \<Rightarrow> pb_field list \<Rightarrow> nat \<Rightarrow> (unit, 's dstate) call" where
  "noinit_body decf env fds dest =
     cbind (decode_loop decf env (snd (pb_field_iter_begin fds dest)) [0, 0] 0) (\<lambda>r. finish_message (fst r) (snd r))"

text \<open>\<open>d\<close> bounds the nesting of messages.\<close>

fun pb_decode_noinit :: "nat \<Rightarrow> 's pb_dec_env \<Rightarrow> pb_field list \<Rightarrow> nat \<Rightarrow> (unit, 's dstate) call" where
  "pb_decode_noinit 0 env fds dest = (\<lambda>_. None)"
| "pb_decode_noinit (Suc d) env fds dest =
     noinit_body
       (decode_field (pb_message_set_to_defaults d (d_field env))
          (PB_DECODERS
             (\<lambda>fds dest. cbind (on_mem (pb_message_set_to_defaults d (d_field env) fds dest))
                (\<lambda>_. pb_decode_noinit d env fds dest))
             (pb_decode_noinit d env))
          env)
       env fds dest"

definition pb_decode :: "nat \<Rightarrow> 's pb_dec_env \<Rightarrow> pb_field list \<Rightarrow> nat \<Rightarrow> (unit, 's dstate) call" where
  "pb_decode d env fds dest =
     cbind (on_mem (pb_message_set_to_defaults d (d_field env) fds dest)) (\<lambda>_. pb_decode_noinit d env fds dest)"

definition pb_decode_delimited :: "nat \<Rightarrow> 's pb_dec_env \<Rightarrow> pb_field list \<Rightarrow> nat \<Rightarrow> (unit, 's dstate) call" where
  "pb_decode_delimited d env fds dest = with_substream (pb_decode d env fds dest) (\<lambda>_ _. None)"

end
