(* ===== verification/Pb_Layout.thy ===== *)
theory Pb_Layout
  imports Pb_Field Pb_Wire
begin

text \<open>
  Where the fields of a message are: the addresses the iterator of \<^verbatim>\<open>pb_common.c\<close> computes on its way
  through a table, what it takes for a table to describe a struct, and what it means that the bytes
  of a struct are a message of its type.
\<close>

section \<open>Memory\<close>

definition touches :: "nat set \<Rightarrow> pbmem \<Rightarrow> pbmem \<Rightarrow> bool" where
  "touches S m m' \<longleftrightarrow> dom m' = dom m \<and> (\<forall>x. x \<notin> S \<longrightarrow> m' x = m x)"

lemma touches_refl [simp]: "touches S m m"
  by (simp add: touches_def)

lemma touches_trans: "touches S m m1 \<Longrightarrow> touches S m1 m2 \<Longrightarrow> touches S m m2"
  by (simp add: touches_def)

lemma touches_mono: "touches S m m' \<Longrightarrow> S \<subseteq> T \<Longrightarrow> touches T m m'"
  by (auto simp: touches_def)

lemma touches_dom: "touches S m m' \<Longrightarrow> dom m' = dom m"
  by (simp add: touches_def)

lemma dom_at: "{a :: nat..<a + n} \<subseteq> dom m \<Longrightarrow> i < n \<Longrightarrow> m (a + i) \<noteq> None"
  using subsetD [of "{a..<a + n}" "dom m" "a + i"] by (auto simp: domIff)

lemma load_mapped: "{a..<a + n} \<subseteq> dom m \<Longrightarrow> load m a n = Some (map (\<lambda>i. the (m (a + i))) [0..<n])"
proof -
  assume "{a..<a + n} \<subseteq> dom m"
  then have "\<forall>i\<in>set [0..<n]. m (a + i) = Some (the (m (a + i)))" by (auto dest!: dom_at)
  then have e: "map (\<lambda>i. m (a + i)) [0..<n] = map Some (map (\<lambda>i. the (m (a + i))) [0..<n])" by simp
  have "those (map Some xs) = Some xs" for xs :: bytes by (induction xs) simp_all
  then show ?thesis unfolding load_def e by blast
qed

lemma load_cong: "(\<And>x. a \<le> x \<Longrightarrow> x < a + n \<Longrightarrow> m x = m' x) \<Longrightarrow> load m a n = load m' a n"
  unfolding load_def by (intro arg_cong [of _ _ those] map_cong) auto

lemma length_load: "load m a n = Some b \<Longrightarrow> length b = n"
proof -
  have "those xs = Some ys \<Longrightarrow> length ys = length xs" for xs :: "u8 option list" and ys
    by (induction xs arbitrary: ys) (auto split: option.splits)
  then show "load m a n = Some b \<Longrightarrow> length b = n" unfolding load_def by fastforce
qed

lemma store_mapped:
  "{a..<a + length bs} \<subseteq> dom m \<Longrightarrow>
    store m a bs = Some (\<lambda>x. if a \<le> x \<and> x < a + length bs then Some (bs ! (x - a)) else m x)"
  by (simp add: store_def list_all_iff dom_at)

lemma store_touches:
  "store m a bs = Some m' \<Longrightarrow> touches {a..<a + length bs} m m'"
proof -
  assume s: "store m a bs = Some m'"
  then have m: "m (a + i) \<noteq> None" if "i < length bs" for i using that by (auto simp: store_def list_all_iff split: if_splits)
  have m': "m' = (\<lambda>x. if a \<le> x \<and> x < a + length bs then Some (bs ! (x - a)) else m x)"
    using s by (simp add: store_def split: if_splits)
  have "m x \<noteq> None" if "a \<le> x" "x < a + length bs" for x using m [of "x - a"] that by simp
  then show ?thesis by (auto simp: m' touches_def dom_def)
qed

lemma load_store: "store m a bs = Some m' \<Longrightarrow> load m' a (length bs) = Some bs"
proof -
  assume s: "store m a bs = Some m'"
  then have "\<And>i. i < length bs \<Longrightarrow> m' (a + i) = Some (bs ! i)" by (auto simp: store_def split: if_splits)
  then have e: "map (\<lambda>i. m' (a + i)) [0..<length bs] = map Some bs" by (intro nth_equalityI) auto
  have "those (map Some xs) = Some xs" for xs :: bytes by (induction xs) simp_all
  then show ?thesis unfolding load_def e by blast
qed

lemma store_nth: "store m a bs = Some m' \<Longrightarrow> i < length bs \<Longrightarrow> m' (a + i) = Some (bs ! i)"
  by (auto simp: store_def split: if_splits)

section \<open>Addresses\<close>

definition field_extent :: "pb_field \<Rightarrow> nat" where
  "field_extent f =
     (if PB_ATYPE (fd_type f) = PB_ATYPE_STATIC \<and> PB_HTYPE (fd_type f) = PB_HTYPE_REPEATED
      then fd_data_size f * fd_array_size f
      else if PB_ATYPE (fd_type f) = PB_ATYPE_POINTER then 8
      else fd_data_size f)"

definition in_union :: "pb_field \<Rightarrow> pb_field \<Rightarrow> bool" where
  "in_union f g \<longleftrightarrow> PB_HTYPE (fd_type f) = PB_HTYPE_ONEOF \<and> PB_HTYPE (fd_type g) = PB_HTYPE_ONEOF \<and>
     fd_data_offset g = PB_SIZE_MAX"

text \<open>The fields with the addresses of their data and of their flag or counter.\<close>

fun layout_from :: "pb_field \<Rightarrow> nat \<Rightarrow> nat \<Rightarrow> pb_field list \<Rightarrow> (pb_field \<times> nat \<times> nat) list" where
  "layout_from f p q [] = [(f, p, q)]"
| "layout_from f p q (g # gs) = (f, p, q) #
     (if in_union f g then layout_from g p q gs
      else let p' = p + field_extent f + fd_data_offset g in layout_from g p' (size_addr p' g) gs)"

fun layout :: "pb_field list \<Rightarrow> nat \<Rightarrow> (pb_field \<times> nat \<times> nat) list" where
  "layout [] a = []"
| "layout (f # fs) a = layout_from f (a + fd_data_offset f) (size_addr (a + fd_data_offset f) f) fs"

lemma layout_from_fields: "map fst (layout_from f p q gs) = f # gs"
  by (induction gs arbitrary: f p q) (simp_all add: Let_def)

lemma layout_fields: "map fst (layout fds a) = fds"
  by (cases fds) (simp_all add: layout_from_fields)

lemma length_layout [simp]: "length (layout fds a) = length fds"
  using arg_cong [OF layout_fields, of length] by simp

lemma fst_layout: "i < length fds \<Longrightarrow> fst (layout fds a ! i) = fds ! i"
  using arg_cong [OF layout_fields [of fds a], of "\<lambda>xs. xs ! i"] by simp

lemma layout_from_0: "layout_from f p q gs ! 0 = (f, p, q)"
  by (cases gs) simp_all

lemma layout_from_Suc:
  assumes "i < length gs"
  shows "layout_from f p q gs ! Suc i =
    (case layout_from f p q gs ! i of (f', p', q') \<Rightarrow>
       if in_union f' (gs ! i) then (gs ! i, p', q')
       else let p'' = p' + field_extent f' + fd_data_offset (gs ! i) in (gs ! i, p'', size_addr p'' (gs ! i)))"
  using assms
proof (induction gs arbitrary: f p q i)
  case (Cons g gs)
  show ?case
  proof (cases i)
    case 0
    then show ?thesis by (simp add: layout_from_0 Let_def)
  next
    case (Suc j)
    with Cons.prems have "j < length gs" by simp
    with Cons.IH [OF this] show ?thesis unfolding Suc
      by (cases "in_union f g") (simp_all add: Let_def split: prod.split)
  qed
qed simp

lemma layout_Suc:
  assumes "Suc i < length fds"
  shows "layout fds a ! Suc i =
    (case layout fds a ! i of (f', p', q') \<Rightarrow>
       if in_union f' (fds ! Suc i) then (fds ! Suc i, p', q')
       else let p'' = p' + field_extent f' + fd_data_offset (fds ! Suc i)
            in (fds ! Suc i, p'', size_addr p'' (fds ! Suc i)))"
  using assms by (cases fds) (simp_all add: layout_from_Suc split: prod.split)

section \<open>The iterator\<close>

definition is_required :: "pb_field \<Rightarrow> bool" where
  "is_required f \<longleftrightarrow> PB_HTYPE (fd_type f) = PB_HTYPE_REQUIRED"

definition iter_at :: "pb_field list \<Rightarrow> nat \<Rightarrow> nat \<Rightarrow> pb_field_iter" where
  "iter_at fds a i =
     \<lparr>it_start = fds, it_pos = i, required_field_index = length (filter is_required (take i fds)), dest_struct = a,
      pData = fst (snd (layout fds a ! i)), pSize = snd (snd (layout fds a ! i))\<rparr>"

definition tags_ok :: "pb_field list \<Rightarrow> bool" where
  "tags_ok fds \<longleftrightarrow> (\<forall>f\<in>set fds. fd_tag f \<noteq> 0)"

lemma field_at_tag: "tags_ok fds \<Longrightarrow> fd_tag (field_at fds i) = 0 \<longleftrightarrow> length fds \<le> i"
  by (auto simp: field_at_def tags_ok_def PB_LAST_FIELD_def not_less)

lemma it_field_at [simp]: "it_field (iter_at fds a i) = field_at fds i"
  by (simp add: it_field_def iter_at_def)

lemma iter_at_sel [simp]: "it_pos (iter_at fds a i) = i" "it_start (iter_at fds a i) = fds" "dest_struct (iter_at fds a i) = a"
  "pData (iter_at fds a i) = fst (snd (layout fds a ! i))" "pSize (iter_at fds a i) = snd (snd (layout fds a ! i))"
  "required_field_index (iter_at fds a i) = length (filter is_required (take i fds))"
  by (simp_all add: iter_at_def)

lemma iter_begin:
  assumes "tags_ok fds" "fds \<noteq> []"
  shows "pb_field_iter_begin fds a = (True, iter_at fds a 0)"
proof -
  obtain f gs where "fds = f # gs" using assms(2) by (cases fds) auto
  then show ?thesis using assms(1)
    by (simp add: pb_field_iter_begin_def iter_at_def field_at_def layout_from_0 tags_ok_def Let_def)
qed

lemma iter_next:
  assumes "tags_ok fds" "i < length fds"
  shows "pb_field_iter_next (iter_at fds a i) =
    (if Suc i < length fds then (True, iter_at fds a (Suc i)) else (False, iter_at fds a 0))"
proof -
  let ?f = "fds ! i"
  have prev: "it_field (iter_at fds a i) = ?f" "fd_tag ?f \<noteq> 0"
    using assms by (auto simp: field_at_def tags_ok_def)
  obtain p q where L: "layout fds a ! i = (?f, p, q)" using fst_layout [OF assms(2), of a] by (cases "layout fds a ! i") auto
  show ?thesis
  proof (cases "Suc i < length fds")
    case True
    let ?g = "fds ! Suc i"
    have g: "it_field ((iter_at fds a i)\<lparr>it_pos := Suc i\<rparr>) = ?g" "fd_tag ?g \<noteq> 0"
      using True assms(1) by (auto simp: it_field_def field_at_def tags_ok_def)
    have r: "length (filter is_required (take (Suc i) fds)) = length (filter is_required (take i fds)) + (if is_required ?f then 1 else 0)"
      using assms(2) by (simp add: take_Suc_conv_app_nth)
    have u: "in_union ?f ?g \<Longrightarrow> \<not> is_required ?f" by (auto simp: in_union_def is_required_def)
    have start: "(iter_at fds a i)\<lparr>it_pos := Suc i\<rparr> = \<lparr>it_start = fds, it_pos = Suc i,
        required_field_index = length (filter is_required (take i fds)), dest_struct = a, pData = p, pSize = q\<rparr>"
      by (simp add: iter_at_def L)
    show ?thesis
    proof (cases "in_union ?f ?g")
      case True
      then have "layout fds a ! Suc i = (?g, p, q)" using layout_Suc [OF \<open>Suc i < length fds\<close>, of a] L by simp
      then have "iter_at fds a (Suc i) = (iter_at fds a i)\<lparr>it_pos := Suc i\<rparr>"
        using r u True unfolding start by (simp add: iter_at_def)
      then show ?thesis using True \<open>Suc i < length fds\<close> g prev
        by (simp add: pb_field_iter_next_def Let_def in_union_def)
    next
      case False
      let ?p = "p + field_extent ?f + fd_data_offset ?g"
      have L': "layout fds a ! Suc i = (?g, ?p, size_addr ?p ?g)"
        using False layout_Suc [OF True, of a] L by (simp add: Let_def)
      have e: "(if PB_ATYPE (fd_type ?f) = PB_ATYPE_STATIC \<and> PB_HTYPE (fd_type ?f) = PB_HTYPE_REPEATED
                then fd_data_size ?f * fd_array_size ?f
                else if PB_ATYPE (fd_type ?f) = PB_ATYPE_POINTER then 8 else fd_data_size ?f) = field_extent ?f"
        by (simp add: field_extent_def)
      have n: "\<not> (PB_HTYPE (fd_type ?f) = PB_HTYPE_ONEOF \<and> PB_HTYPE (fd_type ?g) = PB_HTYPE_ONEOF \<and> fd_data_offset ?g = PB_SIZE_MAX)"
        using False by (simp add: in_union_def)
      have "pb_field_iter_next (iter_at fds a i) =
          (True, (if PB_HTYPE (fd_type ?f) = PB_HTYPE_REQUIRED
             then ((iter_at fds a i)\<lparr>it_pos := Suc i\<rparr>)\<lparr>required_field_index := length (filter is_required (take i fds)) + 1\<rparr>
             else (iter_at fds a i)\<lparr>it_pos := Suc i\<rparr>)\<lparr>pData := ?p, pSize := size_addr ?p ?g\<rparr>)"
        using g prev L unfolding pb_field_iter_next_def Let_def prev(1)
        by (simp add: n e if_not_P [OF n])
      also have "\<dots> = (True, iter_at fds a (Suc i))"
        unfolding start using r by (simp add: iter_at_def L' is_required_def)
      finally show ?thesis using True by simp
    qed
  next
    case False
    then have "fd_tag (it_field ((iter_at fds a i)\<lparr>it_pos := Suc i\<rparr>)) = 0"
      by (simp add: it_field_def field_at_def PB_LAST_FIELD_def)
    moreover have "fds \<noteq> []" using assms(2) by auto
    ultimately show ?thesis using False prev iter_begin [OF assms(1), of a]
      by (simp add: pb_field_iter_next_def Let_def)
  qed
qed

text \<open>A search ends at an entry that is hit, or where it began.\<close>

lemma iter_find_loop_at:
  assumes "tags_ok fds" "i < length fds" "start < length fds"
  obtains j where "j < length fds" "hit (fds ! j)" "iter_find_loop start hit (iter_at fds a i) = Some (True, iter_at fds a j)"
  | "iter_find_loop start hit (iter_at fds a i) = Some (False, iter_at fds a start)"
proof -
  have "(\<exists>j<length fds. hit (fds ! j) \<and> iter_find_loop start hit (iter_at fds a i) = Some (True, iter_at fds a j)) \<or>
      iter_find_loop start hit (iter_at fds a i) = Some (False, iter_at fds a start)"
    using assms(2)
  proof (induction "if i < start then start - i else start + length fds - i" arbitrary: i rule: less_induct)
    case less
    show ?case
    proof (cases "hit (fds ! i)")
      case True
      then have "iter_find_loop start hit (iter_at fds a i) = Some (True, iter_at fds a i)"
        using less.prems by (subst iter_find_loop.simps) (simp add: field_at_def)
      with True less.prems show ?thesis by blast
    next
      case False
      define j where "j = (if Suc i < length fds then Suc i else 0)"
      have n: "snd (pb_field_iter_next (iter_at fds a i)) = iter_at fds a j"
        using iter_next [OF assms(1) less.prems] by (simp add: j_def)
      have e: "iter_find_loop start hit (iter_at fds a i) =
          (if j \<noteq> start then iter_find_loop start hit (iter_at fds a j) else Some (False, iter_at fds a j))"
        using False less.prems by (subst iter_find_loop.simps) (simp add: n field_at_def Let_def)
      show ?thesis
      proof (cases "j = start")
        case True
        then show ?thesis using e by simp
      next
        case False
        moreover have "j < length fds" using less.prems by (auto simp: j_def)
        moreover have "(if j < start then start - j else start + length fds - j) <
            (if i < start then start - i else start + length fds - i)"
          using False less.prems assms(3) by (auto simp: j_def)
        ultimately show ?thesis using less.hyps e by simp
      qed
    qed
  qed
  then show thesis using that by blast
qed

lemma iter_find_at:
  assumes "tags_ok fds" "i < length fds"
  obtains j where "j < length fds" "fd_tag (fds ! j) = tag" "PB_LTYPE (fd_type (fds ! j)) \<noteq> PB_LTYPE_EXTENSION"
      "pb_field_iter_find (iter_at fds a i) tag = Some (True, iter_at fds a j)"
  | "pb_field_iter_find (iter_at fds a i) tag = Some (False, iter_at fds a i)"
  using iter_find_loop_at [OF assms(1,2,2), of "\<lambda>f. fd_tag f = tag \<and> PB_LTYPE (fd_type f) \<noteq> PB_LTYPE_EXTENSION" a thesis]
  unfolding pb_field_iter_find_def iter_at_sel by blast

text \<open>A loop over all fields, with an invariant.\<close>

lemma iter_each_inv:
  assumes fds: "tags_ok fds" and i: "i < length fds" "I i st"
    and step: "\<And>i st. i < length fds \<Longrightarrow> I i st \<Longrightarrow>
      \<exists>r st'. body (iter_at fds a i) st = Some (r, st') \<and> (r = None \<longrightarrow> J st') \<and> (r = Some () \<longrightarrow> I (Suc i) st')"
  shows "\<exists>r st'. iter_each body (iter_at fds a i) st = Some (r, st') \<and> (r = None \<longrightarrow> J st') \<and>
    (r = Some () \<longrightarrow> I (length fds) st')"
  using i
proof (induction "length fds - i" arbitrary: i st rule: less_induct)
  case less
  from step [OF less.prems] obtain r st' where s: "body (iter_at fds a i) st = Some (r, st')"
    "r = None \<longrightarrow> J st'" "r = Some () \<longrightarrow> I (Suc i) st'" by blast
  show ?case
  proof (cases r)
    case None
    then show ?thesis using s by (subst iter_each.simps) simp
  next
    case (Some u)
    show ?thesis
    proof (cases "Suc i < length fds")
      case True
      then show ?thesis using s Some less.hyps [of "Suc i" st'] iter_next [OF fds less.prems(1), of a]
        by (subst iter_each.simps) simp
    next
      case False
      then have "Suc i = length fds" using less.prems by simp
      then show ?thesis using s Some iter_next [OF fds less.prems(1), of a]
        by (subst iter_each.simps) (simp add: cret_def)
    qed
  qed
qed

section \<open>Tables that describe a struct\<close>

definition slot_size :: "pb_field \<Rightarrow> nat" where
  "slot_size f =
     (if PB_HTYPE (fd_type f) = PB_HTYPE_REPEATED \<or> PB_HTYPE (fd_type f) = PB_HTYPE_ONEOF then 4
      else if PB_HTYPE (fd_type f) = PB_HTYPE_OPTIONAL \<and> PB_ATYPE (fd_type f) = PB_ATYPE_STATIC \<and> fd_size_offset f \<noteq> 0
      then 1 else 0)"

text \<open>
  One field: its kind fits its size, a default value has the size and the type of the field, and the
  table of a submessage describes a struct of that size (\<open>sub\<close>).
\<close>

definition field_ok :: "(nat \<Rightarrow> pb_field list \<Rightarrow> bool) \<Rightarrow> pb_field \<Rightarrow> bool" where
  "field_ok sub f \<longleftrightarrow>
     (let t = fd_type f; ltype = PB_LTYPE t; ds = fd_data_size f in
      fd_tag f \<noteq> 0 \<and> fd_array_size f < 2 ^ 32 \<and> PB_ATYPE t \<in> {PB_ATYPE_STATIC, PB_ATYPE_POINTER} \<and>
      ltype \<le> 9 \<and> ltype \<noteq> PB_LTYPE_EXTENSION \<and>
      (PB_ATYPE t = PB_ATYPE_STATIC \<longrightarrow>
         (ltype = PB_LTYPE_VARINT \<or> ltype = PB_LTYPE_UVARINT \<or> ltype = PB_LTYPE_SVARINT \<longrightarrow> ds = 1 \<or> ds = 2 \<or> ds = 4 \<or> ds = 8) \<and>
         (ltype = PB_LTYPE_FIXED32 \<longrightarrow> ds = 4) \<and> (ltype = PB_LTYPE_FIXED64 \<longrightarrow> ds = 8) \<and>
         (ltype = PB_LTYPE_BYTES \<longrightarrow> 4 \<le> ds) \<and> (ltype = PB_LTYPE_STRING \<longrightarrow> 1 \<le> ds) \<and>
         (case fd_ptr f of
            Null \<Rightarrow> ltype \<noteq> PB_LTYPE_SUBMESSAGE
          | Default b \<Rightarrow> ltype \<noteq> PB_LTYPE_SUBMESSAGE \<and> ds \<le> length b \<and>
              (ltype = PB_LTYPE_BYTES \<longrightarrow> le_val (take 4 b) + 4 \<le> ds) \<and>
              (ltype = PB_LTYPE_STRING \<longrightarrow> 0 \<in> set (take ds b))
          | Fields g \<Rightarrow> ltype = PB_LTYPE_SUBMESSAGE \<and> sub ds g)))"

definition apart :: "nat \<Rightarrow> nat \<Rightarrow> nat \<Rightarrow> nat \<Rightarrow> bool" where
  "apart p k q l \<longleftrightarrow> p + k \<le> q \<or> q + l \<le> p"

text \<open>
  Two fields: data and flags do not overlap, unless they are members of one union, which have one
  selector.
\<close>

definition fields_apart :: "pb_field \<times> nat \<times> nat \<Rightarrow> pb_field \<times> nat \<times> nat \<Rightarrow> bool" where
  "fields_apart x y \<longleftrightarrow>
     (case (x, y) of ((f, p, q), (g, p', q')) \<Rightarrow>
        fd_tag f \<noteq> fd_tag g \<and> apart p (field_extent f) q' (slot_size g) \<and> apart p' (field_extent g) q (slot_size f) \<and>
        (PB_HTYPE (fd_type f) = PB_HTYPE_ONEOF \<and> PB_HTYPE (fd_type g) = PB_HTYPE_ONEOF \<and> q = q' \<or>
         apart p (field_extent f) p' (field_extent g) \<and> apart q (slot_size f) q' (slot_size g)))"

definition field_inside :: "nat \<Rightarrow> pb_field \<times> nat \<times> nat \<Rightarrow> bool" where
  "field_inside n x \<longleftrightarrow>
     (case x of (f, p, q) \<Rightarrow>
        0 \<le> int p + fd_size_offset f \<and> p + field_extent f \<le> n \<and> q + slot_size f \<le> n \<and>
        apart p (field_extent f) q (slot_size f) \<and> (slot_size f = 1 \<longrightarrow> q \<noteq> p))"

fun all_apart :: "(pb_field \<times> nat \<times> nat) list \<Rightarrow> bool" where
  "all_apart [] = True"
| "all_apart (x # xs) \<longleftrightarrow> list_all (fields_apart x) xs \<and> all_apart xs"

text \<open>
  \<open>wf_table d n fds\<close>: the table describes a struct of \<open>n\<close> bytes with less than \<open>d\<close> levels of nested
  messages.  The number of required fields is below 64 and not a positive multiple of 32, for which
  the bit mask of \<open>pb_decode_noinit\<close> is not defined.
\<close>

primrec wf_table :: "nat \<Rightarrow> nat \<Rightarrow> pb_field list \<Rightarrow> bool" where
  "wf_table 0 n fds = False"
| "wf_table (Suc d) n fds \<longleftrightarrow>
     list_all (field_ok (wf_table d)) fds \<and> list_all (field_inside n) (layout fds 0) \<and> all_apart (layout fds 0) \<and>
     (let k = length (filter is_required fds) in k < 64 \<and> (k mod 32 = 0 \<longrightarrow> k = 0))"

section \<open>Messages of a type\<close>

text \<open>
  A stored byte array fits its field, a stored string has its terminator, a counter is within the
  array, and the selected member of a union is of its type.  Nothing is stored behind pointers.
\<close>

definition typed_item :: "(pb_field list \<Rightarrow> nat \<Rightarrow> bool) \<Rightarrow> pbmem \<Rightarrow> pb_field \<Rightarrow> nat \<Rightarrow> bool" where
  "typed_item sub m f p \<longleftrightarrow>
     (let ltype = PB_LTYPE (fd_type f) in
      (ltype = PB_LTYPE_BYTES \<longrightarrow> (\<exists>b. load m p 4 = Some b \<and> le_val b + 4 \<le> fd_data_size f)) \<and>
      (ltype = PB_LTYPE_STRING \<longrightarrow> (\<exists>i<fd_data_size f. m (p + i) = Some 0)) \<and>
      (ltype = PB_LTYPE_SUBMESSAGE \<longrightarrow> (\<exists>g. fd_ptr f = Fields g \<and> sub g p)))"

definition typed_field :: "(pb_field list \<Rightarrow> nat \<Rightarrow> bool) \<Rightarrow> pbmem \<Rightarrow> pb_field \<times> nat \<times> nat \<Rightarrow> bool" where
  "typed_field sub m x \<longleftrightarrow>
     (case x of (f, p, q) \<Rightarrow>
        if PB_HTYPE (fd_type f) = PB_HTYPE_ONEOF then
          \<exists>b. load m q 4 = Some b \<and>
              (le_val b = unat (fd_tag f) \<longrightarrow> PB_ATYPE (fd_type f) = PB_ATYPE_STATIC \<and> typed_item sub m f p)
        else if PB_ATYPE (fd_type f) = PB_ATYPE_POINTER then
          load m p 8 = Some (le_bytes 8 0) \<and>
          (PB_HTYPE (fd_type f) = PB_HTYPE_REPEATED \<longrightarrow> load m q 4 = Some (le_bytes 4 0))
        else if PB_HTYPE (fd_type f) = PB_HTYPE_REPEATED then
          \<exists>b. load m q 4 = Some b \<and> le_val b \<le> fd_array_size f \<and>
              (\<forall>k<le_val b. typed_item sub m f (p + fd_data_size f * k))
        else typed_item sub m f p)"

primrec typed :: "nat \<Rightarrow> pbmem \<Rightarrow> pb_field list \<Rightarrow> nat \<Rightarrow> bool" where
  "typed 0 m fds a = True"
| "typed (Suc d) m fds a \<longleftrightarrow> (\<forall>x\<in>set (layout fds a). typed_field (typed d m) m x)"

text \<open>The same, in a form that computes.\<close>

lemma typed_item_code [code]:
  "typed_item sub m f p \<longleftrightarrow>
     (let ltype = PB_LTYPE (fd_type f) in
      (ltype = PB_LTYPE_BYTES \<longrightarrow> (case load m p 4 of None \<Rightarrow> False | Some b \<Rightarrow> le_val b + 4 \<le> fd_data_size f)) \<and>
      (ltype = PB_LTYPE_STRING \<longrightarrow> list_ex (\<lambda>i. m (p + i) = Some 0) [0..<fd_data_size f]) \<and>
      (ltype = PB_LTYPE_SUBMESSAGE \<longrightarrow> (case fd_ptr f of Fields g \<Rightarrow> sub g p | _ \<Rightarrow> False)))"
  by (auto simp: typed_item_def list_ex_iff Bex_def Let_def split: option.split pb_ptr.split)

lemma typed_field_code [code]:
  "typed_field sub m (f, p, q) \<longleftrightarrow>
     (if PB_HTYPE (fd_type f) = PB_HTYPE_ONEOF then
        (case load m q 4 of None \<Rightarrow> False
         | Some b \<Rightarrow> le_val b = unat (fd_tag f) \<longrightarrow> PB_ATYPE (fd_type f) = PB_ATYPE_STATIC \<and> typed_item sub m f p)
      else if PB_ATYPE (fd_type f) = PB_ATYPE_POINTER then
        load m p 8 = Some (le_bytes 8 0) \<and>
        (PB_HTYPE (fd_type f) = PB_HTYPE_REPEATED \<longrightarrow> load m q 4 = Some (le_bytes 4 0))
      else if PB_HTYPE (fd_type f) = PB_HTYPE_REPEATED then
        (case load m q 4 of None \<Rightarrow> False
         | Some b \<Rightarrow> le_val b \<le> fd_array_size f \<and> list_all (\<lambda>k. typed_item sub m f (p + fd_data_size f * k)) [0..<le_val b])
      else typed_item sub m f p)"
  by (auto simp: typed_field_def list_all_iff split: option.split)

section \<open>What a table says of the addresses\<close>

lemma ltype_cases:
  assumes "field_ok sub f"
  obtains "PB_LTYPE (fd_type f) = 0" | "PB_LTYPE (fd_type f) = 1" | "PB_LTYPE (fd_type f) = 2" | "PB_LTYPE (fd_type f) = 3"
  | "PB_LTYPE (fd_type f) = 4" | "PB_LTYPE (fd_type f) = 5" | "PB_LTYPE (fd_type f) = 6" | "PB_LTYPE (fd_type f) = 7"
  | "PB_LTYPE (fd_type f) = 9"
proof -
  let ?t = "PB_LTYPE (fd_type f)"
  have t: "?t \<le> 9" "?t \<noteq> 8" using assms by (auto simp: field_ok_def Let_def)
  have "unat ?t \<le> 9" using t(1) by (simp add: word_le_nat_alt)
  then have "unat ?t \<in> {0,1,2,3,4,5,6,7,8,9}" unfolding insert_iff empty_iff by presburger
  then have "(word_of_nat (unat ?t) :: u8) \<in> word_of_nat ` {0,1,2,3,4,5,6,7,8,9}" by (rule imageI)
  then have "?t \<in> word_of_nat ` {0,1,2,3,4,5,6,7,8,9}" by simp
  with t(2) show thesis using that by auto
qed

lemma apart_shift [simp]: "apart (a + p) k (a + q) l = apart p k q l"
  by (simp add: apart_def)

lemma apart_sym: "apart p k q l = apart q l p k"
  by (auto simp: apart_def)

lemma fields_apart_sym: "fields_apart x y \<Longrightarrow> fields_apart y x"
  by (auto simp: fields_apart_def apart_sym split: prod.splits)

lemma layout_from_shift:
  assumes "list_all (field_inside n) (layout_from f p q gs)"
  shows "layout_from f (a + p) (a + q) gs = map (\<lambda>(f, p, q). (f, a + p, a + q)) (layout_from f p q gs)"
  using assms
proof (induction gs arbitrary: f p q)
  case (Cons g gs)
  let ?p = "p + field_extent f + fd_data_offset g"
  show ?case
  proof (cases "in_union f g")
    case True
    then show ?thesis using Cons by simp
  next
    case False
    have "list_all (field_inside n) (layout_from g ?p (size_addr ?p g) gs)" using Cons.prems False by (simp add: Let_def)
    note this Cons.IH [OF this]
    moreover from this(1) have "0 \<le> int ?p + fd_size_offset g"
      by (cases gs) (simp_all add: field_inside_def)
    then have "size_addr (a + ?p) g = a + size_addr ?p g" by (simp add: size_addr_def nat_add_distrib add.assoc)
    ultimately show ?thesis using False by (simp add: Let_def add.assoc)
  qed
qed simp

lemma layout_shift:
  assumes "list_all (field_inside n) (layout fds 0)"
  shows "layout fds a = map (\<lambda>(f, p, q). (f, a + p, a + q)) (layout fds 0)"
proof (cases fds)
  case (Cons f fs)
  have "0 \<le> int (fd_data_offset f) + fd_size_offset f"
    using assms Cons by (cases fs) (simp_all add: field_inside_def)
  then have "size_addr (a + fd_data_offset f) f = a + size_addr (fd_data_offset f) f"
    by (simp add: size_addr_def nat_add_distrib add.assoc)
  then show ?thesis using assms layout_from_shift [of n f "fd_data_offset f" "size_addr (fd_data_offset f) f" fs a]
    by (simp add: Cons)
qed simp

lemma all_apart_nth: "all_apart xs \<Longrightarrow> i < length xs \<Longrightarrow> j < length xs \<Longrightarrow> i \<noteq> j \<Longrightarrow> fields_apart (xs ! i) (xs ! j)"
proof (induction xs arbitrary: i j)
  case (Cons x xs)
  then show ?case
    by (cases i; cases j) (auto simp: list_all_length intro: fields_apart_sym)
qed simp

text \<open>The facts the proofs use of a field of a well-formed table.\<close>

lemma wf_tags: "wf_table d n fds \<Longrightarrow> tags_ok fds"
  by (cases d) (auto simp: tags_ok_def list_all_iff field_ok_def Let_def)

lemma wf_field:
  assumes "wf_table (Suc d) n fds" "i < length fds"
  obtains p q where "layout fds a ! i = (fds ! i, p, q)" "field_ok (wf_table d) (fds ! i)"
    "a \<le> p" "p + field_extent (fds ! i) \<le> a + n" "a \<le> q" "q + slot_size (fds ! i) \<le> a + n"
    "apart p (field_extent (fds ! i)) q (slot_size (fds ! i))" "slot_size (fds ! i) = 1 \<Longrightarrow> q \<noteq> p"
proof -
  obtain p q where L: "layout fds 0 ! i = (fds ! i, p, q)" using fst_layout [OF assms(2), of 0] by (cases "layout fds 0 ! i") auto
  have "field_inside n (fds ! i, p, q)" "field_ok (wf_table d) (fds ! i)" "list_all (field_inside n) (layout fds 0)"
    using assms L by (auto simp: list_all_length)
  moreover from layout_shift [OF this(3), of a] have "layout fds a ! i = (fds ! i, a + p, a + q)"
    using assms(2) L by simp
  ultimately show thesis by (intro that [of "a + p" "a + q"]) (auto simp: field_inside_def)
qed

lemma wf_apart:
  assumes "wf_table (Suc d) n fds" "i < length fds" "j < length fds" "i \<noteq> j"
  shows "fields_apart (layout fds a ! i) (layout fds a ! j)"
proof -
  have L: "layout fds a = map (\<lambda>(f, p, q). (f, a + p, a + q)) (layout fds 0)" using assms(1) by (intro layout_shift) auto
  have "fields_apart (layout fds 0 ! i) (layout fds 0 ! j)" using assms by (intro all_apart_nth) auto
  then show ?thesis using assms(2,3) by (auto simp: L fields_apart_def split: prod.splits)
qed

section \<open>Typing looks only at the struct\<close>

definition agree :: "nat \<Rightarrow> nat \<Rightarrow> pbmem \<Rightarrow> pbmem \<Rightarrow> bool" where
  "agree p k m m' \<longleftrightarrow> (\<forall>x. p \<le> x \<and> x < p + k \<longrightarrow> m x = m' x)"

lemma agree_sub: "agree p k m m' \<Longrightarrow> p \<le> q \<Longrightarrow> q + l \<le> p + k \<Longrightarrow> agree q l m m'"
  by (auto simp: agree_def)

lemma agree_load: "agree p k m m' \<Longrightarrow> n \<le> k \<Longrightarrow> load m p n = load m' p n"
  by (intro load_cong) (auto simp: agree_def)

lemma agree_touches: "touches S m m' \<Longrightarrow> S \<inter> {p..<p + k} = {} \<Longrightarrow> agree p k m m'"
  unfolding agree_def touches_def by (metis atLeastLessThan_iff disjoint_iff)

lemma typed_item_cong:
  assumes "field_ok (wf_table d) f" "PB_ATYPE (fd_type f) = PB_ATYPE_STATIC" "agree p (fd_data_size f) m m'"
    and "\<And>g. fd_ptr f = Fields g \<Longrightarrow> wf_table d (fd_data_size f) g \<Longrightarrow> sub g p = sub' g p"
  shows "typed_item sub m f p = typed_item sub' m' f p"
proof -
  have b: "PB_LTYPE (fd_type f) = PB_LTYPE_BYTES \<Longrightarrow> load m p 4 = load m' p 4"
    using assms(1,2) by (intro agree_load [OF assms(3)]) (auto simp: field_ok_def Let_def)
  have s: "m (p + i) = m' (p + i)" if "i < fd_data_size f" for i using assms(3) that by (simp add: agree_def)
  have g: "PB_LTYPE (fd_type f) = PB_LTYPE_SUBMESSAGE \<Longrightarrow> fd_ptr f = Fields g \<Longrightarrow> sub g p = sub' g p" for g
    using assms(1,2,4) by (auto simp: field_ok_def Let_def)
  show ?thesis unfolding typed_item_def Let_def using b s g by (intro conj_cong imp_cong) auto
qed

lemma typed_field_cong:
  assumes ok: "field_ok (wf_table d) f" and data: "agree p (field_extent f) m m'" and slot: "agree q (slot_size f) m m'"
    and sub: "\<And>g x. fd_ptr f = Fields g \<Longrightarrow> wf_table d (fd_data_size f) g \<Longrightarrow> agree x (fd_data_size f) m m' \<Longrightarrow> sub g x = sub' g x"
  shows "typed_field sub m (f, p, q) = typed_field sub' m' (f, p, q)"
proof -
  let ?h = "PB_HTYPE (fd_type f)" and ?at = "PB_ATYPE (fd_type f)"
  have at: "?at = PB_ATYPE_STATIC \<or> ?at = PB_ATYPE_POINTER" using ok by (auto simp: field_ok_def Let_def)
  have item: "typed_item sub m f x = typed_item sub' m' f x" if "agree x (fd_data_size f) m m'" "?at = PB_ATYPE_STATIC" for x
    using typed_item_cong [OF ok that(2,1)] sub that by blast
  have q: "?h = PB_HTYPE_REPEATED \<or> ?h = PB_HTYPE_ONEOF \<Longrightarrow> load m q 4 = load m' q 4"
    by (intro agree_load [OF slot]) (auto simp: slot_size_def)
  have one: "agree p (fd_data_size f) m m'" if "?h \<noteq> PB_HTYPE_REPEATED" "?at = PB_ATYPE_STATIC"
    using data that by (simp add: field_extent_def)
  have ptr: "load m p 8 = load m' p 8" if "?at = PB_ATYPE_POINTER"
    using that by (intro agree_load [OF data]) (simp add: field_extent_def)
  have items: "typed_item sub m f (p + fd_data_size f * k) = typed_item sub' m' f (p + fd_data_size f * k)"
    if "?h = PB_HTYPE_REPEATED" "?at = PB_ATYPE_STATIC" "k < fd_array_size f" for k
  proof (rule item)
    have "fd_data_size f * (k + 1) \<le> fd_data_size f * fd_array_size f" using that(3) by (intro mult_le_mono2) simp
    then show "agree (p + fd_data_size f * k) (fd_data_size f) m m'"
      using data that by (intro agree_sub [OF data]) (simp_all add: field_extent_def)
  qed (rule that)
  consider "?h = PB_HTYPE_ONEOF" | "?h \<noteq> PB_HTYPE_ONEOF" "?at = PB_ATYPE_POINTER"
    | "?h = PB_HTYPE_REPEATED" "?at = PB_ATYPE_STATIC" | "?h \<noteq> PB_HTYPE_ONEOF" "?h \<noteq> PB_HTYPE_REPEATED" "?at = PB_ATYPE_STATIC"
    using at by blast
  then show ?thesis
  proof cases
    case 1
    then show ?thesis using q one item by (auto simp: typed_field_def)
  next
    case 2
    then show ?thesis using ptr q by (auto simp: typed_field_def)
  next
    case 3
    have "(\<forall>k<le_val b. typed_item sub m f (p + fd_data_size f * k)) = (\<forall>k<le_val b. typed_item sub' m' f (p + fd_data_size f * k))"
      if "le_val b \<le> fd_array_size f" for b
      using items [OF 3] that by (meson less_le_trans)
    then show ?thesis using 3 q by (auto simp: typed_field_def)
  next
    case 4
    then show ?thesis using one item by (simp add: typed_field_def)
  qed
qed

lemma typed_cong: "wf_table d n fds \<Longrightarrow> agree a n m m' \<Longrightarrow> typed d m fds a = typed d m' fds a"
proof (induction d arbitrary: n fds a)
  case (Suc d)
  have "typed_field (typed d m) m x = typed_field (typed d m') m' x" if x: "x \<in> set (layout fds a)" for x
  proof -
    from x obtain i where i: "i < length fds" "x = layout fds a ! i" by (auto simp: in_set_conv_nth)
    from wf_field [OF Suc.prems(1) i(1), of a] obtain p q where f: "x = (fds ! i, p, q)" "field_ok (wf_table d) (fds ! i)"
      "a \<le> p" "p + field_extent (fds ! i) \<le> a + n" "a \<le> q" "q + slot_size (fds ! i) \<le> a + n" using i(2) by metis
    have "agree p (field_extent (fds ! i)) m m'" "agree q (slot_size (fds ! i)) m m'"
      using f by (auto intro: agree_sub [OF Suc.prems(2)])
    then show ?thesis unfolding f(1) using Suc.IH by (intro typed_field_cong [OF f(2)]) blast+
  qed
  then show ?case by simp
qed simp

end
