(* ===== verification/Pb_Type.thy ===== *)
theory Pb_Type
  imports Pb_Layout Pb_Decode
begin

text \<open>
  Calls of the decoder as triples: what they do to memory and stream, whatever the bytes of the stream
  are.  Then the decoders of single items, up to nested messages.
\<close>

section \<open>Calls on memory and stream\<close>

text \<open>
  \<open>safe D S I p Q\<close>: on a memory with the addresses \<open>D\<close> that satisfies \<open>I\<close>, the call returns, changes
  memory in \<open>S\<close> only, and if it returns \<open>true\<close> its result and the memory satisfy \<open>Q\<close>.
\<close>

definition safe ::
  "nat set \<Rightarrow> nat set \<Rightarrow> (pbmem \<Rightarrow> bool) \<Rightarrow> ('a, 's dstate) call \<Rightarrow> ('a \<Rightarrow> pbmem \<Rightarrow> bool) \<Rightarrow> bool" where
  "safe D S I p Q \<longleftrightarrow>
     (\<forall>m s k. D \<subseteq> dom m \<and> I m \<and> stream_ok k s \<longrightarrow>
        (\<exists>r m' s'. p (m, s) = Some (r, (m', s')) \<and> touches S m m' \<and> stream_ok k s' \<and> is_left s' \<le> is_left s \<and>
           (\<forall>a. r = Some a \<longrightarrow> Q a m')))"

lemma safeI:
  assumes "\<And>m s k. D \<subseteq> dom m \<Longrightarrow> I m \<Longrightarrow> stream_ok k s \<Longrightarrow>
    \<exists>r m' s'. p (m, s) = Some (r, (m', s')) \<and> touches S m m' \<and> stream_ok k s' \<and> is_left s' \<le> is_left s \<and>
      (\<forall>a. r = Some a \<longrightarrow> Q a m')"
  shows "safe D S I p Q"
  using assms unfolding safe_def by blast

lemma safeD:
  assumes "safe D S I p Q" "D \<subseteq> dom m" "I m" "stream_ok k s"
  obtains r m' s' where "p (m, s) = Some (r, (m', s'))" "touches S m m'" "D \<subseteq> dom m'" "stream_ok k s'"
    "is_left s' \<le> is_left s" "\<And>a. r = Some a \<Longrightarrow> Q a m'"
proof -
  from assms obtain r m' s' where "p (m, s) = Some (r, (m', s'))" "touches S m m'" "stream_ok k s'"
    "is_left s' \<le> is_left s" "\<forall>a. r = Some a \<longrightarrow> Q a m'" unfolding safe_def by blast
  moreover from this(2) assms(2) have "D \<subseteq> dom m'" by (simp add: touches_dom)
  ultimately show thesis using that by blast
qed

lemma safe_ret: "(\<And>m. I m \<Longrightarrow> Q a m) \<Longrightarrow> safe D S I (cret a) Q"
  by (rule safeI) (simp add: cret_def)

lemma safe_bind:
  fixes p :: "('a, 's dstate) call"
  assumes p: "safe D S I p Q" and f: "\<And>a. safe D S (Q a) (f a) R"
  shows "safe D S I (cbind p f) R"
proof (rule safeI)
  fix m k and s :: "'s pb_istream"
  assume "D \<subseteq> dom m" "I m" "stream_ok k s"
  from safeD [OF p this] obtain r m1 s1 where 1: "p (m, s) = Some (r, (m1, s1))" "touches S m m1" "D \<subseteq> dom m1"
    "stream_ok k s1" "is_left s1 \<le> is_left s" "\<And>a. r = Some a \<Longrightarrow> Q a m1" by metis
  show "\<exists>r m' s'. cbind p f (m, s) = Some (r, (m', s')) \<and> touches S m m' \<and> stream_ok k s' \<and> is_left s' \<le> is_left s \<and>
      (\<forall>a. r = Some a \<longrightarrow> R a m')"
  proof (cases r)
    case (Some a)
    from safeD [OF f 1(3) 1(6) [OF Some] 1(4)] obtain r' m' s' where "f a (m1, s1) = Some (r', (m', s'))" "touches S m1 m'"
      "stream_ok k s'" "is_left s' \<le> is_left s1" "\<And>b. r' = Some b \<Longrightarrow> R b m'" by metis
    then show ?thesis using 1 Some touches_trans by (fastforce intro: order_trans)
  qed (use 1 in simp)
qed

lemma safe_weaken:
  fixes p :: "('a, 's dstate) call"
  assumes "safe D S I p Q" "D \<subseteq> D'" "S \<subseteq> S'" "\<And>m. J m \<Longrightarrow> I m" "\<And>a m. Q a m \<Longrightarrow> R a m"
  shows "safe D' S' J p R"
proof (rule safeI)
  fix m k and s :: "'s pb_istream"
  assume a: "D' \<subseteq> dom m" "J m" "stream_ok k s"
  with assms have "D \<subseteq> dom m" "I m" by auto
  from safeD [OF assms(1) this a(3)] obtain r m' s' where "p (m, s) = Some (r, (m', s'))" "touches S m m'"
    "stream_ok k s'" "is_left s' \<le> is_left s" "\<And>b. r = Some b \<Longrightarrow> Q b m'" by metis
  then show "\<exists>r m' s'. p (m, s) = Some (r, (m', s')) \<and> touches S' m m' \<and> stream_ok k s' \<and> is_left s' \<le> is_left s \<and>
      (\<forall>a. r = Some a \<longrightarrow> R a m')" using assms touches_mono by metis
qed

lemma safe_stream: "takes k Q p \<Longrightarrow> safe D S I (on_stream p) (\<lambda>a m. Q a \<and> I m)"
  by (rule safeI, erule takesD, assumption) (auto simp: on_stream_def)

lemma safe_error: "safe D S I (on_stream (is_error e)) Q"
  by (rule safe_weaken [OF safe_stream [OF takes_error [where k = 0 and Q = "\<lambda>_. False"]]]) auto

text \<open>A property that the written part of the memory does not influence is kept.\<close>

definition keeps :: "nat set \<Rightarrow> (pbmem \<Rightarrow> bool) \<Rightarrow> bool" where
  "keeps S I \<longleftrightarrow> (\<forall>m m'. touches S m m' \<longrightarrow> I m \<longrightarrow> I m')"

lemma safe_keep:
  fixes p :: "('a, 's dstate) call"
  assumes "safe D S I p Q" "keeps S J"
  shows "safe D S (\<lambda>m. I m \<and> J m) p (\<lambda>a m. Q a m \<and> J m)"
proof (rule safeI)
  fix m k and s :: "'s pb_istream"
  assume a: "D \<subseteq> dom m" "I m \<and> J m" "stream_ok k s"
  then have "I m" by simp
  from safeD [OF assms(1) a(1) this a(3)] obtain r m' s' where "p (m, s) = Some (r, (m', s'))" "touches S m m'"
    "stream_ok k s'" "is_left s' \<le> is_left s" "\<And>b. r = Some b \<Longrightarrow> Q b m'" by metis
  moreover then have "J m'" using assms(2) a(2) unfolding keeps_def by blast
  ultimately show "\<exists>r m' s'. p (m, s) = Some (r, (m', s')) \<and> touches S m m' \<and> stream_ok k s' \<and> is_left s' \<le> is_left s \<and>
      (\<forall>a. r = Some a \<longrightarrow> Q a m' \<and> J m')" by blast
qed

lemma safe_get: "{a..<a + n} \<subseteq> D \<Longrightarrow> safe D S I (on_mem (mget a n) :: (bytes, 's dstate) call) (\<lambda>b m. load m a n = Some b \<and> I m)"
proof (rule safeI)
  fix m k and s :: "'s pb_istream"
  assume "{a..<a + n} \<subseteq> D" "D \<subseteq> dom m" "I m" "stream_ok k s"
  moreover then obtain b where "load m a n = Some b" using load_mapped by (meson subset_trans)
  ultimately show "\<exists>r m' s'. on_mem (mget a n) (m, s) = Some (r, (m', s')) \<and> touches S m m' \<and> stream_ok k s' \<and>
      is_left s' \<le> is_left s \<and> (\<forall>b. r = Some b \<longrightarrow> load m' a n = Some b \<and> I m')"
    by (simp add: on_mem_def mget_def)
qed

lemma safe_put:
  assumes "{a..<a + length b} \<subseteq> D" "{a..<a + length b} \<subseteq> S"
  shows "safe D S I (on_mem (mput a b) :: (unit, 's dstate) call) (\<lambda>_ m. \<exists>m0. I m0 \<and> store m0 a b = Some m)"
proof (rule safeI)
  fix m k and s :: "'s pb_istream"
  assume a: "D \<subseteq> dom m" "I m" "stream_ok k s"
  then obtain m' where m': "store m a b = Some m'" using store_mapped assms(1) by (meson subset_trans)
  then show "\<exists>r m' s'. on_mem (mput a b) (m, s) = Some (r, (m', s')) \<and> touches S m m' \<and> stream_ok k s' \<and>
      is_left s' \<le> is_left s \<and> (\<forall>c. r = Some c \<longrightarrow> (\<exists>m0. I m0 \<and> store m0 a b = Some m'))"
    using a store_touches [OF m'] touches_mono [OF _ assms(2)] by (auto simp: on_mem_def mput_def)
qed

lemma safe_substream:
  fixes body :: "(unit, 's dstate) call"
  assumes "safe D S I body (\<lambda>_. Q)"
  shows "safe D S I (with_substream body check) (\<lambda>_. Q)"
proof (rule safeI)
  fix m k and s :: "'s pb_istream"
  assume a: "D \<subseteq> dom m" "I m" "stream_ok k s"
  let ?P = "\<lambda>x. \<exists>r m' s'. x = Some (r, (m', s')) \<and> touches S m m' \<and> stream_ok k s' \<and> is_left s' \<le> is_left s \<and>
      (\<forall>b. r = Some b \<longrightarrow> Q m')"
  show "?P (with_substream body check (m, s))"
    using a(3)
  proof (cases rule: make_substream_ok)
    case (1 s')
    then show ?thesis by (simp add: with_substream_def)
  next
    case (2 sub s1)
    from safeD [OF assms a(1,2) 2(2)] obtain r m' sub' where b: "body (m, sub) = Some (r, (m', sub'))" "touches S m m'"
      "stream_ok (k + is_left s1) sub'" "\<And>b. r = Some b \<Longrightarrow> Q m'" by metis
    show ?thesis
    proof (cases "check r sub'")
      case None
      from close_substream_ok [OF b(3) 2(3)] obtain c s' where "pb_close_string_substream sub' s1 = Some (c, s')"
        "stream_ok k s'" "is_left s' = is_left s1" by metis
      then show ?thesis using 2 b None by (cases c) (simp_all add: with_substream_def)
    next
      case (Some e)
      then show ?thesis using 2 b by (simp add: with_substream_def on_stream_def is_error_def)
    qed
  qed
qed

lemma safe_pre: "safe D S I p Q \<Longrightarrow> (\<And>m. J m \<Longrightarrow> I m) \<Longrightarrow> safe D S J p Q"
  by (erule safe_weaken) auto

lemma safe_post: "safe D S I p Q \<Longrightarrow> (\<And>a m. Q a m \<Longrightarrow> R a m) \<Longrightarrow> safe D S I p R"
  by (erule safe_weaken) auto

lemma safe_wider: "safe D S I p Q \<Longrightarrow> S \<subseteq> T \<Longrightarrow> safe D T I p Q"
  by (erule safe_weaken) auto

lemma safe_when: "(P \<Longrightarrow> safe D S I p Q) \<Longrightarrow> (\<And>m. I m \<Longrightarrow> P) \<Longrightarrow> safe D S I p Q"
  unfolding safe_def by blast

lemma safe_if_left:
  fixes p q r :: "('a, 's dstate) call"
  assumes p: "safe D S I p Q" and q: "safe D S I q Q" and r: "\<And>st. r st = (if is_left (snd st) = 0 then p st else q st)"
  shows "safe D S I r Q"
proof (rule safeI)
  fix m k and s :: "'s pb_istream"
  assume "D \<subseteq> dom m" "I m" "stream_ok k s"
  then show "\<exists>a m' s'. r (m, s) = Some (a, (m', s')) \<and> touches S m m' \<and> stream_ok k s' \<and> is_left s' \<le> is_left s \<and>
      (\<forall>b. a = Some b \<longrightarrow> Q b m')"
    using p [unfolded safe_def, rule_format, of m k s] q [unfolded safe_def, rule_format, of m k s] r [of "(m, s)"]
    by (cases "is_left s = 0") simp_all
qed

section \<open>Decoding one item\<close>

lemma safe_any: "safe D S I p Q \<Longrightarrow> safe D S I p (\<lambda>_ _. True)"
  by (erule safe_weaken) auto

lemma safe_seq:
  fixes p :: "('a, 's dstate) call"
  assumes "safe D S I p (\<lambda>_ _. True)" "\<And>a. safe D S (\<lambda>_. True) (f a) Q"
  shows "safe D S I (cbind p f) Q"
  using assms by (rule safe_bind)

lemma safe_put_any: "{a..<a + length b} \<subseteq> D \<Longrightarrow> {a..<a + length b} \<subseteq> S \<Longrightarrow>
    safe D S I (on_mem (mput a b) :: (unit, 's dstate) call) (\<lambda>_ _. True)"
  by (rule safe_any [OF safe_put])

lemma safe_store_clamped:
  assumes "{p..<p + k} \<subseteq> D" "{p..<p + k} \<subseteq> S"
  shows "safe D S I (store_clamped p k v b :: (unit, 's dstate) call) (\<lambda>_ _. True)"
  unfolding store_clamped_def
  by (rule safe_seq [OF safe_put_any]) (use assms in \<open>auto intro: safe_error safe_ret\<close>)

lemma safe_read_into:
  assumes "{a..<a + n} \<subseteq> D"
  shows "safe D {a..<a + n} I (read_into a n :: (unit, 's dstate) call) (\<lambda>_ _. True)"
  unfolding read_into_def
proof (rule safe_bind [OF safe_stream [OF takes_read]])
  fix b
  show "safe D {a..<a + n} (\<lambda>m. (a \<noteq> 0 \<longrightarrow> length b = n) \<and> I m)
      (if a = 0 then cret () else on_mem (mput a b) :: (unit, 's dstate) call) (\<lambda>_ _. True)"
  proof (cases "a \<noteq> 0 \<and> length b \<noteq> n")
    case True
    then show ?thesis by (auto simp: safe_def)
  qed (use assms in \<open>auto intro: safe_ret safe_put_any\<close>)
qed

lemma safe_varint_store:
  assumes "{p..<p + k} \<subseteq> D" "{p..<p + k} \<subseteq> S" "takes j (\<lambda>_. True) P"
  shows "safe D S I (cbind (on_stream P) (\<lambda>v. if k \<in> A then store_clamped p k (g v) (h v)
    else on_stream (is_error e)) :: (unit, 's dstate) call) (\<lambda>_ _. True)"
proof (rule safe_seq [OF safe_any [OF safe_stream [OF assms(3)]]])
  show "safe D S (\<lambda>_. True) (if k \<in> A then store_clamped p k (g v) (h v) else on_stream (is_error e) :: (unit, 's dstate) call)
      (\<lambda>_ _. True)" for v
    using safe_store_clamped [OF assms(1,2)] safe_error by (cases "k \<in> A") simp_all
qed

lemma safe_varints:
  assumes "{p..<p + fd_data_size f} \<subseteq> D" "{p..<p + fd_data_size f} \<subseteq> S"
  shows "safe D S I (pb_dec_varint f p :: (unit, 's dstate) call) (\<lambda>_ _. True)"
    "safe D S I (pb_dec_uvarint f p :: (unit, 's dstate) call) (\<lambda>_ _. True)"
    "safe D S I (pb_dec_svarint f p :: (unit, 's dstate) call) (\<lambda>_ _. True)"
  unfolding pb_dec_varint_def pb_dec_uvarint_def pb_dec_svarint_def Let_def
  by (rule safe_varint_store [OF assms takes_varint] safe_varint_store [OF assms takes_svarint])+

lemma safe_fixed:
  shows "{p..<p + 4} \<subseteq> D \<Longrightarrow> {p..<p + 4} \<subseteq> S \<Longrightarrow> safe D S I (pb_dec_fixed32 f p :: (unit, 's dstate) call) (\<lambda>_ _. True)"
    "{p..<p + 8} \<subseteq> D \<Longrightarrow> {p..<p + 8} \<subseteq> S \<Longrightarrow> safe D S I (pb_dec_fixed64 f p :: (unit, 's dstate) call) (\<lambda>_ _. True)"
  unfolding pb_dec_fixed32_def pb_dec_fixed64_def
  by (rule safe_seq [OF safe_any [OF safe_stream [OF takes_fixed32]]], simp add: safe_put_any)
    (rule safe_seq [OF safe_any [OF safe_stream [OF takes_fixed64]]], simp add: safe_put_any)

lemma safe_bytes:
  assumes "{p..<p + fd_data_size f} \<subseteq> D" "{p..<p + fd_data_size f} \<subseteq> S"
  shows "safe D S I (pb_dec_bytes f p :: (unit, 's dstate) call)
    (\<lambda>_ m. \<exists>b. load m p 4 = Some b \<and> le_val b + 4 \<le> fd_data_size f)"
  unfolding pb_dec_bytes_def Let_def
proof (rule safe_seq [OF safe_any [OF safe_stream [OF takes_varint32]]])
  fix n :: u32
  let ?ok = "\<lambda>m. \<exists>b. load m p 4 = Some b \<and> le_val b + 4 \<le> fd_data_size f"
  have n: "sz (PB_BYTES_ARRAY_T_ALLOCSIZE (unat n)) = unat n + 4"
    using unsigned_less [of n, where 'a = nat] by (intro trans [OF sz_id]) (simp_all add: PB_BYTES_ARRAY_T_ALLOCSIZE_def SIZE_LIMIT_def)
  have "safe D S I' (cbind (on_mem (mput p (le_bytes 4 (unat n)))) (\<lambda>_. read_into (p + 4) (unat n)) :: (unit, 's dstate) call) (\<lambda>_. ?ok)"
    if fits: "unat n + 4 \<le> fd_data_size f" for I'
  proof (rule safe_bind)
    show "safe D S I' (on_mem (mput p (le_bytes 4 (unat n))) :: (unit, 's dstate) call) (\<lambda>_ m. load m p 4 = Some (le_bytes 4 (unat n)))"
      by (rule safe_weaken [OF safe_put order_refl order_refl]) (use assms fits load_store in \<open>fastforce+\<close>)
    have "keeps {p + 4..<p + 4 + unat n} (\<lambda>m. load m p 4 = Some (le_bytes 4 (unat n)))"
      unfolding keeps_def by (metis (no_types, lifting) touches_def load_cong atLeastLessThan_iff not_le)
    moreover have "{p + 4..<p + 4 + unat n} \<subseteq> D" "{p + 4..<p + 4 + unat n} \<subseteq> S" using assms fits by auto
    ultimately have "safe D S (\<lambda>m. True \<and> load m p 4 = Some (le_bytes 4 (unat n)))
        (read_into (p + 4) (unat n) :: (unit, 's dstate) call) (\<lambda>_ m. True \<and> load m p 4 = Some (le_bytes 4 (unat n)))"
      using safe_weaken [OF safe_keep [OF safe_read_into], where S' = S and D' = D and J = "\<lambda>m. True \<and> load m p 4 = Some (le_bytes 4 (unat n))"]
      by (smt (verit) order_refl)
    moreover have "le_val (le_bytes 4 (unat n)) = unat n" using unsigned_less [of n, where 'a = nat] by (intro le_val_le_bytes) simp
    ultimately show "safe D S (\<lambda>m. load m p 4 = Some (le_bytes 4 (unat n))) (read_into (p + 4) (unat n) :: (unit, 's dstate) call) (\<lambda>_. ?ok)"
      using fits by (elim safe_weaken) auto
  qed
  then show "safe D S (\<lambda>_. True)
      (if PB_SIZE_MAX < unat n then on_stream (is_error Bytes_overflow)
       else if sz (PB_BYTES_ARRAY_T_ALLOCSIZE (unat n)) < unat n then on_stream (is_error Size_too_large)
       else if PB_ATYPE (fd_type f) = PB_ATYPE_POINTER then on_stream (is_error No_malloc_support)
       else if fd_data_size f < sz (PB_BYTES_ARRAY_T_ALLOCSIZE (unat n)) then on_stream (is_error Bytes_overflow)
       else cbind (on_mem (mput p (le_bytes 4 (unat n)))) (\<lambda>_. read_into (p + 4) (unat n)) :: (unit, 's dstate) call) (\<lambda>_. ?ok)"
    unfolding n by (auto intro: safe_error)
qed

lemma safe_string:
  assumes "{p..<p + fd_data_size f} \<subseteq> D" "{p..<p + fd_data_size f} \<subseteq> S"
  shows "safe D S I (pb_dec_string f p :: (unit, 's dstate) call) (\<lambda>_ m. \<exists>i<fd_data_size f. m (p + i) = Some 0)"
  unfolding pb_dec_string_def Let_def
proof (rule safe_seq [OF safe_any [OF safe_stream [OF takes_varint32]]])
  fix n :: u32
  let ?ok = "\<lambda>m. \<exists>i<fd_data_size f. m (p + i) = Some 0"
  define body :: "(unit, 's dstate) call" where "body = (\<lambda>st. case read_into p (unat n) st of None \<Rightarrow> None
     | Some (status, st) \<Rightarrow> (case on_mem (mput (p + unat n) [0]) st of None \<Rightarrow> None | Some (_, st) \<Rightarrow> Some (status, st)))"
  have "safe D S (\<lambda>_. True) body (\<lambda>_. ?ok)" if fits: "unat n + 1 \<le> fd_data_size f"
  proof (rule safeI)
    fix m :: pbmem and k and s :: "'s pb_istream"
    assume a: "D \<subseteq> dom m" "stream_ok k s"
    have D: "{p..<p + unat n} \<subseteq> D" "{p..<p + unat n} \<subseteq> S" using assms fits by auto
    from safe_read_into [OF D(1), of "\<lambda>_. True", unfolded safe_def, rule_format, of m k s] a obtain r m1 s1 where
      1: "read_into p (unat n) (m, s) = Some (r, (m1, s1))" "touches {p..<p + unat n} m m1" "stream_ok k s1"
      "is_left s1 \<le> is_left s" by blast
    then have "D \<subseteq> dom m1" using a(1) by (simp add: touches_dom)
    have "{p + unat n..<p + unat n + length [0 :: u8]} \<subseteq> dom m1"
      by (rule subset_trans [OF _ \<open>D \<subseteq> dom m1\<close>], rule subset_trans [OF _ assms(1)]) (use fits in auto)
    from store_mapped [OF this] obtain m2 where 2: "store m1 (p + unat n) [0] = Some m2" by blast
    then have "m2 (p + unat n) = Some 0" using store_nth [OF 2, of 0] by simp
    moreover have "touches S m1 m2" by (rule touches_mono [OF store_touches [OF 2]]) (use assms fits in auto)
    ultimately show "\<exists>r m' s'. body (m, s) = Some (r, (m', s')) \<and> touches S m m' \<and> stream_ok k s' \<and> is_left s' \<le> is_left s \<and>
        (\<forall>a. r = Some a \<longrightarrow> ?ok m')"
      using 1 2 fits touches_trans [OF touches_mono [OF 1(2) D(2)]] by (auto simp: body_def on_mem_def mput_def intro!: exI [of _ "unat n"])
  qed
  moreover have "unat (n + 1) = unat n + 1" if "\<not> n + 1 < n"
  proof -
    have "1 + n \<noteq> 0"
    proof
      assume "1 + n = 0"
      then have "n + 1 = 0" by (simp add: add.commute)
      with that have "n = 0" by (simp add: word_gt_0)
      with \<open>1 + n = 0\<close> show False by simp
    qed
    then show ?thesis using unatSuc [of n] by (simp add: add.commute)
  qed
  ultimately show "safe D S (\<lambda>_. True)
      (if n + 1 < n then on_stream (is_error Size_too_large)
       else if PB_ATYPE (fd_type f) = PB_ATYPE_POINTER then on_stream (is_error No_malloc_support)
       else if fd_data_size f < unat (n + 1) then on_stream (is_error String_overflow)
       else (\<lambda>st. case read_into p (unat n) st of None \<Rightarrow> None
         | Some (status, st) \<Rightarrow> (case on_mem (mput (p + unat n) [0]) st of None \<Rightarrow> None | Some (_, st) \<Rightarrow> Some (status, st))) :: (unit, 's dstate) call)
      (\<lambda>_. ?ok)"
    unfolding body_def [symmetric] by (auto intro: safe_error)
qed

lemma safe_fixed_length:
  assumes "{p..<p + fd_data_size f} \<subseteq> D" "{p..<p + fd_data_size f} \<subseteq> S"
  shows "safe D S I (pb_dec_fixed_length_bytes f p :: (unit, 's dstate) call) (\<lambda>_ _. True)"
  unfolding pb_dec_fixed_length_bytes_def
proof (rule safe_seq [OF safe_any [OF safe_stream [OF takes_varint32]]])
  fix n :: u32
  have "safe D S (\<lambda>_. True) (read_into p (fd_data_size f) :: (unit, 's dstate) call) (\<lambda>_ _. True)"
    by (rule safe_weaken [OF safe_read_into order_refl]) (use assms in auto)
  moreover have "safe D S (\<lambda>_. True) (on_mem (mput p (replicate (fd_data_size f) 0)) :: (unit, 's dstate) call) (\<lambda>_ _. True)"
    by (rule safe_put_any) (use assms in auto)
  ultimately show "safe D S (\<lambda>_. True)
      (if PB_SIZE_MAX < unat n then on_stream (is_error Bytes_overflow)
       else if n = 0 then on_mem (mput p (replicate (fd_data_size f) 0))
       else if unat n \<noteq> fd_data_size f then on_stream (is_error Incorrect_fixed_length_bytes_size)
       else read_into p (fd_data_size f) :: (unit, 's dstate) call) (\<lambda>_ _. True)"
    by (simp add: safe_error)
qed

text \<open>
  The decoder of a field on one item.  The decoders of nested messages are given by what they do; a
  message that is not an element of an array has its default values before it is decoded.
\<close>

lemma safe_item:
  fixes dec noinit :: "pb_field list \<Rightarrow> nat \<Rightarrow> (unit, 's dstate) call"
  assumes ok: "field_ok (wf_table d) f" "PB_ATYPE (fd_type f) = PB_ATYPE_STATIC" and D: "{p..<p + fd_data_size f} \<subseteq> D"
    and dec: "\<And>g. wf_table d (fd_data_size f) g \<Longrightarrow> safe D {p..<p + fd_data_size f} (\<lambda>_. True) (dec g p) (\<lambda>_ m. typed d m g p)"
    and noinit: "\<And>g. wf_table d (fd_data_size f) g \<Longrightarrow>
      safe D {p..<p + fd_data_size f} (\<lambda>m. typed d m g p) (noinit g p) (\<lambda>_ m. typed d m g p)"
  shows "safe D {p..<p + fd_data_size f}
    (\<lambda>m. PB_LTYPE (fd_type f) = PB_LTYPE_SUBMESSAGE \<and> PB_HTYPE (fd_type f) \<noteq> PB_HTYPE_REPEATED \<longrightarrow> typed_item (typed d m) m f p)
    (PB_DECODERS dec noinit f p) (\<lambda>_ m. typed_item (typed d m) m f p)"
    (is "safe D ?S ?I _ (\<lambda>_. ?Q)")
proof -
  let ?t = "PB_LTYPE (fd_type f)"
  have plain: "safe D ?S ?I q (\<lambda>_ _. True) \<Longrightarrow> ?t \<notin> {5, 6, 7} \<Longrightarrow> safe D ?S ?I q (\<lambda>_. ?Q)" for q :: "(unit, 's dstate) call"
    by (erule safe_weaken) (auto simp: typed_item_def)
  show ?thesis
  proof (rule ltype_cases [OF ok(1)], goal_cases)
    case 1
    then show ?thesis using plain [OF safe_varints(1) [OF D order_refl]] by (simp add: PB_DECODERS_def)
  next
    case 2
    then show ?thesis using plain [OF safe_varints(2) [OF D order_refl]] by (simp add: PB_DECODERS_def)
  next
    case 3
    then show ?thesis using plain [OF safe_varints(3) [OF D order_refl]] by (simp add: PB_DECODERS_def)
  next
    case 4
    then have "fd_data_size f = 4" using ok by (simp add: field_ok_def Let_def)
    then show ?thesis using 4 D plain [OF safe_fixed(1)] by (simp add: PB_DECODERS_def)
  next
    case 5
    then have "fd_data_size f = 8" using ok by (simp add: field_ok_def Let_def)
    then show ?thesis using 5 D plain [OF safe_fixed(2)] by (simp add: PB_DECODERS_def)
  next
    case 6
    show ?thesis using 6
      by (simp add: PB_DECODERS_def) (rule safe_weaken [OF safe_bytes [OF D order_refl] order_refl order_refl], assumption, simp add: typed_item_def)
  next
    case 7
    show ?thesis using 7
      by (simp add: PB_DECODERS_def) (rule safe_weaken [OF safe_string [OF D order_refl] order_refl order_refl], assumption, simp add: typed_item_def)
  next
    case 8
    from 8 ok obtain g where g: "fd_ptr f = Fields g" "wf_table d (fd_data_size f) g"
      by (auto simp: field_ok_def Let_def split: pb_ptr.splits)
    have Q: "?Q m = typed d m g p" for m using 8 g by (simp add: typed_item_def)
    have "safe D ?S ?I (if PB_HTYPE (fd_type f) = PB_HTYPE_REPEATED then dec g p else noinit g p) (\<lambda>_. ?Q)"
    proof (cases "PB_HTYPE (fd_type f) = PB_HTYPE_REPEATED")
      case True
      then show ?thesis using safe_weaken [OF dec [OF g(2)], of D ?S ?I "\<lambda>_. ?Q"] by (simp add: Q)
    next
      case False
      then show ?thesis using safe_weaken [OF noinit [OF g(2)], of D ?S ?I "\<lambda>_. ?Q"] 8 by (simp add: Q)
    qed
    from safe_substream [OF this] show ?thesis using 8 g by (simp add: PB_DECODERS_def pb_dec_submessage_def)
  next
    case 9
    then show ?thesis using plain [OF safe_fixed_length [OF D order_refl]] by (simp add: PB_DECODERS_def)
  qed
qed

section \<open>Writing one field keeps the types of the others\<close>

lemma load_some: "load m a n = Some b \<Longrightarrow> touches S m m' \<Longrightarrow> S \<inter> {a..<a + n} = {} \<Longrightarrow> load m' a n = Some b"
  by (metis agree_load agree_touches order_refl)

abbreviation (input) span :: "pb_field \<Rightarrow> nat \<Rightarrow> nat \<Rightarrow> nat set" where
  "span f p q \<equiv> {p..<p + field_extent f} \<union> {q..<q + slot_size f}"

lemma typed_field_agree:
  assumes "field_ok (wf_table d) g" "agree p (field_extent g) m m'" "agree q (slot_size g) m m'"
  shows "typed_field (typed d m) m (g, p, q) = typed_field (typed d m') m' (g, p, q)"
  by (rule typed_field_cong [OF assms]) (rule typed_cong)

lemma apart_disjoint: "apart p k q l \<Longrightarrow> {p..<p + k} \<inter> {q..<q + l} = {}"
  by (auto simp: apart_def)

lemma typed_field_frame:
  assumes ap: "fields_apart (f, p, q) (g, p', q')" and ok: "field_ok (wf_table d) g"
    and t: "touches (span f p q) m m'" and ty: "typed_field (typed d m) m (g, p', q')"
    and sel: "PB_HTYPE (fd_type f) = PB_HTYPE_ONEOF \<Longrightarrow> \<exists>b. load m' q 4 = Some b \<and> le_val b \<in> {0, unat (fd_tag f)}"
  shows "typed_field (typed d m') m' (g, p', q')"
proof (cases "PB_HTYPE (fd_type f) = PB_HTYPE_ONEOF \<and> PB_HTYPE (fd_type g) = PB_HTYPE_ONEOF \<and> q = q'")
  case True
  then have "fd_tag f \<noteq> fd_tag g" "fd_tag g \<noteq> 0" using ap ok by (auto simp: fields_apart_def field_ok_def Let_def)
  then have "le_val b \<noteq> unat (fd_tag g)" if "le_val b \<in> {0, unat (fd_tag f)}" for b
    using that word_unat_eq_iff [of "fd_tag f" "fd_tag g"] by (auto simp: unat_eq_zero)
  then show ?thesis using True sel by (auto simp: typed_field_def)
next
  case False
  then have a: "apart p (field_extent f) p' (field_extent g)" "apart q (slot_size f) q' (slot_size g)"
    "apart p (field_extent f) q' (slot_size g)" "apart q (slot_size f) p' (field_extent g)"
    using ap by (auto simp: fields_apart_def apart_sym)
  have "agree p' (field_extent g) m m'" "agree q' (slot_size g) m m'"
    by (rule agree_touches [OF t], use a [THEN apart_disjoint] in blast)+
  from typed_field_agree [OF ok this] ty show ?thesis by simp
qed

lemma layout_size:
  assumes "i < length fds" "layout fds a ! i = (f, p, q)" "PB_HTYPE (fd_type f) \<noteq> PB_HTYPE_ONEOF"
  shows "q = size_addr p f"
proof (cases i)
  case 0
  then show ?thesis using assms by (cases fds) (auto simp: layout_from_0)
next
  case (Suc j)
  then have "f = fds ! Suc j" using fst_layout [OF assms(1), of a] assms(2) by simp
  then show ?thesis using layout_Suc [of j fds a] assms Suc
    by (cases "layout fds a ! j") (auto simp: in_union_def Let_def)
qed

lemma PB_HTYPE_cases:
  obtains "PB_HTYPE t = PB_HTYPE_REQUIRED" | "PB_HTYPE t = PB_HTYPE_OPTIONAL" | "PB_HTYPE t = PB_HTYPE_REPEATED"
  | "PB_HTYPE t = PB_HTYPE_ONEOF"
proof -
  have "list_all (\<lambda>n. PB_HTYPE (word_of_nat n) \<in> {0, 0x10, 0x20, 0x30}) [0..<256]" by code_simp
  moreover have "unat t < 256" using unsigned_less [of t, where 'a = nat] by simp
  ultimately have "PB_HTYPE (word_of_nat (unat t)) \<in> {0, 0x10, 0x20, 0x30}"
    unfolding list_all_iff by (metis atLeastLessThan_iff le0 set_upt)
  then show thesis using that by auto
qed

end
