(* ===== verification/Pb_Default.thy ===== *)
theory Pb_Default
  imports Pb_Type
begin

text \<open>
  \<open>pb_message_set_to_defaults\<close> of \<^verbatim>\<open>pb_decode.c\<close> makes a message of the type of its table, from any memory.
\<close>

text \<open>Calls on memory only, which cannot fail.\<close>

definition sets :: "nat set \<Rightarrow> (unit, pbmem) call \<Rightarrow> (pbmem \<Rightarrow> bool) \<Rightarrow> pbmem \<Rightarrow> bool" where
  "sets S p Q m \<longleftrightarrow> (\<exists>m'. p m = Some (Some (), m') \<and> touches S m m' \<and> Q m')"

lemma setsD:
  assumes "sets S p Q m"
  obtains m' where "p m = Some (Some (), m')" "touches S m m'" "dom m' = dom m" "Q m'"
  using assms touches_dom unfolding sets_def by blast

lemma sets_mput:
  "{a..<a + length b} \<subseteq> dom m \<Longrightarrow> {a..<a + length b} \<subseteq> S \<Longrightarrow> sets S (mput a b) (\<lambda>m'. store m a b = Some m') m"
  using store_mapped [of a b m] store_touches [of m a b] touches_mono
  unfolding sets_def mput_def by fastforce

lemma sets_seq:
  assumes "sets S p Q m" "\<And>m'. dom m' = dom m \<Longrightarrow> Q m' \<Longrightarrow> sets S q R m'"
  shows "sets S (cbind p (\<lambda>_. q)) R m"
proof -
  obtain m1 where 1: "p m = Some (Some (), m1)" "touches S m m1" "dom m1 = dom m" "Q m1" by (rule setsD [OF assms(1)])
  obtain m2 where 2: "q m1 = Some (Some (), m2)" "touches S m1 m2" "dom m2 = dom m1" "R m2"
    by (rule setsD [OF assms(2) [OF 1(3,4)]])
  then show ?thesis using 1 touches_trans unfolding sets_def by (intro exI [of _ m2]) auto
qed

lemma sets_ret: "Q m \<Longrightarrow> sets S (cret ()) Q m"
  by (simp add: sets_def cret_def)

lemma sets_weaken: "sets S p Q m \<Longrightarrow> S \<subseteq> T \<Longrightarrow> (\<And>m'. Q m' \<Longrightarrow> R m') \<Longrightarrow> sets T p R m"
  unfolding sets_def using touches_mono by blast

lemma typed_item_zero:
  assumes "field_ok (wf_table d) f" "PB_ATYPE (fd_type f) = PB_ATYPE_STATIC" "fd_ptr f = Null"
    and "store m p (replicate (fd_data_size f) 0) = Some m'"
  shows "typed_item sub m' f p"
proof -
  have z: "m' (p + i) = Some 0" if "i < fd_data_size f" for i using store_nth [OF assms(4), of i] that by simp
  have "load m' p 4 = Some [0, 0, 0, 0]" if "4 \<le> fd_data_size f"
    using z [of 0] z [of 1] z [of 2] z [of 3] that by (simp add: load_def numeral_eq_Suc)
  then have b: "PB_LTYPE (fd_type f) = PB_LTYPE_BYTES \<Longrightarrow> \<exists>b. load m' p 4 = Some b \<and> le_val b + 4 \<le> fd_data_size f"
    using assms(1,2) by (simp add: field_ok_def Let_def)
  have s: "PB_LTYPE (fd_type f) = PB_LTYPE_STRING \<Longrightarrow> \<exists>i<fd_data_size f. m' (p + i) = Some 0"
    using assms(1,2) z [of 0] by (intro exI [of _ 0]) (simp add: field_ok_def Let_def)
  have "PB_LTYPE (fd_type f) \<noteq> PB_LTYPE_SUBMESSAGE" using assms(1-3) by (simp add: field_ok_def Let_def)
  with b s show ?thesis by (simp add: typed_item_def Let_def)
qed

lemma typed_item_default:
  assumes "field_ok (wf_table d) f" "PB_ATYPE (fd_type f) = PB_ATYPE_STATIC" "fd_ptr f = Default b"
    and "store m p (take (fd_data_size f) b) = Some m'"
  shows "typed_item sub m' f p"
proof -
  have len: "fd_data_size f \<le> length b" using assms(1-3) by (simp add: field_ok_def Let_def)
  have z: "m' (p + i) = Some (b ! i)" if "i < fd_data_size f" for i using store_nth [OF assms(4), of i] that len by simp
  have "load m' p 4 = Some (take 4 b)" if "4 \<le> fd_data_size f"
  proof -
    have "load m' p 4 = Some [b ! 0, b ! 1, b ! 2, b ! 3]"
      using z [of 0] z [of 1] z [of 2] z [of 3] that by (simp add: load_def numeral_eq_Suc)
    also have "[b ! 0, b ! 1, b ! 2, b ! 3] = take 4 b"
      using that len by (intro nth_equalityI) (auto simp: less_Suc_eq numeral_eq_Suc)
    finally show ?thesis .
  qed
  moreover have "\<exists>i<fd_data_size f. m' (p + i) = Some 0" if "0 \<in> set (take (fd_data_size f) b)"
    using that z len by (auto simp: in_set_conv_nth)
  ultimately show ?thesis using assms(1-3)
    by (auto simp: typed_item_def field_ok_def Let_def)
qed

text \<open>What \<open>pb_field_set_to_default\<close> leaves in one field.\<close>

lemma sets_default_field:
  assumes ok: "field_ok (wf_table d) f" and ap: "apart p (field_extent f) q (slot_size f)"
    and slot: "slot_size f = 1 \<Longrightarrow> q \<noteq> p" "PB_HTYPE (fd_type f) \<noteq> PB_HTYPE_ONEOF \<Longrightarrow> q = size_addr p f"
    and m: "span f p q \<subseteq> dom m"
    and iter: "it_field iter = f" "pData iter = p" "pSize iter = q"
    and nested: "\<And>g m. wf_table d (fd_data_size f) g \<Longrightarrow> {p..<p + fd_data_size f} \<subseteq> dom m \<Longrightarrow>
      sets {p..<p + fd_data_size f} (nested g p) (\<lambda>m. typed d m g p) m"
  shows "sets (span f p q) (pb_field_set_to_default nested ext iter)
    (\<lambda>m. typed_field (typed d m) m (f, p, q) \<and> (PB_HTYPE (fd_type f) = PB_HTYPE_ONEOF \<longrightarrow> load m q 4 = Some (le_bytes 4 0))) m"
    (is "sets ?S _ ?Q m")
proof -
  let ?h = "PB_HTYPE (fd_type f)" and ?at = "PB_ATYPE (fd_type f)" and ?t = "PB_LTYPE (fd_type f)" and ?n = "fd_data_size f"
  have zero: "le_val (le_bytes 4 0) = 0" by (simp add: le_val_le_bytes)
  have counter: "sets ?S (mput q (le_bytes 4 0)) (\<lambda>m'. load m' q 4 = Some (le_bytes 4 0) \<and> touches {q..<q + 4} m m') m"
    if "?h = PB_HTYPE_REPEATED \<or> ?h = PB_HTYPE_ONEOF" "span f p q \<subseteq> dom m" for m
  proof (rule sets_weaken [OF sets_mput])
    show "store m q (le_bytes 4 0) = Some m' \<Longrightarrow> load m' q 4 = Some (le_bytes 4 0) \<and> touches {q..<q + 4} m m'" for m'
      using load_store [of m q "le_bytes 4 0" m'] store_touches [of m q "le_bytes 4 0" m'] by simp
  qed (use that in \<open>auto simp: slot_size_def\<close>)
  have "?at = PB_ATYPE_STATIC \<or> ?at = PB_ATYPE_POINTER" "?t \<noteq> PB_LTYPE_EXTENSION" using ok by (auto simp: field_ok_def Let_def)
  then consider "?at = PB_ATYPE_POINTER" "?t \<noteq> PB_LTYPE_EXTENSION"
    | "?at = PB_ATYPE_STATIC" "?h = PB_HTYPE_REPEATED \<or> ?h = PB_HTYPE_ONEOF" "?t \<noteq> PB_LTYPE_EXTENSION"
    | "?at = PB_ATYPE_STATIC" "?h \<noteq> PB_HTYPE_REPEATED" "?h \<noteq> PB_HTYPE_ONEOF" "?t \<noteq> PB_LTYPE_EXTENSION"
    by blast
  then show ?thesis
  proof cases
    case 1
    have ext: "field_extent f = 8" using 1 by (simp add: field_extent_def)
    have "sets ?S (mput p (le_bytes 8 0)) (\<lambda>m. load m p 8 = Some (le_bytes 8 0)) m"
    proof (rule sets_weaken [OF sets_mput])
      show "store m p (le_bytes 8 0) = Some m' \<Longrightarrow> load m' p 8 = Some (le_bytes 8 0)" for m'
        using load_store [of m p "le_bytes 8 0" m'] by simp
    qed (use m ext in auto)
    then have "sets ?S (cbind (mput p (le_bytes 8 0)) (\<lambda>_.
        if ?h = PB_HTYPE_REPEATED \<or> ?h = PB_HTYPE_ONEOF then mput q (le_bytes 4 0) else cret ())) ?Q m"
    proof (rule sets_seq)
      fix m'
      assume m': "dom m' = dom m" "load m' p 8 = Some (le_bytes 8 0)"
      show "sets ?S (if ?h = PB_HTYPE_REPEATED \<or> ?h = PB_HTYPE_ONEOF then mput q (le_bytes 4 0) else cret ()) ?Q m'"
      proof (cases "?h = PB_HTYPE_REPEATED \<or> ?h = PB_HTYPE_ONEOF")
        case True
        then have "{q..<q + 4} \<inter> {p..<p + 8} = {}" using ap apart_disjoint ext by (fastforce simp: slot_size_def)
        then have l: "touches {q..<q + 4} m' m2 \<Longrightarrow> load m2 p 8 = Some (le_bytes 8 0)" for m2
          using load_some [OF m'(2)] by blast
        have "sets ?S (mput q (le_bytes 4 0)) ?Q m'"
          by (rule sets_weaken [OF counter [OF True] order_refl])
            (use m m' 1 ok l in \<open>auto simp: typed_field_def zero field_ok_def Let_def unat_eq_zero\<close>)
        then show ?thesis using True by simp
      next
        case False
        then show ?thesis using m' 1 by (auto simp: typed_field_def intro: sets_ret)
      qed
    qed
    moreover have "pb_field_set_to_default nested ext iter = cbind (mput p (le_bytes 8 0)) (\<lambda>_.
        if ?h = PB_HTYPE_REPEATED \<or> ?h = PB_HTYPE_ONEOF then mput q (le_bytes 4 0) else cret ())"
      using 1 iter by (simp add: pb_field_set_to_default_def Let_def)
    ultimately show ?thesis by (simp only:)
  next
    case 2
    have "sets ?S (mput q (le_bytes 4 0)) ?Q m"
      by (rule sets_weaken [OF counter [OF 2(2) m] order_refl])
        (use 2 ok in \<open>auto simp: typed_field_def zero field_ok_def Let_def unat_eq_zero\<close>)
    then have "sets ?S (cbind (mput q (le_bytes 4 0)) (\<lambda>_. cret ())) ?Q m" by (rule sets_seq) (rule sets_ret)
    moreover have "pb_field_set_to_default nested ext iter = cbind (mput q (le_bytes 4 0)) (\<lambda>_. cret ())"
      using 2 iter by (auto simp: pb_field_set_to_default_def Let_def cbind_assoc)
    ultimately show ?thesis by (simp only:)
  next
    case 3
    have ext: "field_extent f = ?n" using 3 by (simp add: field_extent_def)
    have Q: "?Q m' = typed_item (typed d m') m' f p" for m' using 3 by (simp add: typed_field_def)
    define init where "init = (if ?t = PB_LTYPE_SUBMESSAGE then
               (case fd_ptr f of Fields fds \<Rightarrow> nested fds p | _ \<Rightarrow> (\<lambda>_. None))
             else
               (case fd_ptr f of
                  Null \<Rightarrow> mput p (replicate ?n 0)
                | Default b \<Rightarrow> if ?n \<le> length b then mput p (take ?n b) else (\<lambda>_. None)
                | Fields _ \<Rightarrow> (\<lambda>_. None)))"
    have init: "sets ?S init ?Q m" if "span f p q \<subseteq> dom m" for m
    proof (cases "fd_ptr f")
      case Null
      have "sets ?S (mput p (replicate ?n 0)) ?Q m" unfolding Q
        by (rule sets_weaken [OF sets_mput order_refl typed_item_zero [OF ok 3(1) Null]]) (use that ext in auto)
      moreover have "?t \<noteq> PB_LTYPE_SUBMESSAGE" using ok 3 Null by (auto simp: field_ok_def Let_def)
      ultimately show ?thesis using Null by (simp add: init_def)
    next
      case (Default b)
      have b: "?t \<noteq> PB_LTYPE_SUBMESSAGE" "?n \<le> length b" using ok 3 Default by (auto simp: field_ok_def Let_def)
      have "sets ?S (mput p (take ?n b)) ?Q m" unfolding Q
        by (rule sets_weaken [OF sets_mput order_refl typed_item_default [OF ok 3(1) Default]]) (use that ext b in auto)
      then show ?thesis using Default b by (simp add: init_def)
    next
      case (Fields g)
      have g: "?t = PB_LTYPE_SUBMESSAGE" "wf_table d ?n g" using ok 3 Fields by (auto simp: field_ok_def Let_def)
      have "sets ?S (nested g p) ?Q m"
        by (rule sets_weaken [OF nested [OF g(2)]]) (use that ext g Fields 3 in \<open>auto simp: typed_field_def typed_item_def\<close>)
      then show ?thesis using Fields g by (simp add: init_def)
    qed
    have "sets ?S (cbind (if ?h = PB_HTYPE_OPTIONAL \<and> q \<noteq> p then mput q [0] else cret ()) (\<lambda>_. init)) ?Q m"
    proof (rule sets_seq [where Q = "\<lambda>_. True"])
      have sub: "{q..<q + length [0 :: u8]} \<subseteq> span f p q" if "?h = PB_HTYPE_OPTIONAL \<and> q \<noteq> p"
        using 3 that slot(2) by (auto simp: slot_size_def size_addr_def)
      show "sets ?S (if ?h = PB_HTYPE_OPTIONAL \<and> q \<noteq> p then mput q [0] else cret ()) (\<lambda>_. True) m"
      proof (cases "?h = PB_HTYPE_OPTIONAL \<and> q \<noteq> p")
        case True
        have "sets ?S (mput q [0]) (\<lambda>_. True) m"
          by (rule sets_weaken [OF sets_mput [OF subset_trans [OF sub [OF True] m] sub [OF True]]]) simp_all
        with True show ?thesis by simp
      qed (auto intro: sets_ret)
    qed (use init m in simp)
    moreover have "pb_field_set_to_default nested ext iter =
        cbind (if ?h = PB_HTYPE_OPTIONAL \<and> q \<noteq> p then mput q [0] else cret ()) (\<lambda>_. init)"
      unfolding pb_field_set_to_default_def Let_def iter init_def using 3 by (simp add: cbind_assoc)
    ultimately show ?thesis by simp
  qed
qed

section \<open>A whole message\<close>

lemma iter_begin_Nil: "\<not> fst (pb_field_iter_begin [] a)"
  by (simp add: pb_field_iter_begin_def field_at_def PB_LAST_FIELD_def Let_def)

lemma typed_nth: "typed (Suc d) m fds a \<longleftrightarrow> (\<forall>i<length fds. typed_field (typed d m) m (layout fds a ! i))"
  by (auto simp: in_set_conv_nth all_set_conv_all_nth)

text \<open>The addresses of one field are addresses of the struct.\<close>

lemma wf_span:
  assumes "wf_table (Suc d) n fds" "i < length fds"
  obtains f p q where "layout fds a ! i = (f, p, q)" "field_at fds i = f" "field_ok (wf_table d) f" "span f p q \<subseteq> {a..<a + n}"
    "apart p (field_extent f) q (slot_size f)" "slot_size f = 1 \<longrightarrow> q \<noteq> p" "PB_HTYPE (fd_type f) \<noteq> PB_HTYPE_ONEOF \<longrightarrow> q = size_addr p f"
proof -
  from wf_field [OF assms, of a] obtain p q where f: "layout fds a ! i = (fds ! i, p, q)" "field_ok (wf_table d) (fds ! i)"
    "a \<le> p" "p + field_extent (fds ! i) \<le> a + n" "a \<le> q" "q + slot_size (fds ! i) \<le> a + n"
    "apart p (field_extent (fds ! i)) q (slot_size (fds ! i))" "slot_size (fds ! i) = 1 \<Longrightarrow> q \<noteq> p" by metis
  have "span (fds ! i) p q \<subseteq> {a..<a + n}" using f(3-6) by auto
  then show thesis using that [OF f(1) _ f(2)] f(7,8) layout_size [OF assms(2) f(1)] assms(2) by (simp add: field_at_def)
qed

text \<open>One field was written, the others are as they were.\<close>

lemma typed_others:
  assumes wf: "wf_table (Suc d) n fds" and i: "i < length fds" "layout fds a ! i = (f, p, q)"
    and t: "touches (span f p q) m m'" and j: "j < length fds" "j \<noteq> i" "typed_field (typed d m) m (layout fds a ! j)"
    and sel: "PB_HTYPE (fd_type f) = PB_HTYPE_ONEOF \<Longrightarrow> \<exists>b. load m' q 4 = Some b \<and> le_val b \<in> {0, unat (fd_tag f)}"
  shows "typed_field (typed d m') m' (layout fds a ! j)"
proof -
  obtain g p' q' where L: "layout fds a ! j = (g, p', q')" "field_ok (wf_table d) g" by (rule wf_span [OF wf j(1)])
  have "fields_apart (f, p, q) (g, p', q')" using wf_apart [OF wf i(1) j(1)] j(2) i(2) L by metis
  from typed_field_frame [OF this L(2) t _ sel] j(3) show ?thesis by (simp add: L(1))
qed

lemma set_to_default_Suc:
  "set_to_default (Suc d) descr = pb_field_set_to_default (pb_message_set_to_defaults d descr)
     (\<lambda>ext. cbind (mput (ext + 24) [0]) (\<lambda>_. cbind (iter_from_extension descr ext) (set_to_default d descr)))"
  by (intro ext) (simp add: pb_message_set_to_defaults_def [abs_def])

lemma sets_defaults:
  assumes "wf_table d n fds" "{a..<a + n} \<subseteq> dom m"
  shows "sets {a..<a + n} (pb_message_set_to_defaults d descr fds a) (\<lambda>m. typed d m fds a) m"
  using assms
proof (induction d arbitrary: n fds a m)
  case (Suc d)
  note wf = Suc.prems(1) and fds = wf_tags [OF Suc.prems(1)]
  show ?case
  proof (cases "fds = []")
    case True
    then show ?thesis by (subst pb_message_set_to_defaults_def) (simp add: iter_begin_Nil sets_ret)
  next
    case False
    let ?I = "\<lambda>i m'. touches {a..<a + n} m m' \<and> (\<forall>j<i. typed_field (typed d m') m' (layout fds a ! j))"
    have "\<exists>r m'. iter_each (set_to_default (Suc d) descr) (iter_at fds a 0) m = Some (r, m') \<and> (r = None \<longrightarrow> False) \<and>
        (r = Some () \<longrightarrow> ?I (length fds) m')"
    proof (rule iter_each_inv [OF fds])
      fix i m1
      assume i: "i < length fds" and I: "?I i m1"
      obtain f p q where f: "layout fds a ! i = (f, p, q)" "field_at fds i = f" "field_ok (wf_table d) f" "span f p q \<subseteq> {a..<a + n}"
        "apart p (field_extent f) q (slot_size f)" "slot_size f = 1 \<longrightarrow> q \<noteq> p" "PB_HTYPE (fd_type f) \<noteq> PB_HTYPE_ONEOF \<longrightarrow> q = size_addr p f"
        by (rule wf_span [OF wf i, of a])
      have "span f p q \<subseteq> dom m1" using f(4) Suc.prems(2) I touches_dom by blast
      from sets_default_field [OF f(3,5) f(6,7) [rule_format] this, of "iter_at fds a i" "pb_message_set_to_defaults d descr"
          "\<lambda>ext. cbind (mput (ext + 24) [0]) (\<lambda>_. cbind (iter_from_extension descr ext) (set_to_default d descr))"] Suc.IH f(1,2)
      obtain m2 where m2: "set_to_default (Suc d) descr (iter_at fds a i) m1 = Some (Some (), m2)" "touches (span f p q) m1 m2"
        "typed_field (typed d m2) m2 (f, p, q)" "PB_HTYPE (fd_type f) = PB_HTYPE_ONEOF \<Longrightarrow> load m2 q 4 = Some (le_bytes 4 0)"
        unfolding set_to_default_Suc sets_def by auto
      have "typed_field (typed d m2) m2 (layout fds a ! j)" if "j < Suc i" for j
      proof (cases "j = i")
        case True
        then show ?thesis using m2 f by simp
      next
        case False
        then have "j < length fds" "typed_field (typed d m1) m1 (layout fds a ! j)" using that i I by auto
        from typed_others [OF wf i f(1) m2(2) this(1) False this(2)] m2(4) show ?thesis by (auto simp: le_val_le_bytes)
      qed
      moreover have "touches {a..<a + n} m m2" using I touches_mono [OF m2(2) f(4)] touches_trans by blast
      ultimately show "\<exists>r m'. set_to_default (Suc d) descr (iter_at fds a i) m1 = Some (r, m') \<and> (r = None \<longrightarrow> False) \<and>
          (r = Some () \<longrightarrow> ?I (Suc i) m')" using m2(1) by blast
    qed (use False in simp_all)
    then show ?thesis using False
      by (subst pb_message_set_to_defaults_def) (auto simp: iter_begin [OF fds False] sets_def typed_nth simp del: typed.simps)
  qed
qed simp

end
