(* ===== verification/Pb_Safe.thy ===== *)
theory Pb_Safe
  imports Pb_Default "HOL-Library.Code_Target_Nat"
begin

text \<open>
  Type safety of the decoder: on any stream \<open>pb_decode\<close> returns, writes only inside the struct, and
  what it leaves there after a success is a message of the type the table describes.
\<close>

section \<open>Decoding one field\<close>

lemma safe_on_mem:
  fixes p :: "(unit, pbmem) call"
  assumes "\<And>m. D \<subseteq> dom m \<Longrightarrow> I m \<Longrightarrow> sets S p Q m"
  shows "safe D S I (on_mem p :: (unit, 's dstate) call) (\<lambda>_. Q)"
proof (rule safeI)
  fix m k and s :: "'s pb_istream"
  assume "D \<subseteq> dom m" "I m" "stream_ok k s"
  moreover from assms [OF this(1,2)] obtain m' where "p m = Some (Some (), m')" "touches S m m'" "Q m'" unfolding sets_def by blast
  ultimately show "\<exists>r m' s'. on_mem p (m, s) = Some (r, (m', s')) \<and> touches S m m' \<and> stream_ok k s' \<and> is_left s' \<le> is_left s \<and>
      (\<forall>a. r = Some a \<longrightarrow> Q m')"
    by (simp add: on_mem_def)
qed

lemma keeps_load: "S \<inter> {a..<a + n} = {} \<Longrightarrow> keeps S (\<lambda>m. load m a n = Some b)"
  unfolding keeps_def using load_some by blast

lemma keeps_item:
  assumes "field_ok (wf_table d) f" "PB_ATYPE (fd_type f) = PB_ATYPE_STATIC" "S \<inter> {p..<p + fd_data_size f} = {}"
  shows "keeps S (\<lambda>m. typed_item (typed d m) m f p)"
  unfolding keeps_def
proof (intro allI impI)
  fix m m'
  assume "touches S m m'" "typed_item (typed d m) m f p"
  moreover from this(1) assms(3) have "agree p (fd_data_size f) m m'" by (rule agree_touches)
  moreover from typed_item_cong [OF assms(1,2) this, of "typed d m" "typed d m'"] typed_cong [OF _ this]
  have "typed_item (typed d m) m f p = typed_item (typed d m') m' f p" by blast
  ultimately show "typed_item (typed d m') m' f p" by simp
qed

text \<open>The elements of an array that are in use.\<close>

definition items :: "nat \<Rightarrow> pb_field \<Rightarrow> nat \<Rightarrow> nat \<Rightarrow> pbmem \<Rightarrow> bool" where
  "items d f p c m \<longleftrightarrow> (\<forall>k<c. typed_item (typed d m) m f (p + fd_data_size f * k))"

lemma keeps_items:
  assumes "field_ok (wf_table d) f" "PB_ATYPE (fd_type f) = PB_ATYPE_STATIC" "S \<inter> {p..<p + fd_data_size f * c} = {}"
  shows "keeps S (items d f p c)"
proof -
  have "keeps S (\<lambda>m. typed_item (typed d m) m f (p + fd_data_size f * k))" if "k < c" for k
  proof (rule keeps_item [OF assms(1,2)])
    have "fd_data_size f * (k + 1) \<le> fd_data_size f * c" using that by (intro mult_le_mono2) simp
    then have "{p + fd_data_size f * k..<p + fd_data_size f * k + fd_data_size f} \<subseteq> {p..<p + fd_data_size f * c}" by auto
    then show "S \<inter> {p + fd_data_size f * k..<p + fd_data_size f * k + fd_data_size f} = {}" using assms(3) by blast
  qed
  then show ?thesis unfolding keeps_def items_def by blast
qed

lemma items_Suc: "items d f p (Suc c) m \<longleftrightarrow> items d f p c m \<and> typed_item (typed d m) m f (p + fd_data_size f * c)"
  by (auto simp: items_def less_Suc_eq)

text \<open>A field whose elements are decoded by \<open>func\<close>.\<close>

definition decodes :: "nat \<Rightarrow> nat set \<Rightarrow> pb_field \<Rightarrow> nat \<Rightarrow> (nat \<Rightarrow> (unit, 's dstate) call) \<Rightarrow> bool" where
  "decodes d D f p func \<longleftrightarrow>
     (\<forall>x. p \<le> x \<and> x + fd_data_size f \<le> p + field_extent f \<longrightarrow>
        safe D {x..<x + fd_data_size f}
          (\<lambda>m. PB_LTYPE (fd_type f) = PB_LTYPE_SUBMESSAGE \<and> PB_HTYPE (fd_type f) \<noteq> PB_HTYPE_REPEATED \<longrightarrow>
             typed_item (typed d m) m f x)
          (func x) (\<lambda>_ m. typed_item (typed d m) m f x))"

lemma le_val_4: "n < 2 ^ 32 \<Longrightarrow> le_val (le_bytes 4 n) = n"
  by (rule le_val_le_bytes) simp

lemma safe_set_counter:
  assumes "{q..<q + 4} \<subseteq> D" "{q..<q + 4} \<subseteq> S" "n < 2 ^ 32" "keeps {q..<q + 4} J"
  shows "safe D S J (on_mem (mput q (le_bytes 4 n)) :: (unit, 's dstate) call)
    (\<lambda>_ m. (\<exists>b. load m q 4 = Some b \<and> le_val b = n) \<and> J m)"
proof (rule safe_on_mem)
  fix m :: pbmem
  assume "D \<subseteq> dom m" "J m"
  moreover have "{q..<q + length (le_bytes 4 n)} \<subseteq> {q..<q + 4}" by simp
  ultimately have "sets {q..<q + 4} (mput q (le_bytes 4 n)) (\<lambda>m'. store m q (le_bytes 4 n) = Some m') m"
    using assms(1) by (intro sets_mput) auto
  then show "sets S (mput q (le_bytes 4 n)) (\<lambda>m. (\<exists>b. load m q 4 = Some b \<and> le_val b = n) \<and> J m) m"
  proof (rule sets_weaken)
    fix m'
    assume s: "store m q (le_bytes 4 n) = Some m'"
    from load_store [OF s] have "load m' q 4 = Some (le_bytes 4 n)" by simp
    moreover have "J m'" using store_touches [OF s] assms(4) \<open>J m\<close> unfolding keeps_def by simp
    ultimately show "(\<exists>b. load m' q 4 = Some b \<and> le_val b = n) \<and> J m'" using le_val_4 [OF assms(3)] by blast
  qed (rule assms(2))
qed

definition in_use :: "nat \<Rightarrow> pb_field \<Rightarrow> nat \<Rightarrow> nat \<Rightarrow> nat \<Rightarrow> pbmem \<Rightarrow> bool" where
  "in_use d f p q c m \<longleftrightarrow> (\<exists>b. load m q 4 = Some b \<and> le_val b = c) \<and> items d f p c m"

lemma typed_array:
  assumes "PB_ATYPE (fd_type f) = PB_ATYPE_STATIC" "PB_HTYPE (fd_type f) = PB_HTYPE_REPEATED"
  shows "typed_field (typed d m) m (f, p, q) \<longleftrightarrow> (\<exists>c\<le>fd_array_size f. in_use d f p q c m)"
  using assms by (auto simp: typed_field_def in_use_def items_def)

text \<open>Decoding the next element, and counting it.\<close>

lemma safe_element:
  fixes func :: "nat \<Rightarrow> (unit, 's dstate) call"
  assumes ok: "field_ok (wf_table d) f" "PB_ATYPE (fd_type f) = PB_ATYPE_STATIC" "PB_HTYPE (fd_type f) = PB_HTYPE_REPEATED"
    and ap: "apart p (field_extent f) q (slot_size f)" and c: "c < fd_array_size f" and func: "decodes d D f p func"
  shows "safe D (span f p q) (\<lambda>m. (\<exists>b. load m q 4 = Some b \<and> le_val b = n) \<and> items d f p c m) (func (p + fd_data_size f * c))
    (\<lambda>_ m. (\<exists>b. load m q 4 = Some b \<and> le_val b = n) \<and> items d f p (Suc c) m)"
proof -
  let ?x = "p + fd_data_size f * c" and ?J = "\<lambda>m. (\<exists>b. load m q 4 = Some b \<and> le_val b = n) \<and> items d f p c m"
  have ext: "field_extent f = fd_data_size f * fd_array_size f" "slot_size f = 4" using ok by (simp_all add: field_extent_def slot_size_def)
  have "fd_data_size f * (c + 1) \<le> fd_data_size f * fd_array_size f" using c by (intro mult_le_mono2) simp
  then have x: "p \<le> ?x" "?x + fd_data_size f \<le> p + field_extent f" by (simp_all add: ext)
  then have sub: "{?x..<?x + fd_data_size f} \<subseteq> {p..<p + field_extent f}" by auto
  have "{?x..<?x + fd_data_size f} \<inter> {q..<q + 4} = {}" using sub apart_disjoint [OF ap] ext by auto
  from keeps_load [OF this] have k1: "keeps {?x..<?x + fd_data_size f} (\<lambda>m. \<exists>b. load m q 4 = Some b \<and> le_val b = n)"
    unfolding keeps_def by blast
  have k2: "keeps {?x..<?x + fd_data_size f} (items d f p c)" by (rule keeps_items [OF ok(1,2)]) auto
  have k: "keeps {?x..<?x + fd_data_size f} ?J" using k1 k2 unfolding keeps_def by blast
  from func x have "safe D {?x..<?x + fd_data_size f} (\<lambda>m. PB_LTYPE (fd_type f) = PB_LTYPE_SUBMESSAGE \<and> PB_HTYPE (fd_type f) \<noteq> PB_HTYPE_REPEATED \<longrightarrow>
             typed_item (typed d m) m f ?x) (func ?x) (\<lambda>_ m. typed_item (typed d m) m f ?x)"
    unfolding decodes_def by blast
  from safe_keep [OF this k] show ?thesis
    by (rule safe_weaken) (use sub ok in \<open>auto simp: items_Suc\<close>)
qed

lemma safe_count:
  assumes "field_ok (wf_table d) f" "PB_ATYPE (fd_type f) = PB_ATYPE_STATIC" "PB_HTYPE (fd_type f) = PB_HTYPE_REPEATED"
    and ap: "apart p (field_extent f) q (slot_size f)" and c: "c < fd_array_size f" "k \<le> Suc c" and D: "span f p q \<subseteq> D"
  shows "safe D (span f p q) (items d f p k) (on_mem (mput q (le_bytes 4 (c + 1))) :: (unit, 's dstate) call)
    (\<lambda>_ m. (\<exists>b. load m q 4 = Some b \<and> le_val b = Suc c) \<and> items d f p k m)"
proof -
  have ext: "field_extent f = fd_data_size f * fd_array_size f" "slot_size f = 4" using assms by (simp_all add: field_extent_def slot_size_def)
  have "fd_data_size f * k \<le> fd_data_size f * fd_array_size f" using c by (intro mult_le_mono2) simp
  then have "{p..<p + fd_data_size f * k} \<subseteq> {p..<p + field_extent f}" by (auto simp: ext)
  then have "{q..<q + 4} \<inter> {p..<p + fd_data_size f * k} = {}" using apart_disjoint [OF ap] ext(2) by fastforce
  from keeps_items [OF assms(1,2) this] have "keeps {q..<q + 4} (items d f p k)" .
  moreover have "Suc c < 2 ^ 32" using c assms(1) by (auto simp: field_ok_def Let_def)
  ultimately show ?thesis using safe_set_counter [of q D "span f p q" "Suc c" "items d f p k"] D ext(2) by auto
qed

lemma safe_packed:
  fixes func :: "nat \<Rightarrow> (unit, 's dstate) call"
  assumes ok: "field_ok (wf_table d) f" "PB_ATYPE (fd_type f) = PB_ATYPE_STATIC" "PB_HTYPE (fd_type f) = PB_HTYPE_REPEATED"
    and ap: "apart p (field_extent f) q (slot_size f)" and func: "decodes d D f p func" and D: "span f p q \<subseteq> D"
    and c: "c \<le> fd_array_size f"
  shows "safe D (span f p q) (in_use d f p q c) (packed_loop func f p q) (\<lambda>_ m. \<exists>c\<le>fd_array_size f. in_use d f p q c m)"
  using c
proof (induction "fd_array_size f - c" arbitrary: c rule: less_induct)
  case less
  let ?Q = "\<lambda>_ :: unit. \<lambda>m. \<exists>c\<le>fd_array_size f. in_use d f p q c m"
  have slot: "{q..<q + 4} \<subseteq> D" using D ok by (simp add: slot_size_def)
  have stop: "safe D (span f p q) (in_use d f p q c) (cret () :: (unit, 's dstate) call) ?Q"
    by (rule safe_ret) (use less.prems in blast)
  define more :: "(unit, 's dstate) call" where "more = cbind (on_mem (mget q 4)) (\<lambda>n.
          if le_val n < fd_array_size f
          then
            cbind (func (p + fd_data_size f * le_val n)) (\<lambda>_.
              cbind (on_mem (mget q 4)) (\<lambda>n.
                cbind (on_mem (mput q (le_bytes 4 (le_val n + 1)))) (\<lambda>_.
                  packed_loop func f p q)))
          else cret ())"
  have "safe D (span f p q) (in_use d f p q c) more ?Q"
    unfolding more_def
  proof (rule safe_bind [OF safe_get [OF slot]], rule safe_when)
    fix n m
    assume "load m q 4 = Some n \<and> in_use d f p q c m"
    then show "le_val n = c" by (auto simp: in_use_def)
  next
    fix n :: bytes
    assume n: "le_val n = c"
    show "safe D (span f p q) (\<lambda>m. load m q 4 = Some n \<and> in_use d f p q c m)
        (if le_val n < fd_array_size f
         then cbind (func (p + fd_data_size f * le_val n)) (\<lambda>_. cbind (on_mem (mget q 4)) (\<lambda>n.
            cbind (on_mem (mput q (le_bytes 4 (le_val n + 1)))) (\<lambda>_. packed_loop func f p q)))
         else cret ()) ?Q"
    proof (cases "c < fd_array_size f")
      case True
      have "safe D (span f p q) (\<lambda>m. load m q 4 = Some n \<and> in_use d f p q c m)
        (cbind (func (p + fd_data_size f * c)) (\<lambda>_. cbind (on_mem (mget q 4)) (\<lambda>n.
            cbind (on_mem (mput q (le_bytes 4 (le_val n + 1)))) (\<lambda>_. packed_loop func f p q)))) ?Q"
      proof (rule safe_bind [OF safe_pre [OF safe_element [OF ok ap True func]]])
        show "safe D (span f p q) (\<lambda>m. (\<exists>b. load m q 4 = Some b \<and> le_val b = c) \<and> items d f p (Suc c) m)
            (cbind (on_mem (mget q 4)) (\<lambda>n. cbind (on_mem (mput q (le_bytes 4 (le_val n + 1)))) (\<lambda>_. packed_loop func f p q))) ?Q"
        proof (rule safe_bind [OF safe_get [OF slot]], rule safe_when)
          fix n :: bytes and m
          assume "load m q 4 = Some n \<and> (\<exists>b. load m q 4 = Some b \<and> le_val b = c) \<and> items d f p (Suc c) m"
          then show "le_val n = c" by auto
        next
          fix n :: bytes
          assume n: "le_val n = c"
          have "safe D (span f p q) (items d f p (Suc c)) (cbind (on_mem (mput q (le_bytes 4 (c + 1)))) (\<lambda>_. packed_loop func f p q)) ?Q"
          proof (rule safe_bind [OF safe_count [OF ok ap True order_refl D]])
            from less.hyps [of "Suc c"] True
            have "safe D (span f p q) (in_use d f p q (Suc c)) (packed_loop func f p q) ?Q" by simp
            then show "safe D (span f p q) (\<lambda>m. (\<exists>b. load m q 4 = Some b \<and> le_val b = Suc c) \<and> items d f p (Suc c) m)
                (packed_loop func f p q) ?Q" by (rule safe_pre) (simp add: in_use_def)
          qed
          then show "safe D (span f p q) (\<lambda>m. load m q 4 = Some n \<and> (\<exists>b. load m q 4 = Some b \<and> le_val b = c) \<and> items d f p (Suc c) m)
              (cbind (on_mem (mput q (le_bytes 4 (le_val n + 1)))) (\<lambda>_. packed_loop func f p q)) ?Q"
            unfolding n by (rule safe_pre) simp
        qed
      qed (auto simp: in_use_def)
      then show ?thesis using True n by simp
    next
      case False
      have "safe D (span f p q) (\<lambda>m. load m q 4 = Some n \<and> in_use d f p q c m) (cret () :: (unit, 's dstate) call) ?Q"
        by (rule safe_pre [OF stop]) simp
      then show ?thesis using False n by simp
    qed
  qed
  then show ?case
    by (rule safe_if_left [OF stop]) (subst packed_loop.simps, simp add: more_def cbind_def split: option.split)
qed

lemma safe_repeated:
  fixes func :: "nat \<Rightarrow> (unit, 's dstate) call"
  assumes ok: "field_ok (wf_table d) f" "PB_ATYPE (fd_type f) = PB_ATYPE_STATIC" "PB_HTYPE (fd_type f) = PB_HTYPE_REPEATED"
    and ap: "apart p (field_extent f) q (slot_size f)" and func: "decodes d D f p func" and D: "span f p q \<subseteq> D"
  shows "safe D (span f p q) (\<lambda>m. typed_field (typed d m) m (f, p, q))
    (cbind (on_mem (mget q 4)) (\<lambda>n.
       if le_val n \<ge> fd_array_size f then on_stream (is_error Array_overflow)
       else
         cbind (on_mem (mput q (le_bytes 4 (le_val n + 1)))) (\<lambda>_.
           func (p + fd_data_size f * le_val n)))) (\<lambda>_ m. typed_field (typed d m) m (f, p, q))"
    (is "safe D ?S ?I _ (\<lambda>_. ?I)")
proof (rule safe_bind [OF safe_get])
  fix n :: bytes
  let ?c = "le_val n" and ?J = "\<lambda>m. load m q 4 = Some n \<and> ?I m"
  show "safe D ?S ?J (if fd_array_size f \<le> ?c then on_stream (is_error Array_overflow)
       else cbind (on_mem (mput q (le_bytes 4 (?c + 1)))) (\<lambda>_. func (p + fd_data_size f * ?c))) (\<lambda>_. ?I)"
  proof (cases "?c < fd_array_size f")
    case True
    have "safe D ?S (items d f p ?c) (cbind (on_mem (mput q (le_bytes 4 (?c + 1)))) (\<lambda>_. func (p + fd_data_size f * ?c))) (\<lambda>_. ?I)"
    proof (rule safe_bind [OF safe_count [OF ok ap True _ D]])
      show "safe D ?S (\<lambda>m. (\<exists>b. load m q 4 = Some b \<and> le_val b = Suc ?c) \<and> items d f p ?c m) (func (p + fd_data_size f * ?c)) (\<lambda>_. ?I)"
        by (rule safe_post [OF safe_element [OF ok ap True func]]) (use True in \<open>auto simp: typed_array [OF ok(2,3)] in_use_def\<close>)
    qed simp
    then have "safe D ?S ?J (cbind (on_mem (mput q (le_bytes 4 (?c + 1)))) (\<lambda>_. func (p + fd_data_size f * ?c))) (\<lambda>_. ?I)"
      by (rule safe_pre) (auto simp: typed_array [OF ok(2,3)] in_use_def)
    then show ?thesis using True by simp
  next
    case False
    then show ?thesis by (simp add: safe_error)
  qed
qed (use D ok in \<open>simp add: slot_size_def\<close>)

text \<open>One static field.\<close>

lemma safe_static:
  fixes func :: "nat \<Rightarrow> (unit, 's dstate) call" and m :: pbmem
  assumes ok: "field_ok (wf_table d) f" "PB_ATYPE (fd_type f) = PB_ATYPE_STATIC" and ap: "apart p (field_extent f) q (slot_size f)"
    and slot: "slot_size f = 1 \<longrightarrow> q \<noteq> p" "PB_HTYPE (fd_type f) \<noteq> PB_HTYPE_ONEOF \<longrightarrow> q = size_addr p f"
    and D: "span f p q \<subseteq> D" and iter: "it_field iter = f" "pData iter = p" "pSize iter = q"
    and func: "decodes d D f p func"
    and defaults: "\<And>g m. wf_table d (fd_data_size f) g \<Longrightarrow> {p..<p + fd_data_size f} \<subseteq> dom m \<Longrightarrow>
      sets {p..<p + fd_data_size f} (defaults g p) (\<lambda>m. typed d m g p) m"
  shows "safe D (span f p q) (\<lambda>m. typed_field (typed d m) m (f, p, q)) (decode_static_field defaults func wt iter)
    (\<lambda>_ m. typed_field (typed d m) m (f, p, q) \<and>
       (PB_HTYPE (fd_type f) = PB_HTYPE_ONEOF \<longrightarrow> (\<exists>b. load m q 4 = Some b \<and> le_val b = unat (fd_tag f))))"
    (is "safe D ?S ?I _ (\<lambda>_. ?Q)")
proof -
  let ?h = "PB_HTYPE (fd_type f)" and ?t = "PB_LTYPE (fd_type f)" and ?n = "fd_data_size f"
  have "?t \<le> 9" using ok(1) by (simp add: field_ok_def Let_def)
  then have t: "\<not> 10 \<le> ?t" by (simp add: word_le_nat_alt)
  have single: "safe D ?S (\<lambda>m. ?t = PB_LTYPE_SUBMESSAGE \<longrightarrow> typed_item (typed d m) m f p) (func p) (\<lambda>_ m. typed_item (typed d m) m f p)"
    and fe: "field_extent f = ?n" if "?h \<noteq> PB_HTYPE_REPEATED"
  proof -
    show fe: "field_extent f = ?n" using ok that by (simp add: field_extent_def)
    have "safe D {p..<p + ?n} (\<lambda>m. ?t = PB_LTYPE_SUBMESSAGE \<and> ?h \<noteq> PB_HTYPE_REPEATED \<longrightarrow> typed_item (typed d m) m f p)
        (func p) (\<lambda>_ m. typed_item (typed d m) m f p)"
      using func fe unfolding decodes_def by simp
    then show "safe D ?S (\<lambda>m. ?t = PB_LTYPE_SUBMESSAGE \<longrightarrow> typed_item (typed d m) m f p) (func p) (\<lambda>_ m. typed_item (typed d m) m f p)"
      by (rule safe_wider [OF safe_pre]) (use fe that in auto)
  qed
  show ?thesis
  proof (cases rule: PB_HTYPE_cases [of "fd_type f"])
    case 1
    from 1 have "safe D ?S ?I (func p) (\<lambda>_. ?Q)"
      by (intro safe_weaken [OF single order_refl order_refl]) (use ok in \<open>auto simp: typed_field_def\<close>)
    moreover have "decode_static_field defaults func wt iter = func p"
      using 1 t by (simp add: decode_static_field_def iter Let_def)
    ultimately show ?thesis by (simp only:)
  next
    case 2
    have "safe D ?S ?I (if q \<noteq> p then on_mem (mput q [1]) else cret () :: (unit, 's dstate) call) (\<lambda>_ m. typed_item (typed d m) m f p)"
    proof (cases "q = p")
      case False
      with 2 slot(2) have s: "slot_size f = 1" using ok(2) by (auto simp: slot_size_def size_addr_def)
      then have dis: "{q..<q + length [1 :: u8]} \<inter> {p..<p + ?n} = {}" using apart_disjoint [OF ap] fe 2 by auto
      have "safe D {q..<q + length [1 :: u8]} (\<lambda>m. True \<and> typed_item (typed d m) m f p) (on_mem (mput q [1]) :: (unit, 's dstate) call)
          (\<lambda>_ m. True \<and> typed_item (typed d m) m f p)"
        by (rule safe_keep [OF safe_put_any keeps_item [OF ok dis]]) (use D s in auto)
      then have "safe D ?S ?I (on_mem (mput q [1]) :: (unit, 's dstate) call) (\<lambda>_ m. typed_item (typed d m) m f p)"
        by (rule safe_weaken) (use s 2 ok in \<open>auto simp: typed_field_def\<close>)
      with False show ?thesis by simp
    next
      case True
      then show ?thesis using 2 ok by (auto intro!: safe_ret simp: typed_field_def)
    qed
    then have "safe D ?S ?I (cbind (if q \<noteq> p then on_mem (mput q [1]) else cret ()) (\<lambda>_. func p)) (\<lambda>_. ?Q)"
      by (rule safe_bind) (intro safe_weaken [OF single order_refl order_refl], use 2 ok in \<open>auto simp: typed_field_def\<close>)
    moreover have "decode_static_field defaults func wt iter = cbind (if q \<noteq> p then on_mem (mput q [1]) else cret ()) (\<lambda>_. func p)"
      using 2 t by (simp add: decode_static_field_def iter Let_def)
    ultimately show ?thesis by (simp only:)
  next
    case 3
    have Q: "?Q = ?I" using 3 by auto
    have "safe D ?S ?I (packed_loop func f p q) (\<lambda>_. ?I)"
    proof (rule safeI)
      fix m k and s :: "'s pb_istream"
      assume a: "D \<subseteq> dom m" "typed_field (typed d m) m (f, p, q)" "stream_ok k s"
      then obtain c where c: "c \<le> fd_array_size f" "in_use d f p q c m" using typed_array [OF ok(2) 3] by blast
      from safe_packed [OF ok 3 ap func D c(1)] a(1,3) c(2)
      show "\<exists>r m' s'. packed_loop func f p q (m, s) = Some (r, (m', s')) \<and> touches ?S m m' \<and> stream_ok k s' \<and>
          is_left s' \<le> is_left s \<and> (\<forall>x. r = Some x \<longrightarrow> typed_field (typed d m') m' (f, p, q))"
        unfolding typed_array [OF ok(2) 3] safe_def by blast
    qed
    from safe_substream [OF this] safe_repeated [OF ok 3 ap func D] show ?thesis
      using 3 t unfolding Q decode_static_field_def iter Let_def by simp
  next
    case 4
    have slot4: "slot_size f = 4" using 4 by (simp add: slot_size_def)
    have dis: "{p..<p + ?n} \<inter> {q..<q + 4} = {}" using apart_disjoint [OF ap] fe 4 slot4 by auto
    let ?sel = "\<lambda>m. \<exists>b. load m q 4 = Some b \<and> le_val b = unat (fd_tag f)"
    have tag: "unat (fd_tag f) < 2 ^ 32" using unsigned_less [of "fd_tag f", where 'a = nat] by simp
    have ksel: "keeps {p..<p + ?n} ?sel" using keeps_load [OF dis] unfolding keeps_def by blast
    define reset :: "(unit, 's dstate) call" where "reset = (if ?t = PB_LTYPE_SUBMESSAGE
             then cbind (on_mem (mput p (replicate ?n 0))) (\<lambda>_.
                 case fd_ptr f of Fields fds \<Rightarrow> on_mem (defaults fds p) | _ \<Rightarrow> (\<lambda>_. None))
             else cret ())"
    have n: "{p..<p + ?n} \<subseteq> D" "{p..<p + ?n} \<subseteq> ?S" using D fe 4 by auto
    have "safe D {p..<p + ?n} (\<lambda>_. True) reset (\<lambda>_ m. ?t = PB_LTYPE_SUBMESSAGE \<longrightarrow> typed_item (typed d m) m f p)"
    proof (cases "?t = PB_LTYPE_SUBMESSAGE")
      case True
      with ok obtain g where g: "fd_ptr f = Fields g" "wf_table d ?n g" by (auto simp: field_ok_def Let_def split: pb_ptr.splits)
      have "safe D {p..<p + ?n} (\<lambda>_. True) (cbind (on_mem (mput p (replicate ?n 0))) (\<lambda>_. on_mem (defaults g p)) :: (unit, 's dstate) call)
          (\<lambda>_ m. typed d m g p)"
        by (rule safe_seq [OF safe_put_any safe_on_mem [OF defaults [OF g(2)]]]) (use n in auto)
      then show ?thesis unfolding reset_def using True g
        by (auto simp: typed_item_def elim!: safe_post)
    next
      case False
      then show ?thesis by (auto simp: reset_def intro: safe_ret)
    qed
    from safe_wider [OF safe_keep [OF this ksel] n(2)]
    have r: "safe D ?S (\<lambda>m. True \<and> ?sel m) reset (\<lambda>_ m. (?t = PB_LTYPE_SUBMESSAGE \<longrightarrow> typed_item (typed d m) m f p) \<and> ?sel m)" .
    have "safe D {p..<p + ?n} (\<lambda>m. ?t = PB_LTYPE_SUBMESSAGE \<and> ?h \<noteq> PB_HTYPE_REPEATED \<longrightarrow> typed_item (typed d m) m f p) (func p)
        (\<lambda>_ m. typed_item (typed d m) m f p)"
      using func fe 4 unfolding decodes_def by simp
    from safe_wider [OF safe_keep [OF this ksel] n(2)]
    have f: "safe D ?S (\<lambda>m. (?t = PB_LTYPE_SUBMESSAGE \<longrightarrow> typed_item (typed d m) m f p) \<and> ?sel m) (func p) (\<lambda>_. ?Q)"
      by (rule safe_weaken) (use 4 ok in \<open>auto simp: typed_field_def\<close>)
    have "safe D ?S (\<lambda>_. True) (on_mem (mput q (le_bytes 4 (unat (fd_tag f)))) :: (unit, 's dstate) call) (\<lambda>_ m. ?sel m \<and> True)"
      by (rule safe_set_counter [OF _ _ tag]) (use D slot4 in \<open>auto simp: keeps_def\<close>)
    from safe_bind [OF this safe_bind [OF safe_pre [OF r] f]]
    have "safe D ?S (\<lambda>_. True) (cbind (on_mem (mput q (le_bytes 4 (unat (fd_tag f))))) (\<lambda>_. cbind reset (\<lambda>_. func p))) (\<lambda>_. ?Q)"
      by simp
    then have "safe D ?S ?I (cbind (on_mem (mput q (le_bytes 4 (unat (fd_tag f))))) (\<lambda>_. cbind reset (\<lambda>_. func p))) (\<lambda>_. ?Q)"
      by (rule safe_pre) simp
    moreover have "decode_static_field defaults func wt iter =
        cbind (on_mem (mput q (le_bytes 4 (unat (fd_tag f))))) (\<lambda>_. cbind reset (\<lambda>_. func p))"
      using 4 t unfolding decode_static_field_def iter Let_def reset_def by simp
    ultimately show ?thesis by (simp only:)
  qed
qed

section \<open>Messages\<close>

lemma decodes_item:
  fixes dec noinit :: "pb_field list \<Rightarrow> nat \<Rightarrow> (unit, 's dstate) call"
  assumes ok: "field_ok (wf_table d) f" "PB_ATYPE (fd_type f) = PB_ATYPE_STATIC" and D: "{p..<p + field_extent f} \<subseteq> D"
    and dec: "\<And>g n x. wf_table d n g \<Longrightarrow> {x..<x + n} \<subseteq> D \<Longrightarrow> safe D {x..<x + n} (\<lambda>_. True) (dec g x) (\<lambda>_ m. typed d m g x)"
    and noinit: "\<And>g n x. wf_table d n g \<Longrightarrow> {x..<x + n} \<subseteq> D \<Longrightarrow>
      safe D {x..<x + n} (\<lambda>m. typed d m g x) (noinit g x) (\<lambda>_ m. typed d m g x)"
  shows "decodes d D f p (PB_DECODERS dec noinit f)"
  unfolding decodes_def
proof (intro allI impI)
  fix x
  assume "p \<le> x \<and> x + fd_data_size f \<le> p + field_extent f"
  then have x: "{x..<x + fd_data_size f} \<subseteq> D" using D by fastforce
  show "safe D {x..<x + fd_data_size f}
      (\<lambda>m. PB_LTYPE (fd_type f) = PB_LTYPE_SUBMESSAGE \<and> PB_HTYPE (fd_type f) \<noteq> PB_HTYPE_REPEATED \<longrightarrow> typed_item (typed d m) m f x)
      (PB_DECODERS dec noinit f x) (\<lambda>_ m. typed_item (typed d m) m f x)"
    by (rule safe_item [OF ok x]) (simp_all add: dec noinit x)
qed

lemma safe_field:
  fixes dec noinit :: "pb_field list \<Rightarrow> nat \<Rightarrow> (unit, 's dstate) call"
  assumes wf: "wf_table (Suc d) n fds" and i: "i < length fds" and D: "{a..<a + n} \<subseteq> D"
    and dec: "\<And>g n x. wf_table d n g \<Longrightarrow> {x..<x + n} \<subseteq> D \<Longrightarrow> safe D {x..<x + n} (\<lambda>_. True) (dec g x) (\<lambda>_ m. typed d m g x)"
    and noinit: "\<And>g n x. wf_table d n g \<Longrightarrow> {x..<x + n} \<subseteq> D \<Longrightarrow>
      safe D {x..<x + n} (\<lambda>m. typed d m g x) (noinit g x) (\<lambda>_ m. typed d m g x)"
  shows "safe D {a..<a + n} (\<lambda>m. typed (Suc d) m fds a)
    (decode_field (pb_message_set_to_defaults d descr) (PB_DECODERS dec noinit) env wt (iter_at fds a i))
    (\<lambda>_ m. typed (Suc d) m fds a)"
proof -
  let ?P = "decode_field (pb_message_set_to_defaults d descr) (PB_DECODERS dec noinit) env wt (iter_at fds a i)"
  obtain f p q where f: "layout fds a ! i = (f, p, q)" "field_at fds i = f" "field_ok (wf_table d) f" "span f p q \<subseteq> {a..<a + n}"
    "apart p (field_extent f) q (slot_size f)" "slot_size f = 1 \<longrightarrow> q \<noteq> p" "PB_HTYPE (fd_type f) \<noteq> PB_HTYPE_ONEOF \<longrightarrow> q = size_addr p f"
    by (rule wf_span [OF wf i, of a])
  have "PB_ATYPE (fd_type f) = PB_ATYPE_STATIC \<or> PB_ATYPE (fd_type f) = PB_ATYPE_POINTER" using f(3) by (auto simp: field_ok_def Let_def)
  then show ?thesis
  proof
    assume at: "PB_ATYPE (fd_type f) = PB_ATYPE_POINTER"
    then show ?thesis using f by (simp add: decode_field_def decode_pointer_field_def safe_error)
  next
    assume at: "PB_ATYPE (fd_type f) = PB_ATYPE_STATIC"
    have sp: "span f p q \<subseteq> D" using f(4) D by blast
    have "{p..<p + field_extent f} \<subseteq> D" using sp by simp
    then have func: "decodes d D f p (PB_DECODERS dec noinit f)"
      by (rule decodes_item [OF f(3) at]) (simp_all add: dec noinit)
    have P: "?P = decode_static_field (pb_message_set_to_defaults d descr) (PB_DECODERS dec noinit f) wt (iter_at fds a i)"
      using at f by (simp add: decode_field_def Let_def)
    have one: "safe D (span f p q) (\<lambda>m. typed_field (typed d m) m (f, p, q)) ?P
      (\<lambda>_ m. typed_field (typed d m) m (f, p, q) \<and>
         (PB_HTYPE (fd_type f) = PB_HTYPE_ONEOF \<longrightarrow> (\<exists>b. load m q 4 = Some b \<and> le_val b = unat (fd_tag f))))"
      unfolding P by (rule safe_static [OF f(3) at f(5-7) sp]) (use f in \<open>simp_all add: func sets_defaults\<close>)
    show ?thesis
    proof (rule safeI)
      fix m k and s :: "'s pb_istream"
      assume a: "D \<subseteq> dom m" "typed (Suc d) m fds a" "stream_ok k s"
      then have all: "typed_field (typed d m) m (layout fds a ! j)" if "j < length fds" for j using that typed_nth by blast
      with i f(1) have "typed_field (typed d m) m (f, p, q)" by metis
      from safeD [OF one a(1) this a(3)] obtain r m' s' where r: "?P (m, s) = Some (r, (m', s'))" "touches (span f p q) m m'"
        "stream_ok k s'" "is_left s' \<le> is_left s" "\<And>x. r = Some x \<Longrightarrow> typed_field (typed d m') m' (f, p, q) \<and>
         (PB_HTYPE (fd_type f) = PB_HTYPE_ONEOF \<longrightarrow> (\<exists>b. load m' q 4 = Some b \<and> le_val b = unat (fd_tag f)))" by metis
      have "typed (Suc d) m' fds a" if "r = Some x" for x
        unfolding typed_nth
      proof (intro allI impI)
        fix j
        assume j: "j < length fds"
        show "typed_field (typed d m') m' (layout fds a ! j)"
        proof (cases "j = i")
          case True
          then show ?thesis using r(5) [OF that] f(1) by simp
        next
          case False
          from typed_others [OF wf i f(1) r(2) j False all [OF j]] r(5) [OF that] show ?thesis by blast
        qed
      qed
      then show "\<exists>r m' s'. ?P (m, s) = Some (r, (m', s')) \<and> touches {a..<a + n} m m' \<and> stream_ok k s' \<and> is_left s' \<le> is_left s \<and>
          (\<forall>x. r = Some x \<longrightarrow> typed (Suc d) m' fds a)"
        using r(1,3,4) touches_mono [OF r(2) f(4)] by blast
    qed
  qed
qed

text \<open>The iterator of a message: at a field, or at the end of an empty table.\<close>

definition at_table :: "pb_field list \<Rightarrow> nat \<Rightarrow> pb_field_iter \<Rightarrow> bool" where
  "at_table fds a iter \<longleftrightarrow>
     (if fds = [] then iter = snd (pb_field_iter_begin [] a) else (\<exists>i<length fds. iter = iter_at fds a i))"

lemma it_field_Nil: "it_field (snd (pb_field_iter_begin [] a)) = PB_LAST_FIELD"
  by (simp add: pb_field_iter_begin_def it_field_def field_at_def Let_def)

lemma iter_next_Nil: "pb_field_iter_next (snd (pb_field_iter_begin [] a)) = (False, snd (pb_field_iter_begin [] a))"
  unfolding pb_field_iter_next_def it_field_Nil by (simp add: PB_LAST_FIELD_def Let_def)

lemma at_begin: "tags_ok fds \<Longrightarrow> at_table fds a (snd (pb_field_iter_begin fds a))"
  by (auto simp: at_table_def iter_begin)

lemma at_find:
  assumes "tags_ok fds" "at_table fds a iter"
  obtains found iter' where "pb_field_iter_find iter tag = Some (found, iter')" "at_table fds a iter'"
proof (cases "fds = []")
  case True
  then have iter: "iter = snd (pb_field_iter_begin [] a)" using assms(2) by (simp add: at_table_def)
  have "pb_field_iter_find iter tag = Some (tag = 0, iter)"
    unfolding pb_field_iter_find_def iter
    by (subst iter_find_loop.simps) (auto simp: it_field_Nil iter_next_Nil PB_LTYPE_def PB_LAST_FIELD_def Let_def)
  then show thesis using that assms(2) by blast
next
  case False
  then obtain i where i: "i < length fds" "iter = iter_at fds a i" using assms(2) by (auto simp: at_table_def)
  show thesis
    by (rule iter_find_at [OF assms(1) i(1), where a = a and tag = tag], rule that, simp add: i(2))
      (use False i that in \<open>auto simp: at_table_def\<close>)
qed

lemma at_find_extension:
  assumes "wf_table (Suc d) n fds" "at_table fds a iter"
  shows "find_extension_field iter = Some (False, iter)"
proof (cases "fds = []")
  case True
  then have iter: "iter = snd (pb_field_iter_begin [] a)" using assms(2) by (simp add: at_table_def)
  show ?thesis unfolding find_extension_field_def iter
    by (subst iter_find_loop.simps) (simp add: it_field_Nil iter_next_Nil PB_LTYPE_def PB_LAST_FIELD_def)
next
  case False
  then obtain i where i: "i < length fds" "iter = iter_at fds a i" using assms(2) by (auto simp: at_table_def)
  have "PB_LTYPE (fd_type (fds ! j)) \<noteq> PB_LTYPE_EXTENSION" if "j < length fds" for j
    using assms(1) that by (auto simp: list_all_length field_ok_def Let_def)
  then show ?thesis using i iter_find_loop_at [OF wf_tags [OF assms(1)] i(1,1), of "\<lambda>f. PB_LTYPE (fd_type f) = PB_LTYPE_EXTENSION" a]
    unfolding find_extension_field_def by (metis iter_at_sel(1))
qed

text \<open>The loop over the fields of the stream.\<close>

lemma decode_tag_small: "pb_decode_tag s = Some (Tag wt tag, s') \<Longrightarrow> \<not> - 1 \<le> tag"
proof -
  assume "pb_decode_tag s = Some (Tag wt tag, s')"
  then obtain x :: u32 where "tag = drop_bit 3 x"
    by (auto simp: pb_decode_tag_def split: option.splits if_splits prod.splits)
  then have "unat tag = unat x div 8" by (simp add: unat_drop_bit)
  moreover have "unat x < 2 ^ 32" using unsigned_less [of x, where 'a = nat] by simp
  ultimately have "unat tag < 2 ^ 29" by simp
  moreover have "unat (- 1 :: u32) = 4294967295" by (simp add: unsigned_minus_1_eq_mask mask_eq_exp_minus_1)
  ultimately have "tag \<noteq> - 1" by auto
  then show ?thesis by (simp add: word_order.extremum_unique)
qed

lemma decode_unknown_skips:
  assumes "wf_table (Suc d) n fds" "at_table fds a iter" "\<not> - 1 \<le> tag"
  obtains e where "decode_unknown decf env tag wt iter ext_start st = cbind (on_stream (pb_skip_field wt)) (\<lambda>_. cret (iter, e)) st"
  using that at_find_extension [OF assms(1,2)] assms(3)
  by (cases "ext_start \<le> tag") (simp_all add: decode_unknown_def Let_def)

lemma length_mark_seen [simp]: "length (mark_seen iter seen) = length seen"
  by (simp add: mark_seen_def Let_def)

lemma decode_loop_safe:
  fixes decf :: "u32 \<Rightarrow> pb_field_iter \<Rightarrow> (unit, 's dstate) call"
  assumes wf: "wf_table (Suc d) n fds"
    and decf: "\<And>wt iter. at_table fds a iter \<Longrightarrow> safe D S I (decf wt iter) (\<lambda>_. I)"
    and "D \<subseteq> dom m" "I m" "stream_ok k s" "at_table fds a iter" "length seen = 2"
  shows "\<exists>r m' s'. decode_loop decf env iter seen e (m, s) = Some (r, (m', s')) \<and> touches S m m' \<and> stream_ok k s' \<and>
    is_left s' \<le> is_left s \<and> (\<forall>x. r = Some x \<longrightarrow> I m' \<and> at_table fds a (fst x) \<and> length (snd x) = 2)"
  using assms(3-)
proof (induction "is_left s" arbitrary: m s iter seen e rule: less_induct)
  case less
  note tags = wf_tags [OF wf]
  from decode_tag_ok [OF less.prems(3)] obtain t s1 where t: "pb_decode_tag s = Some (t, s1)" "stream_ok k s1"
    "is_left s1 \<le> is_left s" "\<And>wt tag. t = Tag wt tag \<Longrightarrow> is_left s1 + 1 \<le> is_left s" by metis
  show ?case
  proof (cases "is_left s = 0 \<or> (\<forall>wt tag. t \<noteq> Tag wt tag)")
    case True
    then show ?thesis using less.prems t
      by (subst decode_loop.simps) (cases t; auto simp: cret_def cfail_def)
  next
    case False
    then obtain wt tag where T: "t = Tag wt tag" "is_left s \<noteq> 0" by blast
    obtain found iter' where it: "pb_field_iter_find iter tag = Some (found, iter')" "at_table fds a iter'"
      by (rule at_find [OF tags less.prems(4), of tag])
    obtain e' where u: "decode_unknown decf env tag wt iter' e (m, s1) =
        cbind (on_stream (pb_skip_field wt)) (\<lambda>_. cret (iter', e')) (m, s1)"
      using decode_unknown_skips [OF wf it(2)] decode_tag_small t(1) T(1) by metis
    define step :: "(unit, 's dstate) call" where "step = (if found then decf wt iter' else on_stream (pb_skip_field wt))"
    have "safe D S I step (\<lambda>_. I)"
      using decf [OF it(2)] safe_post [OF safe_stream [OF takes_skip_field]] by (auto simp: step_def)
    from safeD [OF this less.prems(1,2) t(2)] obtain r m2 s2 where st: "step (m, s1) = Some (r, (m2, s2))" "touches S m m2"
      "D \<subseteq> dom m2" "stream_ok k s2" "is_left s2 \<le> is_left s1" "\<And>x. r = Some x \<Longrightarrow> I m2" by metis
    show ?thesis
    proof (cases r)
      case None
      then have "decode_loop decf env iter seen e (m, s) = Some (None, (m2, s2))"
        using T t(1) it(1) st(1) u by (subst decode_loop.simps) (auto simp: step_def cbind_def split: if_splits)
      moreover have "is_left s2 \<le> is_left s" using t(3) st(5) by simp
      ultimately show ?thesis using st by simp
    next
      case (Some x)
      let ?seen = "if found then mark_seen iter' seen else seen" and ?e = "if found then e else e'"
      have "decode_loop decf env iter seen e (m, s) = decode_loop decf env iter' ?seen ?e (m2, s2)"
        using T t(1) it(1) st(1) u Some by (subst decode_loop.simps) (auto simp: step_def cbind_def cret_def split: if_splits)
      moreover have "is_left s2 < is_left s" using t(4) [OF T(1)] st(5) by simp
      moreover have "length ?seen = 2" using less.prems(5) by simp
      ultimately show ?thesis
        using less.hyps [of s2 m2 iter' ?seen ?e] st(2-4) st(6) [OF Some] it(2) touches_trans [OF st(2)]
        by (fastforce intro: order_trans less_imp_le)
    qed
  qed
qed

text \<open>The required fields.\<close>

lemma count_at:
  assumes "tags_ok fds" "i < length fds"
  shows "count_required (iter_at fds a i) =
    Some (length (filter is_required (butlast fds)), fd_type (last fds), iter_at fds a 0)"
  using assms(2)
proof (induction "length fds - i" arbitrary: i rule: less_induct)
  case less
  note n = iter_next [OF assms(1) less.prems, of a]
  show ?case
  proof (cases "Suc i < length fds")
    case True
    then show ?thesis using n less.hyps [of "Suc i"] by (subst count_required.simps) (simp add: Let_def)
  next
    case False
    then have i: "i = length fds - 1" "fds \<noteq> []" using less.prems by auto
    then have "take i fds = butlast fds" "fds ! i = last fds" by (simp_all add: butlast_conv_take last_conv_nth)
    then show ?thesis using n False less.prems by (subst count_required.simps) (simp add: Let_def field_at_def)
  qed
qed

lemma finish_required:
  assumes "wf_table (Suc d) n fds" "at_table fds a iter"
  shows "finish_message iter seen = check_required (length (filter is_required fds)) seen"
proof (cases "fds = []")
  case True
  then have iter: "iter = snd (pb_field_iter_begin [] a)" using assms(2) by (simp add: at_table_def)
  have index: "required_field_index (snd (pb_field_iter_begin [] a)) = 0" by (simp add: pb_field_iter_begin_def Let_def)
  have "count_required iter = Some (0, 0, iter)"
    using index unfolding iter by (subst count_required.simps) (simp add: iter_next_Nil it_field_Nil PB_LAST_FIELD_def Let_def)
  then show ?thesis using True by (simp add: finish_message_def iter it_field_Nil PB_LAST_FIELD_def Let_def)
next
  case False
  then obtain i where i: "i < length fds" "iter = iter_at fds a i" using assms(2) by (auto simp: at_table_def)
  have "fd_tag (field_at fds 0) \<noteq> 0" using wf_tags [OF assms(1)] False field_at_tag by auto
  moreover have "length (filter is_required fds) = length (filter is_required (butlast fds)) + (if is_required (last fds) then 1 else 0)"
    using arg_cong [OF append_butlast_last_id [OF False], of "\<lambda>xs. length (filter is_required xs)"]
    by (auto simp del: append_butlast_last_id)
  ultimately show ?thesis using count_at [OF wf_tags [OF assms(1)] i(1)]
    by (simp add: finish_message_def i(2) is_required_def Let_def)
qed

lemma safe_check_required:
  assumes "k < 64" "k mod 32 = 0 \<longrightarrow> k = 0" "length seen = 2"
  shows "safe D S I (check_required k seen :: (unit, 's dstate) call) (\<lambda>_. I)"
proof -
  have "k div 32 < 2" using assms(1) by (simp add: div_less_iff_less_mult)
  then show ?thesis using assms
    by (auto simp: check_required_def safe_error not_less [symmetric] intro!: safe_ret)
qed

text \<open>A message: \<open>D\<close> is any memory around it.\<close>

lemma safe_noinit:
  fixes env :: "'s pb_dec_env"
  assumes "wf_table d n fds" "{a..<a + n} \<subseteq> D"
  shows "safe D {a..<a + n} (\<lambda>m. typed d m fds a) (pb_decode_noinit d env fds a) (\<lambda>_ m. typed d m fds a)"
  using assms
proof (induction d arbitrary: n fds a)
  case (Suc d)
  note wf = Suc.prems(1)
  let ?dec = "\<lambda>fds dest. cbind (on_mem (pb_message_set_to_defaults d (d_field env) fds dest)) (\<lambda>_. pb_decode_noinit d env fds dest)"
  let ?decf = "decode_field (pb_message_set_to_defaults d (d_field env)) (PB_DECODERS ?dec (pb_decode_noinit d env)) env"
  let ?I = "\<lambda>m. typed (Suc d) m fds a"
  have dec: "safe D {x..<x + n} (\<lambda>_. True) (?dec g x) (\<lambda>_ m. typed d m g x)" if g: "wf_table d n g" "{x..<x + n} \<subseteq> D" for g n x
  proof (rule safe_bind [OF safe_on_mem Suc.IH [OF g]])
    show "sets {x..<x + n} (pb_message_set_to_defaults d (d_field env) g x) (\<lambda>m. typed d m g x) m" if "D \<subseteq> dom m" for m
      by (rule sets_defaults [OF g(1)]) (use g(2) that in blast)
  qed
  have decf: "safe D {a..<a + n} ?I (?decf wt iter) (\<lambda>_. ?I)" if at: "at_table fds a iter" for wt iter
  proof (cases "fds = []")
    case True
    then have iter: "iter = snd (pb_field_iter_begin [] a)" using at by (simp add: at_table_def)
    have "?decf wt iter = pb_dec_varint PB_LAST_FIELD (pData iter)"
      by (simp add: decode_field_def decode_static_field_def PB_DECODERS_def iter it_field_Nil PB_LAST_FIELD_def PB_ATYPE_def
          PB_HTYPE_def PB_LTYPE_def Let_def)
    also have "\<dots> = cbind (on_stream pb_decode_varint) (\<lambda>_. on_stream (is_error Invalid_data_size))"
      by (simp add: pb_dec_varint_def PB_LAST_FIELD_def Let_def)
    finally show ?thesis using safe_seq [OF safe_any [OF safe_stream [OF takes_varint]] safe_error] by simp
  next
    case False
    then obtain i where i: "i < length fds" "iter = iter_at fds a i" using at by (auto simp: at_table_def)
    show ?thesis unfolding i(2) by (rule safe_field [OF wf i(1) Suc.prems(2) dec Suc.IH])
  qed
  have req: "length (filter is_required fds) < 64" "length (filter is_required fds) mod 32 = 0 \<longrightarrow> length (filter is_required fds) = 0"
    using wf by (simp_all add: Let_def)
  show ?case
  proof (rule safeI)
    fix m k and s :: "'s pb_istream"
    assume a: "D \<subseteq> dom m" "?I m" "stream_ok k s"
    have "\<exists>r m' s'. decode_loop ?decf env (snd (pb_field_iter_begin fds a)) [0, 0] 0 (m, s) = Some (r, (m', s')) \<and>
        touches {a..<a + n} m m' \<and> stream_ok k s' \<and> is_left s' \<le> is_left s \<and>
        (\<forall>x. r = Some x \<longrightarrow> ?I m' \<and> at_table fds a (fst x) \<and> length (snd x) = 2)"
      by (rule decode_loop_safe [OF wf decf a at_begin [OF wf_tags [OF wf]]]) simp_all
    then obtain r m1 s1 where
      1: "decode_loop ?decf env (snd (pb_field_iter_begin fds a)) [0, 0] 0 (m, s) = Some (r, (m1, s1))" "touches {a..<a + n} m m1"
      "stream_ok k s1" "is_left s1 \<le> is_left s" "\<And>x. r = Some x \<Longrightarrow> ?I m1 \<and> at_table fds a (fst x) \<and> length (snd x) = 2"
      by blast
    show "\<exists>r m' s'. pb_decode_noinit (Suc d) env fds a (m, s) = Some (r, (m', s')) \<and> touches {a..<a + n} m m' \<and>
        stream_ok k s' \<and> is_left s' \<le> is_left s \<and> (\<forall>x. r = Some x \<longrightarrow> ?I m')"
    proof (cases r)
      case None
      with 1 show ?thesis by (simp add: noinit_body_def)
    next
      case (Some x)
      note x = 1(5) [OF Some]
      have D: "D \<subseteq> dom m1" using a(1) 1(2) touches_dom by blast
      have fin: "safe D {a..<a + n} ?I (finish_message (fst x) (snd x) :: (unit, 's dstate) call) (\<lambda>_. ?I)"
        unfolding finish_required [OF wf conjunct1 [OF conjunct2 [OF x]]]
        by (rule safe_check_required [OF req]) (use x in simp)
      from safeD [OF fin D conjunct1 [OF x] 1(3)] obtain r2 m2 s2 where f: "finish_message (fst x) (snd x) (m1, s1) = Some (r2, (m2, s2))" "touches {a..<a + n} m1 m2"
        "stream_ok k s2" "is_left s2 \<le> is_left s1" "\<And>y. r2 = Some y \<Longrightarrow> ?I m2" by metis
      have "pb_decode_noinit (Suc d) env fds a (m, s) = Some (r2, (m2, s2))"
        using 1(1) Some f(1) by (simp add: noinit_body_def)
      moreover have "is_left s2 \<le> is_left s" using f(4) 1(4) by simp
      ultimately show ?thesis using f(3,5) touches_trans [OF 1(2) f(2)] by blast
    qed
  qed
qed simp

lemma safe_decode:
  fixes env :: "'s pb_dec_env"
  assumes "wf_table d n fds" "{a..<a + n} \<subseteq> D"
  shows "safe D {a..<a + n} (\<lambda>_. True) (pb_decode d env fds a) (\<lambda>_ m. typed d m fds a)"
  unfolding pb_decode_def
proof (rule safe_bind [OF safe_on_mem safe_noinit [OF assms]])
  show "sets {a..<a + n} (pb_message_set_to_defaults d (d_field env) fds a) (\<lambda>m. typed d m fds a) m" if "D \<subseteq> dom m" for m
    by (rule sets_defaults [OF assms(1)]) (use assms(2) that in blast)
qed

section \<open>Properties\<close>

text \<open>C6. The decoder of nanopb is type safe.  For a table that describes a struct of \<open>n\<close> bytes at \<open>a\<close> and
  any stream, whatever its bytes: \<open>pb_decode\<close> and \<open>pb_decode_delimited\<close> return (no access outside
  the memory, no loop without end), write only to the struct, never give bytes back to the stream, and if they
  return \<open>true\<close> the struct holds a message of the type: every stored byte array fits its field, every string
  has a terminator inside its field, every counter is at most the size of its array, the member that
  is selected in a union was initialised, and so on in all nested messages.
\<close>

theorem pb_decode_type_safe:
  fixes env :: "'s pb_dec_env" and m :: pbmem
  assumes table: "wf_table d n fds" and struct: "{a..<a + n} \<subseteq> dom m" and stream: "stream_ok k s"
    and call: "p = pb_decode d env fds a \<or> p = pb_decode_delimited d env fds a"
  shows "\<exists>r m' s'. p (m, s) = Some (r, (m', s')) \<and> touches {a..<a + n} m m' \<and> is_left s' \<le> is_left s \<and>
    (r = Some () \<longrightarrow> typed d m' fds a)"
proof -
  have "safe {a..<a + n} {a..<a + n} (\<lambda>_. True) p (\<lambda>_ m. typed d m fds a)"
    using call safe_decode [OF table order_refl] safe_substream [OF safe_decode [OF table order_refl]]
    unfolding pb_decode_delimited_def by blast
  from safeD [OF this struct TrueI stream] show ?thesis by metis
qed

text \<open>
  A message with a number, an optional name, an array, a nested message and a union of a number and a
  short string: \<open>struct { int32_t id; bool has_name; char name[8]; pb_size_t values_count; uint32_t
  values[3]; struct { int32_t x; } sub; pb_size_t which_u; union { int32_t a; char b[4]; } u; }\<close>.
\<close>

definition demo_table :: "pb_field list" where
  "demo_table =
    [Field 1 0x00 0 0 4 0 Null,
     Field 2 0x16 1 (- 1) 8 0 Null,
     Field 3 0x21 7 (- 4) 4 3 Null,
     Field 4 0x07 0 0 4 0 (Fields [Field 1 0x00 0 0 4 0 (Default [42, 0, 0, 0])]),
     Field 5 0x30 4 (- 4) 4 0 Null,
     Field 6 0x36 PB_SIZE_MAX (- 4) 4 0 Null]"

definition demo_memory :: pbmem where
  "demo_memory x = (if x < 44 then Some 0xFF else None)"

definition demo_env :: "unit pb_dec_env" where
  "demo_env = \<lparr>d_decode = \<lambda>_ _ _. cret (), d_ext_decode = \<lambda>_ _ _ _. cret (), d_field = \<lambda>_. None\<rparr>"

definition demo_input :: "unit pb_istream" where
  "demo_input = pb_istream_from_buffer [0x08, 0x96, 0x01, 0x12, 0x02, 0x68, 0x69, 0x1A, 0x02, 0x05, 0x07, 0x22, 0x02, 0x08, 0x03, 0x32, 0x01, 0x7A] 18"

lemma demo_wf: "wf_table 2 44 demo_table"
  by code_simp

lemma demo_mapped: "{0..<0 + 44} \<subseteq> dom demo_memory"
  by (auto simp: demo_memory_def split: if_splits)

lemma demo_stream: "stream_ok 0 demo_input"
  by (simp add: stream_ok_def demo_input_def pb_istream_from_buffer_def)

lemma demo_decodes: "map_option fst (pb_decode 2 demo_env demo_table 0 (demo_memory, demo_input)) = Some (Some ())"
  by code_simp

lemma pb_decode_type_safe_witness:
  "\<exists>m' s'. pb_decode 2 demo_env demo_table 0 (demo_memory, demo_input) = Some (Some (), (m', s')) \<and>
     touches {0..<0 + 44} demo_memory m' \<and> typed 2 m' demo_table 0"
proof -
  from pb_decode_type_safe [OF demo_wf demo_mapped demo_stream disjI1 [OF refl], where env = demo_env] demo_decodes
  show ?thesis by fastforce
qed

end
