(* ===== verification/Pb_Item.thy ===== *)
theory Pb_Item
  imports Pb_Layout Pb_Encode
begin

text \<open>
  The encoding the protocol buffer format prescribes for the fields and messages of a table, as
  functions of the bytes of the struct, and the encoders of single items against it.
\<close>

section \<open>The reference encoding\<close>

definition bytes_at :: "pbmem \<Rightarrow> nat \<Rightarrow> nat \<Rightarrow> bytes" where
  "bytes_at m p n = map (\<lambda>i. the (m (p + i))) [0..<n]"

text \<open>Signed numbers are little endian in two's complement.\<close>

definition signed_val :: "bytes \<Rightarrow> int" where
  "signed_val b = (if 2 * le_val b < 256 ^ length b then int (le_val b) else int (le_val b) - 256 ^ length b)"

definition item_bytes :: "(pb_field list \<Rightarrow> nat \<Rightarrow> bytes) \<Rightarrow> pbmem \<Rightarrow> pb_field \<Rightarrow> nat \<Rightarrow> bytes" where
  "item_bytes sub m f p =
     (let t = PB_LTYPE (fd_type f); b = bytes_at m p (fd_data_size f); prefixed = (\<lambda>xs. leb128 (length xs) @ xs) in
      if t = PB_LTYPE_VARINT then leb128 (nat (signed_val b mod 2 ^ 64))
      else if t = PB_LTYPE_UVARINT then leb128 (le_val b)
      else if t = PB_LTYPE_SVARINT then leb128 (nat (if signed_val b < 0 then - 2 * signed_val b - 1 else 2 * signed_val b))
      else if t = PB_LTYPE_FIXED32 \<or> t = PB_LTYPE_FIXED64 then b
      else if t = PB_LTYPE_BYTES then prefixed (bytes_at m (p + 4) (le_val (take 4 b)))
      else if t = PB_LTYPE_STRING then prefixed (takeWhile (\<lambda>c. c \<noteq> 0) b)
      else if t = PB_LTYPE_SUBMESSAGE then (case fd_ptr f of Fields g \<Rightarrow> prefixed (sub g p) | _ \<Rightarrow> [])
      else prefixed b)"

definition key_bytes :: "nat \<Rightarrow> pb_field \<Rightarrow> bytes" where
  "key_bytes wire f = leb128 (8 * unat (fd_tag f) + wire)"

definition item_wire :: "pb_field \<Rightarrow> nat" where
  "item_wire f =
     (let t = PB_LTYPE (fd_type f) in
      if t \<le> PB_LTYPE_SVARINT then 0 else if t = PB_LTYPE_FIXED32 then 5 else if t = PB_LTYPE_FIXED64 then 1 else 2)"

text \<open>The default values of proto3: zeros, no bytes, messages with nothing but such fields.\<close>

definition zero_item :: "(pb_field list \<Rightarrow> nat \<Rightarrow> bool) \<Rightarrow> pbmem \<Rightarrow> pb_field \<Rightarrow> nat \<Rightarrow> bool" where
  "zero_item sub m f p =
     (let t = PB_LTYPE (fd_type f) in
      if t = PB_LTYPE_BYTES then le_val (bytes_at m p 4) = 0
      else if t = PB_LTYPE_STRING then m p = Some 0
      else if t = PB_LTYPE_FIXED_LENGTH_BYTES then fd_data_size f = 0
      else if t = PB_LTYPE_SUBMESSAGE then (\<exists>g. fd_ptr f = Fields g \<and> sub g p)
      else \<forall>i<fd_data_size f. m (p + i) = Some 0)"

primrec zero_message :: "nat \<Rightarrow> pbmem \<Rightarrow> pb_field list \<Rightarrow> nat \<Rightarrow> bool" where
  "zero_message 0 m fds a = True"
| "zero_message (Suc d) m fds a \<longleftrightarrow> (\<forall>(f, p, q)\<in>set (layout fds a). zero_item (zero_message d m) m f p)"

definition field_bytes ::
  "(pb_field list \<Rightarrow> nat \<Rightarrow> bytes) \<Rightarrow> (pb_field list \<Rightarrow> nat \<Rightarrow> bool) \<Rightarrow> pbmem \<Rightarrow> pb_field \<times> nat \<times> nat \<Rightarrow> bytes" where
  "field_bytes sub zero m x =
     (case x of (f, p, q) \<Rightarrow>
        let h = PB_HTYPE (fd_type f);
            one = (\<lambda>p. key_bytes (item_wire f) f @ item_bytes sub m f p);
            places = map (\<lambda>k. p + fd_data_size f * k) [0..<le_val (bytes_at m q 4)];
            packed = concat (map (item_bytes sub m f) places) in
        if h = PB_HTYPE_REQUIRED then one p
        else if h = PB_HTYPE_OPTIONAL then
          (if (if fd_size_offset f = 0 then zero_item zero m f p else m q = Some 0) then [] else one p)
        else if h = PB_HTYPE_REPEATED then
          (if PB_LTYPE (fd_type f) \<le> PB_LTYPE_LAST_PACKABLE
           then (if places = [] then [] else key_bytes 2 f @ leb128 (length packed) @ packed)
           else concat (map one places))
        else if le_val (bytes_at m q 4) = unat (fd_tag f) then one p else [])"

primrec message_bytes :: "nat \<Rightarrow> pbmem \<Rightarrow> pb_field list \<Rightarrow> nat \<Rightarrow> bytes" where
  "message_bytes 0 m fds a = []"
| "message_bytes (Suc d) m fds a =
     concat (map (field_bytes (message_bytes d m) (zero_message d m) m) (layout fds a))"

section \<open>Numbers\<close>

lemma sint_cases:
  fixes w :: "'a::len word"
  shows "sint w = (if 2 * unat w < 2 ^ LENGTH('a) then int (unat w) else int (unat w) - 2 ^ LENGTH('a))"
proof -
  obtain n where n: "LENGTH('a) = Suc n" by (metis len_not_eq_0 not0_implies_Suc)
  have u: "0 \<le> uint w" "uint w < 2 * 2 ^ n" using unsigned_less [of w, where 'a = int] n by simp_all
  have "sint w = take_bit (Suc n) (uint w) - 2 ^ Suc n * of_bool (bit (uint w) n)"
    by (simp add: sint_uint n signed_take_bit_eq_take_bit_minus)
  also have "take_bit (Suc n) (uint w) = uint w" using u by (intro take_bit_int_eq_self) simp_all
  finally have s: "sint w = uint w - 2 ^ Suc n * of_bool (bit (uint w) n)" .
  have b: "bit (uint w) n \<longleftrightarrow> 2 ^ n \<le> uint w"
  proof (cases "2 ^ n \<le> uint w")
    case True
    then have "uint w div 2 ^ n = 1" using u by (intro int_div_pos_eq [where r = "uint w - 2 ^ n"]) simp_all
    then show ?thesis using True by (simp add: bit_iff_odd)
  next
    case False
    then have "uint w div 2 ^ n = 0" using u by simp
    then show ?thesis using False by (simp only: bit_iff_odd) simp
  qed
  have "2 * unat w < 2 ^ LENGTH('a) \<longleftrightarrow> unat w < 2 ^ n" by (simp add: n)
  also have "\<dots> \<longleftrightarrow> int (unat w) < int (2 ^ n)" by (rule of_nat_less_iff [symmetric])
  also have "\<dots> \<longleftrightarrow> \<not> 2 ^ n \<le> uint w" unfolding uint_nat of_nat_power of_nat_numeral not_le ..
  finally have e: "2 * unat w < 2 ^ LENGTH('a) \<longleftrightarrow> \<not> 2 ^ n \<le> uint w" .
  have "int (unat w) = uint w" by simp
  then show ?thesis using s b unfolding e by (cases "2 ^ n \<le> uint w") (simp_all add: n)
qed


lemma unat_of_int_u64: "unat (word_of_int k :: u64) = nat (k mod 2 ^ 64)"
proof -
  have "uint (word_of_int k :: u64) = k mod 2 ^ 64" by (simp add: uint_word_of_int)
  then show ?thesis by (metis nat_uint_eq)
qed

lemma unat_bytes:
  assumes "LENGTH('a::len) = 8 * length b"
  shows "unat (word_of_nat (le_val b) :: 'a word) = le_val b"
  using le_val_bound [of b] by (simp add: unsigned_of_nat take_bit_nat_eq_self assms power_mult)

lemma sint_bytes:
  assumes "LENGTH('a::len) = 8 * length b"
  shows "sint (word_of_nat (le_val b) :: 'a word) = signed_val b"
proof -
  have p: "2 ^ LENGTH('a) = (256 ^ length b :: nat)" by (simp add: assms power_mult)
  have q: "2 ^ LENGTH('a) = (256 ^ length b :: int)" by (simp add: assms power_mult)
  have "unat (word_of_nat (le_val b) :: 'a word) = le_val b"
    by (rule unat_bytes [OF assms])
  then show ?thesis by (simp add: sint_cases p q signed_val_def)
qed

lemma scast_signed: "(scast (w :: 'a::len word) :: u64) = word_of_int (sint w)"
  by (rule scast_eq)

lemma read_signed:
  assumes "length b \<in> {1, 2, 4, 8}"
  shows "read_signed b = word_of_int (signed_val b)"
proof -
  consider "length b = 1" | "length b = 2" | "length b = 4" | "length b = 8" using assms by auto
  then show ?thesis
  proof cases
    case 4
    then have "word_of_int (sint (word_of_nat (le_val b) :: u64)) = (word_of_int (signed_val b) :: u64)"
      using sint_bytes [of b, where 'a = 64] by simp
    then show ?thesis using 4 by (simp add: read_signed_def)
  qed (simp_all add: read_signed_def scast_signed sint_bytes)
qed

lemma zigzag_val:
  assumes "length b \<in> {1, 2, 4, 8}"
  shows "unat (zigzag (read_signed b)) = nat (if signed_val b < 0 then - 2 * signed_val b - 1 else 2 * signed_val b)"
proof -
  let ?v = "signed_val b"
  have r: "- (2 ^ 63) \<le> ?v \<and> ?v < 2 ^ 63"
  proof -
    have N: "(256 :: int) ^ length b \<le> 2 ^ 64" using assms by auto
    have L: "int (le_val b) < 256 ^ length b" using le_val_bound [of b] by (metis of_nat_less_iff of_nat_power of_nat_numeral)
    have "2 * le_val b < 256 ^ length b \<longleftrightarrow> int (2 * le_val b) < int (256 ^ length b)" by (rule of_nat_less_iff [symmetric])
    also have "\<dots> \<longleftrightarrow> 2 * int (le_val b) < 256 ^ length b" by simp
    finally have c: "2 * le_val b < 256 ^ length b \<longleftrightarrow> 2 * int (le_val b) < 256 ^ length b" .
    define x N :: int where "x = int (le_val b)" and "N = 256 ^ length b"
    have "0 \<le> x" "x < N" "N \<le> 2 ^ 64" using N L by (simp_all add: x_def N_def)
    then have "- (2 ^ 63) \<le> (if 2 * x < N then x else x - N) \<and> (if 2 * x < N then x else x - N) < 2 ^ 63" by auto
    then show ?thesis unfolding signed_val_def c x_def N_def .
  qed
  then have s: "sint (read_signed b) = ?v"
    by (simp add: read_signed [OF assms] signed_of_int signed_take_bit_int_eq_self)
  have p1: "(push_bit 1 (word_of_int ?v) :: u64) = word_of_int (2 * ?v)" by (simp add: push_bit_eq_mult)
  have p2: "NOT (word_of_int (2 * ?v) :: u64) = word_of_int (- 2 * ?v - 1)" by (simp add: not_eq_complement)
  have "zigzag (read_signed b) = word_of_int (if ?v < 0 then - 2 * ?v - 1 else 2 * ?v)"
    unfolding zigzag_def s unfolding read_signed [OF assms] p1 p2 by (rule if_distrib [symmetric])
  moreover have "(if ?v < 0 then - 2 * ?v - 1 else 2 * ?v) mod 2 ^ 64 = (if ?v < 0 then - 2 * ?v - 1 else 2 * ?v)"
    using r by (intro mod_pos_pos_trivial) auto
  ultimately show ?thesis by (simp only: unat_of_int_u64)
qed

lemma le_bytes_places: "le_bytes k n = map (\<lambda>i. word_of_nat (n div 256 ^ i)) [0..<k]"
  by (induction k) (simp_all add: le_bytes_snoc del: le_bytes.simps(2))

lemma fixed_bytes:
  "length b = 4 \<Longrightarrow> fixed32_bytes (word_of_nat (le_val b)) = b"
  "length b = 8 \<Longrightarrow> fixed64_bytes (word_of_nat (le_val b)) = b"
proof -
  have piece: "(ucast (drop_bit k (v :: 'a::len word) AND 0xFF) :: u8) = word_of_nat (unat v div 2 ^ k)" for k v
    unfolding ff_mask
  proof (rule word_unat_eq_iff [THEN iffD2])
    have "unat (drop_bit k v AND mask 8) = take_bit 8 (unat (drop_bit k v))"
      by (simp only: take_bit_eq_mask [symmetric] unsigned_take_bit_eq)
    then show "unat (ucast (drop_bit k v AND mask 8) :: u8) = unat (word_of_nat (unat v div 2 ^ k) :: u8)"
      by (simp add: unsigned_ucast_eq unsigned_of_nat unat_drop_bit)
  qed
  show "fixed32_bytes (word_of_nat (le_val b)) = b" if "length b = 4"
  proof -
    have "fixed32_bytes v = le_bytes 4 (unat v)" for v
      unfolding fixed32_bytes_def list.map piece le_bytes_places by (simp add: upt_rec)
    then show ?thesis using unat_bytes [of b, where 'a = 32] le_bytes_le_val [of b] that by simp
  qed
  show "fixed64_bytes (word_of_nat (le_val b)) = b" if "length b = 8"
  proof -
    have "fixed64_bytes v = le_bytes 8 (unat v)" for v
      unfolding fixed64_bytes_def list.map piece le_bytes_places by (simp add: upt_rec)
    then show ?thesis using unat_bytes [of b, where 'a = 64] le_bytes_le_val [of b] that by simp
  qed
qed

section \<open>Encoding one item\<close>

lemma length_bytes_at [simp]: "length (bytes_at m p n) = n"
  by (simp add: bytes_at_def)

lemma load_bytes_at: "{p..<p + n} \<subseteq> dom m \<Longrightarrow> load m p n = Some (bytes_at m p n)"
  by (simp add: load_mapped bytes_at_def)

lemma take_bytes_at: "k \<le> n \<Longrightarrow> take k (bytes_at m p n) = bytes_at m p k"
  by (simp add: bytes_at_def take_map)

lemma emits_eq:
  assumes "emits q xs"
    and "\<And>s. os_callback s = None \<and> os_written s < SIZE_LIMIT \<or> os_callback s = Some buf_write \<Longrightarrow> p s = q s"
  shows "emits p xs"
  unfolding emits_def
proof (intro conjI allI impI, goal_cases)
  case (1 s)
  then show ?case using assms(1) [unfolded emits_def, THEN conjunct1, rule_format, of s] assms(2) [of s] by simp
next
  case (2 s)
  then have "p s = q s" by (simp add: assms(2))
  show ?case unfolding \<open>p s = q s\<close> by (rule assms(1) [unfolded emits_def, THEN conjunct2, rule_format, OF 2])
qed

lemma emits_prefixed:
  "emits q xs \<Longrightarrow> length xs < 2 ^ 63 \<Longrightarrow>
    emits (cbind (pb_encode_varint (word_of_nat (length xs))) (\<lambda>_. q)) (leb128 (length xs) @ xs)"
  using emits_bind [OF emits_varint [of "word_of_nat (length xs)"], of "\<lambda>_. q" xs]
  by (simp add: unsigned_of_nat take_bit_nat_eq_self)

lemma sizing_varint:
  fixes s :: "bytes pb_ostream"
  shows "os_callback s = None \<Longrightarrow> os_written s < SIZE_LIMIT \<Longrightarrow>
    pb_encode_varint v s = Some (Some (), s\<lparr>os_written := sz (os_written s + length (leb128 (unat v)))\<rparr>)"
  by (rule emits_sizing [OF emits_varint])

lemma emits_enc_buffer:
  assumes "{a..<a + n} \<subseteq> dom m" "n < 2 ^ 63"
  shows "emits (enc_buffer m a n) (leb128 n @ bytes_at m a n)"
proof (rule emits_eq)
  show "emits (pb_encode_string (Some (bytes_at m a n)) n) (leb128 n @ bytes_at m a n)"
    by (rule emits_string) (use assms in simp_all)
  fix s :: "bytes pb_ostream"
  assume "os_callback s = None \<and> os_written s < SIZE_LIMIT \<or> os_callback s = Some buf_write"
  then show "enc_buffer m a n s = pb_encode_string (Some (bytes_at m a n)) n s"
    using assms by (auto simp: enc_buffer_def mload_def load_bytes_at pb_encode_string_def sizing_varint pb_write_def cbind_def)
qed

lemma string_size_take:
  "{p..<p + n} \<subseteq> dom m \<Longrightarrow> string_size m p len (len + n) = Some (len + length (takeWhile (\<lambda>c. c \<noteq> 0) (bytes_at m p n)))"
proof (induction n arbitrary: p len)
  case 0
  then show ?case by (subst string_size.simps) (simp add: bytes_at_def)
next
  case (Suc n)
  from Suc.prems have "m p \<noteq> None" using dom_at [of p "Suc n" m 0] by simp
  then obtain c where c: "m p = Some c" by blast
  have "{p + 1..<p + 1 + n} \<subseteq> dom m" using Suc.prems by (rule subset_trans [rotated]) auto
  then have r: "string_size m (p + 1) (len + 1) (len + 1 + n) = Some (len + 1 + length (takeWhile (\<lambda>c. c \<noteq> 0) (bytes_at m (p + 1) n)))"
    by (rule Suc.IH)
  have "bytes_at m p (Suc n) = c # bytes_at m (p + 1) n"
    by (intro nth_equalityI) (auto simp: bytes_at_def c nth_Cons simp del: upt_Suc split: nat.split)
  then show ?case using c r by (subst string_size.simps) simp
qed

lemma emits_enc_string:
  assumes "{p..<p + fd_data_size f} \<subseteq> dom m" "0 < p" "PB_ATYPE (fd_type f) = PB_ATYPE_STATIC"
    and "length (takeWhile (\<lambda>c. c \<noteq> 0) (bytes_at m p (fd_data_size f))) < 2 ^ 63"
  shows "emits (pb_enc_string m f p)
    (let xs = takeWhile (\<lambda>c. c \<noteq> 0) (bytes_at m p (fd_data_size f)) in leb128 (length xs) @ xs)"
proof -
  let ?xs = "takeWhile (\<lambda>c. c \<noteq> 0) (bytes_at m p (fd_data_size f))"
  have le: "length ?xs \<le> fd_data_size f" using length_takeWhile_le [of "\<lambda>c. c \<noteq> 0" "bytes_at m p (fd_data_size f)"] by simp
  have "emits (enc_buffer m p (length ?xs)) (leb128 (length ?xs) @ bytes_at m p (length ?xs))"
    using assms(1) le by (intro emits_enc_buffer [OF _ assms(4)]) (rule subset_trans [rotated], assumption, auto)
  moreover have b: "bytes_at m p (length ?xs) = ?xs"
    unfolding take_bytes_at [OF le, symmetric] by (rule takeWhile_eq_take [symmetric])
  moreover have "(pb_enc_string m f p :: (unit, bytes pb_ostream) call) = enc_buffer m p (length ?xs)"
    using assms(2,3) string_size_take [OF assms(1), of 0] by (simp add: pb_enc_string_def)
  ultimately show ?thesis by (simp only: Let_def)
qed

lemma emits_enc_bytes:
  assumes "{p..<p + fd_data_size f} \<subseteq> dom m" "0 < p" "4 \<le> fd_data_size f"
    and "le_val (bytes_at m p 4) + 4 \<le> fd_data_size f" "le_val (bytes_at m p 4) < 2 ^ 63"
  shows "emits (pb_enc_bytes m f p) (leb128 (le_val (bytes_at m p 4)) @ bytes_at m (p + 4) (le_val (bytes_at m p 4)))"
proof -
  let ?n = "le_val (bytes_at m p 4)"
  have "{p..<p + 4} \<subseteq> dom m" by (rule subset_trans [OF _ assms(1)]) (use assms(3) in auto)
  then have e: "(pb_enc_bytes m f p :: (unit, bytes pb_ostream) call) = enc_buffer m (p + 4) ?n"
    using assms(2,4) by (simp add: pb_enc_bytes_def mload_def load_bytes_at PB_BYTES_ARRAY_T_ALLOCSIZE_def Let_def)
  have "{p + 4..<p + 4 + ?n} \<subseteq> dom m" by (rule subset_trans [OF _ assms(1)]) (use assms(4) in auto)
  then show ?thesis unfolding e by (rule emits_enc_buffer [OF _ assms(5)])
qed

lemma emits_submessage:
  assumes e: "emits (enc g p) xs" and n: "length xs < 2 ^ 63"
  shows "emits (pb_encode_submessage enc g p) (leb128 (length xs) @ xs)"
proof -
  define q where "q s = (if os_callback s = None then pb_write None (length xs) s
            else if sz (os_written s + length xs) > os_max s then os_error Stream_full s
            else
              (case enc g p \<lparr>os_callback = os_callback s, os_state = os_state s, os_max = length xs, os_written = 0,
                                 os_err = None\<rparr> of
                 None \<Rightarrow> None
               | Some (status, substream) \<Rightarrow>
                   let s = s\<lparr>os_written := sz (os_written s + os_written substream), os_state := os_state substream,
                             os_err := os_err substream\<rparr>
                   in if os_written substream \<noteq> length xs then os_error Submsg_size_changed s
                      else Some (status, s)))" for s :: "bytes pb_ostream"
  have "emits q xs"
    unfolding emits_def
  proof (intro conjI allI impI, goal_cases)
    case (1 s)
    then show ?case by (simp add: q_def pb_write_def)
  next
    case (2 s)
    have sz: "sz (os_written s + length xs) = os_written s + length xs"
      using 2 n by (intro sz_id) (simp add: SIZE_LIMIT_def)
    let ?t = "\<lparr>os_callback = os_callback s, os_state = os_state s, os_max = length xs, os_written = 0, os_err = None\<rparr>"
    show ?case
    proof (cases "os_written s + length xs \<le> os_max s")
      case True
      have "enc g p ?t = Some (Some (), ?t\<lparr>os_state := os_state ?t @ xs, os_written := os_written ?t + length xs\<rparr>)"
        by (rule emits_room [OF e]) (use 2 n in simp_all)
      then show ?thesis using True 2 sz by (simp add: q_def)
    next
      case False
      then have "q s = Some (None, s\<lparr>os_state := os_state s @ take 0 xs, os_written := os_written s + 0, os_err := Some Stream_full\<rparr>)"
        using 2 sz by (simp add: q_def os_error_def)
      moreover have "0 < length xs" using False 2 by linarith
      ultimately show ?thesis using False 2 by (metis add.right_neutral)
    qed
  qed
  from emits_prefixed [OF this n] show ?thesis
  proof (rule emits_eq)
    fix s :: "bytes pb_ostream"
    have "sz (length xs) = length xs" using n by (intro sz_id) (simp add: SIZE_LIMIT_def)
    then obtain u where "enc g p (pb_ostream_sizing (os_state s)) = Some (Some (), u)" "os_written u = length xs"
      using emits_sizing [OF e, of "pb_ostream_sizing (os_state s)"] by (auto simp: pb_ostream_sizing_def SIZE_LIMIT_def)
    then show "pb_encode_submessage enc g p s = cbind (pb_encode_varint (word_of_nat (length xs))) (\<lambda>_. q) s"
      by (simp only: pb_encode_submessage_def q_def [abs_def] Let_def option.case prod.case)
  qed
qed

lemma emits_key:
  assumes "unat wt < 8"
  shows "emits (pb_encode_tag wt (fd_tag f)) (key_bytes (unat wt) f)"
proof -
  have "unat (ucast wt :: u64) < 2 ^ 3" using assms by (simp add: unat_ucast_u64)
  moreover have "unat (ucast (fd_tag f) :: u64) < 2 ^ 32"
    using unsigned_less [of "fd_tag f", where 'a = nat] by (simp add: unat_ucast_u64)
  ultimately have "unat (push_bit 3 (ucast (fd_tag f)) OR ucast wt :: u64) = unat (ucast (fd_tag f) :: u64) * 2 ^ 3 + unat (ucast wt :: u64)"
    by (rule unat_or_push) simp
  then show ?thesis using emits_varint [of "push_bit 3 (ucast (fd_tag f)) OR ucast wt"]
    by (simp add: pb_encode_tag_def key_bytes_def unat_ucast_u64 mult.commute)
qed

lemma emits_tag_for_field:
  assumes "field_ok sub f"
  shows "emits (pb_encode_tag_for_field f) (key_bytes (item_wire f) f)"
  by (rule ltype_cases [OF assms])
    (use emits_key [of 0 f] emits_key [of 1 f] emits_key [of 2 f] emits_key [of 5 f] in
      \<open>simp_all add: pb_encode_tag_for_field_def item_wire_def word_le_nat_alt\<close>)

lemma emits_item:
  assumes ok: "field_ok (wf_table d) f" "PB_ATYPE (fd_type f) = PB_ATYPE_STATIC"
    and p: "0 < p" "{p..<p + fd_data_size f} \<subseteq> dom m" and ty: "typed_item ty m f p"
    and len: "length (item_bytes sub m f p) < 2 ^ 63"
    and sub: "\<And>g. fd_ptr f = Fields g \<Longrightarrow> wf_table d (fd_data_size f) g \<Longrightarrow> ty g p \<Longrightarrow> length (sub g p) < 2 ^ 63 \<Longrightarrow> emits (enc g p) (sub g p)"
  shows "emits (PB_ENCODERS enc m f p) (item_bytes sub m f p)"
proof -
  let ?n = "fd_data_size f" and ?b = "bytes_at m p (fd_data_size f)"
  have load: "load m p ?n = Some ?b" by (rule load_bytes_at [OF p(2)])
  have num: "?n \<in> {1, 2, 4, 8}" if "PB_LTYPE (fd_type f) \<in> {0, 1, 2}" using ok that by (auto simp: field_ok_def Let_def)
  show ?thesis
  proof (rule ltype_cases [OF ok(1)])
    assume t: "PB_LTYPE (fd_type f) = 0"
    have "emits (pb_encode_varint (read_signed ?b)) (leb128 (unat (read_signed ?b)))" by (rule emits_varint)
    moreover have "unat (read_signed ?b) = nat (signed_val ?b mod 2 ^ 64)"
      using num t by (subst read_signed) (auto simp: unat_of_int_u64)
    ultimately show ?thesis using t num load by (simp add: PB_ENCODERS_def pb_enc_varint_def mload_def item_bytes_def Let_def)
  next
    assume t: "PB_LTYPE (fd_type f) = 1"
    have "le_val ?b < 2 ^ 64"
    proof -
      have "le_val ?b < 256 ^ ?n" using le_val_bound [of ?b] by simp
      also have "(256 :: nat) ^ ?n \<le> 2 ^ 64" using num t by auto
      finally show ?thesis .
    qed
    then have "unat (word_of_nat (le_val ?b) :: u64) = le_val ?b" by (simp add: unsigned_of_nat take_bit_nat_eq_self)
    then have "emits (pb_encode_varint (word_of_nat (le_val ?b))) (leb128 (le_val ?b))" using emits_varint [of "word_of_nat (le_val ?b)"] by simp
    then show ?thesis using t num load by (simp add: PB_ENCODERS_def pb_enc_uvarint_def mload_def item_bytes_def Let_def)
  next
    assume t: "PB_LTYPE (fd_type f) = 2"
    have z: "unat (zigzag (read_signed ?b)) = nat (if signed_val ?b < 0 then - 2 * signed_val ?b - 1 else 2 * signed_val ?b)"
      by (rule zigzag_val) (use num t in simp)
    have "emits (pb_encode_svarint (read_signed ?b)) (leb128 (nat (if signed_val ?b < 0 then - 2 * signed_val ?b - 1 else 2 * signed_val ?b)))"
      using emits_svarint [of "read_signed ?b"] unfolding z .
    then show ?thesis using t num load by (simp add: PB_ENCODERS_def pb_enc_svarint_def mload_def item_bytes_def Let_def)
  next
    assume t: "PB_LTYPE (fd_type f) = 3"
    then have n: "?n = 4" using ok by (simp add: field_ok_def Let_def)
    then show ?thesis using t load emits_fixed32 [of "word_of_nat (le_val ?b)"] fixed_bytes(1) [of ?b]
      by (simp add: PB_ENCODERS_def pb_enc_fixed32_def mload_def item_bytes_def Let_def)
  next
    assume t: "PB_LTYPE (fd_type f) = 4"
    then have n: "?n = 8" using ok by (simp add: field_ok_def Let_def)
    then show ?thesis using t load emits_fixed64 [of "word_of_nat (le_val ?b)"] fixed_bytes(2) [of ?b]
      by (simp add: PB_ENCODERS_def pb_enc_fixed64_def mload_def item_bytes_def Let_def)
  next
    assume t: "PB_LTYPE (fd_type f) = 5"
    then have n: "4 \<le> ?n" using ok by (simp add: field_ok_def Let_def)
    have "load m p 4 = Some (bytes_at m p 4)" by (rule load_bytes_at, rule subset_trans [OF _ p(2)]) (use n in auto)
    then have le: "le_val (bytes_at m p 4) + 4 \<le> ?n" using ty t by (simp add: typed_item_def)
    moreover have "le_val (bytes_at m p 4) < 2 ^ 63" using le_val_bound [of "bytes_at m p 4"] by simp
    ultimately show ?thesis using emits_enc_bytes [OF p(2,1) n] t n
      by (simp add: PB_ENCODERS_def item_bytes_def take_bytes_at Let_def)
  next
    assume t: "PB_LTYPE (fd_type f) = 6"
    then have "length (takeWhile (\<lambda>c. c \<noteq> 0) ?b) < 2 ^ 63" using len by (simp add: item_bytes_def Let_def)
    from emits_enc_string [OF p(2,1) ok(2) this] show ?thesis using t by (simp add: PB_ENCODERS_def item_bytes_def Let_def)
  next
    assume t: "PB_LTYPE (fd_type f) = 7"
    then obtain g where g: "fd_ptr f = Fields g" "wf_table d ?n g" "ty g p"
      using ok ty by (auto simp: field_ok_def typed_item_def Let_def)
    then have "length (sub g p) < 2 ^ 63" using len t by (simp add: item_bytes_def Let_def)
    from emits_submessage [where enc = enc, OF sub [OF g this] this] show ?thesis
      using t g by (simp add: PB_ENCODERS_def pb_enc_submessage_def item_bytes_def Let_def)
  next
    assume t: "PB_LTYPE (fd_type f) = 9"
    then have "?n < 2 ^ 63" using len by (simp add: item_bytes_def Let_def)
    from emits_enc_buffer [OF p(2) this] show ?thesis
      using t by (simp add: PB_ENCODERS_def pb_enc_fixed_length_bytes_def item_bytes_def Let_def)
  qed
qed

text \<open>Several items one after the other.\<close>

lemma emits_items:
  assumes "\<And>k. k < n \<Longrightarrow> emits (func (p + z * k)) (g (p + z * k))"
  shows "emits (encode_items func z n p) (concat (map (\<lambda>k. g (p + z * k)) [0..<n]))"
  using assms
proof (induction n arbitrary: p)
  case 0
  then show ?case by (simp add: emits_ret)
next
  case (Suc n)
  have "emits (encode_items func z n (p + z)) (concat (map (\<lambda>k. g (p + z + z * k)) [0..<n]))"
    by (rule Suc.IH) (use Suc.prems [of "Suc k" for k] in \<open>simp add: add.assoc\<close>)
  from emits_bind [where q = "\<lambda>_. encode_items func z n (p + z)", OF _ this] Suc.prems [of 0]
  have "emits (encode_items func z (Suc n) p) (g p @ concat (map (\<lambda>k. g (p + z + z * k)) [0..<n]))" by simp
  also have "g p @ concat (map (\<lambda>k. g (p + z + z * k)) [0..<n]) = concat (map (\<lambda>k. g (p + z * k)) [0..<Suc n])"
    unfolding upt_conv_Cons [OF zero_less_Suc] map_Suc_upt [symmetric] by (simp add: add.assoc comp_def del: map_Suc_upt)
  finally show ?case .
qed

end
