(* ===== verification/Pb_Message.thy ===== *)
theory Pb_Message
  imports Pb_Item Pb_Safe
begin

text \<open>
  The message encoder of \<^verbatim>\<open>pb_encode.c\<close> against the reference encoding: arrays, fields that are present
  by their value, nested messages, and any room in the output.
\<close>

section \<open>Arrays\<close>

lemma concat_map_length4: "(\<And>k. k < n \<Longrightarrow> length (g k) = z) \<Longrightarrow> length (concat (map g [0..<n])) = z * n"
  by (induction n) simp_all

lemma emits_array:
  fixes p :: nat and m :: pbmem
  defines "places \<equiv> \<lambda>n f. map (\<lambda>k. p + fd_data_size f * k) [0..<n]"
  assumes ok: "field_ok (wf_table d) f" "PB_ATYPE (fd_type f) = PB_ATYPE_STATIC" and n: "n \<le> fd_array_size f"
    and items: "\<And>k. k < n \<Longrightarrow> emits (func (p + fd_data_size f * k)) (item_bytes sub m f (p + fd_data_size f * k))"
    and len: "length (concat (map (item_bytes sub m f) (places n f))) < 2 ^ 63"
  shows "emits (encode_array m f p n func)
    (if PB_LTYPE (fd_type f) \<le> PB_LTYPE_LAST_PACKABLE
     then (if places n f = [] then []
           else key_bytes 2 f @ leb128 (length (concat (map (item_bytes sub m f) (places n f)))) @
                concat (map (item_bytes sub m f) (places n f)))
     else concat (map (\<lambda>p. key_bytes (item_wire f) f @ item_bytes sub m f p) (places n f)))"
proof (cases "n = 0")
  case True
  then show ?thesis by (simp add: places_def encode_array_def emits_ret Let_def)
next
  case False
  let ?z = "fd_data_size f" and ?xs = "concat (map (item_bytes sub m f) (places n f))"
  have xs: "?xs = concat (map (\<lambda>k. item_bytes sub m f (p + ?z * k)) [0..<n])" by (simp add: places_def comp_def)
  have all: "emits (encode_items func ?z n p) ?xs" unfolding xs by (rule emits_items) (rule items)
  show ?thesis
  proof (cases "PB_LTYPE (fd_type f) \<le> PB_LTYPE_LAST_PACKABLE")
    case True
    define q where "q s = (if os_callback s = None then pb_write None (length ?xs) s else encode_items func ?z n p s)" for s :: "bytes pb_ostream"
    have "emits q ?xs"
      unfolding emits_def
    proof (intro conjI allI impI, goal_cases)
      case (1 s)
      then show ?case by (simp add: q_def pb_write_def)
    next
      case (2 s)
      then have "q s = encode_items func ?z n p s" by (simp add: q_def)
      then show ?case using all [unfolded emits_def, THEN conjunct2, rule_format, OF 2] by (simp only:)
    qed
    then have "emits (cbind (pb_encode_tag PB_WT_STRING (fd_tag f)) (\<lambda>_. cbind (pb_encode_varint (word_of_nat (length ?xs))) (\<lambda>_. q)))
        (key_bytes 2 f @ leb128 (length ?xs) @ ?xs)"
      using emits_bind [OF emits_key [of 2 f] emits_prefixed [OF _ len]] by simp
    then have "emits (encode_array m f p n func) (key_bytes 2 f @ leb128 (length ?xs) @ ?xs)"
    proof (rule emits_eq)
      fix s :: "bytes pb_ostream"
      have size: "(if PB_LTYPE (fd_type f) = PB_LTYPE_FIXED32 then Some (Some (4 * n))
                else if PB_LTYPE (fd_type f) = PB_LTYPE_FIXED64 then Some (Some (8 * n))
                else map_option (\<lambda>(r, sizestream). map_option (\<lambda>_. os_written sizestream) r)
                       (encode_items func ?z n p (pb_ostream_sizing (os_state s)))) = Some (Some (length ?xs))" for s :: "bytes pb_ostream"
      proof -
        have "sz (length ?xs) = length ?xs" using len by (intro sz_id) (simp add: SIZE_LIMIT_def)
        then have "map_option (\<lambda>(r, sizestream). map_option (\<lambda>_. os_written sizestream) r)
                       (encode_items func ?z n p (pb_ostream_sizing (os_state s))) = Some (Some (length ?xs))"
          using emits_sizing [OF all, of "pb_ostream_sizing (os_state s)"] by (simp add: pb_ostream_sizing_def SIZE_LIMIT_def)
        moreover have "length ?xs = 4 * n" if "PB_LTYPE (fd_type f) = PB_LTYPE_FIXED32"
          unfolding xs by (rule concat_map_length4) (use ok that in \<open>simp add: item_bytes_def field_ok_def Let_def\<close>)
        moreover have "length ?xs = 8 * n" if "PB_LTYPE (fd_type f) = PB_LTYPE_FIXED64"
          unfolding xs by (rule concat_map_length4) (use ok that in \<open>simp add: item_bytes_def field_ok_def Let_def\<close>)
        ultimately show ?thesis by simp
      qed
      have "encode_array m f p n func = cbind (pb_encode_tag PB_WT_STRING (fd_tag f)) (\<lambda>_ s.
          cbind (pb_encode_varint (word_of_nat (length ?xs))) (\<lambda>_ s.
                if os_callback s = None then pb_write None (length ?xs) s else encode_items func ?z n p s) s)"
        unfolding encode_array_def Let_def size using False True n ok(2) by simp
      then show "encode_array m f p n func s =
          cbind (pb_encode_tag PB_WT_STRING (fd_tag f)) (\<lambda>_. cbind (pb_encode_varint (word_of_nat (length ?xs))) (\<lambda>_. q)) s"
        by (simp only: q_def [abs_def])
    qed
    then show ?thesis using True False by (simp add: places_def)
  next
    case np: False
    have "emits (encode_items (\<lambda>p. cbind (pb_encode_tag_for_field f) (\<lambda>_. func p)) ?z n p)
        (concat (map (\<lambda>k. key_bytes (item_wire f) f @ item_bytes sub m f (p + ?z * k)) [0..<n]))"
      by (rule emits_items, rule emits_bind [OF emits_tag_for_field [OF ok(1)]]) (rule items)
    moreover have "encode_array m f p n func = encode_items (\<lambda>p. cbind (pb_encode_tag_for_field f) (\<lambda>_. func p)) ?z n p"
      using np False n ok(2) by (simp add: encode_array_def Let_def)
    ultimately show ?thesis using np by (simp add: places_def comp_def)
  qed
qed

section \<open>Tables the encoder can read\<close>

text \<open>
  The encoder takes the address of a flag or counter from the field alone, the decoder from the
  iterator: for the members of a union these must be the same.  Nothing behind pointers, no array of
  length 0.
\<close>

primrec enc_table :: "nat \<Rightarrow> pb_field list \<Rightarrow> bool" where
  "enc_table 0 fds = False"
| "enc_table (Suc d) fds \<longleftrightarrow>
     list_all (\<lambda>(f, p, q).
       let h = PB_HTYPE (fd_type f) in
       PB_ATYPE (fd_type f) = PB_ATYPE_STATIC \<and> (h = PB_HTYPE_REPEATED \<longrightarrow> 0 < fd_array_size f) \<and>
       (h = PB_HTYPE_REPEATED \<or> h = PB_HTYPE_ONEOF \<longrightarrow> fd_size_offset f \<noteq> 0) \<and>
       (h = PB_HTYPE_ONEOF \<longrightarrow> int q = int p + fd_size_offset f) \<and>
       (case fd_ptr f of Fields g \<Rightarrow> enc_table d g | _ \<Rightarrow> True)) (layout fds 0)"

lemma enc_field:
  assumes wf: "wf_table (Suc d) n fds" and enc: "enc_table (Suc d) fds" and i: "i < length fds"
  obtains f p q where "layout fds a ! i = (f, p, q)" "field_at fds i = f" "field_ok (wf_table d) f" "PB_ATYPE (fd_type f) = PB_ATYPE_STATIC"
    "{p..<p + field_extent f} \<subseteq> {a..<a + n}" "{q..<q + slot_size f} \<subseteq> {a..<a + n}" "fd_data_size f \<le> field_extent f"
    "PB_HTYPE (fd_type f) \<noteq> PB_HTYPE_REQUIRED \<longrightarrow> q = size_addr p f" "a \<le> p"
    "PB_HTYPE (fd_type f) = PB_HTYPE_REPEATED \<or> PB_HTYPE (fd_type f) = PB_HTYPE_ONEOF \<longrightarrow> fd_size_offset f \<noteq> 0"
    "\<forall>g. fd_ptr f = Fields g \<longrightarrow> enc_table d g"
proof -
  obtain p q where L: "layout fds 0 ! i = (fds ! i, p, q)" using fst_layout [OF i, of 0] by (cases "layout fds 0 ! i") auto
  let ?f = "fds ! i"
  have inside: "field_inside n (?f, p, q)" "field_ok (wf_table d) ?f" "list_all (field_inside n) (layout fds 0)"
    using wf L i by (auto simp: list_all_length)
  from layout_shift [OF this(3), of a] have La: "layout fds a ! i = (?f, a + p, a + q)" using i L by simp
  have e: "PB_ATYPE (fd_type ?f) = PB_ATYPE_STATIC" "PB_HTYPE (fd_type ?f) = PB_HTYPE_REPEATED \<longrightarrow> 0 < fd_array_size ?f"
    "PB_HTYPE (fd_type ?f) = PB_HTYPE_REPEATED \<or> PB_HTYPE (fd_type ?f) = PB_HTYPE_ONEOF \<longrightarrow> fd_size_offset ?f \<noteq> 0"
    "PB_HTYPE (fd_type ?f) = PB_HTYPE_ONEOF \<longrightarrow> int q = int p + fd_size_offset ?f" "\<forall>g. fd_ptr ?f = Fields g \<longrightarrow> enc_table d g"
    using enc i L by (auto simp: list_all_length Let_def dest!: spec [of _ i])
  have q: "a + q = size_addr (a + p) ?f"
  proof (cases "PB_HTYPE (fd_type ?f) = PB_HTYPE_ONEOF")
    case True
    then show ?thesis using e(4) by (simp add: size_addr_def)
  next
    case False
    then show ?thesis by (rule layout_size [OF i La])
  qed
  have ext: "fd_data_size ?f \<le> field_extent ?f" using e(1,2) by (auto simp: field_extent_def)
  show thesis
    by (rule that [OF La _ inside(2) e(1) _ _ ext]) (use inside(1) q e i in \<open>auto simp: field_inside_def field_at_def\<close>)
qed

section \<open>Implicit presence\<close>

lemma field_sub:
  assumes "field_ok sub f" "PB_ATYPE (fd_type f) = PB_ATYPE_STATIC" "PB_LTYPE (fd_type f) = PB_LTYPE_SUBMESSAGE"
  obtains g where "fd_ptr f = Fields g" "sub (fd_data_size f) g"
  using assms by (auto simp: field_ok_def Let_def split: pb_ptr.splits)

lemma zero_bytes_all: "{p..<p + n} \<subseteq> dom m \<Longrightarrow> zero_bytes m p n = Some (\<forall>i<n. m (p + i) = Some 0)"
proof (induction n arbitrary: p)
  case (Suc n)
  from Suc.prems have "m p \<noteq> None" using dom_at [of p "Suc n" m 0] by simp
  then obtain b where b: "m p = Some b" by blast
  have "{p + 1..<p + 1 + n} \<subseteq> dom m" using Suc.prems by (rule subset_trans [rotated]) auto
  then have "zero_bytes m (p + 1) n = Some (\<forall>i<n. m (p + 1 + i) = Some 0)" by (rule Suc.IH)
  moreover have "(\<forall>i<Suc n. m (p + i) = Some 0) \<longleftrightarrow> m p = Some 0 \<and> (\<forall>i<n. m (p + 1 + i) = Some 0)"
    by (auto simp: less_Suc_eq_0_disj)
  ultimately show ?case using b by simp
qed simp

lemma check_plain:
  assumes "field_ok (wf_table d) f" "PB_ATYPE (fd_type f) = PB_ATYPE_STATIC" "{p..<p + fd_data_size f} \<subseteq> dom m"
    and "PB_LTYPE (fd_type f) \<noteq> PB_LTYPE_SUBMESSAGE"
  shows "pb_check_proto3_default_value d m f p = Some (zero_item zero m f p)"
proof (cases "PB_LTYPE (fd_type f) = PB_LTYPE_BYTES")
  case True
  then have "4 \<le> fd_data_size f" using assms by (simp add: field_ok_def Let_def)
  then have "load m p 4 = Some (bytes_at m p 4)" by (intro load_bytes_at subset_trans [OF _ assms(3)]) auto
  then show ?thesis using True assms(2) by (subst pb_check_proto3_default_value.simps) (simp add: zero_item_def Let_def)
next
  case False
  have "m p \<noteq> None" if "PB_LTYPE (fd_type f) = PB_LTYPE_STRING"
    using assms that dom_at [OF assms(3), of 0] by (simp add: field_ok_def Let_def)
  then show ?thesis using False assms(2,4) zero_bytes_all [OF assms(3)]
    by (subst pb_check_proto3_default_value.simps) (auto simp: zero_item_def Let_def)
qed

lemma check_default:
  assumes "field_ok (wf_table d) f" "PB_ATYPE (fd_type f) = PB_ATYPE_STATIC" "{p..<p + fd_data_size f} \<subseteq> dom m"
    and "\<forall>g. fd_ptr f = Fields g \<longrightarrow> enc_table d g"
  shows "pb_check_proto3_default_value d m f p = Some (zero_item (zero_message d m) m f p)"
  using assms
proof (induction d arbitrary: f p)
  case 0
  then have "PB_LTYPE (fd_type f) \<noteq> PB_LTYPE_SUBMESSAGE" by (auto simp: field_ok_def Let_def split: pb_ptr.splits)
  with 0 show ?case by (intro check_plain)
next
  case (Suc d)
  show ?case
  proof (cases "PB_LTYPE (fd_type f) = PB_LTYPE_SUBMESSAGE")
    case 1: True
    obtain g where g: "fd_ptr f = Fields g" "wf_table (Suc d) (fd_data_size f) g"
      by (rule field_sub [OF Suc.prems(1,2) 1])
    have enc: "enc_table (Suc d) g" using Suc.prems(4) g(1) by blast
    let ?z = "\<lambda>(f, p, q). zero_item (zero_message d m) m f p"
    let ?body = "\<lambda>iter _ :: unit. case pb_check_proto3_default_value d m (it_field iter) (pData iter) of
                       None \<Rightarrow> None | Some True \<Rightarrow> cret () () | Some False \<Rightarrow> cfail ()"
    have zero: "zero_message (Suc d) m g p \<longleftrightarrow> (\<forall>i<length g. ?z (layout g p ! i))"
      by (auto simp: in_set_conv_nth all_set_conv_all_nth)
    note tags = wf_tags [OF g(2)]
    have "pb_check_proto3_default_value (Suc d) m f p = Some (zero_message (Suc d) m g p)"
    proof (cases "g = []")
      case True
      then show ?thesis using 1 g Suc.prems(2)
        by (subst pb_check_proto3_default_value.simps) (simp add: iter_begin_Nil Let_def)
    next
      case False
      have "\<exists>r st'. iter_each ?body (iter_at g p 0) () = Some (r, st') \<and> (r = None \<longrightarrow> \<not> (\<forall>i<length g. ?z (layout g p ! i))) \<and>
          (r = Some () \<longrightarrow> (\<forall>j<length g. ?z (layout g p ! j)))"
      proof (rule iter_each_inv [OF tags, where I = "\<lambda>i _. \<forall>j<i. ?z (layout g p ! j)"])
        fix i and st :: unit
        assume i: "i < length g" and I: "\<forall>j<i. ?z (layout g p ! j)"
        obtain f' p' q' where f: "layout g p ! i = (f', p', q')" "field_at g i = f'" "field_ok (wf_table d) f'" "PB_ATYPE (fd_type f') = PB_ATYPE_STATIC"
          "{p'..<p' + field_extent f'} \<subseteq> {p..<p + fd_data_size f}" "fd_data_size f' \<le> field_extent f'" "\<forall>g. fd_ptr f' = Fields g \<longrightarrow> enc_table d g"
          by (rule enc_field [OF g(2) enc i, of p])
        have "{p'..<p' + fd_data_size f'} \<subseteq> {p'..<p' + field_extent f'}" using f(6) by auto
        then have "{p'..<p' + fd_data_size f'} \<subseteq> dom m" using f(5) Suc.prems(3) by blast
        then have c: "pb_check_proto3_default_value d m f' p' = Some (zero_item (zero_message d m) m f' p')"
          by (rule Suc.IH [OF f(3,4) _ f(7)])
        show "\<exists>r st'. ?body (iter_at g p i) st = Some (r, st') \<and> (r = None \<longrightarrow> \<not> (\<forall>i<length g. ?z (layout g p ! i))) \<and>
            (r = Some () \<longrightarrow> (\<forall>j<Suc i. ?z (layout g p ! j)))"
          using f(1,2) c I i by (cases "zero_item (zero_message d m) m f' p'") (auto simp: cret_def cfail_def less_Suc_eq)
      qed (use False in simp_all)
      then obtain r where r: "iter_each ?body (iter_at g p 0) () = Some (r, ())" "r \<noteq> None \<longleftrightarrow> zero_message (Suc d) m g p"
        unfolding zero by fastforce
      then show ?thesis using 1 g(1) Suc.prems(2) iter_begin [OF tags False, of p]
        by (subst pb_check_proto3_default_value.simps) (simp add: Let_def del: zero_message.simps)
    qed
    then show ?thesis using 1 g(1) by (simp add: zero_item_def del: zero_message.simps)
  next
    case False
    then show ?thesis using Suc.prems by (intro check_plain)
  qed
qed

section \<open>Fields and messages\<close>

lemma length_concat_le: "x \<in> set xs \<Longrightarrow> length (f x) \<le> length (concat (map f xs))"
  by (induction xs) auto

lemma emits_field:
  fixes enc :: "pb_field list \<Rightarrow> nat \<Rightarrow> (unit, bytes pb_ostream) call"
  assumes ok: "field_ok (wf_table d) f" "PB_ATYPE (fd_type f) = PB_ATYPE_STATIC" and p: "0 < p" "{p..<p + field_extent f} \<subseteq> dom m"
    and q: "{q..<q + slot_size f} \<subseteq> dom m" "PB_HTYPE (fd_type f) \<noteq> PB_HTYPE_REQUIRED \<longrightarrow> q = size_addr p f"
    and ext: "fd_data_size f \<le> field_extent f"
    and off: "PB_HTYPE (fd_type f) = PB_HTYPE_REPEATED \<or> PB_HTYPE (fd_type f) = PB_HTYPE_ONEOF \<longrightarrow> fd_size_offset f \<noteq> 0"
    and tab: "\<forall>g. fd_ptr f = Fields g \<longrightarrow> enc_table d g"
    and ty: "typed_field (typed d m) m (f, p, q)"
    and len: "length (field_bytes sub (zero_message d m) m (f, p, q)) < 2 ^ 63"
    and sub: "\<And>g x. wf_table d (fd_data_size f) g \<Longrightarrow> enc_table d g \<Longrightarrow> 0 < x \<Longrightarrow> {x..<x + fd_data_size f} \<subseteq> dom m \<Longrightarrow>
      typed d m g x \<Longrightarrow> length (sub g x) < 2 ^ 63 \<Longrightarrow> emits (enc g x) (sub g x)"
  shows "emits (encode_basic_field enc d m f p) (field_bytes sub (zero_message d m) m (f, p, q))"
proof -
  let ?h = "PB_HTYPE (fd_type f)" and ?n = "fd_data_size f" and ?item = "item_bytes sub m f"
  let ?one = "\<lambda>x. key_bytes (item_wire f) f @ ?item x"
  have "PB_LTYPE (fd_type f) \<le> 9" using ok(1) by (simp add: field_ok_def Let_def)
  then have t: "\<not> 10 \<le> PB_LTYPE (fd_type f)" by (simp add: word_le_nat_alt)
  have item: "emits (PB_ENCODERS enc m f x) (?item x)"
    if "0 < x" "{x..<x + ?n} \<subseteq> dom m" "typed_item (typed d m) m f x" "length (?item x) < 2 ^ 63" for x
    by (rule emits_item [OF ok that]) (use that tab sub in blast)
  have one: "emits (cbind (pb_encode_tag_for_field f) (\<lambda>_. PB_ENCODERS enc m f p)) (?one p)"
    if "typed_item (typed d m) m f p" "length (?item p) < 2 ^ 63"
    by (rule emits_bind [OF emits_tag_for_field [OF ok(1)]], rule item [OF p(1) _ that]) (use p(2) ext in \<open>fastforce dest: subsetD\<close>)
  show ?thesis
  proof (cases rule: PB_HTYPE_cases [of "fd_type f"])
    case 1
    have "encode_basic_field enc d m f p = cbind (pb_encode_tag_for_field f) (\<lambda>_. PB_ENCODERS enc m f p)"
      using 1 t ok(2) p(1) by (simp add: encode_basic_field_def Let_def)
    then show ?thesis using 1 one ty len ok(2) by (simp add: field_bytes_def typed_field_def Let_def)
  next
    case 2
    have it: "typed_item (typed d m) m f p" using 2 ty ok(2) by (simp add: typed_field_def)
    have eq: "encode_basic_field enc d m f p = (if (if fd_size_offset f = 0 then zero_item (zero_message d m) m f p else m q = Some 0)
        then cret () else cbind (pb_encode_tag_for_field f) (\<lambda>_. PB_ENCODERS enc m f p))"
    proof (cases "fd_size_offset f = 0")
      case True
      have "{p..<p + ?n} \<subseteq> dom m" using p(2) ext by (fastforce dest: subsetD)
      from check_default [OF ok this tab] show ?thesis using True 2 t ok(2) by (simp add: encode_basic_field_def Let_def)
    next
      case False
      have "m q \<noteq> None" using q(1) 2 ok(2) False dom_at [of q 1 m 0] by (simp add: slot_size_def)
      then show ?thesis using False 2 t ok(2) q(2) by (auto simp: encode_basic_field_def Let_def)
    qed
    show ?thesis
    proof (cases "if fd_size_offset f = 0 then zero_item (zero_message d m) m f p else m q = Some 0")
      case True
      then show ?thesis using 2 unfolding eq by (simp add: field_bytes_def emits_ret Let_def)
    next
      case False
      then show ?thesis using 2 one [OF it] len unfolding eq if_not_P [OF False] by (simp add: field_bytes_def Let_def)
    qed
  next
    case 3
    then have l: "load m q 4 = Some (bytes_at m q 4)" using q(1) by (intro load_bytes_at) (simp add: slot_size_def)
    let ?c = "le_val (bytes_at m q 4)"
    have c: "?c \<le> fd_array_size f" "\<And>k. k < ?c \<Longrightarrow> typed_item (typed d m) m f (p + ?n * k)"
      using ty l 3 ok(2) by (auto simp: typed_field_def)
    have eq: "encode_basic_field enc d m f p = encode_array m f p ?c (PB_ENCODERS enc m f)"
      using 3 t ok(2) q(2) off l by (simp add: encode_basic_field_def mload_def Let_def)
    have fe: "field_extent f = ?n * fd_array_size f" using 3 ok(2) by (simp add: field_extent_def)
    let ?xs = "concat (map ?item (map (\<lambda>k. p + ?n * k) [0..<?c]))"
    have F: "field_bytes sub (zero_message d m) m (f, p, q) =
        (if PB_LTYPE (fd_type f) \<le> PB_LTYPE_LAST_PACKABLE
         then (if map (\<lambda>k. p + ?n * k) [0..<?c] = [] then [] else key_bytes 2 f @ leb128 (length ?xs) @ ?xs)
         else concat (map ?one (map (\<lambda>k. p + ?n * k) [0..<?c])))"
      using 3 by (simp add: field_bytes_def Let_def)
    have total: "length ?xs < 2 ^ 63"
    proof (cases "PB_LTYPE (fd_type f) \<le> PB_LTYPE_LAST_PACKABLE")
      case True
      then show ?thesis using len unfolding F by (cases "?c = 0") simp_all
    next
      case False
      have "length ?xs \<le> length (concat (map ?one (map (\<lambda>k. p + ?n * k) [0..<?c])))"
        by (induction "[0..<?c]") (simp_all add: length_concat comp_def sum_list_mono)
      then show ?thesis using len False unfolding F by simp
    qed
    show ?thesis unfolding eq F
    proof (rule emits_array [OF ok c(1) _ total])
      fix k
      assume k: "k < ?c"
      then have "?n * (k + 1) \<le> ?n * fd_array_size f" using c(1) by (intro mult_le_mono2) simp
      then have "{p + ?n * k..<p + ?n * k + ?n} \<subseteq> {p..<p + field_extent f}" by (auto simp: fe)
      then have s: "{p + ?n * k..<p + ?n * k + ?n} \<subseteq> dom m" using p(2) by (rule subset_trans)
      have "length (?item (p + ?n * k)) \<le> length ?xs" by (rule length_concat_le) (use k in auto)
      then show "emits (PB_ENCODERS enc m f (p + ?n * k)) (?item (p + ?n * k))"
        using p(1) c(2) [OF k] total by (intro item [OF _ s]) simp_all
    qed
  next
    case 4
    then have l: "load m q 4 = Some (bytes_at m q 4)" using q(1) by (intro load_bytes_at) (simp add: slot_size_def)
    have eq: "encode_basic_field enc d m f p = (if le_val (bytes_at m q 4) = unat (fd_tag f)
        then cbind (pb_encode_tag_for_field f) (\<lambda>_. PB_ENCODERS enc m f p) else cret ())"
      using 4 t ok(2) q(2) off l by (simp add: encode_basic_field_def mload_def Let_def)
    show ?thesis
    proof (cases "le_val (bytes_at m q 4) = unat (fd_tag f)")
      case True
      then have "typed_item (typed d m) m f p" using ty l 4 by (auto simp: typed_field_def)
      from one [OF this] show ?thesis using True len 4 unfolding eq by (simp add: field_bytes_def Let_def)
    next
      case False
      then show ?thesis using 4 unfolding eq by (simp add: field_bytes_def emits_ret Let_def)
    qed
  qed
qed

lemma emits_each:
  assumes fds: "tags_ok fds" and i: "i < length fds"
    and step: "\<And>j. j < length fds \<Longrightarrow> emits (body (iter_at fds a j)) (g (layout fds a ! j))"
  shows "emits (iter_each body (iter_at fds a i)) (concat (map g (drop i (layout fds a))))"
  using i
proof (induction "length fds - i" arbitrary: i rule: less_induct)
  case less
  note n = iter_next [OF fds less.prems, of a]
  have d: "drop i (layout fds a) = layout fds a ! i # drop (Suc i) (layout fds a)"
    using less.prems by (simp add: Cons_nth_drop_Suc)
  have e: "iter_each body (iter_at fds a i) = cbind (body (iter_at fds a i))
      (\<lambda>_. if Suc i < length fds then iter_each body (iter_at fds a (Suc i)) else cret ())"
  proof (rule ext)
    fix st
    show "iter_each body (iter_at fds a i) st = cbind (body (iter_at fds a i))
        (\<lambda>_. if Suc i < length fds then iter_each body (iter_at fds a (Suc i)) else cret ()) st"
      by (subst iter_each.simps) (simp add: n Let_def cbind_def split: option.split)
  qed
  show ?case unfolding e d list.map concat.simps
  proof (rule emits_bind [OF step [OF less.prems]])
    show "emits (if Suc i < length fds then iter_each body (iter_at fds a (Suc i)) else cret ())
        (concat (map g (drop (Suc i) (layout fds a))))"
      using less.hyps [of "Suc i"] by (simp add: emits_ret)
  qed
qed

lemma emits_message:
  assumes "wf_table d n fds" "enc_table d fds" "0 < a" "{a..<a + n} \<subseteq> dom m" "typed d m fds a"
    and "length (message_bytes d m fds a) < 2 ^ 63"
  shows "emits (pb_encode d env m fds a) (message_bytes d m fds a)"
  using assms
proof (induction d arbitrary: n fds a)
  case (Suc d)
  note wf = Suc.prems(1) and enc = Suc.prems(2) and tags = wf_tags [OF Suc.prems(1)]
  show ?case
  proof (cases "fds = []")
    case True
    then show ?thesis by (simp add: iter_begin_Nil emits_ret Let_def)
  next
    case False
    let ?g = "field_bytes (message_bytes d m) (zero_message d m) m"
    let ?body = "\<lambda>iter. if PB_LTYPE (fd_type (it_field iter)) = PB_LTYPE_EXTENSION
          then encode_extension_field (pb_encode d env m) d env m (pData iter)
          else encode_field (pb_encode d env m) d env m (it_field iter) (pData iter)"
    have "emits (?body (iter_at fds a j)) (?g (layout fds a ! j))" if j: "j < length fds" for j
    proof -
      obtain f p q where f: "layout fds a ! j = (f, p, q)" "field_at fds j = f" "field_ok (wf_table d) f" "PB_ATYPE (fd_type f) = PB_ATYPE_STATIC"
        "{p..<p + field_extent f} \<subseteq> {a..<a + n}" "{q..<q + slot_size f} \<subseteq> {a..<a + n}" "fd_data_size f \<le> field_extent f"
        "PB_HTYPE (fd_type f) \<noteq> PB_HTYPE_REQUIRED \<longrightarrow> q = size_addr p f" "a \<le> p"
        "PB_HTYPE (fd_type f) = PB_HTYPE_REPEATED \<or> PB_HTYPE (fd_type f) = PB_HTYPE_ONEOF \<longrightarrow> fd_size_offset f \<noteq> 0"
        "\<forall>g. fd_ptr f = Fields g \<longrightarrow> enc_table d g"
        by (rule enc_field [OF wf enc j, of a])
      have "PB_LTYPE (fd_type f) \<noteq> PB_LTYPE_EXTENSION" using f(3) by (auto simp: field_ok_def Let_def)
      then have b: "?body (iter_at fds a j) = encode_basic_field (pb_encode d env m) d m f p"
        using f(1,2,4) by (simp add: encode_field_def Let_def)
      have l: "length (?g (f, p, q)) < 2 ^ 63"
        using length_concat_le [of "(f, p, q)" "layout fds a" ?g] Suc.prems(6) j f(1) nth_mem [of j "layout fds a"] by simp
      have ty: "typed_field (typed d m) m (f, p, q)" using Suc.prems(5) j f(1) typed_nth by metis
      have pos: "0 < p" using f(9) Suc.prems(3) by simp
      show ?thesis unfolding b f(1)
        by (rule emits_field [OF f(3,4) pos subset_trans [OF f(5) Suc.prems(4)] subset_trans [OF f(6) Suc.prems(4)] f(8,7,10,11) ty l])
          (rule Suc.IH)
    qed
    then have "emits (iter_each ?body (iter_at fds a 0)) (concat (map ?g (drop 0 (layout fds a))))"
      using False by (intro emits_each [OF tags]) simp_all
    then have "emits (iter_each ?body (iter_at fds a 0)) (concat (map ?g (layout fds a)))" by (simp only: drop_0)
    then show ?thesis using iter_begin [OF tags False, of a] by (simp add: Let_def)
  qed
qed simp

section \<open>An example\<close>

lemma zero_item_code [code]:
  "zero_item sub m f p \<longleftrightarrow>
     (let t = PB_LTYPE (fd_type f) in
      if t = PB_LTYPE_BYTES then le_val (bytes_at m p 4) = 0
      else if t = PB_LTYPE_STRING then m p = Some 0
      else if t = PB_LTYPE_FIXED_LENGTH_BYTES then fd_data_size f = 0
      else if t = PB_LTYPE_SUBMESSAGE then (case fd_ptr f of Fields g \<Rightarrow> sub g p | _ \<Rightarrow> False)
      else list_all (\<lambda>i. m (p + i) = Some 0) [0..<fd_data_size f])"
  by (auto simp: zero_item_def list_all_iff Let_def split: pb_ptr.split)

text \<open>\<open>id = - 2, name = "hi", values = {5, 300}, sub = {3}, u.b = "z"\<close>, at address 16.\<close>

definition demo_struct :: bytes where
  "demo_struct = [0xFE, 0xFF, 0xFF, 0xFF, 1, 0x68, 0x69, 0, 9, 9, 9, 9, 9, 0, 0, 0,
     2, 0, 0, 0, 5, 0, 0, 0, 0x2C, 1, 0, 0, 7, 7, 7, 7, 3, 0, 0, 0, 6, 0, 0, 0, 0x7A, 0, 1, 1]"

definition demo_message :: pbmem where
  "demo_message x = (if 16 \<le> x \<and> x < 60 then Some (demo_struct ! (x - 16)) else None)"

definition demo_enc_env :: "bytes pb_enc_env" where
  "demo_enc_env = \<lparr>e_encode = \<lambda>_ _ _ _. cret (), e_ext_encode = \<lambda>_ _ _. cret (), e_field = \<lambda>_. None\<rparr>"

lemma demo_message_mapped: "{16..<16 + 44} \<subseteq> dom demo_message"
  by (auto simp: demo_message_def split: if_splits)

lemma demo_message_bytes: "message_bytes 2 demo_message demo_table 16 =
    [0x08, 0xFE, 0xFF, 0xFF, 0xFF, 0xFF, 0xFF, 0xFF, 0xFF, 0xFF, 0x01, 0x12, 0x02, 0x68, 0x69, 0x1A, 0x03, 0x05, 0xAC, 0x02,
     0x22, 0x02, 0x08, 0x03, 0x32, 0x01, 0x7A]"
  by code_simp

lemma demo_message_ok: "typed 2 demo_message demo_table 16 \<and> enc_table 2 demo_table"
  by code_simp

text \<open>
  The check for a default value of proto3 looks at the first element of an array and not at its
  counter: a nested message that holds the array \<open>{0, 5}\<close> is left out, one that holds \<open>{5, 0}\<close> is not.
\<close>

definition array_table :: "pb_field list" where
  "array_table = [Field 1 0x17 0 0 12 0 (Fields [Field 1 0x21 4 (- 4) 4 2 Null])]"

definition array_message :: "bytes \<Rightarrow> pbmem" where
  "array_message b x = (if 16 \<le> x \<and> x < 28 then Some (([2, 0, 0, 0] @ b) ! (x - 16)) else None)"

lemma proto3_array_dropped:
  "pb_check_proto3_default_value 1 (array_message [0, 0, 0, 0, 5, 0, 0, 0]) (hd array_table) 16 = Some True"
  "pb_check_proto3_default_value 1 (array_message [5, 0, 0, 0, 0, 0, 0, 0]) (hd array_table) 16 = Some False"
  by code_simp+

section \<open>Properties\<close>

text \<open>C0. The encoder of nanopb is correct.  For a message that is well typed for its table, \<open>pb_encode\<close>
  produces exactly \<open>message_bytes\<close>, the encoding the protocol buffer format prescribes: keys, varints and
  zigzag numbers, packed arrays, length prefixes of nested messages, proto3 fields left out when
  they are zero.  \<open>pb_get_encoded_size\<close> returns its length; a buffer of that size is filled with it, and for a smaller
  buffer the call returns \<open>false\<close> with an error and only a beginning of the encoding within the buffer.  The
  same holds of \<open>pb_encode_delimited\<close> with the length in front.\<close>

theorem pb_encode_correct:
  assumes table: "wf_table d n fds" "enc_table d fds" and struct: "0 < a" "{a..<a + n} \<subseteq> dom m" and ty: "typed d m fds a"
    and size: "length (message_bytes d m fds a) < 2 ^ 63" "room < 2 ^ 63"
    and call: "p = pb_encode d env m fds a \<and> xs = message_bytes d m fds a \<or>
      p = pb_encode_delimited d env m fds a \<and> xs = leb128 (length (message_bytes d m fds a)) @ message_bytes d m fds a"
  shows "pb_get_encoded_size d env st m fds a = Some (Some (length (message_bytes d m fds a))) \<and>
    (\<exists>r os. p (pb_ostream_from_buffer room) = Some (r, os) \<and> os_written os = length (os_state os) \<and>
      (if length xs \<le> room then r = Some () \<and> os_state os = xs
       else r = None \<and> os_err os \<noteq> None \<and> (\<exists>k. k < length xs \<and> k \<le> room \<and> os_state os = take k xs)))"
proof
  let ?b = "message_bytes d m fds a"
  have e: "emits (pb_encode d env m fds a) ?b" by (rule emits_message [OF table struct ty size(1)])
  have "sz (length ?b) = length ?b" using size(1) by (intro sz_id) (simp add: SIZE_LIMIT_def)
  then show "pb_get_encoded_size d env st m fds a = Some (Some (length ?b))"
    using emits_sizing [OF e, of "pb_ostream_sizing st"] by (simp add: pb_get_encoded_size_def pb_ostream_sizing_def SIZE_LIMIT_def)
  have p: "emits p xs"
    using call e emits_submessage [where enc = "pb_encode d env m", OF e size(1)] by (auto simp: pb_encode_delimited_def)
  let ?s = "pb_ostream_from_buffer room"
  have s: "os_callback ?s = Some buf_write" "os_state ?s = []" "os_written ?s = 0" "os_max ?s = room" "os_err ?s = None"
    by (simp_all add: pb_ostream_from_buffer_def)
  show "\<exists>r os. p ?s = Some (r, os) \<and> os_written os = length (os_state os) \<and>
      (if length xs \<le> room then r = Some () \<and> os_state os = xs
       else r = None \<and> os_err os \<noteq> None \<and> (\<exists>k. k < length xs \<and> k \<le> room \<and> os_state os = take k xs))"
  proof (cases "length xs \<le> room")
    case True
    then show ?thesis using emits_room [OF p s(1,5)] s size(2) by simp
  next
    case False
    then obtain k err where k: "k < length xs" "k \<le> room"
      "p ?s = Some (None, ?s\<lparr>os_state := take k xs, os_written := k, os_err := Some err\<rparr>)"
      using emits_full [OF p s(1,5)] s size(2) by (metis add_0 append_Nil not_le zero_le)
    then show ?thesis using False by (auto intro!: exI [of _ k])
  qed
qed

lemma pb_encode_correct_witness:
  "\<exists>os. pb_encode 2 demo_enc_env demo_message demo_table 16 (pb_ostream_from_buffer 27) = Some (Some (), os) \<and>
     os_state os =
       [0x08, 0xFE, 0xFF, 0xFF, 0xFF, 0xFF, 0xFF, 0xFF, 0xFF, 0xFF, 0x01, 0x12, 0x02, 0x68, 0x69, 0x1A, 0x03, 0x05, 0xAC, 0x02,
        0x22, 0x02, 0x08, 0x03, 0x32, 0x01, 0x7A]"
proof -
  let ?xs = "message_bytes 2 demo_message demo_table 16"
  have l: "length ?xs = 27" unfolding demo_message_bytes by simp
  then have "length ?xs < 2 ^ 63" by simp
  from pb_encode_correct [OF demo_wf conjunct2 [OF demo_message_ok] _ demo_message_mapped conjunct1 [OF demo_message_ok] this _
      disjI1 [OF conjI [OF refl refl]], where room = 27 and env = demo_enc_env] l
  have "\<exists>os. pb_encode 2 demo_enc_env demo_message demo_table 16 (pb_ostream_from_buffer 27) = Some (Some (), os) \<and> os_state os = ?xs"
    by auto
  then show ?thesis unfolding demo_message_bytes .
qed

end
