(* ===== verification/Spec2Isabelle.thy ===== *)
theory Spec2Isabelle
  imports Prelude Rc4 Stack Lhash Mem Pool ConstTime Base64 Cbs Cbb Md32 Md5 Sha1 Sha2 Sha256 Sha512 Evp Hmac Kdf Bio_Core Bio_Pair Bio_Mem Bio Channel Duplex Bio_Asn1 Pb_Stream Pb_Wire Pb_Field Pb_Encode Pb_Decode Pb_Layout Pb_Type Pb_Default Pb_Safe Pb_Item Pb_Message
begin

text \<open>
  This development verifies the C core of the application \<^bold>\<open>PlenR\<close>, a React Native calendar.  The
  application itself is JavaScript; the C code in its tree is the libraries its iOS build links
  (\<^verbatim>\<open>src/ios/Pods\<close>), and of these the byte-level core of BoringSSL, on which the secure channel to
  Firestore and the sign-in services rests, and nanopb, which reads and writes the messages of
  Firestore.  Paths below are relative to \<^verbatim>\<open>src/ios/Pods/BoringSSL/crypto\<close>, those of nanopb to
  \<^verbatim>\<open>src/ios/Pods/nanopb\<close>.  Definitions keep the names of the C functions they
  translate; a definition with another name is a part of a function (a loop, a macro, a table)
  and its comment says which.

  \<^bold>\<open>Conventions.\<close>
  A \<^verbatim>\<open>uint8_t\<close>, \<^verbatim>\<open>uint32_t\<close>, \<^verbatim>\<open>uint64_t\<close> is a word of that width (\<open>u8\<close>, \<open>u32\<close>, \<open>u64\<close>) and wraps; a
  \<^verbatim>\<open>size_t\<close> is a \<open>nat\<close> with the reduction \<open>sz\<close> modulo \<open>SIZE_LIMIT\<close> (\<open>2 ^ 64\<close>) written where the
  C expression can overflow; an \<^verbatim>\<open>int\<close> or \<^verbatim>\<open>long\<close> that holds a length is an \<open>int\<close> within the bounds
  of its type.  A buffer is a list of bytes and \<^verbatim>\<open>memcpy\<close> into it is \<open>blit\<close>.  A NULL result is
  \<open>None\<close>, a failing call returns \<open>False\<close>, \<open>None\<close> or a negative number as in the source, and where a
  definition returns an \<open>option\<close> around such a result the outer \<open>None\<close> is a failed assertion, an
  access outside a buffer or a loop that does not end, so a theorem that shows \<open>Some\<close> shows the
  absence of these.  Allocation is an argument: the sequence of answers \<^verbatim>\<open>malloc\<close> gives (\<open>al\<close>,
  \<open>w_alloc\<close>) or a Boolean per call, so the theorems hold for every pattern of failures.  Code that
  is not in the tree (\<^verbatim>\<open>qsort\<close>, \<^verbatim>\<open>bsearch\<close>, the callbacks of stacks and hash tables) is an
  argument too, with its documented laws in a locale.

  \<^bold>\<open>The parts, lowest layer first.\<close>

  \<^item> \<open>Prelude\<close>: machine types, buffers, little- and big-endian conversions, shared lemmas.

  \<^item> \<open>Mem\<close> (\<^verbatim>\<open>mem.c\<close>): the allocator that stores the size of a block before it, cleansing
    reallocation, the constant-time and the case-insensitive comparison, FNV hashing.

  \<^item> \<open>ConstTime\<close> (\<^verbatim>\<open>internal.h\<close>): branch-free masks and selections; \<open>Base64\<close> is written with them.

  \<^item> \<open>Stack\<close> (\<^verbatim>\<open>stack/stack.c\<close>), \<open>Lhash\<close> (\<^verbatim>\<open>lhash/lhash.c\<close>), \<open>Pool\<close> (\<^verbatim>\<open>pool/pool.c\<close>, \<^verbatim>\<open>refcount_c11.c\<close>):
    the containers.  \<open>st_data\<close> is the C array with its spare capacity and \<open>st_sorted\<close> the cached
    flag; \<open>lh_buckets\<close> is the array of chains; the pool is a hash table of addresses beside a heap
    of reference-counted buffers, and its step relation interleaves the two critical sections of
    \<^verbatim>\<open>CRYPTO_BUFFER_new\<close> with the operations of other threads.

  \<^item> \<open>Base64\<close> (\<^verbatim>\<open>base64/base64.c\<close>): one-shot and streaming encoder and decoder.

  \<^item> \<open>Cbs\<close>, \<open>Cbb\<close> (\<^verbatim>\<open>bytestring/cbs.c\<close>, \<^verbatim>\<open>cbb.c\<close>): the bounds-checked reader with the DER parser, and
    the builder whose chain of open children is the list \<open>bb_chain\<close>, outermost first.

  \<^item> \<open>Md32\<close> (\<^verbatim>\<open>digest/md32_common.h\<close>), \<open>Md5\<close>, \<open>Sha1\<close>, \<open>Sha2\<close>, \<open>Sha256\<close>, \<open>Sha512\<close> (\<^verbatim>\<open>md4.c\<close>, \<^verbatim>\<open>md5.c\<close>,
    \<^verbatim>\<open>sha1.c\<close>, \<^verbatim>\<open>sha256.c\<close>, \<^verbatim>\<open>sha512.c\<close>): the block functions as the list of their macro invocations
    over registers, beside the loops of the RFCs and of FIPS 180-4; the generic collector is the
    locale \<open>md32_digest\<close>, which each digest interprets.

  \<^item> \<open>Evp\<close> (\<^verbatim>\<open>digest/digest.c\<close>, \<^verbatim>\<open>digests.c\<close>), \<open>Hmac\<close> (\<^verbatim>\<open>hmac/hmac.c\<close>), \<open>Kdf\<close> (\<^verbatim>\<open>hkdf/hkdf.c\<close>,
    \<^verbatim>\<open>tls/kdf.c\<close>): digest contexts over the method tables, HMAC over three contexts, the key
    derivations over HMAC.  The locale \<open>evp_digest\<close> is all that HMAC needs of a digest.

  \<^item> \<open>Rc4\<close> (\<^verbatim>\<open>rc4/rc4.c\<close>): the stream cipher.

  \<^item> \<open>Bio_Core\<close>, \<open>Bio_Pair\<close>, \<open>Bio_Mem\<close>, \<open>Bio\<close> (\<^verbatim>\<open>bio/bio.c\<close>, \<^verbatim>\<open>pair.c\<close>, \<^verbatim>\<open>bio_mem.c\<close>, \<^verbatim>\<open>buf/buf.c\<close>): abstract
    I/O.  A \<open>world\<close> is the store of BIO structs (a map from addresses, since the two ends of a pair
    point at each other), the error queue and the answers of the allocator; an operation is a
    partial function on worlds.  \<open>Channel\<close> is a client of any byte channel, \<open>Duplex\<close> the contract
    of a pair, \<open>Bio_Asn1\<close> the reader of one DER element.

  \<^item> \<open>Pb_Stream\<close>, \<open>Pb_Field\<close>, \<open>Pb_Encode\<close>, \<open>Pb_Decode\<close> (\<^verbatim>\<open>src/ios/Pods/nanopb\<close>: \<^verbatim>\<open>pb_common.c\<close>,
    \<^verbatim>\<open>pb_encode.c\<close>, \<^verbatim>\<open>pb_decode.c\<close>, built with \<^verbatim>\<open>PB_FIELD_32BIT\<close> and without \<^verbatim>\<open>PB_ENABLE_MALLOC\<close>): the protocol
    buffers of Firestore.  Streams over a buffer or a user's callback with the wire format; the C
    structs as bytes in a memory (\<open>pbmem\<close>), described by tables of fields, and the iterator that
    computes their addresses; the encoder, which reads the memory, and the decoder, which writes it.
    A call is a partial function on its state (\<open>call\<close>), with \<open>cbind\<close> for the early returns.
    \<open>Pb_Wire\<close> holds the lemmas on the wire format, \<open>Pb_Layout\<close> what it takes for a table to describe
    a struct (\<open>wf_table\<close>) and for bytes to be a message of it (\<open>typed\<close>), \<open>Pb_Type\<close>, \<open>Pb_Default\<close> and
    \<open>Pb_Safe\<close> the safety of the decoder.

  \<^bold>\<open>What the lemmas show.\<close>

  \<^item> Parsing and building: \<open>CBS_get_any_asn1_element\<close> accepts exactly the canonical encodings
    (\<open>der_tag\<close>, \<open>der_len\<close> are the specification); every sequence of successful builder calls is the
    nested encoding built by the obvious recursive functions; what the builder writes the parser
    reads back; a flush that does not fit fails and stays failed.

  \<^item> Digests: each collector, fed in any pieces, returns the digest the standard defines on the
    concatenation, so splitting, buffering and padding are right at every boundary.  HMAC and the
    derivations equal RFC 2104, RFC 5869 and RFC 5246 on every input and fail exactly for lack of
    memory or for an output that is too long.

  \<^item> Containers: representation invariants kept by every operation, operations as the update of an
    abstract list or map, exact effects on failure, load factor of the table, safety and
    reclamation of the pool over all reachable interleavings.

  \<^item> BIO pair: the two rings refine two bounded queues under every sequence of calls, error flags
    and error queue included; under every fair schedule of a sender that retries and a receiver,
    the message arrives in order and then the end of the stream (liveness).

  \<^item> Base64, RC4, constant-time code: equivalence with the reference encoding, round trips across
    any chunking, bounds of what is written.

  \<^item> Protocol buffers: what is written field by field is read back by any reader that skips unknown
    fields; the decoder is type safe on every input, for every well-formed table without callbacks
    and extensions.

  \<^bold>\<open>Bounds and fuel.\<close>
  Structural recursion carries most loops.  Loops that the source leaves open (\<open>for (;;)\<close> in
  \<open>tls1_P_hash\<close>, the copying loops of \<open>pair.c\<close>, \<open>bio_read_all\<close>, the walk along a chain of BIOs) are
  \<open>partial_function (option)\<close>, and their termination is a theorem (\<open>tls1_P_hash_rfc\<close>,
  \<open>bio_read_loop_queue\<close>, \<open>bio_write_loop_queue\<close>, the lemmas of the locale \<open>byte_source\<close>).  The digest theorems put no
  bound on the message: the length field of the padding wraps as the counter of the code does.
  Lengths given to BIOs are below \<open>INT_MAX\<close>, the type of the argument.
  The number \<open>d\<close> of \<open>pb_decode\<close>, \<open>pb_encode\<close> and their helpers bounds the nesting of the tables (not
  of the input): \<open>wf_table d\<close> says that it is enough, and the theorem shows that the call returns.

  \<^bold>\<open>What modelling showed.\<close>
  \<open>sk_set\<close> keeps the flag \<open>sorted\<close> and a later search can miss an element
  (\<open>sk_set_stale_sorted\<close>); \<open>OPENSSL_malloc\<close> adds its prefix without an overflow check
  (\<open>OPENSSL_malloc_wraps\<close>); \<open>bio_read_all\<close> takes only \<open>-1\<close> for an error, and rejects contents of
  exactly \<open>max_len\<close> bytes; \<open>BIO_read_asn1\<close> is limited by \<open>INT_MAX\<close> and not by \<open>2 ^ 32\<close> as documented.
  In nanopb, \<open>pb_decode_tag\<close> takes a message that is cut off in a tag for a complete one, and the
  check of the required fields is not defined for a positive multiple of 32 of them.

  \<^bold>\<open>Not modelled.\<close>
  The JavaScript application (screens, calendar utilities, database access) and the generated
  launch code: not C.  The Objective-C and C++ libraries (gRPC core, leveldb, AppAuth, sign-in):
  glue over system services.  In BoringSSL: the X.509 and template-driven ASN.1 code, EVP keys and
  PEM, big numbers and public-key arithmetic, the block ciphers and their modes, AEADs, the
  random generator, threads and CPU detection, file and socket BIOs (system calls), TLS itself.
  In modelled files, what only calls the C library (\<^verbatim>\<open>BUF_strdup\<close>, \<^verbatim>\<open>BIO_snprintf\<close>, printing),
  the textual object identifiers and \<^verbatim>\<open>CBB_flush_asn1_set_of\<close>, the BER conversion (\<^verbatim>\<open>ber.c\<close>), the
  trivial accessors, buffers outside a pool, and the freeing of a whole hash table.
\<close>

end
